(* ===== verification/Prelude.thy ===== *)
theory Prelude
  imports Main "HOL-Library.Word"
begin

text \<open>
  What every component shares: the faults of a C program, results that may be a fault,
  the ranges of the C integer types the sources use, and lemmas on lists.

  A run of C code either returns (\<open>Inr\<close>) or does something the language leaves undefined
  or stops the process at a failed \<open>assert\<close> (\<open>Inl\<close> of a \<open>fault\<close>). \<open>bindE\<close> sequences
  two pieces of code.
\<close>

subsection \<open>Theorem collections\<close>

named_theorems result_simps \<open>evaluation of results that may be faults\<close>
named_theorems mem_simps \<open>reads after writes of the byte memory\<close>
named_theorems cell_intros \<open>introduction rules for well-placed cells\<close>

subsection \<open>Faults and results\<close>

datatype fault =
    NullUse              \<comment> \<open>a member of a null object is used\<close>
  | BadAccess "64 word" nat   \<comment> \<open>bytes outside every live block are read or written\<close>
  | BadFree "64 word"    \<comment> \<open>an address that is no live block is freed\<close>
  | BadIndex int         \<comment> \<open>an array is indexed out of its bounds\<close>
  | BadLength int        \<comment> \<open>a length or size argument outside the buffer it speaks of\<close>
  | AssertFailed         \<comment> \<open>an \<open>assert\<close> of the source does not hold\<close>
  | Diverges             \<comment> \<open>a loop does not end\<close>
  | NotInitialised       \<comment> \<open>a pointer, or a function pointer, that was never set is used\<close>
  | DivideByZero         \<comment> \<open>an integer division by zero\<close>
  | NotOwner             \<comment> \<open>a mutex is unlocked by a thread that does not hold it\<close>
  | Terminated           \<comment> \<open>\<open>std::terminate\<close>, or an exception nothing catches\<close>

definition bindE :: "'e + 'a \<Rightarrow> ('a \<Rightarrow> 'e + 'b) \<Rightarrow> 'e + 'b" where
  "bindE r k = (case r of Inl e \<Rightarrow> Inl e | Inr x \<Rightarrow> k x)"

definition assertE :: "fault \<Rightarrow> bool \<Rightarrow> fault + unit" where
  "assertE e b = (if b then Inr () else Inl e)"

lemma bindE_Inr [simp, result_simps]: "bindE (Inr x) k = k x"
  by (simp add: bindE_def)

lemma bindE_Inl [simp, result_simps]: "bindE (Inl e) k = Inl e"
  by (simp add: bindE_def)

lemma assertE_True [simp, result_simps]: "assertE e True = Inr ()"
  by (simp add: assertE_def)

lemma assertE_False [simp, result_simps]: "assertE e False = Inl e"
  by (simp add: assertE_def)

lemma bindE_eq_Inr: "bindE r k = Inr y \<longleftrightarrow> (\<exists>x. r = Inr x \<and> k x = Inr y)"
  by (cases r) simp_all

lemma bindE_eq_Inl: "bindE r k = Inl e \<longleftrightarrow> r = Inl e \<or> (\<exists>x. r = Inr x \<and> k x = Inl e)"
  by (cases r) auto

lemma bindE_assoc: "bindE (bindE r k) l = bindE r (\<lambda>x. bindE (k x) l)"
  by (cases r) simp_all

lemma assertE_eq_Inr [simp]: "assertE e b = Inr u \<longleftrightarrow> b"
  by (simp add: assertE_def)

lemma bindE_cong [fundef_cong]:
  "r = r' \<Longrightarrow> (\<And>x. r' = Inr x \<Longrightarrow> k x = k' x) \<Longrightarrow> bindE r k = bindE r' k'"
  by (cases r') simp_all

subsection \<open>C integers\<close>

text \<open>
  \<open>int\<close> is 32 bits wide and signed; a conversion of an \<open>int\<close> to \<open>size_t\<close> (64 bits,
  unsigned) reduces it modulo \<open>2 ^ 64\<close>.
\<close>

definition int32 :: "int \<Rightarrow> bool" where
  "int32 i \<longleftrightarrow> - (2 ^ 31) \<le> i \<and> i < 2 ^ 31"

definition size_t_of_int :: "int \<Rightarrow> nat" where
  "size_t_of_int i = nat (i mod 2 ^ 64)"

lemma size_t_of_int_nonneg: "0 \<le> i \<Longrightarrow> int32 i \<Longrightarrow> size_t_of_int i = nat i"
  by (simp add: size_t_of_int_def int32_def)

lemma size_t_of_int_neg: "i < 0 \<Longrightarrow> int32 i \<Longrightarrow> size_t_of_int i = nat (2 ^ 64 + i)"
proof -
  assume "i < 0" "int32 i"
  then have "(i + 2 ^ 64) mod 2 ^ 64 = i + 2 ^ 64"
    by (intro mod_pos_pos_trivial) (simp_all add: int32_def)
  then have "i mod 2 ^ 64 = 2 ^ 64 + i" by simp
  then show ?thesis by (simp add: size_t_of_int_def)
qed

lemma size_t_of_int_neg_large: "i < 0 \<Longrightarrow> int32 i \<Longrightarrow> 2 ^ 63 \<le> size_t_of_int i"
  by (simp add: size_t_of_int_neg int32_def)

subsection \<open>Runs\<close>

lemma four_steps: "r a b \<Longrightarrow> r b c \<Longrightarrow> r c d \<Longrightarrow> r d e \<Longrightarrow> r\<^sup>*\<^sup>* a e"
  by (meson converse_rtranclp_into_rtranclp rtranclp.rtrancl_refl)

subsection \<open>Lists\<close>

lemma sorted_wrt_snoc:
  "sorted_wrt P (xs @ [x]) \<longleftrightarrow> sorted_wrt P xs \<and> (\<forall>y \<in> set xs. P y x)"
  by (simp add: sorted_wrt_append)

lemma butlast_last_Cons: "xs = [] \<and> last (c # xs) = c \<or> (\<exists>ys y. xs = ys @ [y] \<and> last (c # xs) = y)"
  by (cases xs rule: rev_cases) simp_all

lemma takeWhile_eq_filter_sorted:
  "sorted_wrt (\<lambda>x y. P y \<longrightarrow> P x) xs \<Longrightarrow> takeWhile P xs = filter P xs"
  by (induction xs) (auto simp: filter_empty_conv)

lemma unat_succ: "x + 1 \<noteq> 0 \<Longrightarrow> unat (x + 1) = unat x + 1" for x :: "'a::len word"
  using unatSuc [of x] by (simp add: add.commute)

lemma sorted_wrt_neq: "sorted_wrt (\<noteq>) xs \<longleftrightarrow> distinct xs"
  by (induction xs) auto

end
