(* ===== verification/Memory.thy ===== *)
theory Memory
  imports Prelude
begin

text \<open>
  The memory the C sources run in: 64-bit addresses, bytes, little-endian pointers of eight
  bytes (x86-64), and the live blocks of the allocator. Every access of the models goes through
  \<open>rd64\<close> and \<open>wr64\<close>, which are faults outside the live blocks, so a theorem that a piece of
  code returns says that it stays inside its memory. \<open>malloc\<close> is the allocator of the C
  library: the address it answers is an argument (0 when it fails), and \<open>fresh\<close> states what
  the library documents of it.

  The second half is about linked lists in that memory: \<open>seg m p as q\<close> (following the first
  eight bytes of each node leads from \<open>p\<close> through the nodes \<open>as\<close> to \<open>q\<close>) and
  \<open>chain m c ls\<close> (the cell \<open>c\<close> heads a null-terminated list), with the frame and append
  lemmas the queues and the pools share.
\<close>

unbundle bit_operations_syntax

type_synonym addr = "64 word"
type_synonym byte = "8 word"
type_synonym mem = "addr \<Rightarrow> byte"

subsection \<open>Pointers as eight bytes\<close>

definition byte_of :: "nat \<Rightarrow> addr \<Rightarrow> byte" where
  "byte_of i v = ucast (drop_bit (8 * i) v)"

primrec ld_bytes :: "mem \<Rightarrow> addr \<Rightarrow> nat \<Rightarrow> addr" where
  "ld_bytes m a 0 = 0"
| "ld_bytes m a (Suc k) = ld_bytes m a k OR push_bit (8 * k) (ucast (m (a + of_nat k)))"

definition ld64 :: "mem \<Rightarrow> addr \<Rightarrow> addr" where
  "ld64 m a = ld_bytes m a 8"

definition st64 :: "addr \<Rightarrow> addr \<Rightarrow> mem \<Rightarrow> mem" where
  "st64 a v m = (\<lambda>x. if unat (x - a) < 8 then byte_of (unat (x - a)) v else m x)"

text \<open>
  \<open>n\<close> bytes at \<open>a\<close>, and the address one past them, are addresses: C requires that of every
  object.
\<close>

definition room :: "addr \<Rightarrow> nat \<Rightarrow> bool" where
  "room a n \<longleftrightarrow> unat a + n < 2 ^ 64"

definition apart :: "addr \<Rightarrow> nat \<Rightarrow> addr \<Rightarrow> nat \<Rightarrow> bool" where
  "apart a n b k \<longleftrightarrow> unat a + n \<le> unat b \<or> unat b + k \<le> unat a"

lemma apart_sym: "apart a n b k \<longleftrightarrow> apart b k a n"
  by (auto simp: apart_def)

lemma apart_mono: "apart a n b k \<Longrightarrow> n' \<le> n \<Longrightarrow> k' \<le> k \<Longrightarrow> apart a n' b k'"
  by (auto simp: apart_def)

lemma apart_irrefl: "0 < n \<Longrightarrow> \<not> apart a n a n"
  by (simp add: apart_def)

lemma take_bit_byte_step:
  "take_bit (8 * k) v OR push_bit (8 * k) (ucast (byte_of k v)) = take_bit (8 * Suc k) (v :: addr)"
proof (rule bit_word_eqI)
  fix n assume "n < LENGTH(64)"
  then show "bit (take_bit (8 * k) v OR push_bit (8 * k) (ucast (byte_of k v))) n
      = bit (take_bit (8 * Suc k) v) n"
    by (cases "n < 8 * k"; cases "n < 8 * Suc k") (auto simp: byte_of_def bit_simps)
qed

lemma ld_bytes_eq:
  assumes "\<And>i. i < k \<Longrightarrow> m (a + of_nat i) = byte_of i v"
  shows "ld_bytes m a k = take_bit (8 * k) v"
  using assms by (induction k) (simp_all add: take_bit_byte_step del: mult_Suc_right)

lemma ld_bytes_cong:
  "(\<And>i. i < k \<Longrightarrow> m (a + of_nat i) = m' (a + of_nat i)) \<Longrightarrow> ld_bytes m a k = ld_bytes m' a k"
  by (induction k) simp_all

lemma ld64_st64_same [simp, mem_simps]: "ld64 (st64 a v m) a = v"
proof -
  have "ld_bytes (st64 a v m) a 8 = take_bit (8 * 8) v"
    by (rule ld_bytes_eq) (simp add: st64_def unsigned_of_nat take_bit_nat_eq_self)
  then show ?thesis by (simp add: ld64_def take_bit_word_eq_self)
qed

lemma unat_add_room: "room a n \<Longrightarrow> i < n \<Longrightarrow> unat (a + of_nat i) = unat a + i"
  by (subst unat_word_ariths) (simp add: room_def unsigned_of_nat take_bit_nat_eq_self)

lemma unat_add_room_le: "unat (a :: addr) + i < 2 ^ 64 \<Longrightarrow> unat (a + of_nat i) = unat a + i"
  by (subst unat_word_ariths) (simp add: unsigned_of_nat take_bit_nat_eq_self)

lemma sint_small: "unat (x :: addr) < 2 ^ 63 \<Longrightarrow> sint x = int (unat x)"
proof -
  assume "unat x < 2 ^ 63"
  then have "int (unat x) < int (2 ^ 63)" by (simp only: of_nat_less_iff)
  then have "uint x < 2 ^ 63" by simp
  moreover have "- (2 ^ 63) \<le> uint x" by (rule order_trans [OF _ uint_ge_0]) simp
  ultimately have "signed_take_bit 63 (uint x) = uint x" by (intro signed_take_bit_int_eq_self)
  then show ?thesis by (simp add: sint_uint)
qed

lemma st64_outside:
  assumes "room a 8" and "unat x < unat a \<or> unat a + 8 \<le> unat x"
  shows "st64 a v m x = m x"
  using assms unsigned_less [of x] by (auto simp: st64_def room_def unat_sub_if')

lemma ld64_cong_outside:
  assumes "room b 8" and "\<And>x. unat b \<le> unat x \<Longrightarrow> unat x < unat b + 8 \<Longrightarrow> m' x = m x"
  shows "ld64 m' b = ld64 m b"
  unfolding ld64_def
proof (rule ld_bytes_cong)
  fix i :: nat assume "i < 8"
  with assms(1) have "unat (b + of_nat i) = unat b + i" by (rule unat_add_room)
  with \<open>i < 8\<close> show "m' (b + of_nat i) = m (b + of_nat i)"
    by (intro assms(2)) auto
qed

lemma ld64_st64_apart [mem_simps]:
  assumes "room a 8" "room b 8" "apart a 8 b 8"
  shows "ld64 (st64 a v m) b = ld64 m b"
  using assms by (intro ld64_cong_outside) (auto intro!: st64_outside simp: apart_def)

subsection \<open>Blocks of the allocator and checked accesses\<close>

record heap =
  hbytes :: mem
  hblocks :: "(addr \<times> nat) list"

definition within :: "addr \<Rightarrow> nat \<Rightarrow> addr \<times> nat \<Rightarrow> bool" where
  "within a n blk \<longleftrightarrow> unat (fst blk) \<le> unat a \<and> unat a + n \<le> unat (fst blk) + snd blk"

definition valid :: "heap \<Rightarrow> addr \<Rightarrow> nat \<Rightarrow> bool" where
  "valid h a n \<longleftrightarrow> list_ex (within a n) (hblocks h)"

definition rd64 :: "heap \<Rightarrow> addr \<Rightarrow> fault + addr" where
  "rd64 h a = (if valid h a 8 then Inr (ld64 (hbytes h) a) else Inl (BadAccess a 8))"

definition wr64 :: "heap \<Rightarrow> addr \<Rightarrow> addr \<Rightarrow> fault + heap" where
  "wr64 h a v =
     (if valid h a 8 then Inr (h\<lparr>hbytes := st64 a v (hbytes h)\<rparr>) else Inl (BadAccess a 8))"

definition h_malloc :: "addr \<Rightarrow> nat \<Rightarrow> heap \<Rightarrow> heap" where
  "h_malloc p n h = (if p = 0 then h else h\<lparr>hblocks := (p, n) # hblocks h\<rparr>)"

definition h_free :: "addr \<Rightarrow> heap \<Rightarrow> fault + heap" where
  "h_free p h =
     (if p = 0 then Inr h
      else if p \<in> fst ` set (hblocks h)
      then Inr (h\<lparr>hblocks := filter (\<lambda>b. fst b \<noteq> p) (hblocks h)\<rparr>)
      else Inl (BadFree p))"

definition blocks_apart :: "addr \<times> nat \<Rightarrow> addr \<times> nat \<Rightarrow> bool" where
  "blocks_apart x y \<longleftrightarrow> apart (fst x) (snd x) (fst y) (snd y)"

definition heap_ok :: "heap \<Rightarrow> bool" where
  "heap_ok h \<longleftrightarrow>
     (\<forall>b \<in> set (hblocks h). fst b \<noteq> 0 \<and> room (fst b) (snd b)) \<and>
     sorted_wrt blocks_apart (hblocks h)"

definition fresh :: "addr \<Rightarrow> nat \<Rightarrow> heap \<Rightarrow> bool" where
  "fresh p n h \<longleftrightarrow> p \<noteq> 0 \<and> room p n \<and>
     (\<forall>b \<in> set (hblocks h). fst b \<noteq> p \<and> blocks_apart (p, n) b)"

lemma blocks_apart_sym: "blocks_apart x y \<longleftrightarrow> blocks_apart y x"
  by (simp add: blocks_apart_def apart_sym)

lemma valid_alt: "valid h a n \<longleftrightarrow> (\<exists>b \<in> set (hblocks h). within a n b)"
  by (simp add: valid_def list_ex_iff)

lemma valid_malloc_new: "p \<noteq> 0 \<Longrightarrow> i + k \<le> n \<Longrightarrow> room p n \<Longrightarrow> 0 < k \<Longrightarrow>
    valid (h_malloc p n h) (p + of_nat i) k"
  using unat_add_room [of p n i] by (auto simp: valid_alt h_malloc_def within_def)

lemma valid_malloc_old: "valid h a n \<Longrightarrow> valid (h_malloc p k h) a n"
  by (auto simp: valid_alt h_malloc_def)

lemma heap_ok_malloc: "heap_ok h \<Longrightarrow> fresh p n h \<Longrightarrow> heap_ok (h_malloc p n h)"
  by (simp add: heap_ok_def fresh_def h_malloc_def)

lemma hbytes_malloc [simp]: "hbytes (h_malloc p n h) = hbytes h"
  by (simp add: h_malloc_def)

lemma valid_update [simp]: "valid (h\<lparr>hbytes := m\<rparr>) a n = valid h a n"
  by (simp add: valid_def)

lemma valid_room: "heap_ok h \<Longrightarrow> valid h a n \<Longrightarrow> room a n"
  by (fastforce simp: heap_ok_def valid_alt within_def room_def)

lemma valid_nonzero: "heap_ok h \<Longrightarrow> valid h a n \<Longrightarrow> a \<noteq> 0"
proof
  assume "heap_ok h" "valid h a n" "a = 0"
  then obtain b where "b \<in> set (hblocks h)" "unat (fst b) = 0"
    by (auto simp: valid_alt within_def)
  with \<open>heap_ok h\<close> show False by (auto simp: heap_ok_def unat_eq_zero)
qed

lemma rd64_valid [simp, result_simps]: "valid h a 8 \<Longrightarrow> rd64 h a = Inr (ld64 (hbytes h) a)"
  by (simp add: rd64_def)

lemma wr64_valid [simp, result_simps]:
  "valid h a 8 \<Longrightarrow> wr64 h a v = Inr (h\<lparr>hbytes := st64 a v (hbytes h)\<rparr>)"
  by (simp add: wr64_def)

lemma wr64_Inr:
  "wr64 h a v = Inr h' \<Longrightarrow> valid h a 8 \<and> h' = h\<lparr>hbytes := st64 a v (hbytes h)\<rparr>"
  by (simp add: wr64_def split: if_splits)

lemma heap_ok_update [simp]: "heap_ok (h\<lparr>hbytes := m\<rparr>) = heap_ok h"
  by (simp add: heap_ok_def)

lemma sorted_wrt_sym_apart:
  "sorted_wrt P xs \<Longrightarrow> (\<And>x y. P x y \<Longrightarrow> P y x) \<Longrightarrow> x \<in> set xs \<Longrightarrow> y \<in> set xs \<Longrightarrow> x \<noteq> y \<Longrightarrow> P x y"
  by (induction xs) auto

lemma heap_ok_apart:
  "heap_ok h \<Longrightarrow> x \<in> set (hblocks h) \<Longrightarrow> y \<in> set (hblocks h) \<Longrightarrow> x \<noteq> y \<Longrightarrow> blocks_apart x y"
  using sorted_wrt_sym_apart [of blocks_apart "hblocks h" x y] blocks_apart_sym
  by (auto simp: heap_ok_def)

lemma field_valid:
  assumes "heap_ok h" "(n, k) \<in> set (hblocks h)" "i + l \<le> k" "0 < l"
  shows "valid h (n + of_nat i) l" "unat (n + of_nat i) = unat n + i"
proof -
  have "room n k" using assms(1,2) by (force simp: heap_ok_def)
  then show u: "unat (n + of_nat i) = unat n + i" using assms(3,4) by (intro unat_add_room) auto
  then show "valid h (n + of_nat i) l"
    using assms(2,3) unfolding valid_alt by (intro bexI [of _ "(n, k)"]) (auto simp: within_def)
qed

lemma fields_apart:
  assumes "heap_ok h" "(p, n) \<in> set (hblocks h)" "(p', n') \<in> set (hblocks h)"
    and "i + l \<le> n" "j + k \<le> n'" "0 < l" "0 < k" "p \<noteq> p' \<or> i + l \<le> j \<or> j + k \<le> i"
  shows "apart (p + of_nat i) l (p' + of_nat j) k"
proof -
  note u = field_valid(2) [OF assms(1,2,4,6)] field_valid(2) [OF assms(1,3,5,7)]
  show ?thesis
  proof (cases "p = p'")
    case True
    with u assms(8) show ?thesis by (auto simp: apart_def)
  next
    case False
    then have "blocks_apart (p, n) (p', n')" using assms(1-3) by (intro heap_ok_apart) auto
    with u assms(4,5) show ?thesis by (auto simp: apart_def blocks_apart_def)
  qed
qed

lemma malloc_free_blocks:
  assumes "fresh p n h"
  shows "\<exists>h'. h_free p (h_malloc p n h) = Inr h' \<and> hblocks h' = hblocks h"
proof -
  have "p \<noteq> 0" "filter (\<lambda>b. fst b \<noteq> p) (hblocks h) = hblocks h"
    using assms by (auto simp: fresh_def filter_id_conv)
  then show ?thesis by (simp add: h_free_def h_malloc_def)
qed

lemma heap_ok_free:
  assumes "heap_ok h" "h_free p h = Inr h'"
  shows "heap_ok h'"
  using assms by (auto simp: heap_ok_def h_free_def sorted_wrt_filter split: if_splits)

subsection \<open>Linked lists in memory\<close>

primrec seg :: "mem \<Rightarrow> addr \<Rightarrow> addr list \<Rightarrow> addr \<Rightarrow> bool" where
  "seg m p [] q \<longleftrightarrow> p = q"
| "seg m p (a # as) q \<longleftrightarrow> p = a \<and> seg m (ld64 m a) as q"

primrec chain :: "mem \<Rightarrow> addr \<Rightarrow> addr list \<Rightarrow> bool" where
  "chain m c [] \<longleftrightarrow> ld64 m c = 0"
| "chain m c (l # ls) \<longleftrightarrow> l \<noteq> 0 \<and> ld64 m c = l \<and> chain m l ls"

definition cells_apart :: "addr list \<Rightarrow> bool" where
  "cells_apart cs \<longleftrightarrow> sorted_wrt (\<lambda>a b. apart a 8 b 8) cs"

definition cells_in :: "heap \<Rightarrow> addr list \<Rightarrow> bool" where
  "cells_in h cs \<longleftrightarrow> (\<forall>c \<in> set cs. valid h c 8)"

lemma cells_apart_Nil [simp]: "cells_apart []"
  by (simp add: cells_apart_def)

lemma cells_apart_Cons [simp]:
  "cells_apart (c # cs) \<longleftrightarrow> (\<forall>b \<in> set cs. apart c 8 b 8) \<and> cells_apart cs"
  by (simp add: cells_apart_def)

lemma cells_apart_append [simp]:
  "cells_apart (xs @ ys) \<longleftrightarrow>
     cells_apart xs \<and> cells_apart ys \<and> (\<forall>a \<in> set xs. \<forall>b \<in> set ys. apart a 8 b 8)"
  by (auto simp: cells_apart_def sorted_wrt_append)

lemma cells_apart_distinct: "cells_apart cs \<Longrightarrow> distinct cs"
  by (induction cs) (auto simp: apart_irrefl)

lemma cells_apart_iff:
  "cells_apart cs \<longleftrightarrow>
     distinct cs \<and> (\<forall>a \<in> set cs. \<forall>b \<in> set cs. a \<noteq> b \<longrightarrow> apart a 8 b 8)"
  by (induction cs) (auto simp: apart_irrefl apart_sym)

lemma cells_apart_perm: "distinct ys \<Longrightarrow> set ys \<subseteq> set xs \<Longrightarrow> cells_apart xs \<Longrightarrow> cells_apart ys"
  by (auto simp: cells_apart_iff)

lemma cells_in_Nil [simp]: "cells_in h []"
  by (simp add: cells_in_def)

lemma cells_in_Cons [simp]: "cells_in h (c # cs) \<longleftrightarrow> valid h c 8 \<and> cells_in h cs"
  by (simp add: cells_in_def)

lemma cells_in_append [simp]: "cells_in h (xs @ ys) \<longleftrightarrow> cells_in h xs \<and> cells_in h ys"
  by (auto simp: cells_in_def)

lemma cells_in_update [simp]: "cells_in (h\<lparr>hbytes := m\<rparr>) cs = cells_in h cs"
  by (simp add: cells_in_def)

lemma cells_in_room: "heap_ok h \<Longrightarrow> cells_in h cs \<Longrightarrow> c \<in> set cs \<Longrightarrow> room c 8"
  by (auto simp: cells_in_def intro: valid_room)

lemma seg_append: "seg m p (as @ bs) q \<longleftrightarrow> (\<exists>r. seg m p as r \<and> seg m r bs q)"
  by (induction as arbitrary: p) auto

lemma seg_frame:
  "room a 8 \<Longrightarrow> \<forall>b \<in> set as. room b 8 \<and> apart a 8 b 8 \<Longrightarrow> seg (st64 a v m) p as q = seg m p as q"
  by (induction as arbitrary: p) (auto simp: mem_simps)

lemma chain_cong:
  "\<forall>b \<in> set (c # ls). ld64 m' b = ld64 m b \<Longrightarrow> chain m' c ls = chain m c ls"
  by (induction ls arbitrary: c) auto

lemma chain_frame:
  "room a 8 \<Longrightarrow> \<forall>b \<in> set (c # ls). room b 8 \<and> apart a 8 b 8 \<Longrightarrow> chain (st64 a v m) c ls = chain m c ls"
  by (rule chain_cong) (auto simp: mem_simps)

lemma chain_unique: "chain m c ls \<Longrightarrow> chain m c ls' \<Longrightarrow> ls = ls'"
  by (induction ls arbitrary: c ls') (case_tac ls'; auto)+

lemma chain_nonzero: "chain m c ls \<Longrightarrow> 0 \<notin> set ls"
  by (induction ls arbitrary: c) auto

lemma chain_snoc:
  assumes "chain m c ls" "l \<noteq> 0" "ld64 m l = 0" "cells_apart (c # ls @ [l])"
    and "\<forall>b \<in> set (c # ls @ [l]). room b 8"
  shows "chain (st64 (last (c # ls)) l m) c (ls @ [l])"
  using assms
proof (induction ls arbitrary: c)
  case Nil
  then show ?case by (simp add: mem_simps)
next
  case (Cons x xs)
  have "last (x # xs) \<in> set (x # xs)" by (rule last_in_set) simp
  then have "apart (last (x # xs)) 8 c 8" "room (last (x # xs)) 8" "room c 8"
    using Cons.prems(4,5) by (auto simp: apart_sym)
  with Cons.prems(1) have "ld64 (st64 (last (x # xs)) l m) c = x"
    by (simp add: mem_simps)
  moreover have "chain (st64 (last (x # xs)) l m) x (xs @ [l])"
    using Cons.prems by (intro Cons.IH) auto
  ultimately show ?case using Cons.prems(1) by simp
qed

lemma distinct_addrs_length: "distinct (cs :: addr list) \<Longrightarrow> length cs \<le> 2 ^ 64"
proof -
  assume "distinct cs"
  then have "length cs = card (set cs)" by (simp add: distinct_card)
  also have "\<dots> \<le> card (UNIV :: addr set)" by (intro card_mono) simp_all
  finally show ?thesis by (simp add: card_word)
qed

end
