(* ===== verification/Interfaces.thy ===== *)
theory Interfaces
  imports Memory
begin

text \<open>
  The contracts between components, as locales: what a client of a memory pool may rely on
  (\<open>region_allocator\<close>, and \<open>block_allocator\<close> where blocks can be given back) and what a
  client of a first-in first-out queue may rely on (\<open>fifo_queue\<close>). The clients' lemmas are
  proved here once; the theories of the pools and queues interpret the locales on the models of
  the code.
\<close>

subsection \<open>Memory pools\<close>

datatype 'r pool_op = Take 'r | Give nat

fun run_pool ::
    "('r \<Rightarrow> 's \<Rightarrow> fault + (addr \<times> 's)) \<Rightarrow> (addr \<Rightarrow> 's \<Rightarrow> fault + 's) \<Rightarrow> ('s \<Rightarrow> 'r \<Rightarrow> nat) \<Rightarrow>
     'r pool_op list \<Rightarrow> (addr \<times> nat) list \<Rightarrow> 's \<Rightarrow> fault + ((addr \<times> nat) list \<times> 's)" where
  "run_pool alloc release want [] live s = Inr (live, s)"
| "run_pool alloc release want (Take r # ops) live s =
     bindE (alloc r s) (\<lambda>(p, s').
       run_pool alloc release want ops (if p = 0 then live else (p, want s r) # live) s')"
| "run_pool alloc release want (Give i # ops) live s =
     (if i < length live
      then bindE (release (fst (live ! i)) s) (\<lambda>s'.
             run_pool alloc release want ops (take i live @ drop (Suc i) live) s')
      else run_pool alloc release want ops live s)"

fun takes_only :: "'r pool_op list \<Rightarrow> bool" where
  "takes_only [] = True"
| "takes_only (Take r # ops) = takes_only ops"
| "takes_only (Give i # ops) = False"

text \<open>Every request of the sequence is admissible in the state it is made in.\<close>

fun admissible ::
    "('r \<Rightarrow> 's \<Rightarrow> bool) \<Rightarrow> ('r \<Rightarrow> 's \<Rightarrow> fault + (addr \<times> 's)) \<Rightarrow> (addr \<Rightarrow> 's \<Rightarrow> fault + 's) \<Rightarrow>
     ('s \<Rightarrow> 'r \<Rightarrow> nat) \<Rightarrow> 'r pool_op list \<Rightarrow> (addr \<times> nat) list \<Rightarrow> 's \<Rightarrow> bool" where
  "admissible may alloc release want [] live s = True"
| "admissible may alloc release want (Take r # ops) live s =
     (may r s \<and> (case alloc r s of Inl e \<Rightarrow> True
        | Inr (p, s') \<Rightarrow> admissible may alloc release want ops
            (if p = 0 then live else (p, want s r) # live) s'))"
| "admissible may alloc release want (Give i # ops) live s =
     (if i < length live
      then (case release (fst (live ! i)) s of Inl e \<Rightarrow> True
        | Inr s' \<Rightarrow> admissible may alloc release want ops (take i live @ drop (Suc i) live) s')
      else admissible may alloc release want ops live s)"

lemma admissible_all: "admissible (\<lambda>r s. True) alloc release want ops live s"
proof (induction ops arbitrary: live s)
  case Nil
  show ?case by simp
next
  case (Cons op ops)
  then show ?case by (cases op) (auto split: sum.split)
qed

locale region_allocator =
  fixes ok :: "(addr \<times> nat) list \<Rightarrow> 's \<Rightarrow> bool"
    and may :: "'r \<Rightarrow> 's \<Rightarrow> bool"
    and want :: "'s \<Rightarrow> 'r \<Rightarrow> nat"
    and alloc :: "'r \<Rightarrow> 's \<Rightarrow> fault + (addr \<times> 's)"
  assumes alloc_ok: "ok live s \<Longrightarrow> may r s \<Longrightarrow>
      \<exists>p s'. alloc r s = Inr (p, s') \<and> ok (if p = 0 then live else (p, want s r) # live) s'"
    and ok_apart: "ok live s \<Longrightarrow> sorted_wrt blocks_apart live"
begin

lemma run_takes:
  "ok live s \<Longrightarrow> takes_only ops \<Longrightarrow> admissible may alloc release want ops live s \<Longrightarrow>
     \<exists>live' s'. run_pool alloc release want ops live s = Inr (live', s') \<and> ok live' s' \<and>
       sorted_wrt blocks_apart live'"
proof (induction ops arbitrary: live s rule: takes_only.induct)
  case 1
  then show ?case by (simp add: ok_apart)
next
  case (2 r ops)
  from 2(2,4) alloc_ok obtain p s' where "alloc r s = Inr (p, s')"
    "ok (if p = 0 then live else (p, want s r) # live) s'" by fastforce
  with 2 show ?case by simp
next
  case (3 i ops)
  then show ?case by simp
qed

end

locale block_allocator = region_allocator ok may want alloc
  for ok :: "(addr \<times> nat) list \<Rightarrow> 's \<Rightarrow> bool"
    and may :: "'r \<Rightarrow> 's \<Rightarrow> bool"
    and want :: "'s \<Rightarrow> 'r \<Rightarrow> nat"
    and alloc :: "'r \<Rightarrow> 's \<Rightarrow> fault + (addr \<times> 's)" +
  fixes release :: "addr \<Rightarrow> 's \<Rightarrow> fault + 's"
  assumes release_ok: "ok (xs @ x # ys) s \<Longrightarrow> \<exists>s'. release (fst x) s = Inr s' \<and> ok (xs @ ys) s'"
begin

lemma run_ops:
  "ok live s \<Longrightarrow> admissible may alloc release want ops live s \<Longrightarrow>
     \<exists>live' s'. run_pool alloc release want ops live s = Inr (live', s') \<and> ok live' s' \<and>
       sorted_wrt blocks_apart live'"
proof (induction ops arbitrary: live s)
  case Nil
  then show ?case by (simp add: ok_apart)
next
  case (Cons op ops)
  show ?case
  proof (cases op)
    case (Take r)
    with Cons.prems alloc_ok obtain p s' where "alloc r s = Inr (p, s')"
      "ok (if p = 0 then live else (p, want s r) # live) s'" by fastforce
    with Take Cons show ?thesis by simp
  next
    case (Give i)
    show ?thesis
    proof (cases "i < length live")
      case True
      then have "live = take i live @ live ! i # drop (Suc i) live" by (rule id_take_nth_drop)
      with Cons.prems(1) release_ok obtain s' where "release (fst (live ! i)) s = Inr s'"
        "ok (take i live @ drop (Suc i) live) s'" by metis
      with Give True Cons show ?thesis by simp
    next
      case False
      with Give Cons show ?thesis by simp
    qed
  qed
qed

end

subsection \<open>First-in first-out queues\<close>

datatype 'a queue_op = Put 'a | Get

fun run_queue ::
    "('a \<Rightarrow> 's \<Rightarrow> fault + 's) \<Rightarrow> ('s \<Rightarrow> fault + ('a option \<times> 's)) \<Rightarrow>
     'a queue_op list \<Rightarrow> 's \<Rightarrow> fault + ('a option list \<times> 's)" where
  "run_queue put get [] s = Inr ([], s)"
| "run_queue put get (Put x # ops) s =
     bindE (put x s) (\<lambda>s'. run_queue put get ops s')"
| "run_queue put get (Get # ops) s =
     bindE (get s) (\<lambda>(r, s').
     bindE (run_queue put get ops s') (\<lambda>(rs, s'').
     Inr (r # rs, s'')))"

fun list_queue :: "'a queue_op list \<Rightarrow> 'a list \<Rightarrow> 'a option list \<times> 'a list" where
  "list_queue [] q = ([], q)"
| "list_queue (Put x # ops) q = list_queue ops (q @ [x])"
| "list_queue (Get # ops) [] = (let (rs, q') = list_queue ops [] in (None # rs, q'))"
| "list_queue (Get # ops) (x # q) = (let (rs, q') = list_queue ops q in (Some x # rs, q'))"

fun puts_of :: "'a queue_op list \<Rightarrow> 'a list" where
  "puts_of [] = []"
| "puts_of (Put x # ops) = x # puts_of ops"
| "puts_of (Get # ops) = puts_of ops"

fun somes :: "'a option list \<Rightarrow> 'a list" where
  "somes [] = []"
| "somes (None # xs) = somes xs"
| "somes (Some x # xs) = x # somes xs"

text \<open>
  \<open>usable x s\<close> is what the client must grant for \<open>x\<close> to be put (a node of its own, say), and
  \<open>indep x y\<close> that putting \<open>x\<close> does not take that away from \<open>y\<close>.
\<close>

text \<open>The list queue loses, invents and reorders nothing.\<close>

lemma list_queue_conserves:
  "list_queue ops q = (rs, q') \<Longrightarrow> q @ puts_of ops = somes rs @ q'"
  by (induction ops q arbitrary: rs q' rule: list_queue.induct) (auto split: prod.splits)

locale fifo_queue =
  fixes rep :: "'s \<Rightarrow> 'a list \<Rightarrow> bool"
    and usable :: "'a \<Rightarrow> 's \<Rightarrow> bool"
    and indep :: "'a \<Rightarrow> 'a \<Rightarrow> bool"
    and put :: "'a \<Rightarrow> 's \<Rightarrow> fault + 's"
    and get :: "'s \<Rightarrow> fault + ('a option \<times> 's)"
  assumes put_rep: "rep s xs \<Longrightarrow> usable x s \<Longrightarrow> \<exists>s'. put x s = Inr s' \<and> rep s' (xs @ [x])"
    and get_empty: "rep s [] \<Longrightarrow> \<exists>s'. get s = Inr (None, s') \<and> rep s' []"
    and get_rep: "rep s (x # xs) \<Longrightarrow> \<exists>s'. get s = Inr (Some x, s') \<and> rep s' xs"
    and put_usable: "rep s xs \<Longrightarrow> usable x s \<Longrightarrow> usable y s \<Longrightarrow> indep x y \<Longrightarrow> put x s = Inr s' \<Longrightarrow> usable y s'"
    and get_usable: "rep s xs \<Longrightarrow> usable y s \<Longrightarrow> get s = Inr (r, s') \<Longrightarrow> usable y s'"
begin

lemma run_refines:
  "rep s xs \<Longrightarrow> sorted_wrt indep (puts_of ops) \<Longrightarrow> \<forall>x \<in> set (puts_of ops). usable x s \<Longrightarrow>
     \<exists>s'. run_queue put get ops s = Inr (fst (list_queue ops xs), s') \<and>
       rep s' (snd (list_queue ops xs))"
proof (induction ops xs arbitrary: s rule: list_queue.induct)
  case (1 q)
  then show ?case by simp
next
  case (2 x ops q)
  then obtain s' where "put x s = Inr s'" "rep s' (q @ [x])" using put_rep [of s q x] by auto
  moreover from this 2 have "\<forall>y \<in> set (puts_of ops). usable y s'"
    using put_usable [OF 2(2) _ _ _ \<open>put x s = Inr s'\<close>] by auto
  ultimately show ?case using 2 by simp
next
  case (3 ops)
  then obtain s' where g: "get s = Inr (None, s')" "rep s' []" using get_empty by blast
  have u: "\<forall>y \<in> set (puts_of ops). usable y s'"
    using get_usable [OF 3(2) _ g(1)] 3(4) by simp
  with 3(1) [OF g(2)] 3(3) obtain s'' where "run_queue put get ops s' = Inr (fst (list_queue ops []), s'')"
    "rep s'' (snd (list_queue ops []))" by auto
  with g(1) show ?case by (simp add: case_prod_beta Let_def)
next
  case (4 ops x q)
  then obtain s' where g: "get s = Inr (Some x, s')" "rep s' q" using get_rep by blast
  have u: "\<forall>y \<in> set (puts_of ops). usable y s'"
    using get_usable [OF 4(2) _ g(1)] 4(4) by simp
  with 4(1) [OF g(2)] 4(3) obtain s'' where "run_queue put get ops s' = Inr (fst (list_queue ops q), s'')"
    "rep s'' (snd (list_queue ops q))" by auto
  with g(1) show ?case by (simp add: case_prod_beta Let_def)
qed

text \<open>What comes out is a prefix of what was in the queue and what went in, in order.\<close>

lemma run_fifo:
  assumes "rep s xs" "sorted_wrt indep (puts_of ops)" "\<forall>x \<in> set (puts_of ops). usable x s"
  shows "\<exists>rs s' rest. run_queue put get ops s = Inr (rs, s') \<and> rep s' rest \<and>
    xs @ puts_of ops = somes rs @ rest"
  using run_refines [OF assms] list_queue_conserves [of ops xs] by (metis prod.collapse)

end

end
