(* ===== verification/Mempool_Fixed.thy ===== *)
theory Mempool_Fixed
  imports Interfaces
begin

text \<open>
  The pool of equal blocks (\<^verbatim>\<open>3_pool/3.1.2-mempool-main/mempool-v1.c\<close>): one page of
  \<open>MEM_PAGE_SIZE\<close> bytes cut into blocks, the free ones linked through their own first eight
  bytes. \<open>mp_init_v1\<close>, \<open>mp_dest_v1\<close>, \<open>mp_alloc_v1\<close> and \<open>mp_free_v1\<close> are the four functions
  of the file, with every access checked against the page; \<open>pool_ok\<close> is the invariant that
  ties the free list in memory to the blocks that are out.
\<close>

subsection \<open>The pool and its operations\<close>

definition MEM_PAGE_SIZE :: int where
  "MEM_PAGE_SIZE = 4096"

record mempool_t =
  block_size :: int
  free_count :: int
  free_ptr :: addr
  pool_mem :: addr

primrec mp_init_loop :: "nat \<Rightarrow> addr \<Rightarrow> int \<Rightarrow> heap \<Rightarrow> fault + (addr \<times> heap)" where
  "mp_init_loop 0 ptr sz h = Inr (ptr, h)"
| "mp_init_loop (Suc n) ptr sz h =
     bindE (wr64 h ptr (ptr + of_int sz)) (\<lambda>h1. mp_init_loop n (ptr + of_int sz) sz h1)"

definition mp_init_v1 ::
    "addr \<Rightarrow> mempool_t option \<Rightarrow> int \<Rightarrow> heap \<Rightarrow> fault + (int \<times> mempool_t option \<times> heap)" where
  "mp_init_v1 page mo size0 h0 =
     (case mo of
        None \<Rightarrow> Inr (- 1, None, h0)
      | Some m0 \<Rightarrow>
          let sz = (if size0 < 16 then 16 else size0);
              h1 = h_malloc page (nat MEM_PAGE_SIZE) h0;
              m1 = m0\<lparr>block_size := sz, pool_mem := page\<rparr>
          in if page = 0 then Inr (- 1, Some m1, h1)
             else
               let m2 = m1\<lparr>free_ptr := pool_mem m1, free_count := MEM_PAGE_SIZE div sz\<rparr>
               in bindE (mp_init_loop (nat (free_count m2)) (free_ptr m2) sz h1) (\<lambda>(ptr, h2).
                  bindE (wr64 h2 ptr 0) (\<lambda>h3. Inr (0, Some m2, h3))))"

definition mp_dest_v1 :: "mempool_t option \<Rightarrow> heap \<Rightarrow> fault + heap" where
  "mp_dest_v1 mo h =
     (case mo of
        None \<Rightarrow> Inr h
      | Some m \<Rightarrow> if pool_mem m = 0 then Inr h else h_free (pool_mem m) h)"

definition mp_alloc_v1 ::
    "mempool_t option \<Rightarrow> heap \<Rightarrow> fault + (addr \<times> mempool_t option \<times> heap)" where
  "mp_alloc_v1 mo h =
     (case mo of
        None \<Rightarrow> Inr (0, None, h)
      | Some m \<Rightarrow>
          if free_count m = 0 then Inr (0, Some m, h)
          else
            let ptr = free_ptr m
            in bindE (rd64 h ptr) (\<lambda>nxt.
               Inr (ptr, Some (m\<lparr>free_ptr := nxt, free_count := free_count m - 1\<rparr>), h)))"

definition mp_free_v1 ::
    "mempool_t option \<Rightarrow> addr \<Rightarrow> heap \<Rightarrow> fault + (mempool_t option \<times> heap)" where
  "mp_free_v1 mo ptr h =
     (case mo of
        None \<Rightarrow> Inl NullUse
      | Some m \<Rightarrow>
          bindE (wr64 h ptr (free_ptr m)) (\<lambda>h1.
          Inr (Some (m\<lparr>free_ptr := ptr, free_count := free_count m + 1\<rparr>), h1)))"

subsection \<open>The free list in memory and the invariant\<close>

primrec walk :: "mem \<Rightarrow> addr \<Rightarrow> nat \<Rightarrow> addr list" where
  "walk m p 0 = []"
| "walk m p (Suc n) = p # walk m (ld64 m p) n"

definition slot :: "addr \<Rightarrow> nat \<Rightarrow> nat \<Rightarrow> addr" where
  "slot base k i = base + of_nat (i * k)"

definition slots :: "mempool_t \<Rightarrow> addr list" where
  "slots m = map (slot (pool_mem m) (nat (block_size m))) [0..<nat (MEM_PAGE_SIZE div block_size m)]"

definition free_list :: "heap \<Rightarrow> mempool_t \<Rightarrow> addr list" where
  "free_list h m = walk (hbytes h) (free_ptr m) (nat (free_count m))"

definition pool_ok :: "addr list \<Rightarrow> heap \<Rightarrow> mempool_t \<Rightarrow> bool" where
  "pool_ok used h m \<longleftrightarrow>
     heap_ok h \<and> (pool_mem m, nat MEM_PAGE_SIZE) \<in> set (hblocks h) \<and>
     16 \<le> block_size m \<and> 0 \<le> free_count m \<and>
     distinct (free_list h m @ used) \<and> set (free_list h m @ used) = set (slots m)"

lemma walk_cong: "\<forall>a \<in> set (walk m p n). ld64 m' a = ld64 m a \<Longrightarrow> walk m' p n = walk m p n"
  by (induction n arbitrary: p) auto

lemma length_walk [simp]: "length (walk m p n) = n"
  by (induction n arbitrary: p) auto

lemma slot_shift: "slot (base + of_nat k) k i = slot base k (Suc i)"
  by (simp add: slot_def algebra_simps)

lemma slot_0 [simp]: "slot base k 0 = base"
  by (simp add: slot_def)

lemma unat_slot: "unat base + i * k < 2 ^ 64 \<Longrightarrow> unat (slot base k i) = unat base + i * k"
  unfolding slot_def by (rule unat_add_room_le)

lemma walk_slots:
  "(\<And>i. i < n \<Longrightarrow> ld64 m (slot base k i) = slot base k (Suc i)) \<Longrightarrow>
     walk m base n = map (slot base k) [0..<n]"
proof (induction n arbitrary: base)
  case 0
  then show ?case by simp
next
  case (Suc n)
  have "ld64 m base = slot base k 1" using Suc.prems [of 0] by simp
  then have nxt: "ld64 m base = base + of_nat k" by (simp add: slot_def)
  have "walk m (base + of_nat k) n = map (slot (base + of_nat k) k) [0..<n]"
    using Suc.prems by (intro Suc.IH) (simp add: slot_shift)
  then show ?case
    by (simp add: nxt slot_shift upt_conv_Cons map_Suc_upt [symmetric] comp_def del: upt_Suc)
qed

lemma slots_apart:
  assumes "i < j" "8 \<le> k" "unat base + j * k < 2 ^ 64"
  shows "apart (slot base k i) 8 (slot base k j) 8"
proof -
  have "i * k + k \<le> j * k" using mult_le_mono1 [of "Suc i" j k] assms(1) by simp
  moreover from this have "unat (slot base k i) = unat base + i * k"
    using assms by (intro unat_slot) linarith
  ultimately show ?thesis
    using assms by (simp add: apart_def unat_slot)
qed

lemma mp_init_loop_spec:
  assumes "8 \<le> k" "unat ptr + n * k \<le> 2 ^ 64" "heap_ok h"
    and "\<And>i. i < n \<Longrightarrow> valid h (slot ptr k i) 8"
  shows "\<exists>m'. mp_init_loop n ptr (int k) h = Inr (slot ptr k n, h\<lparr>hbytes := m'\<rparr>) \<and>
    (\<forall>i < n. ld64 m' (slot ptr k i) = slot ptr k (Suc i)) \<and>
    (\<forall>c. room c 8 \<longrightarrow> (\<forall>i < n. apart (slot ptr k i) 8 c 8) \<longrightarrow> ld64 m' c = ld64 (hbytes h) c)"
  using assms(2-)
proof (induction n arbitrary: ptr h)
  case 0
  then show ?case by (intro exI [of _ "hbytes h"]) simp
next
  case (Suc n)
  let ?p = "ptr + of_nat k" and ?h = "h\<lparr>hbytes := st64 ptr (ptr + of_nat k) (hbytes h)\<rparr>"
  have v: "valid h ptr 8" using Suc.prems(3) [of 0] by simp
  then have rp: "room ptr 8" using Suc.prems(2) by (rule valid_room [rotated])
  show ?case
  proof (cases "n = 0")
    case True
    with v rp show ?thesis
      by (intro exI [of _ "hbytes ?h"]) (auto simp: slot_def mem_simps)
  next
    case False
    have "0 < n * k" using False assms(1) by simp
    then have up: "unat ?p = unat ptr + k"
      using Suc.prems(1) by (intro unat_add_room_le) (simp del: nat_0_less_mult_iff)
    have "\<exists>m'. mp_init_loop n ?p (int k) ?h = Inr (slot ?p k n, ?h\<lparr>hbytes := m'\<rparr>) \<and>
      (\<forall>i < n. ld64 m' (slot ?p k i) = slot ?p k (Suc i)) \<and>
      (\<forall>c. room c 8 \<longrightarrow> (\<forall>i < n. apart (slot ?p k i) 8 c 8) \<longrightarrow> ld64 m' c = ld64 (hbytes ?h) c)"
      using Suc.prems up by (intro Suc.IH) (simp_all add: slot_shift)
    then obtain m' where run: "mp_init_loop n ?p (int k) ?h = Inr (slot ptr k (Suc n), h\<lparr>hbytes := m'\<rparr>)"
      and links: "\<And>i. i < n \<Longrightarrow> ld64 m' (slot ptr k (Suc i)) = slot ptr k (Suc (Suc i))"
      and fr: "\<And>c. room c 8 \<Longrightarrow> (\<And>i. i < n \<Longrightarrow> apart (slot ptr k (Suc i)) 8 c 8)
                \<Longrightarrow> ld64 m' c = ld64 (hbytes ?h) c"
      by (auto simp: slot_shift)
    have first: "ld64 m' ptr = slot ptr k 1"
    proof -
      have "apart (slot ptr k (Suc i)) 8 ptr 8" if "i < n" for i
        using slots_apart [of 0 "Suc i" k ptr] that assms(1) Suc.prems(1)
          mult_le_mono1 [of "Suc (Suc i)" "Suc n" k]
        by (auto simp: apart_sym)
      then have "ld64 m' ptr = ld64 (hbytes ?h) ptr" using rp by (intro fr)
      then show ?thesis by (simp add: slot_def)
    qed
    show ?thesis
    proof (intro exI [of _ m'] conjI allI impI)
      show "mp_init_loop (Suc n) ptr (int k) h = Inr (slot ptr k (Suc n), h\<lparr>hbytes := m'\<rparr>)"
        using v run by simp
      show "ld64 m' (slot ptr k i) = slot ptr k (Suc i)" if "i < Suc n" for i
        using that first links by (cases i) simp_all
      show "ld64 m' c = ld64 (hbytes h) c"
        if "room c 8" "\<forall>i < Suc n. apart (slot ptr k i) 8 c 8" for c
      proof -
        have "apart (slot ptr k 0) 8 c 8" using that(2) by blast
        then have "ld64 (hbytes ?h) c = ld64 (hbytes h) c"
          using that(1) rp by (simp add: mem_simps)
        with fr [of c] that show ?thesis by auto
      qed
    qed
  qed
qed

subsection \<open>Slots lie in the page and do not overlap\<close>

lemma slot_fits:
  "16 \<le> bs \<Longrightarrow> i < nat (MEM_PAGE_SIZE div bs) \<Longrightarrow> i * nat bs + nat bs \<le> 4096"
proof -
  assume bs: "16 \<le> bs" and i: "i < nat (MEM_PAGE_SIZE div bs)"
  from i have "int i + 1 \<le> 4096 div bs" by (simp add: MEM_PAGE_SIZE_def)
  then have "(int i + 1) * bs \<le> (4096 div bs) * bs" using bs by (intro mult_right_mono) auto
  also have "\<dots> \<le> 4096" using bs div_mult_mod_eq [of 4096 bs] pos_mod_sign [of bs 4096] by linarith
  finally have "int (i * nat bs + nat bs) \<le> int 4096" using bs by (simp add: algebra_simps)
  then show ?thesis by (simp only: of_nat_le_iff)
qed

lemma page_room: "heap_ok h \<Longrightarrow> (p, nat MEM_PAGE_SIZE) \<in> set (hblocks h) \<Longrightarrow> unat p + 4096 \<le> 2 ^ 64"
  by (force simp: heap_ok_def room_def MEM_PAGE_SIZE_def)

lemma slot_unat:
  assumes "heap_ok h" "(p, nat MEM_PAGE_SIZE) \<in> set (hblocks h)" "i * k < 4096"
  shows "unat (slot p k i) = unat p + i * k"
  using page_room [OF assms(1,2)] assms(3) by (intro unat_slot) simp

lemma slot_valid:
  assumes "heap_ok h" "(p, nat MEM_PAGE_SIZE) \<in> set (hblocks h)" "i * k + n \<le> 4096" "0 < n"
  shows "valid h (slot p k i) n"
  using assms slot_unat [OF assms(1,2), of i k]
  by (auto simp: valid_alt within_def MEM_PAGE_SIZE_def intro!: bexI [OF _ assms(2)])

lemma slots_elem:
  assumes "16 \<le> block_size m" "a \<in> set (slots m)"
  obtains i where "a = slot (pool_mem m) (nat (block_size m)) i"
    "i * nat (block_size m) + nat (block_size m) \<le> 4096"
  using assms slot_fits [of "block_size m"] by (auto simp: slots_def)

lemma slots_disjoint:
  assumes "heap_ok h" "(pool_mem m, nat MEM_PAGE_SIZE) \<in> set (hblocks h)" "16 \<le> block_size m"
    and "a \<in> set (slots m)" "b \<in> set (slots m)" "a \<noteq> b"
  shows "apart a (nat (block_size m)) b (nat (block_size m))"
proof -
  let ?k = "nat (block_size m)"
  obtain i j where ij: "a = slot (pool_mem m) ?k i" "b = slot (pool_mem m) ?k j"
    "i * ?k + ?k \<le> 4096" "j * ?k + ?k \<le> 4096"
    using assms(3-5) by (metis slots_elem)
  with assms(6) have "i \<noteq> j" by auto
  moreover from ij have "unat a = unat (pool_mem m) + i * ?k" "unat b = unat (pool_mem m) + j * ?k"
    using assms(3) slot_unat [OF assms(1,2)] by auto
  moreover have "i * ?k + ?k \<le> j * ?k \<or> j * ?k + ?k \<le> i * ?k"
    using \<open>i \<noteq> j\<close> mult_le_mono1 [of "Suc i" j ?k] mult_le_mono1 [of "Suc j" i ?k]
    by (cases "i < j") auto
  ultimately show ?thesis by (auto simp: apart_def)
qed

lemma slots_valid:
  assumes "heap_ok h" "(pool_mem m, nat MEM_PAGE_SIZE) \<in> set (hblocks h)" "16 \<le> block_size m"
    and "a \<in> set (slots m)"
  shows "valid h a (nat (block_size m))" "valid h a 8" "room a 8"
proof -
  let ?k = "nat (block_size m)"
  obtain i where i: "a = slot (pool_mem m) ?k i" "i * ?k + ?k \<le> 4096"
    using assms(3,4) by (rule slots_elem)
  with assms slot_valid [OF assms(1,2)] show "valid h a ?k" "valid h a 8" by auto
  with assms(1) show "room a 8" by (intro valid_room)
qed

lemma distinct_slots:
  assumes "heap_ok h" "(pool_mem m, nat MEM_PAGE_SIZE) \<in> set (hblocks h)" "16 \<le> block_size m"
  shows "distinct (slots m)"
  unfolding slots_def distinct_map
proof (intro conjI inj_onI)
  let ?k = "nat (block_size m)"
  fix i j
  assume "i \<in> set [0..<nat (MEM_PAGE_SIZE div block_size m)]"
    "j \<in> set [0..<nat (MEM_PAGE_SIZE div block_size m)]"
    and eq: "slot (pool_mem m) ?k i = slot (pool_mem m) ?k j"
  then have "i * ?k + ?k \<le> 4096" "j * ?k + ?k \<le> 4096"
    using assms(3) slot_fits [of "block_size m"] by auto
  then have "i * ?k = j * ?k"
    using assms(3) arg_cong [OF eq, of unat] slot_unat [OF assms(1,2)] by auto
  then show "i = j" using assms(3) by simp
qed simp

subsection \<open>Initialisation\<close>

text \<open>
  The loop links every block to the next one; the statement after it stores a null pointer one
  block further on. That store is inside the page exactly when at least eight bytes are left
  over there.
\<close>

lemma mp_init_runs:
  fixes m :: mempool_t
  assumes "heap_ok h" "fresh page 4096 h" "k = max 16 size0" "int32 size0"
  defines "m1 \<equiv> m\<lparr>block_size := k, pool_mem := page, free_ptr := page, free_count := MEM_PAGE_SIZE div k\<rparr>"
  shows "\<exists>b. mp_init_v1 page (Some m) size0 h =
     bindE (wr64 (h_malloc page 4096 h\<lparr>hbytes := b\<rparr>) (slot page (nat k) (nat (4096 div k))) 0)
       (\<lambda>h3. Inr (0, Some m1, h3)) \<and>
     (\<forall>i < nat (4096 div k). ld64 b (slot page (nat k) i) = slot page (nat k) (Suc i))"
proof -
  let ?h = "h_malloc page 4096 h" and ?n = "nat (4096 div k)"
  have k: "16 \<le> k" using assms(3) by simp
  have p: "page \<noteq> 0" using assms(2) by (simp add: fresh_def)
  have hok: "heap_ok ?h" using assms(1,2) by (rule heap_ok_malloc)
  have blk: "(page, nat MEM_PAGE_SIZE) \<in> set (hblocks ?h)"
    using p by (simp add: h_malloc_def MEM_PAGE_SIZE_def)
  have fits: "i * nat k + nat k \<le> 4096" if "i < ?n" for i
    using slot_fits [OF k, of i] that by (simp add: MEM_PAGE_SIZE_def)
  have "?n * nat k \<le> 4096" using fits [of "?n - 1"] by (cases ?n) auto
  then have "unat page + ?n * nat k \<le> 2 ^ 64" using page_room [OF hok blk] by linarith
  moreover have "valid ?h (slot page (nat k) i) 8" if "i < ?n" for i
    using slot_valid [OF hok blk, of i "nat k" 8] fits [OF that] k by simp
  moreover have "8 \<le> nat k" using k by simp
  ultimately obtain b where "mp_init_loop ?n page (int (nat k)) ?h
      = Inr (slot page (nat k) ?n, ?h\<lparr>hbytes := b\<rparr>)"
    "\<forall>i < ?n. ld64 b (slot page (nat k) i) = slot page (nat k) (Suc i)"
    using mp_init_loop_spec [OF _ _ hok, of "nat k" page ?n] by blast
  moreover have "(if size0 < 16 then 16 else size0) = k" using assms(3) by simp
  ultimately show ?thesis using k p
    by (intro exI [of _ b]) (simp add: mp_init_v1_def m1_def MEM_PAGE_SIZE_def Let_def)
qed

lemma page_rest:
  assumes "16 \<le> (k :: int)"
  shows "nat (4096 div k) * nat k = nat (4096 - 4096 mod k)"
  using assms by (simp add: nat_mult_distrib [symmetric] pos_imp_zdiv_nonneg_iff minus_mod_eq_div_mult)

lemma mp_init_last_store:
  assumes "heap_ok h" "fresh page 4096 h" "16 \<le> k"
    and "\<not> valid h (slot page (nat k) (nat (4096 div k))) 8"
  shows "valid (h_malloc page 4096 h) (slot page (nat k) (nat (4096 div k))) 8 \<longleftrightarrow> 8 \<le> 4096 mod k"
proof -
  let ?n = "nat (4096 div k)" and ?h = "h_malloc page 4096 h"
  have hok: "heap_ok ?h" using assms(1,2) by (rule heap_ok_malloc)
  have p: "page \<noteq> 0" using assms(2) by (simp add: fresh_def)
  then have blk: "(page, nat MEM_PAGE_SIZE) \<in> set (hblocks ?h)"
    by (simp add: h_malloc_def MEM_PAGE_SIZE_def)
  have m: "0 \<le> 4096 mod k" using assms(3) by simp
  have only: "valid ?h a 8 \<longleftrightarrow> within a 8 (page, 4096) \<or> valid h a 8" for a
    using p by (auto simp: valid_alt h_malloc_def)
  show ?thesis
  proof (cases "4096 mod k = 0")
    case True
    have "unat (slot page (nat k) ?n) = unat page + 4096 \<or> unat (slot page (nat k) ?n) = 0"
    proof (cases "unat page + 4096 = 2 ^ 64")
      case eq: True
      have "slot page (nat k) ?n = of_nat (unat page + 4096)"
        using True page_rest [OF assms(3)] by (simp add: slot_def)
      then show ?thesis by (simp only: eq) simp
    next
      case False
      then have "unat page + 4096 < 2 ^ 64" using page_room [OF hok blk] by simp
      then have "unat (slot page (nat k) ?n) = unat page + ?n * nat k"
        using True page_rest [OF assms(3)] by (intro unat_slot) simp
      then show ?thesis using True page_rest [OF assms(3)] by simp
    qed
    then have "\<not> within (slot page (nat k) ?n) 8 (page, 4096)"
      using p by (auto simp: within_def unat_eq_zero)
    with True assms(4) only show ?thesis by simp
  next
    case False
    then have "?n * nat k < 4096" using page_rest [OF assms(3)] m by linarith
    then have "unat (slot page (nat k) ?n) = unat page + nat (4096 - 4096 mod k)"
      using slot_unat [OF hok blk] page_rest [OF assms(3)] by simp
    then have "within (slot page (nat k) ?n) 8 (page, 4096) \<longleftrightarrow> 8 \<le> 4096 mod k"
      using m by (auto simp: within_def)
    with assms(4) only show ?thesis by simp
  qed
qed

lemma mp_init_pool_ok:
  assumes hp: "heap_ok h" "fresh page 4096 h" and size: "k = max 16 size0" "int32 size0"
    and rest: "8 \<le> 4096 mod k"
  shows "\<exists>m' h'. mp_init_v1 page (Some m) size0 h = Inr (0, Some m', h') \<and> pool_ok [] h' m' \<and>
     free_list h' m' = slots m' \<and> block_size m' = k \<and> pool_mem m' = page \<and>
     hblocks h' = (page, 4096) # hblocks h"
proof -
  let ?n = "nat (4096 div k)" and ?h = "h_malloc page 4096 h"
  let ?m = "m\<lparr>block_size := k, pool_mem := page, free_ptr := page, free_count := MEM_PAGE_SIZE div k\<rparr>"
  have k: "16 \<le> k" using size(1) by simp
  have p: "page \<noteq> 0" using hp(2) by (simp add: fresh_def)
  have hok: "heap_ok ?h" using hp by (rule heap_ok_malloc)
  have blk: "(page, nat MEM_PAGE_SIZE) \<in> set (hblocks ?h)"
    using p by (simp add: h_malloc_def MEM_PAGE_SIZE_def)
  from mp_init_runs [OF hp size, of m] obtain b where
    run: "mp_init_v1 page (Some m) size0 h =
      bindE (wr64 (?h\<lparr>hbytes := b\<rparr>) (slot page (nat k) ?n) 0) (\<lambda>h3. Inr (0, Some ?m, h3))"
    and links: "\<And>i. i < ?n \<Longrightarrow> ld64 b (slot page (nat k) i) = slot page (nat k) (Suc i)"
    by blast
  have "?n * nat k + 8 \<le> 4096" using page_rest [OF k] rest k by linarith
  then have last: "valid ?h (slot page (nat k) ?n) 8" by (intro slot_valid [OF hok blk]) auto
  let ?b = "st64 (slot page (nat k) ?n) 0 b"
  have "ld64 ?b (slot page (nat k) i) = slot page (nat k) (Suc i)" if i: "i < ?n" for i
  proof -
    have "apart (slot page (nat k) i) 8 (slot page (nat k) ?n) 8"
      using \<open>?n * nat k + 8 \<le> 4096\<close> page_room [OF hok blk] k i by (intro slots_apart) auto
    moreover have "i * nat k + 8 \<le> 4096"
      using slot_fits [OF k, of i] i k by (simp add: MEM_PAGE_SIZE_def)
    then have "valid ?h (slot page (nat k) i) 8" by (intro slot_valid [OF hok blk]) auto
    ultimately show ?thesis
      using links [OF i] last hok by (simp add: mem_simps valid_room apart_sym)
  qed
  then have "walk ?b page ?n = map (slot page (nat k)) [0..<?n]" by (rule walk_slots)
  then have fl: "free_list (?h\<lparr>hbytes := ?b\<rparr>) ?m = slots ?m"
    by (simp add: free_list_def slots_def MEM_PAGE_SIZE_def)
  moreover have "pool_ok [] (?h\<lparr>hbytes := ?b\<rparr>) ?m"
    using fl hok blk k distinct_slots [of ?h ?m]
    by (simp add: pool_ok_def MEM_PAGE_SIZE_def pos_imp_zdiv_nonneg_iff)
  ultimately show ?thesis using run last p
    by (intro exI [of _ ?m] exI [of _ "?h\<lparr>hbytes := ?b\<rparr>"]) (simp add: h_malloc_def)
qed

subsection \<open>Allocation and release\<close>

lemma free_list_Cons:
  "0 < free_count m \<Longrightarrow> free_list h m = free_ptr m #
     free_list h (m\<lparr>free_ptr := ld64 (hbytes h) (free_ptr m), free_count := free_count m - 1\<rparr>)"
  by (cases "nat (free_count m)") (auto simp: free_list_def nat_diff_distrib)

lemma pool_ok_count: "pool_ok used h m \<Longrightarrow>
    nat (free_count m) + length used = nat (MEM_PAGE_SIZE div block_size m)"
proof -
  assume ok: "pool_ok used h m"
  then have "distinct (slots m)" by (intro distinct_slots [of h]) (auto simp: pool_ok_def)
  with ok have "length (free_list h m @ used) = length (slots m)"
    unfolding pool_ok_def by (metis distinct_card)
  then show ?thesis by (simp add: free_list_def slots_def)
qed

lemma slots_update [simp]:
  "slots (m\<lparr>free_ptr := p, free_count := c\<rparr>) = slots m"
  by (simp add: slots_def)

lemma pool_ok_slot:
  assumes "pool_ok used h m" "a \<in> set (free_list h m) \<or> a \<in> set used"
  shows "valid h a 8" "room a 8" "valid h a (nat (block_size m))" "a \<in> set (slots m)"
    "a \<noteq> 0"
proof -
  from assms show s: "a \<in> set (slots m)" by (auto simp: pool_ok_def)
  from assms have h: "heap_ok h" "(pool_mem m, nat MEM_PAGE_SIZE) \<in> set (hblocks h)"
    "16 \<le> block_size m" by (auto simp: pool_ok_def)
  from slots_valid [OF h s] show "valid h a (nat (block_size m))" "valid h a 8" "room a 8" .
  with h(1) show "a \<noteq> 0" by (intro valid_nonzero)
qed

lemma pool_ok_apart:
  assumes "pool_ok used h m" "a \<in> set (slots m)" "b \<in> set (slots m)" "a \<noteq> b"
  shows "apart a (nat (block_size m)) b (nat (block_size m))"
  using assms by (intro slots_disjoint [of h]) (auto simp: pool_ok_def)

lemma mp_alloc_step:
  assumes "pool_ok used h m"
  shows "(free_count m = 0 \<and> mp_alloc_v1 (Some m) h = Inr (0, Some m, h)) \<or>
    (\<exists>m'. mp_alloc_v1 (Some m) h = Inr (free_ptr m, Some m', h) \<and> pool_ok (free_ptr m # used) h m' \<and>
       free_count m' = free_count m - 1 \<and> block_size m' = block_size m \<and>
       pool_mem m' = pool_mem m \<and> free_ptr m \<noteq> 0 \<and> free_ptr m \<notin> set used)"
proof (cases "free_count m = 0")
  case True
  then show ?thesis by (simp add: mp_alloc_v1_def)
next
  case False
  with assms have pos: "0 < free_count m" by (simp add: pool_ok_def)
  let ?m = "m\<lparr>free_ptr := ld64 (hbytes h) (free_ptr m), free_count := free_count m - 1\<rparr>"
  from pos have fl: "free_list h m = free_ptr m # free_list h ?m" by (rule free_list_Cons)
  then have "free_ptr m \<in> set (free_list h m)" by (metis list.set_intros(1))
  then have "valid h (free_ptr m) 8" "free_ptr m \<noteq> 0"
    using pool_ok_slot [OF assms] by blast+
  moreover have "pool_ok (free_ptr m # used) h ?m"
    using assms pos fl by (auto simp: pool_ok_def)
  moreover have "free_ptr m \<notin> set used" using assms fl by (auto simp: pool_ok_def)
  ultimately show ?thesis using pos by (intro disjI2) (simp add: mp_alloc_v1_def Let_def)
qed

lemma walk_frame:
  assumes "pool_ok used h m" "hblocks h' = hblocks h"
    and "\<And>a. a \<in> set (free_list h m) \<Longrightarrow> ld64 (hbytes h') a = ld64 (hbytes h) a"
  shows "pool_ok used h' m" "free_list h' m = free_list h m"
proof -
  show fl: "free_list h' m = free_list h m"
    using assms(3) unfolding free_list_def by (intro walk_cong) blast
  with assms(1,2) show "pool_ok used h' m" by (simp add: pool_ok_def heap_ok_def)
qed

lemma mp_free_step:
  assumes ok: "pool_ok (xs @ p # ys) h m"
  shows "\<exists>m' h'. mp_free_v1 (Some m) p h = Inr (Some m', h') \<and> pool_ok (xs @ ys) h' m' \<and>
    free_list h' m' = p # free_list h m \<and> free_count m' = free_count m + 1 \<and>
    block_size m' = block_size m \<and> pool_mem m' = pool_mem m"
proof -
  let ?h = "h\<lparr>hbytes := st64 p (free_ptr m) (hbytes h)\<rparr>"
    and ?m = "m\<lparr>free_ptr := p, free_count := free_count m + 1\<rparr>"
  have p: "valid h p 8" "room p 8" "p \<in> set (slots m)" "p \<notin> set (free_list h m)"
    using ok pool_ok_slot [OF ok, of p] by (auto simp: pool_ok_def)
  have "16 \<le> block_size m" using ok by (simp add: pool_ok_def)
  then have k: "8 \<le> nat (block_size m)" by simp
  have "ld64 (hbytes ?h) a = ld64 (hbytes h) a" if "a \<in> set (free_list h m)" for a
  proof -
    from that p(4) have "a \<noteq> p" by auto
    with pool_ok_apart [OF ok p(3), of a] pool_ok_slot [OF ok, of a] that k
    have "apart p 8 a 8" "room a 8" by (auto intro: apart_mono)
    with p(2) show ?thesis by (simp add: mem_simps)
  qed
  with ok have "pool_ok (xs @ p # ys) ?h m" "free_list ?h m = free_list h m"
    by (auto intro: walk_frame)
  moreover have "free_list ?h ?m = p # free_list ?h m"
    using ok free_list_Cons [of ?m ?h] by (simp add: pool_ok_def free_list_def)
  ultimately have "pool_ok (xs @ ys) ?h ?m" "free_list ?h ?m = p # free_list h m"
    using ok by (auto simp: pool_ok_def)
  with p(1) show ?thesis by (simp add: mp_free_v1_def)
qed

subsection \<open>The contract of a pool of blocks\<close>

text \<open>
  A client sees the pool as an allocator whose regions are whole blocks: the outstanding
  regions are the blocks that were handed out and not given back.
\<close>

definition v1_alloc :: "unit \<Rightarrow> mempool_t \<times> heap \<Rightarrow> fault + (addr \<times> (mempool_t \<times> heap))" where
  "v1_alloc u s = bindE (mp_alloc_v1 (Some (fst s)) (snd s)) (\<lambda>(p, mo, h). Inr (p, (the mo, h)))"

definition v1_release :: "addr \<Rightarrow> mempool_t \<times> heap \<Rightarrow> fault + (mempool_t \<times> heap)" where
  "v1_release p s = bindE (mp_free_v1 (Some (fst s)) p (snd s)) (\<lambda>(mo, h). Inr (the mo, h))"

definition v1_want :: "mempool_t \<times> heap \<Rightarrow> unit \<Rightarrow> nat" where
  "v1_want s r = nat (block_size (fst s))"

definition v1_ok :: "(addr \<times> nat) list \<Rightarrow> mempool_t \<times> heap \<Rightarrow> bool" where
  "v1_ok live s \<longleftrightarrow> pool_ok (map fst live) (snd s) (fst s) \<and>
     (\<forall>x \<in> set live. snd x = nat (block_size (fst s)))"

lemma v1_ok_apart: "v1_ok live s \<Longrightarrow> sorted_wrt blocks_apart live"
proof (induction live)
  case Nil
  then show ?case by simp
next
  case (Cons x live)
  obtain m h where s: "s = (m, h)" by (cases s)
  from Cons.prems s have ok: "pool_ok (fst x # map fst live) h m"
    and k: "\<forall>y \<in> set (x # live). snd y = nat (block_size m)" by (auto simp: v1_ok_def)
  have "blocks_apart x y" if "y \<in> set live" for y
  proof -
    have "fst x \<notin> fst ` set live" using ok by (simp add: pool_ok_def)
    with that have "fst y \<noteq> fst x" by (metis imageI)
    then show ?thesis
      using pool_ok_apart [OF ok, of "fst x" "fst y"] pool_ok_slot [OF ok] k that
      by (auto simp: blocks_apart_def)
  qed
  moreover have "sorted_wrt blocks_apart live"
  proof -
    have "\<forall>y \<in> set live. \<forall>z \<in> set live. fst y \<noteq> fst z \<longrightarrow> blocks_apart y z"
      using pool_ok_apart [OF ok] pool_ok_slot [OF ok] k by (auto simp: blocks_apart_def)
    moreover have "distinct (map fst live)" using ok by (auto simp: pool_ok_def)
    ultimately show ?thesis by (induction live) auto
  qed
  ultimately show ?case by simp
qed

interpretation fixed_pool: block_allocator v1_ok "\<lambda>r s. True" v1_want v1_alloc v1_release
proof unfold_locales
  fix live :: "(addr \<times> nat) list" and s :: "mempool_t \<times> heap" and r :: unit
  assume "v1_ok live s"
  then show "\<exists>p s'. v1_alloc r s = Inr (p, s') \<and>
      v1_ok (if p = 0 then live else (p, v1_want s r) # live) s'"
    using mp_alloc_step [of "map fst live" "snd s" "fst s"]
    by (fastforce simp: v1_ok_def v1_alloc_def v1_want_def)
next
  fix xs ys :: "(addr \<times> nat) list" and x and s :: "mempool_t \<times> heap"
  assume "v1_ok (xs @ x # ys) s"
  then show "\<exists>s'. v1_release (fst x) s = Inr s' \<and> v1_ok (xs @ ys) s'"
    using mp_free_step [of "map fst xs" "fst x" "map fst ys" "snd s" "fst s"]
    by (auto simp: v1_ok_def v1_release_def)
qed (rule v1_ok_apart)

subsection \<open>Properties\<close>

definition empty_heap :: heap where
  "empty_heap = \<lparr>hbytes = (\<lambda>_. 0), hblocks = []\<rparr>"

definition blank_pool :: mempool_t where
  "blank_pool = \<lparr>block_size = 0, free_count = 0, free_ptr = 0, pool_mem = 0\<rparr>"

lemma empty_heap_ok: "heap_ok empty_heap" "fresh 4096 n empty_heap \<longleftrightarrow> 4096 + n < 2 ^ 64"
  by (simp_all add: heap_ok_def empty_heap_def fresh_def room_def)

lemma empty_heap_pool:
  obtains m h where "mp_init_v1 4096 (Some blank_pool) 2000 empty_heap = Inr (0, Some m, h)"
    "pool_ok [] h m" "block_size m = 2000" "free_count m = 2"
  using mp_init_pool_ok [of empty_heap 4096 2000 2000 blank_pool] pool_ok_count [of "[]"]
  by (fastforce simp: empty_heap_ok int32_def pool_ok_def MEM_PAGE_SIZE_def)

text \<open>
  \<open>mp_init\<close> of mempool-v1.c, for a page the allocator has just handed out. The loop
  links all blocks and the statement \<open>*(char **)ptr = NULL\<close> behind it writes one block
  past the last one. When at least eight bytes of the page are left over there, the call returns 0
  and every block is on the free list in address order; otherwise (a block size that divides the
  page, such as the 32 that \<open>main\<close> asks for, or leaves less than eight bytes) the last store
  leaves the page.
\<close>

theorem mp_init_v1_outcome:
  assumes "heap_ok h" "fresh page 4096 h" "int32 size0" "k = max 16 size0"
    and "\<not> valid h (slot page (nat k) (nat (4096 div k))) 8"
  shows "if 8 \<le> 4096 mod k
    then \<exists>m' h'. mp_init_v1 page (Some m) size0 h = Inr (0, Some m', h') \<and> pool_ok [] h' m' \<and>
           free_list h' m' = slots m' \<and> block_size m' = k
    else mp_init_v1 page (Some m) size0 h = Inl (BadAccess (slot page (nat k) (nat (4096 div k))) 8)"
proof (cases "8 \<le> 4096 mod k")
  case True
  with mp_init_pool_ok [OF assms(1,2,4,3) True, of m] show ?thesis by auto
next
  case False
  have "16 \<le> k" using assms(4) by simp
  from mp_init_last_store [OF assms(1,2) this assms(5)] False
  have "\<not> valid (h_malloc page 4096 h) (slot page (nat k) (nat (4096 div k))) 8" by simp
  with mp_init_runs [OF assms(1,2,4,3), of m] False show ?thesis by (auto simp: wr64_def)
qed

theorem mp_init_v1_outcome_witness:
  "(\<exists>m' h'. mp_init_v1 4096 (Some blank_pool) 24 empty_heap = Inr (0, Some m', h') \<and> pool_ok [] h' m') \<and>
   mp_init_v1 4096 (Some blank_pool) 32 empty_heap = Inl (BadAccess 8192 8)"
proof
  have v: "\<not> valid empty_heap a 8" for a by (simp add: valid_def empty_heap_def)
  from mp_init_v1_outcome [of empty_heap 4096 24 24 blank_pool, OF _ _ _ _ v]
  show "\<exists>m' h'. mp_init_v1 4096 (Some blank_pool) 24 empty_heap = Inr (0, Some m', h') \<and> pool_ok [] h' m'"
    by (auto simp: empty_heap_ok int32_def)
  from mp_init_v1_outcome [of empty_heap 4096 32 32 blank_pool, OF _ _ _ _ v]
  show "mp_init_v1 4096 (Some blank_pool) 32 empty_heap = Inl (BadAccess 8192 8)"
    by (simp add: empty_heap_ok int32_def slot_def)
qed

text \<open>
  \<open>mp_alloc\<close> of mempool-v1.c never leaves the page. It answers NULL exactly when all
  blocks are out; otherwise it answers the head of the free list, a block of the page that is not
  out and overlaps no block that is, and takes it off the list.
\<close>

theorem mp_alloc_v1_correct:
  assumes "pool_ok used h m"
  shows "if length used = nat (MEM_PAGE_SIZE div block_size m)
    then mp_alloc_v1 (Some m) h = Inr (0, Some m, h)
    else \<exists>p m'. mp_alloc_v1 (Some m) h = Inr (p, Some m', h) \<and> p \<noteq> 0 \<and>
           pool_ok (p # used) h m' \<and> free_list h m = p # free_list h m' \<and>
           valid h p (nat (block_size m)) \<and>
           (\<forall>q \<in> set used. apart p (nat (block_size m)) q (nat (block_size m)))"
proof (cases "free_count m = 0")
  case True
  then show ?thesis using mp_alloc_step [OF assms] pool_ok_count [OF assms] by (auto simp: mp_alloc_v1_def)
next
  case False
  then have pos: "0 < free_count m" using assms by (simp add: pool_ok_def)
  let ?m = "m\<lparr>free_ptr := ld64 (hbytes h) (free_ptr m), free_count := free_count m - 1\<rparr>"
  have fl: "free_list h m = free_ptr m # free_list h ?m" by (rule free_list_Cons [OF pos])
  then have "free_ptr m \<in> set (free_list h m)" by (metis list.set_intros(1))
  note p = pool_ok_slot [OF assms disjI1, OF this]
  from False mp_alloc_step [OF assms] p(2)
  have run: "mp_alloc_v1 (Some m) h = Inr (free_ptr m, Some ?m, h)" "pool_ok (free_ptr m # used) h ?m"
    "free_ptr m \<notin> set used" using p(1) by (auto simp: mp_alloc_v1_def Let_def)
  moreover have "\<forall>q \<in> set used. apart (free_ptr m) (nat (block_size m)) q (nat (block_size m))"
    using pool_ok_apart [OF assms p(4)] pool_ok_slot(4) [OF assms] run(3) by metis
  ultimately show ?thesis using p fl pos pool_ok_count [OF assms] by auto
qed

theorem mp_alloc_v1_correct_witness:
  "\<exists>p m h m'. pool_ok [] h m \<and> mp_alloc_v1 (Some m) h = Inr (p, Some m', h) \<and> p \<noteq> 0 \<and> pool_ok [p] h m'"
proof (rule empty_heap_pool)
  fix m h
  assume "pool_ok [] h m" "block_size m = 2000"
  with mp_alloc_v1_correct [of "[]" h m] show ?thesis by (auto simp: MEM_PAGE_SIZE_def)
qed

text \<open>
  C24: \<open>mp_free\<close> of mempool-v1.c on a block that is out puts it back without leaving the
  page, and the pool is last-in first-out: the next \<open>mp_alloc\<close> answers this very block and
  leaves the pool's bookkeeping as it was.
\<close>

theorem mp_free_v1_roundtrip:
  assumes "pool_ok used h m" "p \<in> set used"
  shows "\<exists>m1 h1. mp_free_v1 (Some m) p h = Inr (Some m1, h1) \<and> pool_ok (remove1 p used) h1 m1 \<and>
    free_list h1 m1 = p # free_list h m \<and>
    mp_alloc_v1 (Some m1) h1 = Inr (p, Some m, h1)"
proof -
  from assms(2) obtain xs ys where used: "used = xs @ p # ys" by (meson split_list)
  with assms(1) have "p \<notin> set xs" by (simp add: pool_ok_def)
  with used have rem: "remove1 p used = xs @ ys" by (simp add: remove1_append)
  from assms(1) used have ok: "pool_ok (xs @ p # ys) h m" by simp
  have v: "valid h p 8" using pool_ok_slot(2) [OF ok] pool_ok_slot(1) [OF ok, of p] by simp
  from mp_free_step [OF ok] obtain m1 h1 where
    "mp_free_v1 (Some m) p h = Inr (Some m1, h1)" "pool_ok (xs @ ys) h1 m1"
    "free_list h1 m1 = p # free_list h m" by blast
  moreover from this(1) v have "mp_alloc_v1 (Some m1) h1 = Inr (p, Some m, h1)"
    using ok by (auto simp: mp_free_v1_def mp_alloc_v1_def pool_ok_def Let_def)
  ultimately show ?thesis using rem by metis
qed

theorem mp_free_v1_roundtrip_witness:
  "\<exists>p m h m1 h1. mp_free_v1 (Some m) p h = Inr (Some m1, h1) \<and> mp_alloc_v1 (Some m1) h1 = Inr (p, Some m, h1)"
proof (rule empty_heap_pool)
  fix m h
  assume "pool_ok [] h m" "free_count m = 2"
  with mp_alloc_step [of "[]" h m] obtain m' where "pool_ok [free_ptr m] h m'" by auto
  from mp_free_v1_roundtrip [OF this, of "free_ptr m"] show ?thesis by fastforce
qed

text \<open>
  C8: any sequence of \<open>mp_alloc\<close> and \<open>mp_free\<close> calls on a pool of mempool-v1.c, in
  which only blocks that are out are given back, runs without a fault, and at its end the blocks
  that are out do not overlap.
\<close>

theorem mp_v1_run_safe:
  assumes "v1_ok live (m, h)"
  shows "\<exists>live' s'. run_pool v1_alloc v1_release v1_want ops live (m, h) = Inr (live', s') \<and>
    v1_ok live' s' \<and> sorted_wrt blocks_apart live'"
  using assms admissible_all by (rule fixed_pool.run_ops)

theorem mp_v1_run_safe_witness:
  "\<exists>m h live' s'. pool_ok [] h m \<and>
     run_pool v1_alloc v1_release v1_want [Take (), Take (), Give 1, Take (), Take ()] [] (m, h)
       = Inr (live', s') \<and> v1_ok live' s' \<and> sorted_wrt blocks_apart live'"
proof (rule empty_heap_pool)
  fix m h
  assume ok: "pool_ok [] h m"
  then have "v1_ok [] (m, h)" by (simp add: v1_ok_def)
  from mp_v1_run_safe [OF this] ok show ?thesis by blast
qed

text \<open>
  What a client writes inside a block that is out does not disturb the pool: the free
  list is read from the free blocks only.
\<close>

theorem mp_v1_client_writes:
  assumes "pool_ok used h m" "p \<in> set used" "within q 8 (p, nat (block_size m))"
  shows "\<exists>h'. wr64 h q v = Inr h' \<and> pool_ok used h' m \<and> free_list h' m = free_list h m"
proof -
  have p: "valid h p (nat (block_size m))" "p \<in> set (slots m)"
    using pool_ok_slot [OF assms(1)] assms(2) by blast+
  from p(1) obtain b where "b \<in> set (hblocks h)" "within p (nat (block_size m)) b"
    by (auto simp: valid_alt)
  with assms(3) have v: "valid h q 8" unfolding valid_alt by (intro bexI [of _ b]) (auto simp: within_def)
  have "ld64 (st64 q v (hbytes h)) a = ld64 (hbytes h) a" if a: "a \<in> set (free_list h m)" for a
  proof -
    have "a \<noteq> p" using a assms(1,2) by (auto simp: pool_ok_def)
    with pool_ok_apart [OF assms(1) p(2)] pool_ok_slot [OF assms(1)] a
    have "apart p (nat (block_size m)) a (nat (block_size m))" "room a 8" by blast+
    moreover have "8 \<le> nat (block_size m)" using assms(3) by (simp add: within_def)
    ultimately have "apart q 8 a 8" using assms(3) by (auto simp: apart_def within_def)
    moreover have "room q 8" using assms(1) v by (auto simp: pool_ok_def intro: valid_room)
    ultimately show ?thesis using \<open>room a 8\<close> by (simp add: mem_simps)
  qed
  with v walk_frame [OF assms(1), of "h\<lparr>hbytes := st64 q v (hbytes h)\<rparr>"] show ?thesis by simp
qed

theorem mp_v1_client_writes_witness:
  "\<exists>m h h' p. pool_ok [p] h m \<and> wr64 h p 7 = Inr h' \<and> pool_ok [p] h' m"
proof (rule empty_heap_pool)
  fix m h
  assume ok: "pool_ok [] h m" and b: "block_size m = 2000" and c: "free_count m = 2"
  then obtain m' where "pool_ok [free_ptr m] h m'" "block_size m' = 2000"
    using mp_alloc_step [of "[]" h m] by auto
  with mp_v1_client_writes [of "[free_ptr m]" h m' "free_ptr m" "free_ptr m" 7] show ?thesis
    by (fastforce simp: within_def)
qed

end
