(* ===== verification/Mempool_Paged.thy ===== *)
theory Mempool_Paged
  imports Interfaces
begin

text \<open>
  The pool of pages (\<^verbatim>\<open>3_pool/3.1.2-mempool-main/mempool.c\<close>): pages of \<open>max\<close> bytes,
  each headed by an \<open>mp_node_t\<close> (\<open>free_ptr\<close> at offset 0, \<open>end\<close> at 8, \<open>next\<close> at 16, 24 bytes
  in all), linked from the newest to the oldest; a request takes bytes off the first page that
  has enough of them, or off a new page. The node headers live in the checked byte memory; the
  loops that follow \<open>next\<close> may not end on a cyclic list, so they are partial functions.
\<close>

subsection \<open>The pool and its operations\<close>

definition node_size :: nat where
  "node_size = 24"

record mp_pool_t =
  first :: addr
  current :: addr
  max_size :: int

definition mp_new_node :: "addr \<Rightarrow> int \<Rightarrow> addr \<Rightarrow> heap \<Rightarrow> fault + heap" where
  "mp_new_node p sz nxt h =
     bindE (wr64 h p (p + of_nat node_size)) (\<lambda>h1.
     bindE (wr64 h1 (p + 8) (p + of_int sz)) (\<lambda>h2.
     wr64 h2 (p + 16) nxt))"

definition mp_init ::
    "addr \<Rightarrow> mp_pool_t option \<Rightarrow> int \<Rightarrow> heap \<Rightarrow> fault + (int \<times> mp_pool_t option \<times> heap)" where
  "mp_init page mo sz h =
     (case mo of
        None \<Rightarrow> Inr (- 1, None, h)
      | Some m \<Rightarrow>
          bindE (mp_new_node page sz 0 (h_malloc page (size_t_of_int sz) h)) (\<lambda>h1.
          Inr (0, Some (m\<lparr>first := page, current := page, max_size := sz\<rparr>), h1)))"

partial_function (option) mp_dest_loop ::
    "mp_pool_t \<Rightarrow> heap \<Rightarrow> (fault + (mp_pool_t \<times> heap)) option" where
  "mp_dest_loop m h =
     (if first m \<noteq> 0 then Some (Inr (m, h))
      else
        let a = first m
        in case rd64 h (a + 16) of
             Inl e \<Rightarrow> Some (Inl e)
           | Inr nxt \<Rightarrow>
               (case h_free a h of
                  Inl e \<Rightarrow> Some (Inl e)
                | Inr h1 \<Rightarrow> mp_dest_loop (m\<lparr>first := nxt\<rparr>) h1))"

definition mp_dest ::
    "mp_pool_t option \<Rightarrow> heap \<Rightarrow> (fault + (mp_pool_t option \<times> heap)) option" where
  "mp_dest mo h =
     (case mo of
        None \<Rightarrow> Some (Inr (None, h))
      | Some m \<Rightarrow> map_option (\<lambda>r. bindE r (\<lambda>(m', h'). Inr (Some m', h'))) (mp_dest_loop m h))"

text \<open>
  The \<open>do ... while (node)\<close> loop: the first node with enough room, or null. The comparison is
  one of signed 64-bit numbers (\<open>ptrdiff_t\<close>).
\<close>

partial_function (option) mp_scan :: "heap \<Rightarrow> int \<Rightarrow> addr \<Rightarrow> (fault + addr) option" where
  "mp_scan h sz node =
     (case rd64 h (node + 8) of
        Inl e \<Rightarrow> Some (Inl e)
      | Inr en \<Rightarrow>
          (case rd64 h node of
             Inl e \<Rightarrow> Some (Inl e)
           | Inr fp \<Rightarrow>
               if sz \<le> sint (en - fp) then Some (Inr node)
               else
                 (case rd64 h (node + 16) of
                    Inl e \<Rightarrow> Some (Inl e)
                  | Inr nxt \<Rightarrow> if nxt = 0 then Some (Inr 0) else mp_scan h sz nxt)))"

definition mp_take :: "addr \<Rightarrow> int \<Rightarrow> heap \<Rightarrow> fault + (addr \<times> heap)" where
  "mp_take node sz h =
     bindE (rd64 h node) (\<lambda>ptr.
     bindE (wr64 h node (ptr + of_int sz)) (\<lambda>h1. Inr (ptr, h1)))"

definition mp_alloc ::
    "addr \<Rightarrow> mp_pool_t \<Rightarrow> int \<Rightarrow> heap \<Rightarrow> (fault + (addr \<times> mp_pool_t \<times> heap)) option" where
  "mp_alloc page m sz h =
     (case mp_scan h sz (current m) of
        None \<Rightarrow> None
      | Some r \<Rightarrow> Some (
          bindE r (\<lambda>node.
          if node \<noteq> 0 then bindE (mp_take node sz h) (\<lambda>(ptr, h1). Inr (ptr, m, h1))
          else
            bindE (mp_new_node page (max_size m) (current m)
                     (h_malloc page (size_t_of_int (max_size m)) h)) (\<lambda>h1.
            bindE (mp_take page sz h1) (\<lambda>(ptr, h2).
            Inr (ptr, m\<lparr>current := page\<rparr>, h2))))))"

definition mp_free :: "mp_pool_t option \<Rightarrow> addr \<Rightarrow> heap \<Rightarrow> fault + (mp_pool_t option \<times> heap)" where
  "mp_free mo ptr h = Inr (mo, h)"

subsection \<open>The pages in memory and the invariant\<close>

primrec nodes :: "mem \<Rightarrow> addr \<Rightarrow> addr list \<Rightarrow> bool" where
  "nodes m p [] \<longleftrightarrow> p = 0"
| "nodes m p (n # ns) \<longleftrightarrow> n \<noteq> 0 \<and> p = n \<and> nodes m (ld64 m (n + 16)) ns"

definition node_ok :: "heap \<Rightarrow> nat \<Rightarrow> addr \<Rightarrow> bool" where
  "node_ok h mx n \<longleftrightarrow> (n, mx) \<in> set (hblocks h) \<and>
     unat n + node_size \<le> unat (ld64 (hbytes h) n) \<and> unat (ld64 (hbytes h) n) \<le> unat n + mx \<and>
     ld64 (hbytes h) (n + 8) = n + of_nat mx"

definition page_ok :: "addr list \<Rightarrow> (addr \<times> nat) list \<Rightarrow> heap \<Rightarrow> mp_pool_t \<Rightarrow> bool" where
  "page_ok ns live h m \<longleftrightarrow>
     heap_ok h \<and> int node_size \<le> max_size m \<and> int32 (max_size m) \<and>
     nodes (hbytes h) (current m) ns \<and> ns \<noteq> [] \<and> last ns = first m \<and> distinct ns \<and>
     (\<forall>n \<in> set ns. node_ok h (nat (max_size m)) n) \<and>
     (\<forall>x \<in> set live. \<exists>n \<in> set ns. unat n + node_size \<le> unat (fst x) \<and>
        unat (fst x) + snd x \<le> unat (ld64 (hbytes h) n)) \<and>
     sorted_wrt blocks_apart live"

definition space :: "heap \<Rightarrow> mp_pool_t \<Rightarrow> addr \<Rightarrow> nat" where
  "space h m n = unat n + nat (max_size m) - unat (ld64 (hbytes h) n)"

lemma page_fields_apart:
  assumes "heap_ok h" "(n, mx) \<in> set (hblocks h)" "(n', mx) \<in> set (hblocks h)"
    and "i + 8 \<le> mx" "j + 8 \<le> mx" "n = n' \<Longrightarrow> i + 8 \<le> j \<or> j + 8 \<le> i"
  shows "apart (n + of_nat i) 8 (n' + of_nat j) 8"
proof (cases "n = n'")
  case True
  with assms field_valid(2) [of h n mx i 8] field_valid(2) [of h n' mx j 8]
  show ?thesis by (auto simp: apart_def)
next
  case False
  with heap_ok_apart [OF assms(1-3)] have "apart n mx n' mx" by (simp add: blocks_apart_def)
  with assms field_valid(2) [of h n mx i 8] field_valid(2) [of h n' mx j 8]
  show ?thesis by (auto simp: apart_def)
qed

definition node_cells :: "addr \<Rightarrow> addr set" where
  "node_cells n = {n, n + 8, n + 16}"

lemma node_cells_valid:
  assumes "heap_ok h" "(n, mx) \<in> set (hblocks h)" "24 \<le> mx" "a \<in> node_cells n"
  shows "valid h a 8" "room a 8"
proof -
  show "valid h a 8"
    using field_valid(1) [OF assms(1,2), of 0 8] field_valid(1) [OF assms(1,2), of 8 8]
      field_valid(1) [OF assms(1,2), of 16 8] assms(3,4) by (auto simp: node_cells_def)
  with assms(1) show "room a 8" by (rule valid_room)
qed

lemma node_cells_frame:
  assumes h: "heap_ok h" and n: "(n, mx) \<in> set (hblocks h)" "(n', mx) \<in> set (hblocks h)" "24 \<le> mx"
    and c: "a \<in> node_cells n" "b \<in> node_cells n'" "n \<noteq> n' \<or> a \<noteq> b"
  shows "ld64 (st64 a v m) b = ld64 m b"
proof -
  have "\<exists>i \<in> {0, 8, 16}. a = n + of_nat i" "\<exists>j \<in> {0, 8, 16}. b = n' + of_nat j"
    using c by (auto simp: node_cells_def)
  then obtain i j where ij: "i \<in> {0, 8, 16}" "j \<in> {0, 8, 16}" "a = n + of_nat i" "b = n' + of_nat j"
    by blast
  with c(3) have "n = n' \<Longrightarrow> i \<noteq> j" by auto
  with ij(1,2) have "n = n' \<Longrightarrow> i + 8 \<le> j \<or> j + 8 \<le> i" by auto
  with ij n h have "apart a 8 b 8" using page_fields_apart [OF h n(1,2), of i j] by auto
  with node_cells_valid [OF h n(1,3) c(1)] node_cells_valid [OF h n(2,3) c(2)]
  show ?thesis by (simp add: mem_simps)
qed

lemma node_ok_end:
  assumes "heap_ok h" "node_ok h mx n" "mx < 2 ^ 63"
  shows "sint (ld64 (hbytes h) (n + 8) - ld64 (hbytes h) n) =
    int (unat n + mx - unat (ld64 (hbytes h) n))"
proof -
  let ?f = "ld64 (hbytes h) n"
  have "room n mx" using assms(1,2) by (force simp: heap_ok_def node_ok_def)
  then have un: "unat (n + of_nat mx) = unat n + mx"
    by (intro unat_add_room_le) (simp add: room_def)
  then have "unat (n + of_nat mx - ?f) = unat n + mx - unat ?f"
    using assms(2) by (subst unat_sub) (auto simp: node_ok_def word_le_nat_alt)
  moreover have "unat n + mx - unat ?f < 2 ^ 63" using assms(2,3) by (auto simp: node_ok_def)
  ultimately have "unat (n + of_nat mx - ?f) < 2 ^ 63" by simp
  then have "sint (n + of_nat mx - ?f) = int (unat (n + of_nat mx - ?f))" by (rule sint_small)
  with assms(2) \<open>unat (n + of_nat mx - ?f) = _\<close> show ?thesis by (simp add: node_ok_def)
qed

lemma page_ok_node:
  assumes "page_ok ns live h m" "n \<in> set ns"
  shows "node_ok h (nat (max_size m)) n" "(n, nat (max_size m)) \<in> set (hblocks h)"
    "24 \<le> nat (max_size m)" "nat (max_size m) < 2 ^ 31"
  using assms by (auto simp: page_ok_def node_ok_def node_size_def int32_def)

lemma mp_scan_spec:
  assumes "heap_ok h" "24 \<le> mx" "mx < 2 ^ 63" "nodes (hbytes h) p ns" "ns \<noteq> []"
    and "\<forall>n \<in> set ns. node_ok h mx n"
  shows "mp_scan h sz p = Some (Inr (case find (\<lambda>n. sz \<le> int (unat n + mx - unat (ld64 (hbytes h) n))) ns of
     None \<Rightarrow> 0 | Some n \<Rightarrow> n))"
  using assms(4-)
proof (induction ns arbitrary: p)
  case Nil
  then show ?case by simp
next
  case (Cons n ns)
  then have n: "p = n" "n \<noteq> 0" "node_ok h mx n" "(n, mx) \<in> set (hblocks h)" by (auto simp: node_ok_def)
  have v: "valid h n 8" "valid h (n + 8) 8" "valid h (n + 16) 8"
    using node_cells_valid [OF assms(1) n(4) assms(2)] by (auto simp: node_cells_def)
  note e = node_ok_end [OF assms(1) n(3) assms(3)]
  show ?case
  proof (cases "ns = []")
    case True
    with Cons.prems(1) n v e show ?thesis by (subst mp_scan.simps) simp
  next
    case False
    with Cons have "mp_scan h sz (ld64 (hbytes h) (n + 16)) =
      Some (Inr (case find (\<lambda>n. sz \<le> int (unat n + mx - unat (ld64 (hbytes h) n))) ns of
        None \<Rightarrow> 0 | Some n \<Rightarrow> n))" by simp
    moreover have "ld64 (hbytes h) (n + 16) \<noteq> 0" using Cons.prems(1) False n(1) by (cases ns) auto
    ultimately show ?thesis using n v e by (subst mp_scan.simps) simp
  qed
qed

lemma region_in_page:
  assumes "page_ok ns live h m" "x \<in> set live" "n \<in> set ns"
    and "unat a + k \<le> unat n + nat (max_size m)" "unat (ld64 (hbytes h) n) \<le> unat a"
  shows "blocks_apart (a, k) x"
proof -
  from assms(1,2) obtain n' where n': "n' \<in> set ns" "unat n' + node_size \<le> unat (fst x)"
    "unat (fst x) + snd x \<le> unat (ld64 (hbytes h) n')" by (auto simp: page_ok_def)
  show ?thesis
  proof (cases "n' = n")
    case True
    with n' assms(5) show ?thesis by (simp add: blocks_apart_def apart_def)
  next
    case False
    have "blocks_apart (n, nat (max_size m)) (n', nat (max_size m))"
      using assms(1,3) n'(1) False page_ok_node(2) [OF assms(1)]
      by (intro heap_ok_apart [of h]) (auto simp: page_ok_def)
    moreover have "unat (ld64 (hbytes h) n') \<le> unat n' + nat (max_size m)"
      "unat n + node_size \<le> unat (ld64 (hbytes h) n)"
      using page_ok_node(1) [OF assms(1)] n'(1) assms(3) by (auto simp: node_ok_def)
    ultimately show ?thesis using n' assms(4,5) by (auto simp: blocks_apart_def apart_def)
  qed
qed

lemma nodes_cong:
  "\<forall>n \<in> set ns. ld64 m' (n + 16) = ld64 m (n + 16) \<Longrightarrow> nodes m' p ns = nodes m p ns"
  by (induction ns arbitrary: p) auto

lemma mp_take_ok:
  assumes ok: "page_ok ns live h m" and n: "n \<in> set ns" and sz: "0 \<le> sz" "sz \<le> int (space h m n)"
  shows "\<exists>h'. mp_take n sz h = Inr (ld64 (hbytes h) n, h') \<and> hblocks h' = hblocks h \<and>
    page_ok ns ((ld64 (hbytes h) n, nat sz) # live) h' m \<and>
    unat (ld64 (hbytes h') n) = unat (ld64 (hbytes h) n) + nat sz \<and>
    (\<forall>n' \<in> set ns. n' \<noteq> n \<longrightarrow> ld64 (hbytes h') n' = ld64 (hbytes h) n')"
proof -
  let ?f = "ld64 (hbytes h) n" and ?mx = "nat (max_size m)"
  let ?h = "h\<lparr>hbytes := st64 n (?f + of_int sz) (hbytes h)\<rparr>"
  have hok: "heap_ok h" using ok by (simp add: page_ok_def)
  note pn = page_ok_node [OF ok]
  have v: "valid h n 8"
    using node_cells_valid [OF hok pn(2,3)] n by (auto simp: node_cells_def)
  have rm: "unat n + ?mx < 2 ^ 64" using hok pn(2) [OF n] by (force simp: heap_ok_def room_def)
  have f: "unat n + node_size \<le> unat ?f" "unat ?f \<le> unat n + ?mx" using pn(1) [OF n] by (auto simp: node_ok_def)
  have sz': "unat ?f + nat sz \<le> unat n + ?mx"
  proof -
    have "nat sz \<le> space h m n" using sz(2) by (simp only: nat_le_iff)
    with f(2) show ?thesis unfolding space_def by linarith
  qed
  have "of_int sz = (of_nat (nat sz) :: addr)" using sz(1) by simp
  then have f': "unat (?f + of_int sz) = unat ?f + nat sz"
    using sz' rm by (simp only:) (rule unat_add_room_le, linarith)
  have same: "ld64 (hbytes ?h) b = ld64 (hbytes h) b"
    if "n' \<in> set ns" "b \<in> node_cells n'" "n \<noteq> n' \<or> n \<noteq> b" for n' b
    using node_cells_frame [OF hok pn(2) [OF n] pn(2) [OF that(1)] pn(3) [OF n], of n b] that
    by (auto simp: node_cells_def)
  have "node_ok ?h ?mx n'" if "n' \<in> set ns" for n'
    using pn(1) [OF that] same [OF that, of n'] same [OF that, of "n' + 8"] f' f sz'
    by (cases "n' = n") (auto simp: node_ok_def node_cells_def)
  moreover have "nodes (hbytes ?h) (current m) ns"
    using ok same by (subst nodes_cong [of _ _ "hbytes h"]) (auto simp: page_ok_def node_cells_def)
  moreover have "\<exists>n' \<in> set ns. unat n' + node_size \<le> unat (fst x) \<and>
      unat (fst x) + snd x \<le> unat (ld64 (hbytes ?h) n')" if "x \<in> set live" for x
  proof -
    from ok that obtain n' where "n' \<in> set ns" "unat n' + node_size \<le> unat (fst x)"
      "unat (fst x) + snd x \<le> unat (ld64 (hbytes h) n')" by (auto simp: page_ok_def)
    moreover from this have "unat (ld64 (hbytes h) n') \<le> unat (ld64 (hbytes ?h) n')"
      using same [of n' n'] f' by (cases "n' = n") (auto simp: node_cells_def)
    ultimately show ?thesis by force
  qed
  moreover have "blocks_apart (?f, nat sz) x" if "x \<in> set live" for x
    using region_in_page [OF ok that n sz'] by simp
  moreover have "\<exists>n' \<in> set ns. unat n' + node_size \<le> unat ?f \<and> unat ?f + nat sz \<le> unat (ld64 (hbytes ?h) n')"
    using n f f' by (intro bexI [of _ n]) auto
  ultimately have "page_ok ns ((?f, nat sz) # live) ?h m"
    using ok by (simp add: page_ok_def)
  with v f' same show ?thesis
    by (intro exI [of _ ?h]) (simp add: mp_take_def node_cells_def)
qed

lemma mp_new_node_bytes:
  assumes "heap_ok h" "(p, mx) \<in> set (hblocks h)" "24 \<le> mx"
  shows "\<exists>b. mp_new_node p (int mx) nxt h = Inr (h\<lparr>hbytes := b\<rparr>) \<and>
    ld64 b p = p + 24 \<and> ld64 b (p + 8) = p + of_nat mx \<and> ld64 b (p + 16) = nxt \<and>
    (\<forall>n' a. (n', mx) \<in> set (hblocks h) \<longrightarrow> n' \<noteq> p \<longrightarrow> a \<in> node_cells n' \<longrightarrow> ld64 b a = ld64 (hbytes h) a)"
proof -
  let ?b = "st64 (p + 16) nxt (st64 (p + 8) (p + of_nat mx) (st64 p (p + 24) (hbytes h)))"
  have v: "valid h a 8" if "a \<in> node_cells p" for a
    using node_cells_valid [OF assms that] by blast
  note fr = node_cells_frame [OF assms(1,2) _ assms(3)]
  have "ld64 ?b p = p + 24" "ld64 ?b (p + 8) = p + of_nat mx" "ld64 ?b (p + 16) = nxt"
    using fr [OF assms(2), of "p + 16" p] fr [OF assms(2), of "p + 8" p]
      fr [OF assms(2), of "p + 16" "p + 8"] by (simp_all add: node_cells_def)
  moreover have "ld64 ?b a = ld64 (hbytes h) a"
    if "(n', mx) \<in> set (hblocks h)" "n' \<noteq> p" "a \<in> node_cells n'" for n' a
    using fr [OF that(1) _ that(3)] that(2) by (simp add: node_cells_def)
  moreover have "mp_new_node p (int mx) nxt h = Inr (h\<lparr>hbytes := ?b\<rparr>)"
    using v by (simp add: mp_new_node_def node_cells_def node_size_def)
  ultimately show ?thesis by blast
qed

lemma mp_new_page_ok:
  assumes ok: "page_ok ns live h m" and fr: "fresh page (nat (max_size m)) h"
  defines "h0 \<equiv> h_malloc page (nat (max_size m)) h"
  shows "\<exists>h'. mp_new_node page (max_size m) (current m) h0 = Inr h' \<and>
    hblocks h' = (page, nat (max_size m)) # hblocks h \<and> ld64 (hbytes h') page = page + 24 \<and>
    page_ok (page # ns) live h' (m\<lparr>current := page\<rparr>)"
proof -
  let ?mx = "nat (max_size m)"
  have hok: "heap_ok h" and mx: "24 \<le> ?mx" "int ?mx = max_size m"
    using ok by (auto simp: page_ok_def node_size_def)
  have page: "page \<noteq> 0" using fr by (simp add: fresh_def)
  have h0: "heap_ok h0" "(page, ?mx) \<in> set (hblocks h0)" "hbytes h0 = hbytes h"
    using heap_ok_malloc [OF hok fr] page by (auto simp: h0_def h_malloc_def)
  from mp_new_node_bytes [OF h0(1,2) mx(1), of "current m"] obtain b where
    run: "mp_new_node page (max_size m) (current m) h0 = Inr (h0\<lparr>hbytes := b\<rparr>)"
    and new: "ld64 b page = page + 24" "ld64 b (page + 8) = page + of_nat ?mx" "ld64 b (page + 16) = current m"
    and old: "\<And>n' a. (n', ?mx) \<in> set (hblocks h0) \<Longrightarrow> n' \<noteq> page \<Longrightarrow> a \<in> node_cells n' \<Longrightarrow>
      ld64 b a = ld64 (hbytes h) a"
    using mx(2) h0(3) by auto
  let ?h = "h0\<lparr>hbytes := b\<rparr>"
  have blocks: "hblocks ?h = (page, ?mx) # hblocks h" using page by (simp add: h0_def h_malloc_def)
  note pn = page_ok_node [OF ok]
  have notin: "page \<notin> set ns"
  proof
    assume "page \<in> set ns"
    with pn(2) fr have "apart page ?mx page ?mx" by (force simp: fresh_def blocks_apart_def)
    with mx(1) show False by (simp add: apart_irrefl)
  qed
  have same: "ld64 b a = ld64 (hbytes h) a" if "n \<in> set ns" "a \<in> node_cells n" for n a
    using old [of n a] that notin pn(2) [OF that(1)] page by (auto simp: h0_def h_malloc_def)
  have "unat (page + 24) = unat page + 24"
    using field_valid(2) [OF h0(1,2), of 24 0] fr mx(1) unat_add_room_le [of page 24]
    by (auto simp: fresh_def room_def)
  then have "node_ok ?h ?mx page" using new blocks mx(1) by (simp add: node_ok_def node_size_def)
  moreover have "node_ok ?h ?mx n" if "n \<in> set ns" for n
    using pn(1) [OF that] same [OF that] blocks by (auto simp: node_ok_def node_cells_def)
  moreover have "nodes b (current m) ns"
    using ok same by (subst nodes_cong [of _ _ "hbytes h"]) (auto simp: page_ok_def node_cells_def)
  moreover have "\<exists>n \<in> set (page # ns). unat n + node_size \<le> unat (fst x) \<and>
      unat (fst x) + snd x \<le> unat (ld64 b n)" if "x \<in> set live" for x
    using ok that same by (force simp: page_ok_def node_cells_def)
  ultimately have "page_ok (page # ns) live ?h (m\<lparr>current := page\<rparr>)"
    using ok h0(1) page notin new(3) by (simp add: page_ok_def)
  with run blocks new(1) show ?thesis by (intro exI [of _ ?h]) simp
qed

lemma find_space:
  assumes "page_ok ns live h m"
  shows "mp_scan h sz (current m) = Some (Inr (case find (\<lambda>n. sz \<le> int (space h m n)) ns of
    None \<Rightarrow> 0 | Some n \<Rightarrow> n))"
proof -
  have "ns \<noteq> []" using assms by (simp add: page_ok_def)
  then have "24 \<le> nat (max_size m)" "nat (max_size m) < 2 ^ 63"
    using page_ok_node(3,4) [OF assms, of "hd ns"] by auto
  with assms show ?thesis
    unfolding space_def by (intro mp_scan_spec) (auto simp: page_ok_def)
qed

lemma find_SomeD: "find P xs = Some x \<Longrightarrow> x \<in> set xs \<and> P x"
  by (induction xs) (auto split: if_splits)

lemma nodes_nonzero: "nodes m p ns \<Longrightarrow> 0 \<notin> set ns"
  by (induction ns arbitrary: p) auto

lemma mp_alloc_old_page:
  assumes ok: "page_ok ns live h m" and sz: "0 \<le> sz"
    and n: "find (\<lambda>n. sz \<le> int (space h m n)) ns = Some n"
  shows "\<exists>h'. mp_alloc page m sz h = Some (Inr (ld64 (hbytes h) n, m, h')) \<and> hblocks h' = hblocks h \<and>
    page_ok ns ((ld64 (hbytes h) n, nat sz) # live) h' m"
proof -
  from find_SomeD [OF n] have "n \<in> set ns" "sz \<le> int (space h m n)" by auto
  from mp_take_ok [OF ok this(1) sz this(2)] obtain h' where
    "mp_take n sz h = Inr (ld64 (hbytes h) n, h')" "hblocks h' = hblocks h"
    "page_ok ns ((ld64 (hbytes h) n, nat sz) # live) h' m" by blast
  moreover have "n \<noteq> 0" using ok \<open>n \<in> set ns\<close> nodes_nonzero by (auto simp: page_ok_def)
  ultimately show ?thesis using find_space [OF ok, of sz] n by (simp add: mp_alloc_def)
qed

lemma mp_alloc_new_page:
  assumes ok: "page_ok ns live h m" and sz: "0 \<le> sz" "sz \<le> max_size m - int node_size"
    and n: "find (\<lambda>n. sz \<le> int (space h m n)) ns = None" and fr: "fresh page (nat (max_size m)) h"
  shows "\<exists>h'. mp_alloc page m sz h = Some (Inr (page + 24, m\<lparr>current := page\<rparr>, h')) \<and>
    hblocks h' = (page, nat (max_size m)) # hblocks h \<and>
    page_ok (page # ns) ((page + 24, nat sz) # live) h' (m\<lparr>current := page\<rparr>)"
proof -
  let ?m = "m\<lparr>current := page\<rparr>"
  from mp_new_page_ok [OF ok fr] obtain h1 where
    run: "mp_new_node page (max_size m) (current m) (h_malloc page (nat (max_size m)) h) = Inr h1"
    and h1: "hblocks h1 = (page, nat (max_size m)) # hblocks h" "ld64 (hbytes h1) page = page + 24"
      "page_ok (page # ns) live h1 ?m" by blast
  have "unat (page + 24) = unat page + 24"
    using fr unat_add_room_le [of page 24] ok by (auto simp: fresh_def room_def page_ok_def node_size_def)
  then have "sz \<le> int (space h1 ?m page)"
    using sz h1(2) by (simp add: space_def node_size_def of_nat_diff)
  with mp_take_ok [OF h1(3) _ sz(1)] h1(1,2) obtain h2 where
    "mp_take page sz h1 = Inr (page + 24, h2)" "hblocks h2 = (page, nat (max_size m)) # hblocks h"
    "page_ok (page # ns) ((page + 24, nat sz) # live) h2 ?m" by fastforce
  moreover have "size_t_of_int (max_size m) = nat (max_size m)"
    using ok by (intro size_t_of_int_nonneg) (auto simp: page_ok_def node_size_def)
  ultimately show ?thesis using run find_space [OF ok, of sz] n by (simp add: mp_alloc_def)
qed

subsection \<open>The contract of a pool of regions\<close>

definition paged_alloc :: "addr \<times> int \<Rightarrow> mp_pool_t \<times> heap \<Rightarrow> fault + (addr \<times> (mp_pool_t \<times> heap))" where
  "paged_alloc r s =
     (case mp_alloc (fst r) (fst s) (snd r) (snd s) of
        None \<Rightarrow> Inl Diverges
      | Some x \<Rightarrow> bindE x (\<lambda>(p, m, h). Inr (p, (m, h))))"

definition paged_ok :: "(addr \<times> nat) list \<Rightarrow> mp_pool_t \<times> heap \<Rightarrow> bool" where
  "paged_ok live s \<longleftrightarrow> (\<exists>ns. page_ok ns live (snd s) (fst s))"

definition paged_may :: "addr \<times> int \<Rightarrow> mp_pool_t \<times> heap \<Rightarrow> bool" where
  "paged_may r s \<longleftrightarrow> fresh (fst r) (nat (max_size (fst s))) (snd s) \<and>
     0 \<le> snd r \<and> snd r \<le> max_size (fst s) - int node_size"

definition paged_want :: "mp_pool_t \<times> heap \<Rightarrow> addr \<times> int \<Rightarrow> nat" where
  "paged_want s r = nat (snd r)"

definition paged_release :: "addr \<Rightarrow> mp_pool_t \<times> heap \<Rightarrow> fault + (mp_pool_t \<times> heap)" where
  "paged_release p s = bindE (mp_free (Some (fst s)) p (snd s)) (\<lambda>(mo, h). Inr (the mo, h))"

lemma page_ok_free_ptr:
  assumes "page_ok ns live h m" "n \<in> set ns"
  shows "ld64 (hbytes h) n \<noteq> 0"
proof
  assume "ld64 (hbytes h) n = 0"
  with page_ok_node(1) [OF assms] show False by (simp add: node_ok_def node_size_def)
qed

lemma page_ok_drop: "page_ok ns (x # live) h m \<Longrightarrow> page_ok ns live h m"
  by (simp add: page_ok_def)

interpretation paged_pool: region_allocator paged_ok paged_may paged_want paged_alloc
proof unfold_locales
  fix live :: "(addr \<times> nat) list" and s and r
  assume "paged_ok live s" and may: "paged_may r s"
  then obtain ns where ok: "page_ok ns live (snd s) (fst s)" by (auto simp: paged_ok_def)
  show "\<exists>p s'. paged_alloc r s = Inr (p, s') \<and>
      paged_ok (if p = 0 then live else (p, paged_want s r) # live) s'"
  proof (cases "find (\<lambda>n. snd r \<le> int (space (snd s) (fst s) n)) ns")
    case (Some n)
    let ?f = "ld64 (hbytes (snd s)) n"
    from may obtain h' where "mp_alloc (fst r) (fst s) (snd r) (snd s) = Some (Inr (?f, fst s, h'))"
      "page_ok ns ((?f, nat (snd r)) # live) h' (fst s)"
      using mp_alloc_old_page [OF ok _ Some] by (auto simp: paged_may_def)
    moreover have "?f \<noteq> 0" using page_ok_free_ptr [OF ok] find_SomeD [OF Some] by blast
    ultimately show ?thesis
      by (auto simp: paged_alloc_def paged_ok_def paged_want_def)
  next
    case None
    from may obtain h' where h': "mp_alloc (fst r) (fst s) (snd r) (snd s) =
        Some (Inr (fst r + 24, (fst s)\<lparr>current := fst r\<rparr>, h'))"
      "page_ok (fst r # ns) ((fst r + 24, nat (snd r)) # live) h' ((fst s)\<lparr>current := fst r\<rparr>)"
      using mp_alloc_new_page [OF ok _ _ None] by (auto simp: paged_may_def)
    then show ?thesis
      by (auto simp: paged_alloc_def paged_ok_def paged_want_def intro: page_ok_drop)
  qed
next
  fix live :: "(addr \<times> nat) list" and s
  assume "paged_ok live s"
  then show "sorted_wrt blocks_apart live" by (auto simp: paged_ok_def page_ok_def)
qed

subsection \<open>Properties\<close>

definition one_page :: "mp_pool_t \<times> heap" where
  "one_page = (\<lparr>first = 4096, current = 4096, max_size = 64\<rparr>,
     \<lparr>hbytes = st64 4112 0 (st64 4104 4160 (st64 4096 4120 (\<lambda>_. 0))), hblocks = [(4096, 64)]\<rparr>)"

lemma one_page_ok: "page_ok [4096] [] (snd one_page) (fst one_page)"
  by (simp add: one_page_def page_ok_def node_ok_def node_size_def heap_ok_def room_def int32_def
      mem_simps apart_def)

lemma one_page_fresh: "fresh 8192 64 (snd one_page)"
  by (simp add: one_page_def fresh_def room_def blocks_apart_def apart_def)

text \<open>
  \<open>mp_init\<close> of mempool.c on a page of at least 24 bytes the allocator has just handed out
  returns 0 with a pool of that one, empty page; a page size below 24, a negative one
  included (\<open>malloc\<close> then gets a huge \<open>size_t\<close>), or an allocator that fails is not
  checked for: with no page the first store of the node header is a fault.
\<close>

theorem mp_init_correct:
  assumes "heap_ok h" "int32 sz"
  shows "(24 \<le> sz \<longrightarrow> fresh page (nat sz) h \<longrightarrow>
      (\<exists>m' h'. mp_init page (Some m) sz h = Inr (0, Some m', h') \<and> page_ok [page] [] h' m' \<and>
        space h' m' page = nat sz - 24)) \<and>
    mp_init 0 (Some m) sz h = Inl (BadAccess 0 8)"
proof (intro conjI impI)
  assume sz: "24 \<le> sz" and fr: "fresh page (nat sz) h"
  let ?h = "h_malloc page (nat sz) h" and ?m = "m\<lparr>first := page, current := page, max_size := sz\<rparr>"
  have page: "page \<noteq> 0" "unat page + nat sz < 2 ^ 64" using fr by (auto simp: fresh_def room_def)
  have ok: "heap_ok ?h" using assms(1) fr by (rule heap_ok_malloc)
  have blk: "(page, nat sz) \<in> set (hblocks ?h)" using page by (simp add: h_malloc_def)
  have "24 \<le> nat sz" using sz by simp
  from mp_new_node_bytes [OF ok blk this, of 0] sz obtain b where
    b: "mp_new_node page sz 0 ?h = Inr (?h\<lparr>hbytes := b\<rparr>)" "ld64 b page = page + 24"
      "ld64 b (page + 8) = page + of_nat (nat sz)" "ld64 b (page + 16) = 0" by auto
  have u: "unat (page + 24) = unat page + 24"
    using page(2) sz unat_add_room_le [of page 24] by simp
  have "page_ok [page] [] (?h\<lparr>hbytes := b\<rparr>) ?m"
    using ok b page blk sz u assms(2) by (simp add: page_ok_def node_ok_def node_size_def)
  moreover have "size_t_of_int sz = nat sz" using sz assms(2) by (intro size_t_of_int_nonneg) auto
  ultimately show "\<exists>m' h'. mp_init page (Some m) sz h = Inr (0, Some m', h') \<and> page_ok [page] [] h' m' \<and>
      space h' m' page = nat sz - 24"
    using b(1,2) u by (intro exI [of _ ?m] exI [of _ "?h\<lparr>hbytes := b\<rparr>"]) (simp add: mp_init_def space_def)
next
  have "\<not> valid h 0 8" using valid_nonzero [OF assms(1)] by blast
  then show "mp_init 0 (Some m) sz h = Inl (BadAccess 0 8)"
    by (simp add: mp_init_def mp_new_node_def h_malloc_def wr64_def)
qed

theorem mp_init_correct_witness:
  "\<exists>m' h'. mp_init 4096 (Some (fst one_page)) 64 \<lparr>hbytes = (\<lambda>_. 0), hblocks = []\<rparr> = Inr (0, Some m', h') \<and>
     page_ok [4096] [] h' m'"
  using mp_init_correct [of "\<lparr>hbytes = (\<lambda>_. 0), hblocks = []\<rparr>" 64 4096 "fst one_page"]
  by (auto simp: heap_ok_def int32_def fresh_def room_def)

text \<open>
  \<open>mp_alloc\<close> of mempool.c, for a request of at most \<open>max - sizeof(mp_node_t)\<close> bytes,
  returns, and takes the bytes off the first page from \<open>current\<close> on that has room for them;
  when none has, it links a new page in front and takes them off that one. The pool's invariant
  is kept: the region lies in a page behind its header and overlaps no earlier region.
\<close>

theorem mp_alloc_first_fit:
  assumes "page_ok ns live h m" "0 \<le> sz" "sz \<le> max_size m - int node_size"
    and "fresh page (nat (max_size m)) h"
  shows "\<exists>h'. case find (\<lambda>n. sz \<le> int (space h m n)) ns of
    Some n \<Rightarrow> mp_alloc page m sz h = Some (Inr (ld64 (hbytes h) n, m, h')) \<and> hblocks h' = hblocks h \<and>
      page_ok ns ((ld64 (hbytes h) n, nat sz) # live) h' m
  | None \<Rightarrow> mp_alloc page m sz h = Some (Inr (page + 24, m\<lparr>current := page\<rparr>, h')) \<and>
      hblocks h' = (page, nat (max_size m)) # hblocks h \<and>
      page_ok (page # ns) ((page + 24, nat sz) # live) h' (m\<lparr>current := page\<rparr>)"
  using mp_alloc_old_page [OF assms(1,2), of _ page] mp_alloc_new_page [OF assms(1-3) _ assms(4)]
  by (cases "find (\<lambda>n. sz \<le> int (space h m n)) ns") auto

theorem mp_alloc_first_fit_witness:
  "\<exists>h'. mp_alloc 8192 (fst one_page) 16 (snd one_page) = Some (Inr (4120, fst one_page, h')) \<and>
     page_ok [4096] [(4120, 16)] h' (fst one_page)"
proof -
  have "space (snd one_page) (fst one_page) 4096 = 40" "ld64 (hbytes (snd one_page)) 4096 = 4120"
    by (simp_all add: one_page_def space_def mem_simps room_def apart_def)
  with mp_alloc_first_fit [OF one_page_ok, of 16 8192] one_page_fresh show ?thesis
    by (auto simp: one_page_def node_size_def)
qed

text \<open>
  C25: any sequence of admissible requests to the pool of mempool.c (sizes between 0 and
  \<open>max - sizeof(mp_node_t)\<close>, pages from an allocator that hands out fresh memory) runs without
  a fault and without diverging, and no two of all the regions handed out overlap.
\<close>

theorem mp_alloc_run_safe:
  assumes "paged_ok live (m, h)" "takes_only ops"
    and "admissible paged_may paged_alloc paged_release paged_want ops live (m, h)"
  shows "\<exists>live' s'. run_pool paged_alloc paged_release paged_want ops live (m, h) = Inr (live', s') \<and>
    paged_ok live' s' \<and> sorted_wrt blocks_apart live'"
  using assms by (rule paged_pool.run_takes)

theorem mp_alloc_run_safe_witness:
  "\<exists>live' s'. run_pool paged_alloc paged_release paged_want [Take (8192, 16)] [] one_page = Inr (live', s') \<and>
     sorted_wrt blocks_apart live'"
proof -
  have "paged_ok [] (fst one_page, snd one_page)" using one_page_ok by (auto simp: paged_ok_def)
  moreover have "admissible paged_may paged_alloc paged_release paged_want [Take (8192, 16)] []
      (fst one_page, snd one_page)"
    using one_page_fresh by (auto simp: paged_may_def one_page_def node_size_def split: sum.split)
  ultimately show ?thesis
    using mp_alloc_run_safe [of "[]" "fst one_page" "snd one_page" "[Take (8192, 16)]"] by auto
qed

text \<open>
  A request larger than \<open>max - sizeof(mp_node_t)\<close> is not refused by \<open>mp_alloc\<close> of
  mempool.c: no page has room, and the region that is answered sticks out of the new page.
\<close>

theorem mp_alloc_oversize:
  assumes "page_ok ns live h m" "max_size m - int node_size < sz"
    and "fresh page (nat (max_size m)) h"
  shows "\<exists>h' m'. mp_alloc page m sz h = Some (Inr (page + 24, m', h')) \<and> current m' = page \<and>
    hblocks h' = (page, nat (max_size m)) # hblocks h \<and>
    unat page + nat (max_size m) < unat (page + 24) + nat sz"
proof -
  have mx: "24 \<le> max_size m" "int32 (max_size m)" using assms(1) by (auto simp: page_ok_def node_size_def)
  have "int (space h m n) \<le> max_size m - int node_size" if "n \<in> set ns" for n
  proof -
    have "space h m n \<le> nat (max_size m) - node_size"
      using page_ok_node(1) [OF assms(1) that] by (auto simp: space_def node_ok_def)
    then have "int (space h m n) \<le> int (nat (max_size m) - node_size)" by (simp only: of_nat_le_iff)
    also have "\<dots> = max_size m - int node_size" using mx by (simp add: node_size_def of_nat_diff)
    finally show ?thesis .
  qed
  then have none: "find (\<lambda>n. sz \<le> int (space h m n)) ns = None"
    using assms(2) by (fastforce simp: find_None_iff)
  let ?m = "m\<lparr>current := page\<rparr>"
  from mp_new_page_ok [OF assms(1,3)] obtain h1 where
    run: "mp_new_node page (max_size m) (current m) (h_malloc page (nat (max_size m)) h) = Inr h1"
    and h1: "hblocks h1 = (page, nat (max_size m)) # hblocks h" "ld64 (hbytes h1) page = page + 24"
      "page_ok (page # ns) live h1 ?m" by blast
  have "valid h1 page 8"
    using h1 mx node_cells_valid [of h1 page "nat (max_size m)" page]
    by (simp add: page_ok_def node_cells_def)
  then have "\<exists>h2. mp_take page sz h1 = Inr (page + 24, h2) \<and> hblocks h2 = hblocks h1"
    using h1(2) by (simp add: mp_take_def)
  moreover have "size_t_of_int (max_size m) = nat (max_size m)"
    using mx by (intro size_t_of_int_nonneg) auto
  moreover have "unat (page + 24) = unat page + 24"
    using assms(3) mx unat_add_room_le [of page 24] by (auto simp: fresh_def room_def)
  ultimately show ?thesis
    using run find_space [OF assms(1), of sz] none h1(1) assms(2)
    by (auto simp: mp_alloc_def node_size_def)
qed

theorem mp_alloc_oversize_witness:
  "\<exists>h' m'. mp_alloc 8192 (fst one_page) 41 (snd one_page) = Some (Inr (8216, m', h')) \<and>
     hblocks h' = [(8192, 64), (4096, 64)]"
  using mp_alloc_oversize [OF one_page_ok, of 41 8192] one_page_fresh
  by (auto simp: one_page_def node_size_def)

text \<open>
  \<open>mp_dest\<close> of mempool.c frees nothing: its loop runs while \<open>first\<close> is null, so on a
  pool with pages it returns at once with every page still allocated, and on a pool whose
  \<open>first\<close> is null it reads the \<open>next\<close> member of the null node.
\<close>

theorem mp_dest_frees_nothing:
  assumes "heap_ok h" "\<not> valid h 16 8"
  shows "mp_dest (Some m) h =
    (if first m = 0 then Some (Inl (BadAccess 16 8)) else Some (Inr (Some m, h)))"
proof -
  have "rd64 h (0 + 16) = Inl (BadAccess 16 8)" using assms(2) by (simp add: rd64_def)
  then show ?thesis by (simp add: mp_dest_def mp_dest_loop.simps)
qed

theorem mp_dest_frees_nothing_witness:
  "mp_dest (Some (fst one_page)) (snd one_page) = Some (Inr (Some (fst one_page), snd one_page))"
  using mp_dest_frees_nothing [of "snd one_page" "fst one_page"]
  by (simp add: one_page_def heap_ok_def room_def valid_def within_def)

end
