(* ===== verification/Mempool_Programs.thy ===== *)
theory Mempool_Programs
  imports Mempool_Fixed Mempool_Paged
begin

text \<open>
  The programs at the ends of \<^verbatim>\<open>mempool-v1.c\<close> and \<^verbatim>\<open>mempool.c\<close>: each initialises a pool and prints the
  addresses of the blocks it gets.
\<close>

subsection \<open>Equal blocks\<close>

text \<open>\<open>main\<close> with any block size; the program asks for 32. The results of \<open>mp_init\<close> and \<open>mp_alloc\<close> are not looked at.\<close>

definition v1_main_with :: "int \<Rightarrow> addr \<Rightarrow> mempool_t \<Rightarrow> heap \<Rightarrow> fault + addr list" where
  "v1_main_with sz page m h =
     bindE (mp_init_v1 page (Some m) sz h) (\<lambda>(_, m0, h0).
     bindE (mp_alloc_v1 m0 h0) (\<lambda>(p1, m1, h1).
     bindE (mp_alloc_v1 m1 h1) (\<lambda>(p2, m2, h2).
     bindE (mp_alloc_v1 m2 h2) (\<lambda>(p3, m3, h3).
     bindE (mp_alloc_v1 m3 h3) (\<lambda>(p4, m4, h4).
     bindE (mp_free_v1 m4 p2 h4) (\<lambda>(m5, h5).
     bindE (mp_alloc_v1 m5 h5) (\<lambda>(p5, m6, h6).
     Inr [p1, p2, p3, p4, p5])))))))"

definition v1_main :: "addr \<Rightarrow> mempool_t \<Rightarrow> heap \<Rightarrow> fault + addr list" where
  "v1_main = v1_main_with 32"

lemma alloc_from_list:
  assumes "pool_ok used h m" "free_list h m = p # ps"
  shows "\<exists>m'. mp_alloc_v1 (Some m) h = Inr (p, Some m', h) \<and> pool_ok (p # used) h m' \<and> free_list h m' = ps"
proof -
  have "0 < free_count m" using assms by (cases "nat (free_count m)") (auto simp: free_list_def)
  from free_list_Cons [OF this] assms(2) have p: "free_ptr m = p"
    "free_list h (m\<lparr>free_ptr := ld64 (hbytes h) (free_ptr m), free_count := free_count m - 1\<rparr>) = ps" by auto
  have "valid h (free_ptr m) 8" using pool_ok_slot(1) [OF assms(1), of p] assms(2) p(1) by simp
  then have "mp_alloc_v1 (Some m) h = Inr (p, Some (m\<lparr>free_ptr := ld64 (hbytes h) (free_ptr m), free_count := free_count m - 1\<rparr>), h)"
    using \<open>0 < free_count m\<close> p(1) by (simp add: mp_alloc_v1_def Let_def)
  with mp_alloc_step [OF assms(1)] \<open>0 < free_count m\<close> p show ?thesis by auto
qed

text \<open>With blocks of 24 bytes all goes well, and the block given back is the next one handed out.\<close>

lemma v1_main_24:
  assumes "heap_ok h" "fresh page 4096 h"
  shows "v1_main_with 24 page m h = Inr [page, page + 24, page + 48, page + 72, page + 24]"
proof -
  from mp_init_pool_ok [OF assms, of 24 24 m] obtain m0 h0 where init: "mp_init_v1 page (Some m) 24 h = Inr (0, Some m0, h0)"
    and ok0: "pool_ok [] h0 m0" and sl: "free_list h0 m0 = slots m0" "block_size m0 = 24" "pool_mem m0 = page"
    by (auto simp: int32_def)
  have "[0..<nat (MEM_PAGE_SIZE div 24)] = 0 # 1 # 2 # 3 # [4..<170]" by (simp add: MEM_PAGE_SIZE_def upt_rec)
  then obtain rest where fl: "free_list h0 m0 = page # (page + 24) # (page + 48) # (page + 72) # rest"
    unfolding sl(1) slots_def sl(2,3) by (simp add: slot_def del: upt.simps)
  from alloc_from_list [OF ok0 fl] obtain m1 where 1: "mp_alloc_v1 (Some m0) h0 = Inr (page, Some m1, h0)"
    "pool_ok [page] h0 m1" "free_list h0 m1 = (page + 24) # (page + 48) # (page + 72) # rest" by auto
  from alloc_from_list [OF 1(2,3)] obtain m2 where 2: "mp_alloc_v1 (Some m1) h0 = Inr (page + 24, Some m2, h0)"
    "pool_ok [page + 24, page] h0 m2" "free_list h0 m2 = (page + 48) # (page + 72) # rest" by auto
  from alloc_from_list [OF 2(2,3)] obtain m3 where 3: "mp_alloc_v1 (Some m2) h0 = Inr (page + 48, Some m3, h0)"
    "pool_ok [page + 48, page + 24, page] h0 m3" "free_list h0 m3 = (page + 72) # rest" by auto
  from alloc_from_list [OF 3(2,3)] obtain m4 where 4: "mp_alloc_v1 (Some m3) h0 = Inr (page + 72, Some m4, h0)"
    "pool_ok [page + 72, page + 48, page + 24, page] h0 m4" by auto
  from mp_free_step [of "[page + 72, page + 48]" "page + 24" "[page]" h0 m4] 4(2) obtain m5 h5 where
    5: "mp_free_v1 (Some m4) (page + 24) h0 = Inr (Some m5, h5)" "pool_ok [page + 72, page + 48, page] h5 m5"
    "free_list h5 m5 = (page + 24) # free_list h0 m4" by auto
  from alloc_from_list [OF 5(2,3)] obtain m6 where "mp_alloc_v1 (Some m5) h5 = Inr (page + 24, Some m6, h5)" by auto
  with init 1 2 3 4 5 show ?thesis by (simp add: v1_main_with_def)
qed

text \<open>The program itself writes a null pointer behind its page, before it gets its first block.\<close>

lemma v1_main_overruns:
  assumes "heap_ok h" "fresh page 4096 h" "\<not> valid h (page + 4096) 8"
  shows "v1_main page m h = Inl (BadAccess (page + 4096) 8)"
proof -
  have "slot page 32 128 = page + 4096" by (simp add: slot_def)
  with assms(3) have "\<not> valid h (slot page (nat 32) (nat (4096 div 32))) 8" by simp
  moreover have "(16 :: int) \<le> 32" by simp
  ultimately have "\<not> valid (h_malloc page 4096 h) (slot page (nat 32) (nat (4096 div 32))) 8"
    using mp_init_last_store [OF assms(1,2), of 32] by simp
  with mp_init_runs [OF assms(1,2), of 32 32 m] have "mp_init_v1 page (Some m) 32 h = Inl (BadAccess (page + 4096) 8)"
    by (auto simp: wr64_def int32_def slot_def)
  then show ?thesis by (simp add: v1_main_def v1_main_with_def)
qed

subsection \<open>Pages\<close>

text \<open>\<open>None\<close>: a loop does not end. The first page is the answer of \<open>malloc\<close>; the five requests fit into it, so that there is no second one.\<close>

fun paged_allocs :: "int list \<Rightarrow> mp_pool_t \<Rightarrow> heap \<Rightarrow> (fault + (addr list \<times> mp_pool_t \<times> heap)) option" where
  "paged_allocs [] m h = Some (Inr ([], m, h))"
| "paged_allocs (sz # szs) m h =
     (case mp_alloc 0 m sz h of
        None \<Rightarrow> None
      | Some (Inl e) \<Rightarrow> Some (Inl e)
      | Some (Inr (p, m', h')) \<Rightarrow> map_option (map_sum id (\<lambda>(ps, s). (p # ps, s))) (paged_allocs szs m' h'))"

definition paged_main :: "addr \<Rightarrow> mp_pool_t \<Rightarrow> heap \<Rightarrow> (fault + (addr list \<times> heap)) option" where
  "paged_main page m h =
     (case mp_init page (Some m) 4096 h of
        Inr (_, Some m0, h0) \<Rightarrow>
          (case paged_allocs [16, 32, 64, 128, 256] m0 h0 of
             Some (Inr (ps, m1, h1)) \<Rightarrow> map_option (\<lambda>r. bindE r (\<lambda>(_, h2). Inr (ps, h2))) (mp_dest (Some m1) h1)
           | Some (Inl e) \<Rightarrow> Some (Inl e)
           | None \<Rightarrow> None)
      | Inr (_, None, h0) \<Rightarrow> Some (Inr ([], h0))
      | Inl e \<Rightarrow> Some (Inl e))"

text \<open>One page of which \<open>u\<close> bytes are used.\<close>

definition page_at :: "addr \<Rightarrow> nat \<Rightarrow> heap \<Rightarrow> mp_pool_t \<Rightarrow> bool" where
  "page_at n u h m \<longleftrightarrow> (\<exists>live. page_ok [n] live h m) \<and> max_size m = 4096 \<and> ld64 (hbytes h) n = n + of_nat u \<and> u \<le> 4096"

lemma page_at_alloc:
  assumes "page_at n u h m" "u + k \<le> 4096"
  shows "\<exists>h'. mp_alloc 0 m (int k) h = Some (Inr (n + of_nat u, m, h')) \<and> page_at n (u + k) h' m \<and> hblocks h' = hblocks h"
proof -
  from assms(1) obtain live where ok: "page_ok [n] live h m" and m: "max_size m = 4096" "ld64 (hbytes h) n = n + of_nat u"
    by (auto simp: page_at_def)
  have "room n 4096" using page_ok_node(2) [OF ok, of n] ok m(1) by (force simp: page_ok_def heap_ok_def)
  then have un: "unat (n + of_nat i) = unat n + i" if "i \<le> 4096" for i
    using that by (intro unat_add_room_le) (simp add: room_def)
  have space: "int k \<le> int (space h m n)" using assms(2) un [of u] by (simp add: space_def m)
  from mp_take_ok [OF ok _ _ this] obtain h' where h': "mp_take n (int k) h = Inr (n + of_nat u, h')" "hblocks h' = hblocks h"
    "page_ok [n] ((n + of_nat u, k) # live) h' m" "unat (ld64 (hbytes h') n) = unat (n + of_nat u) + k"
    by (auto simp: m(2))
  have "unat (ld64 (hbytes h') n) = unat (n + of_nat (u + k))" using h'(4) un [of u] un [of "u + k"] assms(2) by simp
  then have "ld64 (hbytes h') n = n + of_nat (u + k)" by (rule unsigned_word_eqI)
  moreover have "n \<noteq> 0" using ok by (auto simp: page_ok_def)
  ultimately show ?thesis using h' find_space [OF ok, of "int k"] space assms(2) m(1) by (auto simp: mp_alloc_def page_at_def)
qed

text \<open>The program prints what one expects of it, and \<open>mp_dest\<close> gives nothing back: the page is still allocated at the end.\<close>

lemma paged_main_prints:
  assumes "heap_ok h" "fresh page 4096 h"
  shows "\<exists>h'. paged_main page m h = Some (Inr ([page + 24, page + 40, page + 72, page + 136, page + 264], h')) \<and>
    hblocks h' = (page, 4096) # hblocks h"
proof -
  from mp_new_node_bytes [OF heap_ok_malloc [OF assms], of page 4096 0] assms(2) obtain b where
    b: "mp_new_node page 4096 0 (h_malloc page 4096 h) = Inr ((h_malloc page 4096 h)\<lparr>hbytes := b\<rparr>)" "ld64 b page = page + 24"
      "ld64 b (page + 8) = page + 4096" "ld64 b (page + 16) = 0"
    by (auto simp: h_malloc_def fresh_def)
  let ?h = "(h_malloc page 4096 h)\<lparr>hbytes := b\<rparr>" and ?m = "m\<lparr>first := page, current := page, max_size := 4096\<rparr>"
  have page: "page \<noteq> 0" "unat page + 4096 < 2 ^ 64" using assms(2) by (auto simp: fresh_def room_def)
  have init: "mp_init page (Some m) 4096 h = Inr (0, Some ?m, ?h)" using b(1) size_t_of_int_nonneg [of 4096] by (simp add: mp_init_def int32_def)
  have u: "unat (page + 24) = unat page + 24" using page(2) unat_add_room_le [of page 24] by simp
  have "page_ok [page] [] ?h ?m"
    using heap_ok_malloc [OF assms] b page u by (simp add: page_ok_def node_ok_def node_size_def h_malloc_def int32_def)
  with b(2) have 0: "page_at page 24 ?h ?m" by (auto simp: page_at_def)
  from page_at_alloc [OF 0, of 16] obtain h1 where 1: "mp_alloc 0 ?m 16 ?h = Some (Inr (page + 24, ?m, h1))" "page_at page 40 h1 ?m"
    "hblocks h1 = hblocks ?h" by auto
  from page_at_alloc [OF 1(2), of 32] obtain h2 where 2: "mp_alloc 0 ?m 32 h1 = Some (Inr (page + 40, ?m, h2))" "page_at page 72 h2 ?m"
    "hblocks h2 = hblocks h1" by auto
  from page_at_alloc [OF 2(2), of 64] obtain h3 where 3: "mp_alloc 0 ?m 64 h2 = Some (Inr (page + 72, ?m, h3))" "page_at page 136 h3 ?m"
    "hblocks h3 = hblocks h2" by auto
  from page_at_alloc [OF 3(2), of 128] obtain h4 where 4: "mp_alloc 0 ?m 128 h3 = Some (Inr (page + 136, ?m, h4))" "page_at page 264 h4 ?m"
    "hblocks h4 = hblocks h3" by auto
  from page_at_alloc [OF 4(2), of 256] obtain h5 where 5: "mp_alloc 0 ?m 256 h4 = Some (Inr (page + 264, ?m, h5))"
    "hblocks h5 = hblocks h4" by auto
  have "mp_dest (Some ?m) h5 = Some (Inr (Some ?m, h5))" using page(1) by (simp add: mp_dest_def mp_dest_loop.simps)
  then have "paged_main page m h = Some (Inr ([page + 24, page + 40, page + 72, page + 136, page + 264], h5))"
    using init 1(1) 2(1) 3(1) 4(1) 5(1) by (simp add: paged_main_def)
  moreover have "hblocks h5 = (page, 4096) # hblocks h" using 1(3) 2(3) 3(3) 4(3) 5(2) page(1) by (simp add: h_malloc_def)
  ultimately show ?thesis by blast
qed

end
