(* ===== verification/Msgqueue.thy ===== *)
theory Msgqueue
  imports Interfaces
begin

text \<open>
  The two-list message queue (\<^verbatim>\<open>3_pool/queue_design-master/msgqueue.c\<close>). The messages are
  linked through a cell at \<open>linkoff\<close> bytes from their start; consumers take from the list behind
  \<open>get_head\<close>, producers append to the list behind \<open>put_head\<close>, and a consumer that finds its
  list empty swaps the two. This theory models the bodies of the functions, with the lists in the
  checked byte memory; \<open>mq_rep\<close> relates them to two lists of cells. The interleaving of threads,
  the mutexes and the condition variables are the subject of \<open>Msgqueue_Conc\<close>, which runs these
  same bodies.
\<close>

subsection \<open>The queue and the bodies of its functions\<close>

record msgqueue_t =
  self :: addr                \<comment> \<open>where the structure itself lies\<close>
  msg_max :: "64 word"
  msg_cnt :: "64 word"
  linkoff :: int
  nonblock :: int
  get_head :: addr
  put_head :: addr
  put_tail :: addr

definition msgqueue_size :: nat where
  "msgqueue_size = 240"

definition head1 :: "addr \<Rightarrow> addr" where
  "head1 q = q + 24"

definition head2 :: "addr \<Rightarrow> addr" where
  "head2 q = q + 32"

datatype resource = GetMutex | PutMutex | GetCond | PutCond

text \<open>
  \<open>msgqueue_create\<close> is written with the results of the calls it makes as arguments: the address
  \<open>malloc\<close> answers and the results of the four \<open>init\<close> calls. It answers the queue or none, the
  resources that are initialised when it returns, the value stored in \<open>errno\<close>, and the heap.
\<close>

definition msgqueue_create ::
    "addr \<Rightarrow> int \<Rightarrow> int \<Rightarrow> int \<Rightarrow> int \<Rightarrow> 64 word \<Rightarrow> int \<Rightarrow> heap \<Rightarrow>
     fault + (msgqueue_t option \<times> resource list \<times> int option \<times> heap)" where
  "msgqueue_create p r1 r2 r3 r4 maxlen off h0 =
     (let h = h_malloc p msgqueue_size h0;
          fail = (\<lambda>ret res. bindE (h_free p h) (\<lambda>h1. Inr (None, res, Some ret, h1)))
      in if p = 0 then Inr (None, [], None, h)
         else if r1 \<noteq> 0 then fail r1 []
         else if r2 \<noteq> 0 then fail r2 (remove1 GetMutex [GetMutex])
         else if r3 \<noteq> 0 then fail r3 (remove1 GetMutex (remove1 PutMutex [GetMutex, PutMutex]))
         else if r4 \<noteq> 0 then
           fail r4 (remove1 GetMutex (remove1 PutMutex (remove1 GetCond [GetMutex, PutMutex, GetCond])))
         else
           bindE (wr64 h (head1 p) 0) (\<lambda>h1.
           bindE (wr64 h1 (head2 p) 0) (\<lambda>h2.
           Inr (Some \<lparr>self = p, msg_max = maxlen, msg_cnt = 0, linkoff = off, nonblock = 0,
                      get_head = head1 p, put_head = head2 p, put_tail = head2 p\<rparr>,
                [GetMutex, PutMutex, GetCond, PutCond], None, h2))))"

definition msgqueue_destroy ::
    "msgqueue_t \<Rightarrow> resource list \<Rightarrow> heap \<Rightarrow> fault + (resource list \<times> heap)" where
  "msgqueue_destroy q res h =
     bindE (h_free (self q) h) (\<lambda>h1.
     Inr (remove1 GetMutex (remove1 PutMutex (remove1 GetCond (remove1 PutCond res))), h1))"

definition link_of :: "msgqueue_t \<Rightarrow> addr \<Rightarrow> addr" where
  "link_of q msg = msg + of_int (linkoff q)"

definition msg_of :: "msgqueue_t \<Rightarrow> addr \<Rightarrow> addr" where
  "msg_of q link = link - of_int (linkoff q)"

text \<open>\<open>msgqueue_put\<close>: the store before the lock, the guard of the wait loop, the critical section.\<close>

definition put_enter :: "addr \<Rightarrow> msgqueue_t \<Rightarrow> heap \<Rightarrow> fault + heap" where
  "put_enter msg q h = wr64 h (link_of q msg) 0"

definition put_blocked :: "msgqueue_t \<Rightarrow> bool" where
  "put_blocked q \<longleftrightarrow> msg_max q - 1 < msg_cnt q \<and> nonblock q = 0"

definition put_body :: "addr \<Rightarrow> msgqueue_t \<Rightarrow> heap \<Rightarrow> fault + (msgqueue_t \<times> heap)" where
  "put_body msg q h =
     bindE (wr64 h (put_tail q) (link_of q msg)) (\<lambda>h1.
     Inr (q\<lparr>put_tail := link_of q msg, msg_cnt := msg_cnt q + 1\<rparr>, h1))"

definition msgqueue_put :: "addr \<Rightarrow> msgqueue_t \<times> heap \<Rightarrow> fault + (msgqueue_t \<times> heap)" where
  "msgqueue_put msg s =
     bindE (put_enter msg (fst s) (snd s)) (\<lambda>h1.
     if put_blocked (fst s) then Inl Diverges else put_body msg (fst s) h1)"

text \<open>
  \<open>__msgqueue_swap\<close>: what it does before the lock (it saves \<open>get_head\<close>), the guard of the wait
  loop, and the critical section, which answers the count and whether \<open>put_cond\<close> is broadcast.
\<close>

definition swap_enter :: "msgqueue_t \<Rightarrow> addr \<times> msgqueue_t" where
  "swap_enter q = (get_head q, q\<lparr>get_head := put_head q\<rparr>)"

definition swap_blocked :: "msgqueue_t \<Rightarrow> bool" where
  "swap_blocked q \<longleftrightarrow> msg_cnt q = 0 \<and> nonblock q = 0"

definition swap_body :: "addr \<Rightarrow> msgqueue_t \<Rightarrow> 64 word \<times> bool \<times> msgqueue_t" where
  "swap_body saved q =
     (msg_cnt q, msg_max q - 1 < msg_cnt q,
      q\<lparr>put_head := saved, put_tail := saved, msg_cnt := 0\<rparr>)"

definition get_pop :: "msgqueue_t \<Rightarrow> heap \<Rightarrow> fault + (addr \<times> heap)" where
  "get_pop q h =
     bindE (rd64 h (get_head q)) (\<lambda>link.
     bindE (rd64 h link) (\<lambda>nxt.
     bindE (wr64 h (get_head q) nxt) (\<lambda>h1.
     Inr (msg_of q link, h1))))"

text \<open>\<open>msgqueue_get\<close> run by one thread; \<open>None\<close> is the null pointer it returns when nothing came.\<close>

definition msgqueue_get :: "msgqueue_t \<times> heap \<Rightarrow> fault + (addr option \<times> (msgqueue_t \<times> heap))" where
  "msgqueue_get s =
     (let q = fst s; h = snd s in
      bindE (rd64 h (get_head q)) (\<lambda>g.
      if g \<noteq> 0 then bindE (get_pop q h) (\<lambda>(msg, h1). Inr (Some msg, (q, h1)))
      else
        let (saved, q1) = swap_enter q in
        if swap_blocked q1 then Inl Diverges
        else
          let (cnt, bc, q2) = swap_body saved q1 in
          if 0 < cnt then bindE (get_pop q2 h) (\<lambda>(msg, h1). Inr (Some msg, (q2, h1)))
          else Inr (None, (q2, h))))"

definition set_nonblock_flag :: "msgqueue_t \<Rightarrow> msgqueue_t" where
  "set_nonblock_flag q = q\<lparr>nonblock := 1\<rparr>"

definition msgqueue_set_block :: "msgqueue_t \<Rightarrow> msgqueue_t" where
  "msgqueue_set_block q = q\<lparr>nonblock := 0\<rparr>"

subsection \<open>Two lists of cells in memory\<close>

text \<open>
  \<open>g\<close> is the cell that heads the consumers' list: \<open>get_head\<close>, or, while a swap is under way, the
  cell the swap has saved.
\<close>

definition mq_rep :: "heap \<Rightarrow> msgqueue_t \<Rightarrow> addr \<Rightarrow> addr list \<Rightarrow> addr list \<Rightarrow> bool" where
  "mq_rep h q g gs ps \<longleftrightarrow>
     heap_ok h \<and> {g, put_head q} = {head1 (self q), head2 (self q)} \<and>
     chain (hbytes h) g gs \<and> chain (hbytes h) (put_head q) ps \<and>
     put_tail q = last (put_head q # ps) \<and>
     cells_apart (g # put_head q # gs @ ps) \<and> cells_in h (g # put_head q # gs @ ps) \<and>
     unat (msg_cnt q) = length ps"

definition mq_cells :: "msgqueue_t \<Rightarrow> addr \<Rightarrow> addr list \<Rightarrow> addr list \<Rightarrow> addr set" where
  "mq_cells q g gs ps = set (g # put_head q # gs @ ps)"

definition free_link :: "heap \<Rightarrow> msgqueue_t \<Rightarrow> addr \<Rightarrow> addr list \<Rightarrow> addr list \<Rightarrow> addr \<Rightarrow> bool" where
  "free_link h q g gs ps l \<longleftrightarrow> valid h l 8 \<and> (\<forall>c \<in> mq_cells q g gs ps. apart c 8 l 8)"

lemma link_msg [simp]: "msg_of q (link_of q m) = m" "link_of q (msg_of q l) = l"
  by (simp_all add: msg_of_def link_of_def)

lemma mq_cells_valid:
  assumes "mq_rep h q g gs ps" "c \<in> mq_cells q g gs ps"
  shows "valid h c 8 \<and> room c 8"
proof -
  from assms have "valid h c 8" by (auto simp: mq_rep_def mq_cells_def cells_in_def)
  moreover have "heap_ok h" using assms(1) by (simp add: mq_rep_def)
  ultimately show ?thesis by (simp add: valid_room)
qed

lemma mq_rep_write:
  assumes "mq_rep h q g gs ps" "free_link h q g gs ps l"
  shows "mq_rep (h\<lparr>hbytes := st64 l v (hbytes h)\<rparr>) q g gs ps"
proof -
  have h: "heap_ok h" using assms(1) by (simp add: mq_rep_def)
  have "room l 8" using assms(2) h by (auto simp: free_link_def intro: valid_room)
  moreover have "\<forall>c \<in> mq_cells q g gs ps. room c 8 \<and> apart l 8 c 8"
    using assms(2) mq_cells_valid [OF assms(1)] by (auto simp: free_link_def apart_sym)
  ultimately have "chain (st64 l v (hbytes h)) g gs = chain (hbytes h) g gs"
    "chain (st64 l v (hbytes h)) (put_head q) ps = chain (hbytes h) (put_head q) ps"
    by (auto simp: mq_cells_def intro!: chain_frame)
  with assms(1) show ?thesis by (simp add: mq_rep_def)
qed

lemma put_body_rep:
  assumes rep: "mq_rep h q g gs ps" and l: "free_link h q g gs ps (link_of q msg)"
    and z: "ld64 (hbytes h) (link_of q msg) = 0"
  shows "\<exists>h'. put_body msg q h = Inr (q\<lparr>put_tail := link_of q msg, msg_cnt := msg_cnt q + 1\<rparr>, h') \<and>
    mq_rep h' (q\<lparr>put_tail := link_of q msg, msg_cnt := msg_cnt q + 1\<rparr>) g gs (ps @ [link_of q msg]) \<and>
    hblocks h' = hblocks h \<and>
    (\<forall>c. room c 8 \<longrightarrow> apart (put_tail q) 8 c 8 \<longrightarrow> ld64 (hbytes h') c = ld64 (hbytes h) c)"
proof -
  let ?l = "link_of q msg" and ?c = "put_head q"
  let ?h = "h\<lparr>hbytes := st64 (last (?c # ps)) ?l (hbytes h)\<rparr>"
  have hok: "heap_ok h" and tail: "put_tail q = last (?c # ps)" using rep by (simp_all add: mq_rep_def)
  have lv: "valid h ?l 8" "room ?l 8" "?l \<noteq> 0"
    using l hok by (auto simp: free_link_def intro: valid_room dest: valid_nonzero)
  have tin: "last (?c # ps) \<in> set (?c # ps)" by (rule last_in_set) simp
  have cv: "\<forall>c \<in> mq_cells q g gs ps. valid h c 8 \<and> room c 8"
    using mq_cells_valid [OF rep] by blast
  then have tv: "valid h (last (?c # ps)) 8" "room (last (?c # ps)) 8"
    using tin by (auto simp: mq_cells_def)
  have ap: "cells_apart (g # ?c # gs @ ps @ [?l])"
    using rep l by (auto simp: mq_rep_def free_link_def mq_cells_def)
  have "chain (st64 (last (?c # ps)) ?l (hbytes h)) ?c (ps @ [?l])"
    using rep cv ap lv z by (intro chain_snoc) (auto simp: mq_rep_def mq_cells_def)
  moreover have "chain (st64 (last (?c # ps)) ?l (hbytes h)) g gs"
    using rep cv tv tin ap by (subst chain_frame) (auto simp: mq_rep_def mq_cells_def apart_sym)
  moreover have "length ps + 1 < 2 ^ 64"
    using distinct_addrs_length [OF cells_apart_distinct [OF ap]] by simp
  then have "unat (msg_cnt q + 1) = length ps + 1"
    using rep unat_add_room_le [of "msg_cnt q" 1] by (simp add: mq_rep_def)
  ultimately have "mq_rep ?h (q\<lparr>put_tail := ?l, msg_cnt := msg_cnt q + 1\<rparr>) g gs (ps @ [?l])"
    using rep ap lv by (simp add: mq_rep_def)
  with tv tail show ?thesis
    by (intro exI [of _ ?h]) (auto simp: put_body_def mem_simps)
qed

lemma swap_rep:
  assumes "mq_rep h q g [] ps"
  shows "mq_rep h (snd (snd (swap_body g (q\<lparr>get_head := put_head q\<rparr>)))) (put_head q) ps []"
  using assms by (auto simp: mq_rep_def swap_body_def apart_sym)

lemma get_pop_rep:
  assumes rep: "mq_rep h q (get_head q) (l # gs) ps"
  shows "\<exists>h'. get_pop q h = Inr (msg_of q l, h') \<and> mq_rep h' q (get_head q) gs ps \<and>
    hblocks h' = hblocks h \<and>
    (\<forall>c. room c 8 \<longrightarrow> apart (get_head q) 8 c 8 \<longrightarrow> ld64 (hbytes h') c = ld64 (hbytes h) c)"
proof -
  let ?g = "get_head q"
  let ?n = "ld64 (hbytes h) l"
  let ?h = "h\<lparr>hbytes := st64 ?g ?n (hbytes h)\<rparr>"
  have hok: "heap_ok h" using rep by (simp add: mq_rep_def)
  have v: "valid h ?g 8" "valid h l 8" "ld64 (hbytes h) ?g = l" "room ?g 8"
    using rep by (auto simp: mq_rep_def intro: valid_room)
  have cv: "\<forall>c \<in> mq_cells q ?g (l # gs) ps. room c 8"
    using mq_cells_valid [OF rep] by blast
  have c1: "chain (hbytes h) l gs" using rep by (simp add: mq_rep_def)
  have "chain (st64 ?g ?n (hbytes h)) ?g gs"
  proof (cases gs)
    case Nil
    with c1 show ?thesis by simp
  next
    case (Cons x xs)
    with c1 have "x = ?n" "x \<noteq> 0" "chain (hbytes h) x xs" by auto
    moreover have "chain (st64 ?g ?n (hbytes h)) x xs = chain (hbytes h) x xs"
      using rep Cons v cv by (intro chain_frame) (auto simp: mq_rep_def mq_cells_def)
    ultimately show ?thesis using Cons by simp
  qed
  moreover have "chain (st64 ?g ?n (hbytes h)) (put_head q) ps"
    using rep v cv by (subst chain_frame) (auto simp: mq_rep_def mq_cells_def)
  ultimately have "mq_rep ?h q ?g gs ps" using rep by (auto simp: mq_rep_def)
  with v show ?thesis by (intro exI [of _ ?h]) (auto simp: get_pop_def mem_simps)
qed

lemma mq_rep_unique:
  "mq_rep h q g gs ps \<Longrightarrow> mq_rep h q g gs' ps' \<Longrightarrow> gs' = gs \<and> ps' = ps"
  by (auto simp: mq_rep_def dest: chain_unique)

lemma free_link_mono:
  assumes "free_link h q g gs ps l" "hblocks h' = hblocks h"
    and "mq_cells q' g' gs' ps' \<subseteq> insert c (mq_cells q g gs ps)" "apart c 8 l 8"
  shows "free_link h' q' g' gs' ps' l"
  using assms by (auto simp: free_link_def valid_def)

lemma free_link_sub:
  assumes "free_link h q g gs ps l" "hblocks h' = hblocks h" "mq_cells q' g' gs' ps' \<subseteq> mq_cells q g gs ps"
  shows "free_link h' q' g' gs' ps' l"
  using assms by (auto simp: free_link_def valid_def)

lemma msgqueue_put_spec:
  assumes "mq_rep h q g gs ps" "free_link h q g gs ps (link_of q msg)" "\<not> put_blocked q"
  shows "\<exists>h'. msgqueue_put msg (q, h) = Inr (q\<lparr>put_tail := link_of q msg, msg_cnt := msg_cnt q + 1\<rparr>, h') \<and>
    mq_rep h' (q\<lparr>put_tail := link_of q msg, msg_cnt := msg_cnt q + 1\<rparr>) g gs (ps @ [link_of q msg]) \<and>
    hblocks h' = hblocks h"
proof -
  let ?h = "h\<lparr>hbytes := st64 (link_of q msg) 0 (hbytes h)\<rparr>"
  have "mq_rep ?h q g gs ps" using assms(1,2) by (rule mq_rep_write)
  moreover have "free_link ?h q g gs ps (link_of q msg)"
    using assms(2) by (rule free_link_sub) auto
  ultimately show ?thesis
    using put_body_rep [of ?h q g gs ps msg] assms(2,3)
    by (auto simp: msgqueue_put_def put_enter_def free_link_def)
qed

definition same_config :: "msgqueue_t \<Rightarrow> msgqueue_t \<Rightarrow> bool" where
  "same_config q q' \<longleftrightarrow> self q' = self q \<and> msg_max q' = msg_max q \<and> linkoff q' = linkoff q \<and>
     nonblock q' = nonblock q"

lemma msgqueue_get_spec:
  assumes rep: "mq_rep h q (get_head q) gs ps" and go: "gs = [] \<Longrightarrow> \<not> swap_blocked q"
  shows "\<exists>q' h' gs' ps'. msgqueue_get (q, h) =
      Inr (case gs @ ps of [] \<Rightarrow> None | l # _ \<Rightarrow> Some (msg_of q l), (q', h')) \<and>
    mq_rep h' q' (get_head q') gs' ps' \<and> gs' @ ps' = tl (gs @ ps) \<and> same_config q q' \<and>
    hblocks h' = hblocks h \<and> mq_cells q' (get_head q') gs' ps' \<subseteq> mq_cells q (get_head q) gs ps"
proof (cases gs)
  case (Cons l ls)
  from rep get_pop_rep [of h q l ls ps] Cons obtain h' where
    "get_pop q h = Inr (msg_of q l, h')" "mq_rep h' q (get_head q) ls ps" "hblocks h' = hblocks h" by auto
  moreover have "rd64 h (get_head q) = Inr l" "l \<noteq> 0" using rep Cons by (auto simp: mq_rep_def)
  ultimately show ?thesis using Cons
    by (intro exI [of _ q] exI [of _ h'] exI [of _ ls] exI [of _ ps])
      (auto simp: msgqueue_get_def same_config_def mq_cells_def)
next
  case Nil
  let ?q = "snd (snd (swap_body (get_head q) (q\<lparr>get_head := put_head q\<rparr>)))"
  have r0: "rd64 h (get_head q) = Inr 0" using rep Nil by (auto simp: mq_rep_def)
  have nb: "\<not> swap_blocked (q\<lparr>get_head := put_head q\<rparr>)" using go [OF Nil] by (simp add: swap_blocked_def)
  have r1: "mq_rep h ?q (get_head ?q) ps []"
    using swap_rep [of h q "get_head q" ps] rep Nil by (simp add: swap_body_def)
  have cells: "mq_cells ?q (get_head ?q) ps [] = mq_cells q (get_head q) gs ps"
    using Nil by (auto simp: mq_cells_def swap_body_def)
  have cfg: "same_config q ?q" "\<And>l. msg_of ?q l = msg_of q l"
    by (auto simp: same_config_def swap_body_def msg_of_def)
  show ?thesis
  proof (cases ps)
    case ps: Nil
    have "msg_cnt q = 0" using rep ps by (simp add: mq_rep_def unat_eq_zero)
    with r0 nb r1 Nil ps cfg cells show ?thesis
      by (intro exI [of _ ?q] exI [of _ h] exI [of _ "[]"])
        (simp add: msgqueue_get_def swap_enter_def swap_body_def)
  next
    case ps: (Cons l ls)
    have "unat (msg_cnt q) = Suc (length ls)" using rep ps by (simp add: mq_rep_def)
    then have "0 < msg_cnt q" by (simp add: word_less_nat_alt)
    moreover from r1 ps get_pop_rep [of h ?q l ls "[]"] obtain h' where
      "get_pop ?q h = Inr (msg_of q l, h')" "mq_rep h' ?q (get_head ?q) ls []" "hblocks h' = hblocks h"
      using cfg by auto
    moreover have "mq_cells ?q (get_head ?q) ls [] \<subseteq> mq_cells q (get_head q) gs ps"
      using cells ps by (auto simp: mq_cells_def)
    ultimately show ?thesis using r0 nb Nil ps cfg(1)
      by (intro exI [of _ ?q] exI [of _ h'] exI [of _ ls] exI [of _ "[]"])
        (simp add: msgqueue_get_def swap_enter_def swap_body_def)
  qed
qed

subsection \<open>The contract of a first-in first-out queue\<close>

text \<open>
  In nonblocking mode a single thread never waits, and the queue is a first-in first-out queue of
  message addresses. The client grants each message's link cell.
\<close>

definition mq_fifo :: "int \<Rightarrow> msgqueue_t \<times> heap \<Rightarrow> addr list \<Rightarrow> bool" where
  "mq_fifo off s xs \<longleftrightarrow> nonblock (fst s) \<noteq> 0 \<and> linkoff (fst s) = off \<and>
     (\<exists>gs ps. mq_rep (snd s) (fst s) (get_head (fst s)) gs ps \<and> xs = map (msg_of (fst s)) (gs @ ps))"

definition mq_usable :: "addr \<Rightarrow> msgqueue_t \<times> heap \<Rightarrow> bool" where
  "mq_usable msg s \<longleftrightarrow> (\<forall>gs ps. mq_rep (snd s) (fst s) (get_head (fst s)) gs ps \<longrightarrow>
     free_link (snd s) (fst s) (get_head (fst s)) gs ps (link_of (fst s) msg))"

definition links_apart :: "int \<Rightarrow> addr \<Rightarrow> addr \<Rightarrow> bool" where
  "links_apart off x y \<longleftrightarrow> apart (x + of_int off) 8 (y + of_int off) 8"

lemma mq_fifoI:
  "mq_rep h q (get_head q) gs ps \<Longrightarrow> nonblock q \<noteq> 0 \<Longrightarrow> linkoff q = off \<Longrightarrow>
     xs = map (msg_of q) (gs @ ps) \<Longrightarrow> mq_fifo off (q, h) xs"
  by (auto simp: mq_fifo_def)

lemma mq_fifo_put:
  assumes "mq_fifo off (q, h) xs" "mq_usable x (q, h)"
  shows "\<exists>q' h' gs ps. msgqueue_put x (q, h) = Inr (q', h') \<and> mq_fifo off (q', h') (xs @ [x]) \<and>
    mq_rep h q (get_head q) gs ps \<and> mq_rep h' q' (get_head q') gs (ps @ [link_of q x]) \<and>
    get_head q' = get_head q \<and> put_head q' = put_head q \<and> linkoff q' = linkoff q \<and> hblocks h' = hblocks h"
proof -
  from assms(1) obtain gs ps where rep: "mq_rep h q (get_head q) gs ps"
    and xs: "xs = map (msg_of q) (gs @ ps)" "nonblock q \<noteq> 0" "linkoff q = off" by (auto simp: mq_fifo_def)
  let ?q = "q\<lparr>put_tail := link_of q x, msg_cnt := msg_cnt q + 1\<rparr>"
  from rep assms(2) have "free_link h q (get_head q) gs ps (link_of q x)" by (simp add: mq_usable_def)
  from msgqueue_put_spec [OF rep this] xs(2) obtain h' where
    "msgqueue_put x (q, h) = Inr (?q, h')" "mq_rep h' ?q (get_head q) gs (ps @ [link_of q x])"
    "hblocks h' = hblocks h" by (auto simp: put_blocked_def)
  moreover from this xs have "mq_fifo off (?q, h') (xs @ [x])"
    by (intro mq_fifoI [where gs = gs and ps = "ps @ [link_of q x]"]) (simp_all add: msg_of_def link_of_def)
  ultimately show ?thesis using rep by (intro exI [of _ ?q] exI [of _ h']) auto
qed

lemma mq_fifo_get:
  assumes "mq_fifo off (q, h) xs"
  shows "\<exists>q' h' gs ps gs' ps'. msgqueue_get (q, h) = Inr (case xs of [] \<Rightarrow> None | x # _ \<Rightarrow> Some x, (q', h')) \<and>
    mq_fifo off (q', h') (tl xs) \<and>
    mq_rep h q (get_head q) gs ps \<and> mq_rep h' q' (get_head q') gs' ps' \<and> linkoff q' = linkoff q \<and>
    hblocks h' = hblocks h \<and> mq_cells q' (get_head q') gs' ps' \<subseteq> mq_cells q (get_head q) gs ps"
proof -
  from assms obtain gs ps where rep: "mq_rep h q (get_head q) gs ps"
    and xs: "xs = map (msg_of q) (gs @ ps)" "nonblock q \<noteq> 0" "linkoff q = off" by (auto simp: mq_fifo_def)
  from msgqueue_get_spec [OF rep] xs(2) obtain q' h' gs' ps' where
    get: "msgqueue_get (q, h) = Inr (case gs @ ps of [] \<Rightarrow> None | l # _ \<Rightarrow> Some (msg_of q l), (q', h'))"
    and rep': "mq_rep h' q' (get_head q') gs' ps'" "gs' @ ps' = tl (gs @ ps)" "same_config q q'"
    "hblocks h' = hblocks h" "mq_cells q' (get_head q') gs' ps' \<subseteq> mq_cells q (get_head q) gs ps"
    by (auto simp: swap_blocked_def)
  have same: "msg_of q' = msg_of q" using rep'(3) by (simp add: same_config_def msg_of_def fun_eq_iff)
  have "mq_fifo off (q', h') (tl xs)"
    using rep' xs same by (intro mq_fifoI [where gs = gs' and ps = ps']) (simp_all add: same_config_def map_tl)
  moreover have "(case gs @ ps of [] \<Rightarrow> None | l # _ \<Rightarrow> Some (msg_of q l)) = (case xs of [] \<Rightarrow> None | x # _ \<Rightarrow> Some x)"
    using xs(1) by (cases "gs @ ps") auto
  ultimately show ?thesis using get rep rep' by (auto simp: same_config_def)
qed

interpretation message_queue: fifo_queue "mq_fifo off" mq_usable "links_apart off" msgqueue_put msgqueue_get
proof unfold_locales
  fix s xs x
  assume "mq_fifo off s xs" "mq_usable x s"
  then show "\<exists>s'. msgqueue_put x s = Inr s' \<and> mq_fifo off s' (xs @ [x])"
    using mq_fifo_put [of off "fst s" "snd s" xs x] by fastforce
next
  fix s
  assume "mq_fifo off s []"
  then show "\<exists>s'. msgqueue_get s = Inr (None, s') \<and> mq_fifo off s' []"
    using mq_fifo_get [of off "fst s" "snd s" "[]"] by fastforce
next
  fix s x xs
  assume "mq_fifo off s (x # xs)"
  then show "\<exists>s'. msgqueue_get s = Inr (Some x, s') \<and> mq_fifo off s' xs"
    using mq_fifo_get [of off "fst s" "snd s" "x # xs"] by fastforce
next
  fix s xs x y s'
  assume a: "mq_fifo off s xs" "mq_usable x s" "mq_usable y s" "links_apart off x y" "msgqueue_put x s = Inr s'"
  obtain q h where s: "s = (q, h)" by (cases s)
  with a have f: "mq_fifo off (q, h) xs" and u: "mq_usable x (q, h)" by auto
  from mq_fifo_put [OF f u] a(5) s obtain q' h' gs ps where
    s': "s' = (q', h')" and rep: "mq_rep h q (get_head q) gs ps"
    "mq_rep h' q' (get_head q') gs (ps @ [link_of q x])"
    and same: "get_head q' = get_head q" "put_head q' = put_head q" "linkoff q' = linkoff q" "hblocks h' = hblocks h"
    by auto
  from rep(1) a(3) s have "free_link h q (get_head q) gs ps (link_of q y)" by (simp add: mq_usable_def)
  moreover have "apart (link_of q x) 8 (link_of q y) 8"
    using f a(4) by (simp add: mq_fifo_def links_apart_def link_of_def)
  ultimately have "free_link h' q' (get_head q') gs (ps @ [link_of q x]) (link_of q' y)"
    using same by (auto simp: link_of_def intro: free_link_mono simp: mq_cells_def)
  with rep(2) s' show "mq_usable y s'" unfolding mq_usable_def by (auto dest: mq_rep_unique)
next
  fix s xs y r s'
  assume a: "mq_fifo off s xs" "mq_usable y s" "msgqueue_get s = Inr (r, s')"
  obtain q h where s: "s = (q, h)" by (cases s)
  with a have f: "mq_fifo off (q, h) xs" by auto
  from mq_fifo_get [OF f] a(3) s obtain q' h' gs ps gs' ps' where
    s': "s' = (q', h')" and rep: "mq_rep h q (get_head q) gs ps" "mq_rep h' q' (get_head q') gs' ps'"
    and same: "linkoff q' = linkoff q" "hblocks h' = hblocks h"
    "mq_cells q' (get_head q') gs' ps' \<subseteq> mq_cells q (get_head q) gs ps"
    by auto
  from rep(1) a(2) s have "free_link h q (get_head q) gs ps (link_of q y)" by (simp add: mq_usable_def)
  then have "free_link h' q' (get_head q') gs' ps' (link_of q' y)"
    using same free_link_sub by (simp add: link_of_def)
  with rep(2) s' show "mq_usable y s'" unfolding mq_usable_def by (auto dest: mq_rep_unique)
qed

subsection \<open>Properties\<close>

lemma queue_cells:
  assumes "heap_ok h" "(p, msgqueue_size) \<in> set (hblocks h)"
  shows "valid h (head1 p) 8" "valid h (head2 p) 8" "apart (head1 p) 8 (head2 p) 8"
    "room (head1 p) 8" "room (head2 p) 8"
proof -
  note f = field_valid [OF assms, of 24 8] field_valid [OF assms, of 32 8]
  from f show "valid h (head1 p) 8" "valid h (head2 p) 8"
    by (simp_all add: head1_def head2_def msgqueue_size_def)
  with assms(1) show "room (head1 p) 8" "room (head2 p) 8" by (auto intro: valid_room)
  from f show "apart (head1 p) 8 (head2 p) 8"
    by (simp add: head1_def head2_def msgqueue_size_def apart_def)
qed

text \<open>\<open>msgqueue_create\<close> when no call fails.\<close>

lemma msgqueue_create_ok:
  assumes "heap_ok h" "fresh p msgqueue_size h"
  shows "\<exists>q h'. msgqueue_create p 0 0 0 0 maxlen off h = Inr (Some q, [GetMutex, PutMutex, GetCond, PutCond], None, h') \<and>
    mq_rep h' q (get_head q) [] [] \<and> self q = p \<and> msg_max q = maxlen \<and> linkoff q = off \<and>
    nonblock q = 0 \<and> hblocks h' = (p, msgqueue_size) # hblocks h"
proof -
  have p: "p \<noteq> 0" using assms(2) by (simp add: fresh_def)
  let ?h = "h_malloc p msgqueue_size h"
  have hok: "heap_ok ?h" using assms by (rule heap_ok_malloc)
  have blocks: "hblocks ?h = (p, msgqueue_size) # hblocks h" using p by (simp add: h_malloc_def)
  let ?q = "\<lparr>self = p, msg_max = maxlen, msg_cnt = 0, linkoff = off, nonblock = 0,
    get_head = head1 p, put_head = head2 p, put_tail = head2 p\<rparr>"
  let ?h2 = "?h\<lparr>hbytes := st64 (head2 p) 0 (st64 (head1 p) 0 (hbytes ?h))\<rparr>"
  have c: "valid ?h (head1 p) 8" "valid ?h (head2 p) 8" "apart (head1 p) 8 (head2 p) 8"
    "room (head1 p) 8" "room (head2 p) 8"
    using queue_cells [OF hok, of p] blocks by auto
  then have "mq_rep ?h2 ?q (head1 p) [] []"
    using hok by (simp add: mq_rep_def mem_simps apart_sym)
  with p c blocks show ?thesis by (simp add: msgqueue_create_def Let_def)
qed



text \<open>
  The guard of the wait loop of \<open>msgqueue_put\<close>, \<open>msg_cnt > msg_max - 1\<close>, computed in
  \<open>size_t\<close>: in blocking mode it says that the producers' list holds \<open>maxlen\<close> messages or more,
  except that for \<open>maxlen = 0\<close> the subtraction wraps around and no producer ever waits.
\<close>

theorem put_blocked_iff:
  "put_blocked q \<longleftrightarrow> nonblock q = 0 \<and> msg_max q \<noteq> 0 \<and> msg_max q \<le> msg_cnt q"
proof (cases "msg_max q = 0")
  case True
  then show ?thesis by (simp add: put_blocked_def not_less)
next
  case False
  then have "msg_max q - 1 < msg_cnt q \<longleftrightarrow> msg_max q \<le> msg_cnt q"
    using unat_gt_0 [of "msg_max q"] unat_minus_one [OF False]
    unfolding word_less_nat_alt word_le_nat_alt by linarith
  with False show ?thesis by (auto simp: put_blocked_def)
qed

text \<open>
  C18: in nonblocking mode, any sequence of \<open>msgqueue_put\<close> and \<open>msgqueue_get\<close> calls of one
  thread, on messages whose link cells the client grants, runs without a fault and returns what
  the same sequence returns on a list: messages come out once each and in the order they went in,
  whatever swaps happen on the way, and \<open>msgqueue_get\<close> answers null exactly when none is left.
\<close>

theorem msgqueue_refines_list:
  assumes "mq_fifo off (q, h) xs" "sorted_wrt (links_apart off) (puts_of ops)"
    and "\<forall>x \<in> set (puts_of ops). mq_usable x (q, h)"
  shows "\<exists>s'. run_queue msgqueue_put msgqueue_get ops (q, h) = Inr (fst (list_queue ops xs), s') \<and>
    mq_fifo off s' (snd (list_queue ops xs))"
  using assms by (rule message_queue.run_refines)

definition demo_heap :: heap where
  "demo_heap = \<lparr>hbytes = (\<lambda>_. 0), hblocks = [(4096, 240), (8192, 64)]\<rparr>"

definition demo_queue :: msgqueue_t where
  "demo_queue = \<lparr>self = 4096, msg_max = 2, msg_cnt = 0, linkoff = 8, nonblock = 1,
     get_head = 4120, put_head = 4128, put_tail = 4128\<rparr>"

lemma demo_bytes: "ld64 (\<lambda>_. 0) a = 0"
  by (simp add: ld64_def eval_nat_numeral)

lemma demo_rep: "mq_rep demo_heap demo_queue 4120 [] []"
  by (simp add: mq_rep_def demo_heap_def demo_queue_def heap_ok_def room_def blocks_apart_def
      apart_def demo_bytes head1_def head2_def valid_def within_def)

lemma demo_fifo: "mq_fifo 8 (demo_queue, demo_heap) []"
  using demo_rep by (intro mq_fifoI [where gs = "[]" and ps = "[]"]) (simp_all add: demo_queue_def)

lemma demo_usable: "mq_usable 8192 (demo_queue, demo_heap)" "mq_usable 8208 (demo_queue, demo_heap)"
proof -
  have "get_head demo_queue = 4120" by (simp add: demo_queue_def)
  moreover have "free_link demo_heap demo_queue 4120 [] [] (link_of demo_queue m)" if "m \<in> {8192, 8208}" for m
    using that by (auto simp: free_link_def mq_cells_def link_of_def demo_queue_def demo_heap_def
      valid_def within_def apart_def)
  ultimately show "mq_usable 8192 (demo_queue, demo_heap)" "mq_usable 8208 (demo_queue, demo_heap)"
    using mq_rep_unique [OF demo_rep] by (fastforce simp: mq_usable_def)+
qed

theorem msgqueue_refines_list_witness:
  "\<exists>s'. run_queue msgqueue_put msgqueue_get [Put 8192, Put 8208, Get, Get, Get] (demo_queue, demo_heap)
     = Inr ([Some 8192, Some 8208, None], s')"
  using msgqueue_refines_list [OF demo_fifo, of "[Put 8192, Put 8208, Get, Get, Get]"] demo_usable
  by (auto simp: links_apart_def apart_def)

end
