(* ===== verification/Msgqueue_Conc.thy ===== *)
theory Msgqueue_Conc
  imports Msgqueue
begin

text \<open>
  Threads on the message queue of \<^verbatim>\<open>msgqueue.c\<close>. A thread is at one point of
  \<open>msgqueue_put\<close>, \<open>msgqueue_get\<close> (with \<open>__msgqueue_swap\<close>) or \<open>msgqueue_set_nonblock\<close>; a
  step takes one thread from one synchronisation operation to the next and runs the memory
  operations in between with the bodies of \<open>Msgqueue\<close>. The two mutexes record their owner;
  \<open>pthread_cond_wait\<close> releases the mutex, blocks, may wake up at any time, and takes the mutex
  again; a signal wakes one waiting thread if there is one, a broadcast all of them. The client
  may start a \<open>put\<close> of any message whose link cell is its own (\<open>put_may\<close>), and between any two steps
  it may read, write, allocate and free what does not belong to the queue (\<open>client_heap\<close>).
\<close>

subsection \<open>The threads and their steps\<close>

datatype mq_pc =
    Idle
  | PutLock addr     \<comment> \<open>the link is cleared; at \<open>pthread_mutex_lock(&put_mutex)\<close>\<close>
  | PutTest addr     \<comment> \<open>holds \<open>put_mutex\<close>, at the guard of the wait loop\<close>
  | PutWait addr     \<comment> \<open>blocked in \<open>pthread_cond_wait(&put_cond)\<close>\<close>
  | PutWake addr     \<comment> \<open>woken up, about to take \<open>put_mutex\<close> again\<close>
  | PutSignal        \<comment> \<open>the message is in; at \<open>pthread_cond_signal(&get_cond)\<close>\<close>
  | GetLock          \<comment> \<open>at \<open>pthread_mutex_lock(&get_mutex)\<close>\<close>
  | GetTest          \<comment> \<open>holds \<open>get_mutex\<close>, at the test of \<open>*get_head\<close>\<close>
  | SwapLock addr    \<comment> \<open>in \<open>__msgqueue_swap\<close> with \<open>get_head\<close> saved, at the lock of \<open>put_mutex\<close>\<close>
  | SwapTest addr    \<comment> \<open>holds both mutexes, at the guard of the wait loop\<close>
  | SwapWait addr    \<comment> \<open>blocked in \<open>pthread_cond_wait(&get_cond)\<close>\<close>
  | SwapWake addr    \<comment> \<open>woken up, about to take \<open>put_mutex\<close> again\<close>
  | GetPop           \<comment> \<open>holds \<open>get_mutex\<close>, about to unlink the first message\<close>
  | NbLock           \<comment> \<open>\<open>nonblock\<close> is set; at the lock of \<open>put_mutex\<close>\<close>

record mq_sys =
  mem :: heap
  que :: msgqueue_t
  gmx :: "nat option"          \<comment> \<open>the owner of \<open>get_mutex\<close>\<close>
  pmx :: "nat option"          \<comment> \<open>the owner of \<open>put_mutex\<close>\<close>
  pcs :: "nat \<Rightarrow> mq_pc"
  sent :: "addr list"          \<comment> \<open>the messages put so far, in the order of the critical sections\<close>
  got :: "addr list"           \<comment> \<open>the messages answered so far\<close>
  crashed :: bool

fun inflight :: "mq_pc \<Rightarrow> addr option" where
  "inflight (PutLock m) = Some m"
| "inflight (PutTest m) = Some m"
| "inflight (PutWait m) = Some m"
| "inflight (PutWake m) = Some m"
| "inflight _ = None"

fun saved_cell :: "mq_pc \<Rightarrow> addr option" where
  "saved_cell (SwapLock c) = Some c"
| "saved_cell (SwapTest c) = Some c"
| "saved_cell (SwapWait c) = Some c"
| "saved_cell (SwapWake c) = Some c"
| "saved_cell _ = None"

fun holds_get :: "mq_pc \<Rightarrow> bool" where
  "holds_get GetTest = True"
| "holds_get GetPop = True"
| "holds_get pc = (saved_cell pc \<noteq> None)"

fun holds_put :: "mq_pc \<Rightarrow> bool" where
  "holds_put (PutTest m) = True"
| "holds_put (SwapTest c) = True"
| "holds_put _ = False"

definition holder :: "mq_sys \<Rightarrow> mq_pc" where
  "holder s = (case gmx s of None \<Rightarrow> Idle | Some t \<Rightarrow> pcs s t)"

definition get_cell :: "msgqueue_t \<Rightarrow> mq_pc \<Rightarrow> addr" where
  "get_cell q pc = (case saved_cell pc of None \<Rightarrow> get_head q | Some c \<Rightarrow> c)"

definition put_may :: "mq_sys \<Rightarrow> addr \<Rightarrow> bool" where
  "put_may s msg \<longleftrightarrow>
     (\<forall>gs ps. mq_rep (mem s) (que s) (get_cell (que s) (holder s)) gs ps \<longrightarrow>
        free_link (mem s) (que s) (get_cell (que s) (holder s)) gs ps (link_of (que s) msg)) \<and>
     (\<forall>t m. inflight (pcs s t) = Some m \<longrightarrow> apart (link_of (que s) m) 8 (link_of (que s) msg) 8)"

text \<open>What the client may make of the memory: the cells of the queue and the links of messages that are being put stay.\<close>

definition cell_kept :: "heap \<Rightarrow> heap \<Rightarrow> addr \<Rightarrow> bool" where
  "cell_kept h h' c \<longleftrightarrow> valid h' c 8 \<and> ld64 (hbytes h') c = ld64 (hbytes h) c"

definition client_heap :: "mq_sys \<Rightarrow> heap \<Rightarrow> bool" where
  "client_heap s h \<longleftrightarrow> heap_ok h \<and>
     (\<forall>gs ps. mq_rep (mem s) (que s) (get_cell (que s) (holder s)) gs ps \<longrightarrow>
        (\<forall>c \<in> mq_cells (que s) (get_cell (que s) (holder s)) gs ps. cell_kept (mem s) h c)) \<and>
     (\<forall>t m. inflight (pcs s t) = Some m \<longrightarrow> cell_kept (mem s) h (link_of (que s) m))"

fun wake_put :: "mq_pc \<Rightarrow> mq_pc" where
  "wake_put (PutWait m) = PutWake m"
| "wake_put pc = pc"

definition crash_or :: "mq_sys \<Rightarrow> fault + 'a \<Rightarrow> ('a \<Rightarrow> mq_sys) \<Rightarrow> mq_sys" where
  "crash_or s r k = (case r of Inl e \<Rightarrow> s\<lparr>crashed := True\<rparr> | Inr x \<Rightarrow> k x)"

inductive mq_step :: "mq_sys \<Rightarrow> mq_sys \<Rightarrow> bool" where
  put_begin: "pcs s t = Idle \<Longrightarrow> put_may s msg \<Longrightarrow>
    mq_step s (crash_or s (put_enter msg (que s) (mem s)) (\<lambda>h.
      s\<lparr>mem := h, pcs := (pcs s)(t := PutLock msg)\<rparr>))"
| put_lock: "pcs s t = PutLock msg \<or> pcs s t = PutWake msg \<Longrightarrow> pmx s = None \<Longrightarrow>
    mq_step s (s\<lparr>pmx := Some t, pcs := (pcs s)(t := PutTest msg)\<rparr>)"
| put_wait: "pcs s t = PutTest msg \<Longrightarrow> put_blocked (que s) \<Longrightarrow>
    mq_step s (s\<lparr>pmx := None, pcs := (pcs s)(t := PutWait msg)\<rparr>)"
| put_append: "pcs s t = PutTest msg \<Longrightarrow> \<not> put_blocked (que s) \<Longrightarrow>
    mq_step s (crash_or s (put_body msg (que s) (mem s)) (\<lambda>(q, h).
      s\<lparr>mem := h, que := q, pmx := None, pcs := (pcs s)(t := PutSignal), sent := sent s @ [msg]\<rparr>))"
| put_signal_one: "pcs s t = PutSignal \<Longrightarrow> pcs s u = SwapWait c \<Longrightarrow>
    mq_step s (s\<lparr>pcs := (pcs s)(t := Idle, u := SwapWake c)\<rparr>)"
| put_signal_none: "pcs s t = PutSignal \<Longrightarrow> (\<forall>u c. pcs s u \<noteq> SwapWait c) \<Longrightarrow>
    mq_step s (s\<lparr>pcs := (pcs s)(t := Idle)\<rparr>)"
| put_spurious: "pcs s t = PutWait msg \<Longrightarrow>
    mq_step s (s\<lparr>pcs := (pcs s)(t := PutWake msg)\<rparr>)"
| get_begin: "pcs s t = Idle \<Longrightarrow>
    mq_step s (s\<lparr>pcs := (pcs s)(t := GetLock)\<rparr>)"
| get_lock: "pcs s t = GetLock \<Longrightarrow> gmx s = None \<Longrightarrow>
    mq_step s (s\<lparr>gmx := Some t, pcs := (pcs s)(t := GetTest)\<rparr>)"
| get_test: "pcs s t = GetTest \<Longrightarrow>
    mq_step s (crash_or s (rd64 (mem s) (get_head (que s))) (\<lambda>g.
      if g \<noteq> 0 then s\<lparr>pcs := (pcs s)(t := GetPop)\<rparr>
      else s\<lparr>que := snd (swap_enter (que s)),
             pcs := (pcs s)(t := SwapLock (fst (swap_enter (que s))))\<rparr>))"
| swap_lock: "pcs s t = SwapLock c \<or> pcs s t = SwapWake c \<Longrightarrow> pmx s = None \<Longrightarrow>
    mq_step s (s\<lparr>pmx := Some t, pcs := (pcs s)(t := SwapTest c)\<rparr>)"
| swap_wait: "pcs s t = SwapTest c \<Longrightarrow> swap_blocked (que s) \<Longrightarrow>
    mq_step s (s\<lparr>pmx := None, pcs := (pcs s)(t := SwapWait c)\<rparr>)"
| swap_spurious: "pcs s t = SwapWait c \<Longrightarrow>
    mq_step s (s\<lparr>pcs := (pcs s)(t := SwapWake c)\<rparr>)"
| swap_go: "pcs s t = SwapTest c \<Longrightarrow> \<not> swap_blocked (que s) \<Longrightarrow> swap_body c (que s) = (cnt, bc, q) \<Longrightarrow>
    pcs' = (if bc then wake_put \<circ> pcs s else pcs s) \<Longrightarrow>
    mq_step s
      (if 0 < cnt then s\<lparr>que := q, pmx := None, pcs := pcs'(t := GetPop)\<rparr>
       else s\<lparr>que := q, pmx := None, gmx := None, pcs := pcs'(t := Idle)\<rparr>)"
| get_take: "pcs s t = GetPop \<Longrightarrow>
    mq_step s (crash_or s (get_pop (que s) (mem s)) (\<lambda>(msg, h).
      s\<lparr>mem := h, gmx := None, pcs := (pcs s)(t := Idle), got := got s @ [msg]\<rparr>))"
| nb_begin: "pcs s t = Idle \<Longrightarrow>
    mq_step s (s\<lparr>que := set_nonblock_flag (que s), pcs := (pcs s)(t := NbLock)\<rparr>)"
| nb_go_one: "pcs s t = NbLock \<Longrightarrow> pmx s = None \<Longrightarrow> pcs s u = SwapWait c \<Longrightarrow>
    mq_step s (s\<lparr>pcs := (wake_put \<circ> pcs s)(t := Idle, u := SwapWake c)\<rparr>)"
| nb_go_none: "pcs s t = NbLock \<Longrightarrow> pmx s = None \<Longrightarrow> (\<forall>u c. pcs s u \<noteq> SwapWait c) \<Longrightarrow>
    mq_step s (s\<lparr>pcs := (wake_put \<circ> pcs s)(t := Idle)\<rparr>)"
| block_set: "pcs s t = Idle \<Longrightarrow>
    mq_step s (s\<lparr>que := msgqueue_set_block (que s)\<rparr>)"

definition mq_start :: "heap \<Rightarrow> msgqueue_t \<Rightarrow> mq_sys" where
  "mq_start h q = \<lparr>mem = h, que = q, gmx = None, pmx = None, pcs = (\<lambda>_. Idle), sent = [], got = [],
     crashed = False\<rparr>"

inductive mq_reach :: "mq_sys \<Rightarrow> bool" where
  start: "mq_rep h q (get_head q) [] [] \<Longrightarrow> mq_reach (mq_start h q)"
| step: "mq_reach s \<Longrightarrow> mq_step s s' \<Longrightarrow> mq_reach s'"
| client: "mq_reach s \<Longrightarrow> client_heap s h \<Longrightarrow> mq_reach (s\<lparr>mem := h\<rparr>)"

subsection \<open>Who holds which mutex\<close>

definition lock_inv :: "mq_sys \<Rightarrow> bool" where
  "lock_inv s \<longleftrightarrow> (\<forall>t. holds_get (pcs s t) \<longleftrightarrow> gmx s = Some t) \<and>
     (\<forall>t. holds_put (pcs s t) \<longleftrightarrow> pmx s = Some t)"

lemma wake_put_simps [simp]:
  "holds_get (wake_put pc) = holds_get pc" "holds_put (wake_put pc) = holds_put pc"
  "inflight (wake_put pc) = inflight pc" "saved_cell (wake_put pc) = saved_cell pc"
  "wake_put pc = GetPop \<longleftrightarrow> pc = GetPop" "wake_put pc = SwapWait c \<longleftrightarrow> pc = SwapWait c"
  "wake_put pc = PutSignal \<longleftrightarrow> pc = PutSignal" "wake_put pc = NbLock \<longleftrightarrow> pc = NbLock"
  "wake_put pc \<noteq> PutWait m"
  by (cases pc; simp)+

lemma lock_inv_start: "lock_inv (mq_start h q)"
  by (simp add: lock_inv_def mq_start_def)

lemma lock_inv_pc:
  "pcs s t = pc \<Longrightarrow> lock_inv s \<Longrightarrow> holds_get pc = (gmx s = Some t) \<and> holds_put pc = (pmx s = Some t)"
  by (auto simp: lock_inv_def)

lemma lock_inv_step: "mq_step s s' \<Longrightarrow> lock_inv s \<Longrightarrow> lock_inv s'"
  apply (induction rule: mq_step.induct; (elim disjE)?; frule (1) lock_inv_pc)
  apply (simp_all add: lock_inv_def crash_or_def split: sum.split)
  apply auto
  apply (metis holds_put.simps)
  done

subsection \<open>The lists in memory while threads run\<close>

text \<open>
  \<open>data_ok\<close> speaks of the shared memory and of what the threads hold: \<open>pc\<close> is the point where
  the owner of \<open>get_mutex\<close> is, \<open>fl t\<close> the message thread \<open>t\<close> is putting. The messages sent are
  the messages answered followed by the two lists; the consumers' list is empty while a swap is
  under way and nonempty at \<open>GetPop\<close>; links of messages that are being put are cleared and clear
  of everything else.
\<close>

definition links_ok :: "heap \<Rightarrow> msgqueue_t \<Rightarrow> addr \<Rightarrow> addr list \<Rightarrow> addr list \<Rightarrow> (nat \<Rightarrow> addr option) \<Rightarrow> bool" where
  "links_ok h q g gs ps fl \<longleftrightarrow>
     (\<forall>t m. fl t = Some m \<longrightarrow> free_link h q g gs ps (link_of q m) \<and> ld64 (hbytes h) (link_of q m) = 0) \<and>
     (\<forall>t u m m'. t \<noteq> u \<longrightarrow> fl t = Some m \<longrightarrow> fl u = Some m' \<longrightarrow> apart (link_of q m) 8 (link_of q m') 8)"

definition data_ok :: "heap \<Rightarrow> msgqueue_t \<Rightarrow> mq_pc \<Rightarrow> (nat \<Rightarrow> addr option) \<Rightarrow> addr list \<Rightarrow> addr list \<Rightarrow>
    addr list \<Rightarrow> addr list \<Rightarrow> bool" where
  "data_ok h q pc fl snt gt gs ps \<longleftrightarrow>
     mq_rep h q (get_cell q pc) gs ps \<and> snt = gt @ map (msg_of q) (gs @ ps) \<and>
     (saved_cell pc \<noteq> None \<longrightarrow> gs = [] \<and> get_head q = put_head q) \<and> (pc = GetPop \<longrightarrow> gs \<noteq> []) \<and>
     links_ok h q (get_cell q pc) gs ps fl"

definition data_inv :: "mq_sys \<Rightarrow> bool" where
  "data_inv s \<longleftrightarrow> \<not> crashed s \<and>
     (\<exists>gs ps. data_ok (mem s) (que s) (holder s) (inflight \<circ> pcs s) (sent s) (got s) gs ps)"

lemma links_ok_start:
  assumes "links_ok h q g gs ps fl" "mq_rep h q g gs ps" "fl t = None"
    and "free_link h q g gs ps (link_of q m)"
    and "\<forall>u m'. fl u = Some m' \<longrightarrow> apart (link_of q m') 8 (link_of q m) 8"
  shows "links_ok (h\<lparr>hbytes := st64 (link_of q m) 0 (hbytes h)\<rparr>) q g gs ps (fl(t := Some m))"
proof -
  have hok: "heap_ok h" using assms(2) by (simp add: mq_rep_def)
  have rm: "room (link_of q m) 8" using assms(4) hok by (auto simp: free_link_def intro: valid_room)
  have "ld64 (st64 (link_of q m) 0 (hbytes h)) (link_of q m') = 0" if "fl u = Some m'" for u m'
  proof -
    have "room (link_of q m') 8" "ld64 (hbytes h) (link_of q m') = 0"
      using assms(1) that hok by (auto simp: links_ok_def free_link_def intro: valid_room)
    moreover have "apart (link_of q m) 8 (link_of q m') 8" using assms(5) that apart_sym by blast
    ultimately show ?thesis using rm by (simp add: mem_simps)
  qed
  with assms show ?thesis
    by (auto simp: links_ok_def free_link_def apart_sym)
qed

lemma links_ok_mem:
  assumes "links_ok h q g gs ps fl" "mq_rep h q g gs ps" "hblocks h' = hblocks h"
    and "\<forall>c. room c 8 \<longrightarrow> apart w 8 c 8 \<longrightarrow> ld64 (hbytes h') c = ld64 (hbytes h) c"
    and "w \<in> mq_cells q g gs ps" "linkoff q' = linkoff q"
    and "\<And>t. fl' t \<noteq> None \<Longrightarrow> fl' t = fl t"
    and "mq_cells q' g' gs' ps' \<subseteq> insert cc (mq_cells q g gs ps)"
    and "\<And>t m. fl' t = Some m \<Longrightarrow> apart cc 8 (link_of q m) 8"
  shows "links_ok h' q' g' gs' ps' fl'"
  unfolding links_ok_def
proof (intro conjI allI impI)
  have hok: "heap_ok h" using assms(2) by (simp add: mq_rep_def)
  have link: "link_of q' m = link_of q m" for m using assms(6) by (simp add: link_of_def)
  fix t m assume "fl' t = Some m"
  with assms(7) [of t] have fl: "fl t = Some m" by auto
  with assms(1) have f: "free_link h q g gs ps (link_of q m)" "ld64 (hbytes h) (link_of q m) = 0"
    by (auto simp: links_ok_def)
  then show "free_link h' q' g' gs' ps' (link_of q' m)"
    unfolding link by (intro free_link_mono [OF _ assms(3,8)] assms(9) [OF \<open>fl' t = Some m\<close>])
  have "room (link_of q m) 8" using f(1) hok by (auto simp: free_link_def intro: valid_room)
  moreover have "apart w 8 (link_of q m) 8" using f(1) assms(5) by (simp add: free_link_def)
  ultimately show "ld64 (hbytes h') (link_of q' m) = 0" using assms(4) f(2) link by simp
next
  fix t u m m' assume "t \<noteq> u" "fl' t = Some m" "fl' u = Some m'"
  with assms(7) [of t] assms(7) [of u] have "fl t = Some m" "fl u = Some m'" by auto
  with assms(1,6) \<open>t \<noteq> u\<close> show "apart (link_of q' m) 8 (link_of q' m') 8"
    by (auto simp: links_ok_def link_of_def)
qed

lemma data_enter:
  assumes d: "data_ok h q pc fl snt gt gs ps" and t: "fl t = None"
    and l: "free_link h q (get_cell q pc) gs ps (link_of q m)"
    and o: "\<forall>u m'. fl u = Some m' \<longrightarrow> apart (link_of q m') 8 (link_of q m) 8"
  shows "\<exists>h'. put_enter m q h = Inr h' \<and> data_ok h' q pc (fl(t := Some m)) snt gt gs ps"
proof -
  let ?h = "h\<lparr>hbytes := st64 (link_of q m) 0 (hbytes h)\<rparr>"
  have rep: "mq_rep h q (get_cell q pc) gs ps" using d by (simp add: data_ok_def)
  have "mq_rep ?h q (get_cell q pc) gs ps" using rep l by (rule mq_rep_write)
  moreover have "links_ok ?h q (get_cell q pc) gs ps (fl(t := Some m))"
    using d t l o rep by (intro links_ok_start) (auto simp: data_ok_def)
  moreover have "put_enter m q h = Inr ?h" using l by (simp add: put_enter_def free_link_def)
  ultimately show ?thesis using d by (simp add: data_ok_def)
qed

lemma data_append:
  assumes d: "data_ok h q pc fl snt gt gs ps" and t: "fl t = Some m"
  shows "\<exists>q' h'. put_body m q h = Inr (q', h') \<and>
    data_ok h' q' pc (fl(t := None)) (snt @ [m]) gt gs (ps @ [link_of q m]) \<and>
    q' = q\<lparr>put_tail := link_of q m, msg_cnt := msg_cnt q + 1\<rparr>"
proof -
  let ?q = "q\<lparr>put_tail := link_of q m, msg_cnt := msg_cnt q + 1\<rparr>" and ?g = "get_cell q pc"
  have rep: "mq_rep h q ?g gs ps" and links: "links_ok h q ?g gs ps fl" using d by (simp_all add: data_ok_def)
  from links t have l: "free_link h q ?g gs ps (link_of q m)" "ld64 (hbytes h) (link_of q m) = 0"
    by (auto simp: links_ok_def)
  from put_body_rep [OF rep l] obtain h' where
    body: "put_body m q h = Inr (?q, h')" and rep': "mq_rep h' ?q ?g gs (ps @ [link_of q m])"
    and blocks: "hblocks h' = hblocks h"
    and same: "\<forall>c. room c 8 \<longrightarrow> apart (put_tail q) 8 c 8 \<longrightarrow> ld64 (hbytes h') c = ld64 (hbytes h) c"
    by blast
  have tail: "put_tail q \<in> mq_cells q ?g gs ps" using rep by (auto simp: mq_rep_def mq_cells_def)
  have "links_ok h' ?q ?g gs (ps @ [link_of q m]) (fl(t := None))"
  proof (rule links_ok_mem [where cc = "link_of q m", OF links rep blocks same tail])
    show "mq_cells ?q ?g gs (ps @ [link_of q m]) \<subseteq> insert (link_of q m) (mq_cells q ?g gs ps)"
      by (auto simp: mq_cells_def)
    show "apart (link_of q m) 8 (link_of q m') 8" if "(fl(t := None)) u = Some m'" for u m'
      using links t that unfolding links_ok_def by (metis fun_upd_apply option.discI)
  qed (auto split: if_splits)
  moreover have "get_cell ?q pc = ?g" by (simp add: get_cell_def split: option.split)
  moreover have "msg_of ?q = msg_of q" by (simp add: msg_of_def fun_eq_iff)
  ultimately have "data_ok h' ?q pc (fl(t := None)) (snt @ [m]) gt gs (ps @ [link_of q m])"
    using d rep' by (simp add: data_ok_def)
  with body show ?thesis by blast
qed

lemma links_ok_cong:
  "links_ok h q g gs ps fl \<Longrightarrow> linkoff q' = linkoff q \<Longrightarrow> mq_cells q' g' gs' ps' \<subseteq> mq_cells q g gs ps \<Longrightarrow>
     links_ok h q' g' gs' ps' fl"
  unfolding links_ok_def link_of_def by (auto intro: free_link_sub)

lemma mq_rep_cong:
  "put_head q' = put_head q \<Longrightarrow> put_tail q' = put_tail q \<Longrightarrow> msg_cnt q' = msg_cnt q \<Longrightarrow> self q' = self q \<Longrightarrow>
     mq_rep h q' g gs ps = mq_rep h q g gs ps"
  unfolding mq_rep_def by (simp only:)

lemma msg_of_cong: "linkoff q' = linkoff q \<Longrightarrow> msg_of q' = msg_of q"
  by (simp add: msg_of_def fun_eq_iff)

lemma data_swap_enter:
  assumes "data_ok h q GetTest fl snt gt [] ps"
  shows "data_ok h (snd (swap_enter q)) (SwapLock (fst (swap_enter q))) fl snt gt [] ps"
proof -
  have links: "links_ok h (snd (swap_enter q)) (get_head q) [] ps fl"
    using assms by - (rule links_ok_cong [of h q "get_head q" "[]" ps],
      simp_all add: data_ok_def get_cell_def swap_enter_def mq_cells_def)
  have rep: "mq_rep h (snd (swap_enter q)) (get_head q) [] ps"
    using assms by (subst mq_rep_cong [of _ q]) (simp_all add: data_ok_def get_cell_def swap_enter_def)
  have "msg_of (snd (swap_enter q)) = msg_of q" by (rule msg_of_cong) (simp add: swap_enter_def)
  with assms links rep show ?thesis
    by (simp add: data_ok_def get_cell_def swap_enter_def)
qed

lemma data_swap_body:
  assumes d: "data_ok h q (SwapTest c) fl snt gt gs ps" and b: "swap_body c q = (cnt, bc, q')"
  shows "data_ok h q' (if 0 < cnt then GetPop else Idle) fl snt gt ps []" "0 < cnt \<longleftrightarrow> ps \<noteq> []"
proof -
  have gs: "gs = []" "get_head q = put_head q" "mq_rep h q c [] ps"
    using d by (auto simp: data_ok_def get_cell_def)
  have q': "q' = q\<lparr>put_head := c, put_tail := c, msg_cnt := 0\<rparr>" "cnt = msg_cnt q"
    using b by (auto simp: swap_body_def)
  have "unat cnt = length ps" using gs(3) q'(2) by (simp add: mq_rep_def)
  then show cnt: "0 < cnt \<longleftrightarrow> ps \<noteq> []" by (simp add: word_less_nat_alt)
  have "q\<lparr>get_head := put_head q\<rparr> = q" using gs(2) by (metis msgqueue_t.surjective msgqueue_t.update_convs(6))
  with swap_rep [OF gs(3)] q' have "mq_rep h q' (put_head q) ps []" by (simp add: swap_body_def)
  moreover have "links_ok h q' (put_head q) ps [] fl"
    using d gs q' by - (rule links_ok_cong [of h q c "[]" ps], auto simp: data_ok_def get_cell_def mq_cells_def)
  ultimately show "data_ok h q' (if 0 < cnt then GetPop else Idle) fl snt gt ps []"
    using d gs q' cnt msg_of_cong [of q' q] by (cases "ps = []") (simp_all add: data_ok_def get_cell_def)
qed

lemma data_pop:
  assumes d: "data_ok h q GetPop fl snt gt gs ps"
  shows "\<exists>msg h'. get_pop q h = Inr (msg, h') \<and> data_ok h' q Idle fl snt (gt @ [msg]) (tl gs) ps"
proof -
  from d obtain l ls where gs: "gs = l # ls" by (cases gs) (auto simp: data_ok_def)
  have rep: "mq_rep h q (get_head q) (l # ls) ps" and links: "links_ok h q (get_head q) (l # ls) ps fl"
    using d gs by (auto simp: data_ok_def get_cell_def)
  from get_pop_rep [OF rep] obtain h' where pop: "get_pop q h = Inr (msg_of q l, h')"
    and rep': "mq_rep h' q (get_head q) ls ps" and blocks: "hblocks h' = hblocks h"
    and same: "\<forall>c. room c 8 \<longrightarrow> apart (get_head q) 8 c 8 \<longrightarrow> ld64 (hbytes h') c = ld64 (hbytes h) c"
    by blast
  have cell: "get_head q \<in> mq_cells q (get_head q) (l # ls) ps" by (simp add: mq_cells_def)
  have "links_ok h' q (get_head q) ls ps fl"
  proof (rule links_ok_mem [where cc = "get_head q", OF links rep blocks same cell])
    show "mq_cells q (get_head q) ls ps \<subseteq> insert (get_head q) (mq_cells q (get_head q) (l # ls) ps)"
      by (auto simp: mq_cells_def)
    show "apart (get_head q) 8 (link_of q m) 8" if "fl t = Some m" for t m
      using links that cell by (auto simp: links_ok_def free_link_def)
  qed simp_all
  with d gs pop rep' show ?thesis by (simp add: data_ok_def get_cell_def)
qed

lemma data_flag:
  "data_ok h q pc fl snt gt gs ps \<Longrightarrow> data_ok h (q\<lparr>nonblock := n\<rparr>) pc fl snt gt gs ps"
proof -
  assume d: "data_ok h q pc fl snt gt gs ps"
  then have "links_ok h (q\<lparr>nonblock := n\<rparr>) (get_cell q pc) gs ps fl"
    by - (rule links_ok_cong [of h q "get_cell q pc" gs ps], simp_all add: data_ok_def mq_cells_def)
  moreover have "mq_rep h (q\<lparr>nonblock := n\<rparr>) (get_cell q pc) gs ps"
    using d by (subst mq_rep_cong [of _ q]) (simp_all add: data_ok_def)
  moreover have "get_cell (q\<lparr>nonblock := n\<rparr>) pc = get_cell q pc"
    by (simp add: get_cell_def split: option.split)
  moreover have "msg_of (q\<lparr>nonblock := n\<rparr>) = msg_of q" by (rule msg_of_cong) simp
  ultimately show ?thesis using d by (simp add: data_ok_def)
qed


lemma data_ok_pc:
  "saved_cell pc' = saved_cell pc \<Longrightarrow> (pc' = GetPop \<longleftrightarrow> pc = GetPop) \<Longrightarrow>
     data_ok h q pc' fl snt gt gs ps = data_ok h q pc fl snt gt gs ps"
  by (simp add: data_ok_def get_cell_def)

lemma data_inv_move:
  "data_inv s \<Longrightarrow> mem s' = mem s \<Longrightarrow> que s' = que s \<Longrightarrow> sent s' = sent s \<Longrightarrow> got s' = got s \<Longrightarrow>
     crashed s' = crashed s \<Longrightarrow> inflight \<circ> pcs s' = inflight \<circ> pcs s \<Longrightarrow>
     saved_cell (holder s') = saved_cell (holder s) \<Longrightarrow> (holder s' = GetPop \<longleftrightarrow> holder s = GetPop) \<Longrightarrow>
     data_inv s'"
  unfolding data_inv_def by (metis data_ok_pc)

lemma inflight_upd:
  "inflight \<circ> pcs'(t := pc) = (inflight \<circ> pcs')(t := inflight pc)"
  "inflight \<circ> (wake_put \<circ> pcs') = inflight \<circ> pcs'"
  by (auto simp: fun_eq_iff)

lemma inflight_same: "inflight (f t) = x \<Longrightarrow> (inflight \<circ> f)(t := x) = inflight \<circ> f"
  by (auto simp: fun_eq_iff)

lemma not_owner: "lock_inv s \<Longrightarrow> pcs s t = pc \<Longrightarrow> \<not> holds_get pc \<Longrightarrow> gmx s \<noteq> Some t"
  by (auto simp: lock_inv_def)

lemma owner: "lock_inv s \<Longrightarrow> pcs s t = pc \<Longrightarrow> holds_get pc \<Longrightarrow> gmx s = Some t \<and> holder s = pc"
  by (auto simp: lock_inv_def holder_def)

lemma holder_other: "gmx s' = gmx s \<Longrightarrow> gmx s \<noteq> Some t \<Longrightarrow> pcs s' = (pcs s)(t := pc) \<Longrightarrow> holder s' = holder s"
  by (auto simp: holder_def split: option.split)

lemma data_inv_append:
  assumes l: "lock_inv s" and d: "data_inv s" and t: "pcs s t = PutTest msg"
  shows "\<exists>q h. put_body msg (que s) (mem s) = Inr (q, h) \<and>
    q = (que s)\<lparr>put_tail := link_of (que s) msg, msg_cnt := msg_cnt (que s) + 1\<rparr> \<and> msg_cnt q \<noteq> 0 \<and>
    data_inv (s\<lparr>mem := h, que := q, pmx := None, pcs := (pcs s)(t := PutSignal), sent := sent s @ [msg]\<rparr>)"
proof -
  from d obtain gs ps where ok: "data_ok (mem s) (que s) (holder s) (inflight \<circ> pcs s) (sent s) (got s) gs ps"
    by (auto simp: data_inv_def)
  have "(inflight \<circ> pcs s) t = Some msg" using t by simp
  from data_append [OF ok this] obtain q h where b: "put_body msg (que s) (mem s) = Inr (q, h)"
    and ok': "data_ok h q (holder s) ((inflight \<circ> pcs s)(t := None)) (sent s @ [msg]) (got s) gs (ps @ [link_of (que s) msg])"
    and q: "q = (que s)\<lparr>put_tail := link_of (que s) msg, msg_cnt := msg_cnt (que s) + 1\<rparr>" by blast
  let ?s = "s\<lparr>mem := h, que := q, pmx := None, pcs := (pcs s)(t := PutSignal), sent := sent s @ [msg]\<rparr>"
  have "gmx s \<noteq> Some t" by (rule not_owner [OF l t]) simp
  then have "holder ?s = holder s" by (auto simp: holder_def split: option.split)
  with ok' d have "data_inv ?s" by (auto simp: data_inv_def inflight_upd)
  moreover have "unat (msg_cnt q) = Suc (length ps)" using ok' by (simp add: data_ok_def mq_rep_def)
  then have "msg_cnt q \<noteq> 0" by auto
  ultimately show ?thesis using b q by blast
qed

lemma data_inv_swap:
  assumes l: "lock_inv s" and d: "data_inv s" and t: "pcs s t = SwapTest c"
    and b: "swap_body c (que s) = (cnt, bc, q)" and p: "pcs' = (if bc then wake_put \<circ> pcs s else pcs s)"
  shows "data_inv (if 0 < cnt then s\<lparr>que := q, pmx := None, pcs := pcs'(t := GetPop)\<rparr>
       else s\<lparr>que := q, pmx := None, gmx := None, pcs := pcs'(t := Idle)\<rparr>)"
    "length (sent s) = length (got s) + unat (msg_cnt (que s))"
proof -
  from d obtain gs ps where ok: "data_ok (mem s) (que s) (holder s) (inflight \<circ> pcs s) (sent s) (got s) gs ps"
    and nc: "\<not> crashed s" by (auto simp: data_inv_def)
  have own: "gmx s = Some t" "holder s = SwapTest c" using owner [OF l t] by auto
  from data_swap_body [OF ok [unfolded own(2)] b] have
    ok': "data_ok (mem s) q (if 0 < cnt then GetPop else Idle) (inflight \<circ> pcs s) (sent s) (got s) ps []" by simp
  have "(inflight \<circ> pcs'(t := pc)) = inflight \<circ> pcs s" if "inflight pc = None" for pc
    using p t that by (auto simp: fun_eq_iff)
  with ok' nc own show "data_inv (if 0 < cnt then s\<lparr>que := q, pmx := None, pcs := pcs'(t := GetPop)\<rparr>
       else s\<lparr>que := q, pmx := None, gmx := None, pcs := pcs'(t := Idle)\<rparr>)"
    by (cases "0 < cnt") (auto simp: data_inv_def holder_def)
  show "length (sent s) = length (got s) + unat (msg_cnt (que s))"
    using ok own by (auto simp: data_ok_def mq_rep_def)
qed

lemma data_inv_pop:
  assumes l: "lock_inv s" and d: "data_inv s" and t: "pcs s t = GetPop"
  shows "\<exists>msg h. get_pop (que s) (mem s) = Inr (msg, h) \<and>
    data_inv (s\<lparr>mem := h, gmx := None, pcs := (pcs s)(t := Idle), got := got s @ [msg]\<rparr>)"
proof -
  from d obtain gs ps where ok: "data_ok (mem s) (que s) (holder s) (inflight \<circ> pcs s) (sent s) (got s) gs ps"
    and nc: "\<not> crashed s" by (auto simp: data_inv_def)
  have own: "holder s = GetPop" using owner [OF l t] by auto
  from data_pop [OF ok [unfolded own]] obtain msg h where "get_pop (que s) (mem s) = Inr (msg, h)"
    "data_ok h (que s) Idle (inflight \<circ> pcs s) (sent s) (got s @ [msg]) (tl gs) ps" by blast
  moreover have "inflight \<circ> (pcs s)(t := Idle) = inflight \<circ> pcs s" using t by (auto simp: fun_eq_iff)
  ultimately show ?thesis using nc by (auto simp: data_inv_def holder_def)
qed

lemma data_inv_test:
  assumes l: "lock_inv s" and d: "data_inv s" and t: "pcs s t = GetTest"
  shows "\<exists>g. rd64 (mem s) (get_head (que s)) = Inr g \<and>
    data_inv (if g \<noteq> 0 then s\<lparr>pcs := (pcs s)(t := GetPop)\<rparr>
      else s\<lparr>que := snd (swap_enter (que s)), pcs := (pcs s)(t := SwapLock (fst (swap_enter (que s))))\<rparr>)"
proof -
  from d obtain gs ps where ok0: "data_ok (mem s) (que s) (holder s) (inflight \<circ> pcs s) (sent s) (got s) gs ps"
    and nc: "\<not> crashed s" by (auto simp: data_inv_def)
  have own: "gmx s = Some t" "holder s = GetTest" using owner [OF l t] by auto
  note ok = ok0 [unfolded own(2)]
  have fl: "inflight \<circ> (pcs s)(t := pc) = inflight \<circ> pcs s" if "inflight pc = None" for pc
    using t that by (auto simp: fun_eq_iff)
  have rep: "mq_rep (mem s) (que s) (get_head (que s)) gs ps" using ok by (simp add: data_ok_def get_cell_def)
  then have rd: "rd64 (mem s) (get_head (que s)) = Inr (ld64 (hbytes (mem s)) (get_head (que s)))"
    by (auto simp: mq_rep_def)
  have z: "ld64 (hbytes (mem s)) (get_head (que s)) \<noteq> 0 \<longleftrightarrow> gs \<noteq> []"
    using rep by (cases gs) (auto simp: mq_rep_def)
  show ?thesis
  proof (cases gs)
    case Nil
    with ok have "data_ok (mem s) (que s) GetTest (inflight \<circ> pcs s) (sent s) (got s) [] ps" by simp
    from data_swap_enter [OF this] z Nil nc own rd fl show ?thesis by (auto simp: data_inv_def holder_def)
  next
    case Cons
    with ok have "data_ok (mem s) (que s) GetPop (inflight \<circ> pcs s) (sent s) (got s) gs ps"
      by (simp add: data_ok_def get_cell_def)
    with z Cons nc own rd fl show ?thesis by (auto simp: data_inv_def holder_def)
  qed
qed

lemma data_inv_begin:
  assumes l: "lock_inv s" and d: "data_inv s" and t: "pcs s t = Idle" and m: "put_may s msg"
  shows "\<exists>h. put_enter msg (que s) (mem s) = Inr h \<and> data_inv (s\<lparr>mem := h, pcs := (pcs s)(t := PutLock msg)\<rparr>)"
proof -
  from d obtain gs ps where ok: "data_ok (mem s) (que s) (holder s) (inflight \<circ> pcs s) (sent s) (got s) gs ps"
    and nc: "\<not> crashed s" by (auto simp: data_inv_def)
  have "mq_rep (mem s) (que s) (get_cell (que s) (holder s)) gs ps" using ok by (simp add: data_ok_def)
  with m have fl: "free_link (mem s) (que s) (get_cell (que s) (holder s)) gs ps (link_of (que s) msg)"
    by (simp add: put_may_def)
  have "(inflight \<circ> pcs s) t = None" "\<forall>u m'. (inflight \<circ> pcs s) u = Some m' \<longrightarrow> apart (link_of (que s) m') 8 (link_of (que s) msg) 8"
    using t m by (auto simp: put_may_def)
  from data_enter [OF ok this(1) fl this(2)] obtain h where e: "put_enter msg (que s) (mem s) = Inr h"
    and ok': "data_ok h (que s) (holder s) ((inflight \<circ> pcs s)(t := Some msg)) (sent s) (got s) gs ps" by blast
  have "gmx s \<noteq> Some t" by (rule not_owner [OF l t]) simp
  then have "holder (s\<lparr>mem := h, pcs := (pcs s)(t := PutLock msg)\<rparr>) = holder s"
    by (auto simp: holder_def split: option.split)
  with ok' nc e show ?thesis by (auto simp: data_inv_def inflight_upd)
qed


lemma data_inv_nonblock:
  "data_inv s \<Longrightarrow> inflight \<circ> pcs s' = inflight \<circ> pcs s \<Longrightarrow> holder s' = holder s \<Longrightarrow>
     que s' = (que s)\<lparr>nonblock := n\<rparr> \<Longrightarrow> mem s' = mem s \<Longrightarrow> sent s' = sent s \<Longrightarrow> got s' = got s \<Longrightarrow>
     crashed s' = crashed s \<Longrightarrow> data_inv s'"
  by (auto simp: data_inv_def intro: data_flag)

lemma data_inv_step:
  assumes "mq_step s s'" "lock_inv s" "data_inv s"
  shows "data_inv s'"
  using assms
proof (induction rule: mq_step.induct)
  case (put_begin s t msg)
  with data_inv_begin [OF put_begin(3,4,1,2)] show ?case by (auto simp: crash_or_def)
next
  case (put_lock s t msg)
  then have "gmx s \<noteq> Some t" by (auto dest: not_owner)
  with put_lock show ?case
    by (intro data_inv_move [OF put_lock(4)]) (auto simp: holder_def fun_eq_iff split: option.split)
next
  case (put_wait s t msg)
  then have "gmx s \<noteq> Some t" by (auto dest: not_owner)
  with put_wait show ?case
    by (intro data_inv_move [OF put_wait(4)]) (auto simp: holder_def fun_eq_iff split: option.split)
next
  case (put_append s t msg)
  with data_inv_append [OF put_append(3,4,1)] show ?case by (auto simp: crash_or_def)
next
  case (put_signal_one s t u c)
  then have "gmx s = Some u" "holder s = SwapWait c" by (auto dest: owner)
  with put_signal_one show ?case
    by (intro data_inv_move [OF put_signal_one(4)]) (auto simp: holder_def fun_eq_iff)
next
  case (put_signal_none s t)
  then have "gmx s \<noteq> Some t" by (auto dest: not_owner)
  with put_signal_none show ?case
    by (intro data_inv_move [OF put_signal_none(4)]) (auto simp: holder_def fun_eq_iff split: option.split)
next
  case (put_spurious s t msg)
  then have "gmx s \<noteq> Some t" by (auto dest: not_owner)
  with put_spurious show ?case
    by (intro data_inv_move [OF put_spurious(3)]) (auto simp: holder_def fun_eq_iff split: option.split)
next
  case (get_begin s t)
  then have "gmx s \<noteq> Some t" by (auto dest: not_owner)
  with get_begin show ?case
    by (intro data_inv_move [OF get_begin(3)]) (auto simp: holder_def fun_eq_iff split: option.split)
next
  case (get_lock s t)
  then have "gmx s \<noteq> Some t" by (auto dest: not_owner)
  with get_lock show ?case
    by (intro data_inv_move [OF get_lock(4)]) (auto simp: holder_def fun_eq_iff)
next
  case (get_test s t)
  with data_inv_test [OF get_test(2,3,1)] show ?case by (auto simp: crash_or_def)
next
  case (swap_lock s t c)
  then have "gmx s = Some t" "saved_cell (holder s) = Some c" "holder s \<noteq> GetPop" by (auto dest: owner)
  with swap_lock show ?case
    by (intro data_inv_move [OF swap_lock(4)]) (auto simp: holder_def fun_eq_iff)
next
  case (swap_wait s t c)
  then have "gmx s = Some t" "holder s = SwapTest c" by (auto dest: owner)
  with swap_wait show ?case
    by (intro data_inv_move [OF swap_wait(4)]) (auto simp: holder_def fun_eq_iff)
next
  case (swap_spurious s t c)
  then have "gmx s = Some t" "holder s = SwapWait c" by (auto dest: owner)
  with swap_spurious show ?case
    by (intro data_inv_move [OF swap_spurious(3)]) (auto simp: holder_def fun_eq_iff)
next
  case (swap_go s t c cnt bc q pcs')
  then show ?case by (intro data_inv_swap(1))
next
  case (get_take s t)
  with data_inv_pop [OF get_take(2,3,1)] show ?case by (auto simp: crash_or_def)
next
  case (nb_begin s t)
  then have "gmx s \<noteq> Some t" by (auto dest: not_owner)
  with nb_begin show ?case
    by (intro data_inv_nonblock [OF nb_begin(3), where n = 1])
      (auto simp: set_nonblock_flag_def holder_def fun_eq_iff split: option.split)
next
  case (nb_go_one s t u c)
  then have "gmx s = Some u" "holder s = SwapWait c" by (auto dest: owner)
  with nb_go_one show ?case
    by (intro data_inv_move [OF nb_go_one(5)]) (auto simp: holder_def fun_eq_iff)
next
  case (nb_go_none s t)
  then have "gmx s \<noteq> Some t" by (auto dest: not_owner)
  with nb_go_none show ?case
    by (intro data_inv_move [OF nb_go_none(5)]) (auto simp: holder_def fun_eq_iff split: option.split)
next
  case (block_set s t)
  then show ?case
    by (intro data_inv_nonblock [OF block_set(3), where n = 0])
      (auto simp: msgqueue_set_block_def holder_def split: option.split)
qed

lemma data_inv_start: "mq_rep h q (get_head q) [] [] \<Longrightarrow> data_inv (mq_start h q)"
  by (auto simp: data_inv_def mq_start_def data_ok_def holder_def get_cell_def links_ok_def
      intro!: exI [of _ "[]"])

text \<open>What the client does in between.\<close>

lemma holder_mem [simp]: "holder (s\<lparr>mem := h\<rparr>) = holder s"
  by (simp add: holder_def split: option.split)

lemma mq_rep_kept:
  assumes "mq_rep h q g gs ps" "heap_ok h'" "\<forall>c \<in> mq_cells q g gs ps. cell_kept h h' c"
  shows "mq_rep h' q g gs ps"
proof -
  have kept: "\<forall>c \<in> set (g # put_head q # gs @ ps). valid h' c 8 \<and> ld64 (hbytes h') c = ld64 (hbytes h) c"
    using assms(3) by (simp only: mq_cells_def cell_kept_def)
  have "chain (hbytes h') g gs = chain (hbytes h) g gs" by (rule chain_cong) (use kept in auto)
  moreover have "chain (hbytes h') (put_head q) ps = chain (hbytes h) (put_head q) ps" by (rule chain_cong) (use kept in auto)
  ultimately show ?thesis using assms(1,2) kept by (simp add: mq_rep_def cells_in_def)
qed

lemma data_inv_client:
  assumes "data_inv s" "client_heap s h"
  shows "data_inv (s\<lparr>mem := h\<rparr>)"
proof -
  let ?g = "get_cell (que s) (holder s)"
  from assms(1) obtain gs ps where ok: "data_ok (mem s) (que s) (holder s) (inflight \<circ> pcs s) (sent s) (got s) gs ps"
    and nc: "\<not> crashed s" by (auto simp: data_inv_def)
  then have rep: "mq_rep (mem s) (que s) ?g gs ps" and links: "links_ok (mem s) (que s) ?g gs ps (inflight \<circ> pcs s)"
    by (simp_all add: data_ok_def)
  have "mq_rep h (que s) ?g gs ps" using rep assms(2) by (intro mq_rep_kept [OF rep]) (auto simp: client_heap_def)
  moreover have "links_ok h (que s) ?g gs ps (inflight \<circ> pcs s)"
    using links assms(2) by (auto simp: links_ok_def free_link_def client_heap_def cell_kept_def)
  ultimately have "data_ok h (que s) (holder s) (inflight \<circ> pcs s) (sent s) (got s) gs ps"
    using ok by (simp add: data_ok_def)
  with nc show ?thesis by (auto simp: data_inv_def)
qed

lemma mq_reach_inv: "mq_reach s \<Longrightarrow> lock_inv s \<and> data_inv s"
proof (induction rule: mq_reach.induct)
  case (client s h)
  then show ?case using data_inv_client [of s h] by (simp add: lock_inv_def)
qed (auto simp: lock_inv_start data_inv_start intro: lock_inv_step data_inv_step)

subsection \<open>Who is waiting, and who will wake it up\<close>

text \<open>
  A consumer waits on an empty producers' list unless a signal is on its way, a producer waits on
  a full one, and nobody waits in nonblocking mode unless the thread that set it is still to signal.
\<close>

fun waits_for_put :: "mq_pc \<Rightarrow> bool" where
  "waits_for_put (SwapWait c) = True" | "waits_for_put _ = False"

fun waits_for_room :: "mq_pc \<Rightarrow> bool" where
  "waits_for_room (PutWait m) = True" | "waits_for_room _ = False"

definition some_pc :: "(mq_pc \<Rightarrow> bool) \<Rightarrow> (nat \<Rightarrow> mq_pc) \<Rightarrow> bool" where
  "some_pc P f \<longleftrightarrow> (\<exists>t. P (f t))"

definition wake_inv :: "mq_sys \<Rightarrow> bool" where
  "wake_inv s \<longleftrightarrow>
     (some_pc waits_for_put (pcs s) \<longrightarrow> msg_cnt (que s) \<noteq> 0 \<longrightarrow> some_pc (\<lambda>pc. pc = PutSignal) (pcs s)) \<and>
     (some_pc waits_for_room (pcs s) \<longrightarrow> msg_max (que s) - 1 < msg_cnt (que s)) \<and>
     (some_pc waits_for_put (pcs s) \<or> some_pc waits_for_room (pcs s) \<longrightarrow> nonblock (que s) \<noteq> 0 \<longrightarrow>
        some_pc (\<lambda>pc. pc = NbLock) (pcs s))"

lemma some_pc_upd [simp]:
  "P pc \<Longrightarrow> some_pc P (f(t := pc))"
  "\<not> P pc \<Longrightarrow> \<not> P (f t) \<Longrightarrow> some_pc P (f(t := pc)) = some_pc P f"
  by (auto simp: some_pc_def)

lemma waits_wake [simp]:
  "waits_for_put (wake_put pc) = waits_for_put pc" "\<not> waits_for_room (wake_put pc)"
  by (cases pc; simp)+

lemma some_pc_wake [simp]:
  "some_pc waits_for_put (wake_put \<circ> f) = some_pc waits_for_put f"
  "\<not> some_pc waits_for_room (wake_put \<circ> f)"
  "some_pc (\<lambda>pc. pc = PutSignal) (wake_put \<circ> f) = some_pc (\<lambda>pc. pc = PutSignal) f"
  by (auto simp: some_pc_def)

lemma waits_for_put_holder: "waits_for_put pc \<Longrightarrow> holds_get pc"
  by (cases pc) auto

text \<open>Only the owner of \<open>get_mutex\<close> waits for a producer.\<close>

lemma some_waits_for_put:
  assumes "lock_inv s"
  shows "some_pc waits_for_put (pcs s) \<longleftrightarrow> waits_for_put (holder s)"
proof
  assume "some_pc waits_for_put (pcs s)"
  then obtain t where t: "waits_for_put (pcs s t)" by (auto simp: some_pc_def)
  with owner [OF assms refl waits_for_put_holder [OF t]] show "waits_for_put (holder s)" by simp
next
  assume "waits_for_put (holder s)"
  then show "some_pc waits_for_put (pcs s)"
    by (auto simp: holder_def some_pc_def split: option.splits)
qed

lemma some_pc_weaken: "\<not> P pc \<Longrightarrow> some_pc P (f(t := pc)) \<Longrightarrow> some_pc P f"
  by (auto simp: some_pc_def split: if_splits)

lemma waits_for_put_none: "(\<forall>u c. pcs s u \<noteq> SwapWait c) \<Longrightarrow> \<not> some_pc waits_for_put (pcs s)"
  by (metis some_pc_def waits_for_put.elims(2))

lemma swapwait_unique: "lock_inv s \<Longrightarrow> pcs s u = SwapWait c \<Longrightarrow> holds_get (pcs s v) \<longleftrightarrow> v = u"
  by (auto simp: lock_inv_def)

lemma wake_inv_step:
  assumes "mq_step s s'" "lock_inv s" "data_inv s" "wake_inv s"
  shows "wake_inv s'"
  using assms
proof (induction rule: mq_step.induct)
  case (put_begin s t msg)
  with data_inv_begin [OF put_begin(3,4,1,2)] show ?case by (auto simp: crash_or_def wake_inv_def)
next
  case (put_lock s t msg)
  then show ?case by (auto simp: wake_inv_def)
next
  case (put_wait s t msg)
  then have g: "msg_max (que s) - 1 < msg_cnt (que s)" "nonblock (que s) = 0" by (auto simp: put_blocked_def)
  with put_wait show ?case by (simp add: wake_inv_def)
next
  case (put_append s t msg)
  then obtain q h where q: "put_body msg (que s) (mem s) = Inr (q, h)" "msg_cnt q \<noteq> 0"
    "q = (que s)\<lparr>put_tail := link_of (que s) msg, msg_cnt := msg_cnt (que s) + 1\<rparr>"
    using data_inv_append by blast
  then have "msg_cnt (que s) < msg_cnt q" using unat_succ [of "msg_cnt (que s)"] by (simp add: word_less_nat_alt)
  with q put_append show ?case by (auto simp: crash_or_def wake_inv_def)
next
  case (put_signal_one s t u c)
  then have "\<not> some_pc waits_for_put ((pcs s)(t := Idle, u := SwapWake c))"
    using swapwait_unique [OF put_signal_one(3,2)] waits_for_put_holder
    by (auto simp: some_pc_def)
  moreover have "u \<noteq> t" using put_signal_one by auto
  ultimately show ?case using put_signal_one by (simp add: wake_inv_def)
next
  case (put_signal_none s t)
  then show ?case using waits_for_put_none [of s] by (simp add: wake_inv_def)
next
  case (put_spurious s t msg)
  then show ?case using some_pc_weaken [of waits_for_room "PutWake msg" "pcs s" t] by (auto simp: wake_inv_def)
next
  case (get_begin s t)
  then show ?case by (simp add: wake_inv_def)
next
  case (get_lock s t)
  then show ?case by (simp add: wake_inv_def)
next
  case (get_test s t)
  then obtain g where "rd64 (mem s) (get_head (que s)) = Inr g" using data_inv_test by blast
  with get_test show ?case
    by (cases "g = 0") (simp_all add: crash_or_def wake_inv_def swap_enter_def)
next
  case (swap_lock s t c)
  then show ?case by (auto simp: wake_inv_def)
next
  case (swap_wait s t c)
  then show ?case by (simp add: wake_inv_def swap_blocked_def)
next
  case (swap_spurious s t c)
  then show ?case using some_pc_weaken [of waits_for_put "SwapWake c" "pcs s" t] by (auto simp: wake_inv_def)
next
  case (swap_go s t c cnt bc q pcs')
  have "\<not> some_pc waits_for_put (pcs s)"
    using owner [OF swap_go(5,1)] some_waits_for_put [OF swap_go(5)] by simp
  with swap_go show ?case by (auto simp: wake_inv_def swap_body_def)
next
  case (get_take s t)
  with data_inv_pop [OF get_take(2,3,1)] show ?case by (auto simp: crash_or_def wake_inv_def)
next
  case (nb_begin s t)
  then show ?case by (simp add: wake_inv_def set_nonblock_flag_def)
next
  case (nb_go_one s t u c)
  then have "\<not> some_pc waits_for_put ((wake_put \<circ> pcs s)(t := Idle, u := SwapWake c))"
    using swapwait_unique [OF nb_go_one(4,3)] waits_for_put_holder
    by (auto simp: some_pc_def)
  moreover have "u \<noteq> t" using nb_go_one by auto
  ultimately show ?case using nb_go_one by (simp add: wake_inv_def)
next
  case (nb_go_none s t)
  then show ?case using waits_for_put_none [of s] by (simp add: wake_inv_def)
next
  case (block_set s t)
  then show ?case by (simp add: wake_inv_def msgqueue_set_block_def)
qed

lemma wake_inv_start: "wake_inv (mq_start h q)"
  by (simp add: wake_inv_def some_pc_def mq_start_def)

lemma mq_reach_wake: "mq_reach s \<Longrightarrow> wake_inv s"
proof (induction rule: mq_reach.induct)
  case (client s h)
  then show ?case by (simp add: wake_inv_def)
qed (auto simp: wake_inv_start intro: wake_inv_step dest: mq_reach_inv)


subsection \<open>The bound on pending messages\<close>

text \<open>
  Runs in which nobody sets nonblocking mode: every state on the way has \<open>nonblock\<close> zero.
\<close>

inductive mq_reach_block :: "mq_sys \<Rightarrow> bool" where
  start: "mq_rep h q (get_head q) [] [] \<Longrightarrow> nonblock q = 0 \<Longrightarrow> mq_reach_block (mq_start h q)"
| step: "mq_reach_block s \<Longrightarrow> mq_step s s' \<Longrightarrow> nonblock (que s') = 0 \<Longrightarrow> mq_reach_block s'"
| client: "mq_reach_block s \<Longrightarrow> client_heap s h \<Longrightarrow> mq_reach_block (s\<lparr>mem := h\<rparr>)"

lemma mq_reach_block_reach: "mq_reach_block s \<Longrightarrow> mq_reach s \<and> nonblock (que s) = 0"
proof (induction rule: mq_reach_block.induct)
  case (start h q)
  then show ?case using mq_reach.start [OF start(1)] by (simp add: mq_start_def)
next
  case (step s s')
  then show ?case by (blast intro: mq_reach.step)
next
  case (client s h)
  then show ?case by (simp add: mq_reach.client)
qed

definition bound_inv :: "mq_sys \<Rightarrow> bool" where
  "bound_inv s \<longleftrightarrow> msg_max (que s) \<noteq> 0 \<longrightarrow> msg_cnt (que s) \<le> msg_max (que s) \<and>
     length (sent s) \<le> length (got s) + unat (msg_cnt (que s)) + unat (msg_max (que s))"

lemma bound_inv_same:
  "bound_inv s \<Longrightarrow> msg_cnt (que s') = msg_cnt (que s) \<Longrightarrow> msg_max (que s') = msg_max (que s) \<Longrightarrow>
     sent s' = sent s \<Longrightarrow> length (got s) \<le> length (got s') \<Longrightarrow> bound_inv s'"
  by (auto simp: bound_inv_def)

lemma bound_inv_step:
  assumes "mq_step s s'" "lock_inv s" "data_inv s" "nonblock (que s) = 0" "bound_inv s"
  shows "bound_inv s'"
  using assms
proof (induction rule: mq_step.induct)
  case (put_begin s t msg)
  show ?case by (rule bound_inv_same [OF put_begin(6)]) (auto simp: crash_or_def split: sum.split)
next
  case (put_append s t msg)
  then obtain q h where q: "put_body msg (que s) (mem s) = Inr (q, h)" "msg_cnt q \<noteq> 0"
    "q = (que s)\<lparr>put_tail := link_of (que s) msg, msg_cnt := msg_cnt (que s) + 1\<rparr>"
    using data_inv_append by blast
  have u: "unat (msg_cnt (que s) + 1) = unat (msg_cnt (que s)) + 1"
    using q(2,3) by (simp add: unat_succ)
  have "msg_cnt (que s) < msg_max (que s)" if "msg_max (que s) \<noteq> 0"
    using put_append(2,5) that by (metis put_blocked_iff not_le)
  then have "unat (msg_cnt (que s)) < unat (msg_max (que s))" if "msg_max (que s) \<noteq> 0"
    using that by (simp add: word_less_nat_alt)
  with u q put_append show ?case by (auto simp: crash_or_def bound_inv_def word_le_nat_alt)
next
  case (get_test s t)
  show ?case by (rule bound_inv_same [OF get_test(5)])
      (auto simp: crash_or_def swap_enter_def split: sum.split)
next
  case (swap_go s t c cnt bc q pcs')
  with data_inv_swap(2) [OF swap_go(5,6,1,3,4)] show ?case
    by (auto simp: bound_inv_def swap_body_def word_le_nat_alt)
next
  case (get_take s t)
  show ?case by (rule bound_inv_same [OF get_take(5)]) (auto simp: crash_or_def split: sum.split)
qed (auto elim!: bound_inv_same simp: set_nonblock_flag_def msgqueue_set_block_def)

lemma bound_inv_start: "bound_inv (mq_start h q)" if "mq_rep h q (get_head q) [] []"
  using that by (simp add: bound_inv_def mq_start_def mq_rep_def unat_eq_zero)

lemma mq_reach_block_bound: "mq_reach_block s \<Longrightarrow> bound_inv s"
proof (induction rule: mq_reach_block.induct)
  case (step s s')
  then show ?case using mq_reach_block_reach [of s] mq_reach_inv [of s] by (blast intro: bound_inv_step)
next
  case (client s h)
  then show ?case by (simp add: bound_inv_def)
qed (rule bound_inv_start)

subsection \<open>Properties\<close>

text \<open>
  C3: however the threads interleave, and whatever their client does with memory that is not the queue's in between, no thread ever touches memory that is not its own, and the
  messages answered so far are exactly the first of the messages put so far, in the order in which
  the producers entered the critical section: nothing is lost, duplicated or reordered. What is
  still in the queue are the two lists in memory.
\<close>

theorem msgqueue_threads_fifo:
  assumes "mq_reach s"
  shows "\<not> crashed s \<and> (\<exists>gs ps. mq_rep (mem s) (que s) (get_cell (que s) (holder s)) gs ps \<and>
    sent s = got s @ map (msg_of (que s)) (gs @ ps))"
  using mq_reach_inv [OF assms] by (auto simp: data_inv_def data_ok_def)

text \<open>
  C4: mutual exclusion and no lost wakeups. The two mutexes have one owner each, which is
  the thread inside the respective critical section. A consumer that waits for a message has
  missed none: if the producers' list is not empty, some producer is about to signal. A producer
  waits only while the producers' list is full. A consumer and a producer wait at the same time
  only if a signal is on its way, so the queue cannot deadlock; and in nonblocking mode whoever
  still waits is about to be woken by the thread that set the mode.
\<close>

theorem msgqueue_threads_wait:
  assumes "mq_reach s"
  shows "(\<forall>t u. holds_put (pcs s t) \<longrightarrow> holds_put (pcs s u) \<longrightarrow> t = u) \<and>
    (\<forall>t u. holds_get (pcs s t) \<longrightarrow> holds_get (pcs s u) \<longrightarrow> t = u) \<and>
    (some_pc waits_for_put (pcs s) \<longrightarrow> msg_cnt (que s) = 0 \<or> some_pc (\<lambda>pc. pc = PutSignal) (pcs s)) \<and>
    (some_pc waits_for_room (pcs s) \<longrightarrow> msg_max (que s) - 1 < msg_cnt (que s)) \<and>
    (some_pc waits_for_put (pcs s) \<longrightarrow> some_pc waits_for_room (pcs s) \<longrightarrow>
       some_pc (\<lambda>pc. pc = PutSignal) (pcs s)) \<and>
    (some_pc waits_for_put (pcs s) \<or> some_pc waits_for_room (pcs s) \<longrightarrow>
       nonblock (que s) = 0 \<or> some_pc (\<lambda>pc. pc = NbLock) (pcs s))"
proof -
  have lock: "lock_inv s" using mq_reach_inv [OF assms] by simp
  have wake: "wake_inv s" using assms by (rule mq_reach_wake)
  have put: "t = u" if "holds_put (pcs s t)" "holds_put (pcs s u)" for t u
    using lock that by (simp add: lock_inv_def)
  have get: "t = u" if "holds_get (pcs s t)" "holds_get (pcs s u)" for t u
    using lock that by (simp add: lock_inv_def)
  have "\<not> msg_max (que s) - 1 < msg_cnt (que s)" if "msg_cnt (que s) = 0" using that by simp
  with wake put get show ?thesis unfolding wake_inv_def by blast
qed

text \<open>
  While nobody sets nonblocking mode, at most \<open>2 * maxlen\<close> messages are pending, as the
  header file says: at most \<open>maxlen\<close> in the producers' list and \<open>maxlen\<close> in the consumers' list,
  provided \<open>maxlen\<close> is not zero.
\<close>

theorem msgqueue_threads_bound:
  assumes "mq_reach_block s" "msg_max (que s) \<noteq> 0"
  shows "unat (msg_cnt (que s)) \<le> unat (msg_max (que s)) \<and>
    length (sent s) \<le> length (got s) + 2 * unat (msg_max (que s))"
  using mq_reach_block_bound [OF assms(1)] assms(2) by (auto simp: bound_inv_def word_le_nat_alt)

text \<open>A run for the witnesses: thread 0 puts a message, up to its signal.\<close>

definition block_queue :: msgqueue_t where
  "block_queue = demo_queue\<lparr>nonblock := 0\<rparr>"

lemma block_rep: "mq_rep demo_heap block_queue (get_head block_queue) [] []"
  using demo_rep mq_rep_cong [of block_queue demo_queue demo_heap 4120 "[]" "[]"]
  by (simp add: block_queue_def demo_queue_def)

lemma block_usable: "put_may (mq_start demo_heap block_queue) 8192"
proof -
  have "free_link demo_heap block_queue (get_head block_queue) [] [] (link_of block_queue 8192)"
    by (simp add: free_link_def mq_cells_def link_of_def demo_queue_def demo_heap_def block_queue_def
      valid_def within_def apart_def)
  with mq_rep_unique [OF block_rep] show ?thesis
    by (auto simp: put_may_def mq_start_def holder_def get_cell_def)
qed

lemma block_run:
  "\<exists>s. mq_reach_block s \<and> sent s = [8192] \<and> got s = [] \<and> pcs s = (\<lambda>_. Idle)(0 := PutSignal) \<and>
     que s = block_queue\<lparr>put_tail := 8200, msg_cnt := 1\<rparr>"
proof -
  let ?s0 = "mq_start demo_heap block_queue"
  have nb: "nonblock block_queue = 0" "linkoff block_queue = 8" "msg_max block_queue = 2" "msg_cnt block_queue = 0"
    by (simp_all add: block_queue_def demo_queue_def)
  have r0: "mq_reach_block ?s0" using block_rep nb by (intro mq_reach_block.start) simp_all
  obtain h where e: "put_enter 8192 block_queue demo_heap = Inr h"
    using data_inv_begin [OF lock_inv_start data_inv_start [OF block_rep] _ block_usable, of 0]
    by (auto simp: mq_start_def)
  let ?s1 = "?s0\<lparr>mem := h, pcs := (\<lambda>_. Idle)(0 := PutLock 8192)\<rparr>"
  have "mq_step ?s0 ?s1"
    using mq_step.put_begin [OF _ block_usable, of 0] e by (simp add: mq_start_def crash_or_def)
  then have r1: "mq_reach_block ?s1" using nb r0 by (auto intro: mq_reach_block.step simp: mq_start_def)
  let ?s2 = "?s1\<lparr>pmx := Some 0, pcs := (\<lambda>_. Idle)(0 := PutTest 8192)\<rparr>"
  have "mq_step ?s1 ?s2"
    using mq_step.put_lock [of ?s1 0 8192] by (simp add: mq_start_def)
  then have r2: "mq_reach_block ?s2" using nb r1 by (auto intro: mq_reach_block.step simp: mq_start_def)
  have i2: "lock_inv ?s2" "data_inv ?s2" using mq_reach_block_reach [OF r2] mq_reach_inv by blast+
  obtain q h' where b: "put_body 8192 block_queue h = Inr (q, h')"
    "q = block_queue\<lparr>put_tail := link_of block_queue 8192, msg_cnt := msg_cnt block_queue + 1\<rparr>"
    using data_inv_append [OF i2, of 0] by (auto simp: mq_start_def)
  have nblk: "\<not> put_blocked block_queue" using nb by (simp add: put_blocked_def)
  have "mq_step ?s2 (?s2\<lparr>mem := h', que := q, pmx := None, pcs := (\<lambda>_. Idle)(0 := PutSignal), sent := [8192]\<rparr>)"
    using mq_step.put_append [of ?s2 0 8192] b nblk by (simp add: mq_start_def crash_or_def)
  from mq_reach_block.step [OF r2 this] b nb show ?thesis
    by (intro exI conjI) (auto simp: mq_start_def link_of_def)
qed

theorem msgqueue_threads_fifo_witness:
  "\<exists>s :: mq_sys. sent s = [8192] \<and> \<not> crashed s \<and>
     (\<exists>gs ps. mq_rep (mem s) (que s) (get_cell (que s) (holder s)) gs ps \<and> map (msg_of (que s)) (gs @ ps) = [8192])"
proof -
  obtain s where "mq_reach s" "sent s = [8192]" "got s = []" using block_run mq_reach_block_reach by blast
  with msgqueue_threads_fifo [OF this(1)] show ?thesis by (metis append_Nil)
qed

theorem msgqueue_threads_wait_witness:
  "\<exists>s :: mq_sys. mq_reach s \<and> sent s = [8192] \<and> (\<forall>t u. holds_put (pcs s t) \<longrightarrow> holds_put (pcs s u) \<longrightarrow> t = u)"
  using block_run mq_reach_block_reach msgqueue_threads_wait by blast

theorem msgqueue_threads_bound_witness:
  "\<exists>s :: mq_sys. sent s = [8192] \<and> unat (msg_max (que s)) = 2 \<and> length (sent s) \<le> length (got s) + 4"
proof -
  obtain s where s: "mq_reach_block s" "sent s = [8192]" "que s = block_queue\<lparr>put_tail := 8200, msg_cnt := 1\<rparr>"
    using block_run by blast
  then have "unat (msg_max (que s)) = 2" "msg_max (que s) \<noteq> 0"
    by (simp_all add: block_queue_def demo_queue_def)
  with msgqueue_threads_bound [OF s(1) this(2)] s(2) show ?thesis by (intro exI [of _ s]) simp
qed

end
