(* ===== verification/Interleaving.thy ===== *)
theory Interleaving
  imports Prelude
begin

text \<open>
  Two threads that each work through a list: what they have sent so far, in the order in which it went out, is an interleaving
  (\<open>shuffles\<close>) of what is gone from their lists.
\<close>

lemma shuffles_snoc_left: "zs \<in> shuffles xs ys \<Longrightarrow> zs @ [x] \<in> shuffles (xs @ [x]) ys"
proof (induction zs arbitrary: xs ys)
  case (Cons z zs)
  then show ?case unfolding append_Cons Cons_in_shuffles_iff by auto
qed simp

lemma shuffles_snoc_right: "zs \<in> shuffles xs ys \<Longrightarrow> zs @ [y] \<in> shuffles xs (ys @ [y])"
  using shuffles_snoc_left [of zs ys xs y] by (simp add: shuffles_commutes)

text \<open>What two producers have sent, and what is left of their lists.\<close>

definition sent_of :: "'a list \<Rightarrow> 'a list \<Rightarrow> 'a list \<Rightarrow> 'a list \<Rightarrow> 'a list \<Rightarrow> bool" where
  "sent_of full1 full2 left1 left2 log \<longleftrightarrow> (\<exists>a b. full1 = a @ left1 \<and> full2 = b @ left2 \<and> log \<in> shuffles a b)"

lemma sent_of_start: "sent_of xs ys xs ys []"
  by (simp add: sent_of_def)

lemma sent_of_left: "sent_of f g (x # xs) ys log \<Longrightarrow> sent_of f g xs ys (log @ [x])"
  unfolding sent_of_def using shuffles_snoc_left by (metis append.assoc append_Cons append_Nil)

lemma sent_of_right: "sent_of f g xs (y # ys) log \<Longrightarrow> sent_of f g xs ys (log @ [y])"
  unfolding sent_of_def using shuffles_snoc_right by (metis append.assoc append_Cons append_Nil)

lemma sent_of_all: "sent_of f g [] [] log \<longleftrightarrow> log \<in> shuffles f g"
  by (simp add: sent_of_def)

text \<open>Only the thread that steps changes what it has in its hands and on its list.\<close>

lemma sent_of_thread:
  assumes "sent_of f g (h 0) (h 1) log" "t < 2" "h t = x # xs" "h' t = xs" "\<And>u. u \<noteq> t \<Longrightarrow> h' u = h (u :: nat)"
  shows "sent_of f g (h' 0) (h' 1) (log @ [x])"
proof -
  have "t = 0 \<or> t = 1" using assms(2) by linarith
  then show ?thesis using assms sent_of_left [of f g x xs "h 1" log] sent_of_right [of f g "h 0" x xs log] by auto
qed

end
