(* ===== verification/Msgqueue_Program.thy ===== *)
theory Msgqueue_Program
  imports Msgqueue_Conc Interleaving
begin

text \<open>
  The program \<^verbatim>\<open>main_msgqueue.cpp\<close> on the message queue: two producers put four messages each, two consumers call
  \<open>msgqueue_get\<close> and delete what it gives them until it answers \<open>NULL\<close>, and \<open>main\<close> joins all four. The messages are blocks of the heap, live from
  the start until they are deleted, with the link at the offset the program asks for, \<open>sizeof(int)\<close>, which is four bytes before the member \<open>next\<close>. Nobody sets nonblocking mode, so that
  \<open>NULL\<close> never comes.
\<close>

subsection \<open>The program\<close>

definition count_size :: nat where
  "count_size = 16"      \<comment> \<open>\<open>int v\<close>, four bytes of padding, \<open>Count *next\<close>\<close>

definition count_linkoff :: int where
  "count_linkoff = 4"

record mm_sys =
  mq :: mq_sys
  todo :: "nat \<Rightarrow> addr list"        \<comment> \<open>threads 0 and 1, \<open>pd1\<close> and \<open>pd2\<close>: the messages still to be put\<close>
  getting :: "nat \<Rightarrow> bool"          \<comment> \<open>threads 2 and 3, \<open>cs1\<close> and \<open>cs2\<close>: still in their loop\<close>
  cnt :: "nat \<Rightarrow> addr option"       \<comment> \<open>the message a consumer has got and not deleted yet\<close>

text \<open>The heap holds the queue, and of the eight messages those that nobody has deleted.\<close>

definition live_msg :: "mm_sys \<Rightarrow> addr \<Rightarrow> bool" where
  "live_msg s n \<longleftrightarrow> (n \<in> set (got (mq s)) \<longrightarrow> (\<exists>t. cnt s t = Some n))"

definition mm_heap :: "heap \<Rightarrow> msgqueue_t \<Rightarrow> addr list \<Rightarrow> (addr \<Rightarrow> bool) \<Rightarrow> bool" where
  "mm_heap h q ns live \<longleftrightarrow> (self q, msgqueue_size) \<in> set (hblocks h) \<and> linkoff q = count_linkoff \<and> distinct ns \<and>
     (\<forall>n \<in> set ns. ((n, count_size) \<in> set (hblocks h) \<longleftrightarrow> live n) \<and> n \<noteq> self q)"

definition mm_start :: "heap \<Rightarrow> msgqueue_t \<Rightarrow> addr list \<Rightarrow> addr list \<Rightarrow> mm_sys" where
  "mm_start h q ns1 ns2 = \<lparr>mq = mq_start h q, todo = (\<lambda>_. [])(0 := ns1, 1 := ns2), getting = (\<lambda>t. t = 2 \<or> t = 3),
     cnt = (\<lambda>_. None)\<rparr>"

text \<open>
  A producer begins a \<open>put\<close>, a consumer a \<open>get\<close>, or one of them goes on in the function it is in. A consumer that comes out of
  \<open>msgqueue_get\<close> without a message leaves its loop, one that comes out with a message deletes it before it asks for the next.
\<close>

inductive mm_step :: "mm_sys \<Rightarrow> mm_sys \<Rightarrow> bool" where
  put: "pcs (mq s) t = Idle \<Longrightarrow> todo s t = msg # ms \<Longrightarrow>
    mm_step s (s\<lparr>mq := crash_or (mq s) (put_enter msg (que (mq s)) (mem (mq s)))
        (\<lambda>h. (mq s)\<lparr>mem := h, pcs := (pcs (mq s))(t := PutLock msg)\<rparr>),
      todo := (todo s)(t := ms)\<rparr>)"
| get: "pcs (mq s) t = Idle \<Longrightarrow> getting s t \<Longrightarrow> cnt s t = None \<Longrightarrow>
    mm_step s (s\<lparr>mq := (mq s)\<lparr>pcs := (pcs (mq s))(t := GetLock)\<rparr>\<rparr>)"
| inside: "mq_step (mq s) m \<Longrightarrow> \<forall>t. pcs (mq s) t = Idle \<longrightarrow> pcs m t = Idle \<Longrightarrow>
    mm_step s (s\<lparr>mq := m,
      getting := (\<lambda>t. getting s t \<and> \<not> (pcs (mq s) t \<noteq> Idle \<and> pcs m t = Idle \<and> got m = got (mq s))),
      cnt := (\<lambda>t. if pcs (mq s) t \<noteq> Idle \<and> pcs m t = Idle \<and> got m \<noteq> got (mq s) then Some (last (got m)) else cnt s t)\<rparr>)"
| delete: "cnt s t = Some n \<Longrightarrow>
    mm_step s (s\<lparr>mq := crash_or (mq s) (h_free n (mem (mq s))) (\<lambda>h. (mq s)\<lparr>mem := h\<rparr>), cnt := (cnt s)(t := None)\<rparr>)"

inductive mm_reach :: "addr list \<Rightarrow> addr list \<Rightarrow> mm_sys \<Rightarrow> bool" for ns1 ns2 where
  start: "msgqueue_create p 0 0 0 0 1024 count_linkoff h0 = Inr (Some q, res, err, h) \<Longrightarrow> heap_ok h0 \<Longrightarrow> fresh p msgqueue_size h0 \<Longrightarrow>
    length ns1 = 4 \<Longrightarrow> length ns2 = 4 \<Longrightarrow> distinct (ns1 @ ns2) \<Longrightarrow> \<forall>n \<in> set (ns1 @ ns2). (n, count_size) \<in> set (hblocks h0) \<Longrightarrow>
    mm_reach ns1 ns2 (mm_start h q ns1 ns2)"
| step: "mm_reach ns1 ns2 s \<Longrightarrow> mm_step s s' \<Longrightarrow> mm_reach ns1 ns2 s'"

subsection \<open>What a step on the queue leaves alone\<close>

lemma wr64_blocks: "wr64 h a v = Inr h' \<Longrightarrow> hblocks h' = hblocks h"
  by (auto simp: wr64_def split: if_splits)

lemma put_enter_blocks: "put_enter m q h = Inr h' \<Longrightarrow> hblocks h' = hblocks h"
  by (auto simp: put_enter_def dest: wr64_blocks)

lemma put_body_blocks: "put_body m q h = Inr (q', h') \<Longrightarrow>
    hblocks h' = hblocks h \<and> self q' = self q \<and> linkoff q' = linkoff q \<and> nonblock q' = nonblock q"
  by (auto simp: put_body_def bindE_eq_Inr dest: wr64_blocks)

lemma get_pop_blocks: "get_pop q h = Inr (m, h') \<Longrightarrow> hblocks h' = hblocks h"
  by (auto simp: get_pop_def bindE_eq_Inr dest: wr64_blocks)

definition same_queue :: "mq_sys \<Rightarrow> mq_sys \<Rightarrow> bool" where
  "same_queue s s' \<longleftrightarrow> hblocks (mem s') = hblocks (mem s) \<and> self (que s') = self (que s) \<and> linkoff (que s') = linkoff (que s)"

lemma mq_step_same_queue: "mq_step s s' \<Longrightarrow> same_queue s s'"
  by (induction rule: mq_step.induct)
    (auto simp: same_queue_def crash_or_def swap_enter_def swap_body_def set_nonblock_flag_def msgqueue_set_block_def
      split: sum.split dest: put_enter_blocks put_body_blocks get_pop_blocks)

text \<open>Inside the functions nobody gets a new message in his hands, and the one who appends lets go of his.\<close>

lemma mq_step_inside:
  assumes "mq_step s s'" "\<forall>t. pcs s t = Idle \<longrightarrow> pcs s' t = Idle" "nonblock (que s) = 0"
  shows "nonblock (que s') = 0 \<and>
    ((\<forall>t. inflight (pcs s' t) = inflight (pcs s t)) \<and> sent s' = sent s \<or>
     (\<exists>t m. inflight (pcs s t) = Some m \<and> inflight (pcs s' t) = None \<and> (\<forall>u. u \<noteq> t \<longrightarrow> inflight (pcs s' u) = inflight (pcs s u)) \<and>
        sent s' = sent s @ [m]))"
  using assms
proof (induction rule: mq_step.induct)
  case (put_append s t msg)
  then show ?case
    by (auto simp: crash_or_def split: sum.split dest!: put_body_blocks intro!: exI [of _ t])
qed (auto simp: crash_or_def swap_enter_def swap_body_def set_nonblock_flag_def msgqueue_set_block_def split: sum.split if_splits)

text \<open>A consumer comes out of \<open>msgqueue_get\<close> with a message.\<close>

fun in_get :: "mq_pc \<Rightarrow> bool" where
  "in_get Idle = True" | "in_get GetLock = True" | "in_get GetTest = True" | "in_get GetPop = True"
| "in_get (SwapLock c) = True" | "in_get (SwapTest c) = True" | "in_get (SwapWait c) = True" | "in_get (SwapWake c) = True"
| "in_get _ = False"

lemma in_get_wake [simp]: "in_get (wake_put pc) = in_get pc" "wake_put pc = Idle \<longleftrightarrow> pc = Idle"
  by (cases pc; simp)+

lemma mq_step_in_get:
  assumes "mq_step s s'" "\<forall>t. pcs s t = Idle \<longrightarrow> pcs s' t = Idle" "nonblock (que s) = 0" "in_get (pcs s t)"
  shows "in_get (pcs s' t) \<and> (pcs s t \<noteq> Idle \<and> pcs s' t = Idle \<longrightarrow> got s' \<noteq> got s)"
  using assms
  by (induction rule: mq_step.induct)
    (auto simp: crash_or_def swap_enter_def swap_body_def swap_blocked_def word_gt_0 split: sum.split if_splits)

text \<open>Who is not in \<open>msgqueue_get\<close> does not get there, and a message is got by one who leaves \<open>GetPop\<close>.\<close>

lemma mq_step_out_of_get:
  assumes "mq_step s s'" "\<forall>t. pcs s t = Idle \<longrightarrow> pcs s' t = Idle" "pcs s t = Idle \<or> \<not> in_get (pcs s t)"
  shows "pcs s' t = Idle \<or> \<not> in_get (pcs s' t)"
  using assms
  by (induction rule: mq_step.induct)
    (auto simp: crash_or_def split: sum.split if_splits)

lemma mq_step_got:
  assumes "mq_step s s'"
  shows "got s' = got s \<or> (\<exists>t x. got s' = got s @ [x] \<and> pcs s t = GetPop \<and> pcs s' = (pcs s)(t := Idle))"
  using assms
proof (induction rule: mq_step.induct)
  case (get_take s t)
  then show ?case by (cases "get_pop (que s) (mem s)") (auto simp: crash_or_def intro!: exI [of _ t])
qed (auto simp: crash_or_def split: sum.split)

subsection \<open>Invariant\<close>

definition hand :: "mq_sys \<Rightarrow> nat \<Rightarrow> addr list" where
  "hand s t = (case inflight (pcs s t) of None \<Rightarrow> [] | Some m \<Rightarrow> [m])"

definition cnt_ok :: "mm_sys \<Rightarrow> bool" where
  "cnt_ok s \<longleftrightarrow> (\<forall>t n. cnt s t = Some n \<longrightarrow> (t = 2 \<or> t = 3) \<and> n \<in> set (got (mq s)) \<and> pcs (mq s) t = Idle) \<and>
     (\<forall>t u n. cnt s t = Some n \<longrightarrow> cnt s u = Some n \<longrightarrow> t = u)"

definition mm_inv :: "addr list \<Rightarrow> addr list \<Rightarrow> mm_sys \<Rightarrow> bool" where
  "mm_inv ns1 ns2 s \<longleftrightarrow> mq_reach_block (mq s) \<and> mm_heap (mem (mq s)) (que (mq s)) (ns1 @ ns2) (live_msg s) \<and>
     sent_of ns1 ns2 (hand (mq s) 0 @ todo s 0) (hand (mq s) 1 @ todo s 1) (sent (mq s)) \<and>
     (\<forall>t \<ge> 2. todo s t = [] \<and> inflight (pcs (mq s) t) = None) \<and>
     (\<forall>t. getting s t \<longleftrightarrow> t = 2 \<or> t = 3) \<and> in_get (pcs (mq s) 2) \<and> in_get (pcs (mq s) 3) \<and>
     (\<forall>t. t \<noteq> 2 \<longrightarrow> t \<noteq> 3 \<longrightarrow> pcs (mq s) t = Idle \<or> \<not> in_get (pcs (mq s) t)) \<and> cnt_ok s"

lemma mm_invI:
  assumes "mq_reach_block (mq s)" "mm_heap (mem (mq s)) (que (mq s)) (ns1 @ ns2) (live_msg s)"
    "sent_of ns1 ns2 (hand (mq s) 0 @ todo s 0) (hand (mq s) 1 @ todo s 1) (sent (mq s))"
    "\<And>t. 2 \<le> t \<Longrightarrow> todo s t = [] \<and> inflight (pcs (mq s) t) = None"
    "\<And>t. getting s t \<longleftrightarrow> t = 2 \<or> t = 3" "in_get (pcs (mq s) 2)" "in_get (pcs (mq s) 3)"
    "\<And>t. t \<noteq> 2 \<Longrightarrow> t \<noteq> 3 \<Longrightarrow> pcs (mq s) t = Idle \<or> \<not> in_get (pcs (mq s) t)" "cnt_ok s"
  shows "mm_inv ns1 ns2 s"
  using assms unfolding mm_inv_def by blast

lemma mm_invD:
  assumes "mm_inv ns1 ns2 s"
  shows "mq_reach_block (mq s)" "mm_heap (mem (mq s)) (que (mq s)) (ns1 @ ns2) (live_msg s)"
    "sent_of ns1 ns2 (hand (mq s) 0 @ todo s 0) (hand (mq s) 1 @ todo s 1) (sent (mq s))"
    "2 \<le> t \<Longrightarrow> todo s t = [] \<and> inflight (pcs (mq s) t) = None"
    "getting s t \<longleftrightarrow> t = 2 \<or> t = 3" "in_get (pcs (mq s) 2)" "in_get (pcs (mq s) 3)"
    "t \<noteq> 2 \<Longrightarrow> t \<noteq> 3 \<Longrightarrow> pcs (mq s) t = Idle \<or> \<not> in_get (pcs (mq s) t)" "cnt_ok s"
    "mq_reach (mq s)" "nonblock (que (mq s)) = 0"
  using assms mq_reach_block_reach unfolding mm_inv_def by blast+

lemma hand_simps: "inflight (pcs s t) = None \<Longrightarrow> hand s t = []" "inflight (pcs s t) = Some m \<Longrightarrow> hand s t = [m]"
  by (simp_all add: hand_def)

text \<open>Where the messages are: put by nobody yet, in somebody's hands, in the queue, got.\<close>

lemma mm_messages:
  assumes "mm_inv ns1 ns2 s"
  shows "distinct (sent (mq s))" "set (sent (mq s)) \<subseteq> set (ns1 @ ns2)"
    "todo s t = msg # ms \<Longrightarrow> msg \<in> set (ns1 @ ns2) \<and> msg \<notin> set (sent (mq s))"
    "inflight (pcs (mq s) u) = Some m \<Longrightarrow> m \<in> set (ns1 @ ns2) \<and> m \<notin> set (sent (mq s))"
    "todo s t = msg # ms \<Longrightarrow> inflight (pcs (mq s) u) = Some m \<Longrightarrow> m \<noteq> msg"
proof -
  note i = mm_invD [OF assms]
  have dist: "distinct (ns1 @ ns2)" using i(2) by (simp add: mm_heap_def)
  from i(3) obtain a b where ab: "ns1 = a @ hand (mq s) 0 @ todo s 0" "ns2 = b @ hand (mq s) 1 @ todo s 1" "sent (mq s) \<in> shuffles a b"
    unfolding sent_of_def by blast
  then have set_sent: "set (sent (mq s)) = set a \<union> set b" by (auto dest: set_shuffles)
  show "distinct (sent (mq s))" by (rule distinct_disjoint_shuffles [OF _ _ _ ab(3)]) (use dist ab(1,2) in auto)
  show "set (sent (mq s)) \<subseteq> set (ns1 @ ns2)" using set_sent ab by auto
  have low: "v = 0 \<or> v = 1" if "todo s v \<noteq> [] \<or> inflight (pcs (mq s) v) \<noteq> None" for v
    using i(4) [of v] that by (metis One_nat_def less_2_cases_iff not_le)
  show "msg \<in> set (ns1 @ ns2) \<and> msg \<notin> set (sent (mq s))" if "todo s t = msg # ms"
    using low [of t] that ab dist set_sent by auto
  show "m \<in> set (ns1 @ ns2) \<and> m \<notin> set (sent (mq s))" if "inflight (pcs (mq s) u) = Some m"
    using low [of u] that ab dist set_sent by (auto simp: hand_simps)
  show "m \<noteq> msg" if "todo s t = msg # ms" "inflight (pcs (mq s) u) = Some m"
    using low [of t] low [of u] that ab dist by (auto simp: hand_simps)
qed

lemma mm_got:
  assumes "mm_inv ns1 ns2 s"
  obtains rest where "sent (mq s) = got (mq s) @ rest" "\<not> crashed (mq s)"
  using mq_reach_inv [OF mm_invD(10) [OF assms]] that by (auto simp: data_inv_def data_ok_def)

text \<open>A cell of the queue is a member of its structure or the link of a message that was put and not got.\<close>

lemma mm_cell:
  assumes "mm_inv ns1 ns2 s" "mq_rep (mem (mq s)) (que (mq s)) (get_cell (que (mq s)) (holder (mq s))) gs ps"
    "c \<in> mq_cells (que (mq s)) (get_cell (que (mq s)) (holder (mq s))) gs ps"
  obtains i where "c = self (que (mq s)) + of_nat i" "i + 8 \<le> msgqueue_size"
  | m where "c = link_of (que (mq s)) m" "m \<in> set (sent (mq s))" "m \<notin> set (got (mq s))"
proof -
  let ?q = "que (mq s)"
  obtain gs0 ps0 where rep0: "mq_rep (mem (mq s)) ?q (get_cell ?q (holder (mq s))) gs0 ps0"
    "sent (mq s) = got (mq s) @ map (msg_of ?q) (gs0 @ ps0)"
    using mq_reach_inv [OF mm_invD(10) [OF assms(1)]] by (auto simp: data_inv_def data_ok_def)
  have same: "gs = gs0 \<and> ps = ps0" using mq_rep_unique [OF assms(2) rep0(1)] by simp
  from assms(2,3) consider "c = self ?q + of_nat 24 \<or> c = self ?q + of_nat 32" | "c \<in> set (gs @ ps)"
    unfolding mq_cells_def mq_rep_def head1_def head2_def by auto
  then show thesis
  proof cases
    case 1
    then show thesis using that(1) [of 24] that(1) [of 32] by (auto simp: msgqueue_size_def)
  next
    case 2
    then have m: "msg_of ?q c \<in> set (map (msg_of ?q) (gs0 @ ps0))" using same by auto
    have "distinct (got (mq s) @ map (msg_of ?q) (gs0 @ ps0))" using rep0(2) mm_messages(1) [OF assms(1)] by (simp only:)
    with m have "msg_of ?q c \<notin> set (got (mq s))" unfolding distinct_append by blast
    then show thesis using that(2) [of "msg_of ?q c"] m rep0(2) by simp
  qed
qed

lemma mm_link: "mm_heap h q ns live \<Longrightarrow> link_of q m = m + of_nat 4"
  by (simp add: mm_heap_def link_of_def count_linkoff_def)

lemma mm_block: "mm_heap h q ns live \<Longrightarrow> n \<in> set ns \<Longrightarrow> live n \<Longrightarrow> (n, count_size) \<in> set (hblocks h) \<and> n \<noteq> self q"
  by (simp add: mm_heap_def)

lemma cell_in_block:
  assumes "heap_ok h" "(b, n) \<in> set (hblocks h)" "(b', n') \<in> set (hblocks h)" "b \<noteq> b'" "i + 8 \<le> n" "j + 8 \<le> n'"
  shows "apart (b + of_nat i) 8 (b' + of_nat j) 8"
  using fields_apart [OF assms(1-3,5,6)] assms(4) by simp

lemma mm_put_may:
  assumes "mm_inv ns1 ns2 s" "todo s t = msg # ms"
  shows "put_may (mq s) msg"
proof -
  let ?q = "que (mq s)" and ?h = "mem (mq s)"
  note heap = mm_invD(2) [OF assms(1)] and link = mm_link [OF mm_invD(2) [OF assms(1)]]
  obtain rest where got: "sent (mq s) = got (mq s) @ rest" using mm_got [OF assms(1)] by blast
  have hok: "heap_ok ?h" using mq_reach_inv [OF mm_invD(10) [OF assms(1)]] by (auto simp: data_inv_def data_ok_def mq_rep_def)
  have block: "(m, count_size) \<in> set (hblocks ?h)" "m \<noteq> self ?q" if "m \<in> set (ns1 @ ns2)" "m \<notin> set (got (mq s))" for m
    using mm_block [OF heap that(1)] that(2) by (simp_all add: live_msg_def)
  have msg: "msg \<in> set (ns1 @ ns2)" "msg \<notin> set (got (mq s))" using mm_messages(3) [OF assms] got by auto
  have apart_link: "apart (link_of ?q m) 8 (link_of ?q msg) 8" if "m \<in> set (ns1 @ ns2)" "m \<notin> set (got (mq s))" "m \<noteq> msg" for m
    unfolding link using that block [OF that(1,2)] block [OF msg]
    by (intro cell_in_block [OF hok, where n = count_size and n' = count_size]) (auto simp: count_size_def)
  have "free_link ?h ?q (get_cell ?q (holder (mq s))) gs ps (link_of ?q msg)"
    if rep: "mq_rep ?h ?q (get_cell ?q (holder (mq s))) gs ps" for gs ps
    unfolding free_link_def
  proof (intro conjI ballI)
    show "valid ?h (link_of ?q msg) 8"
      unfolding link using field_valid(1) [OF hok block(1) [OF msg], of 4 8] by (simp add: count_size_def)
    fix c assume "c \<in> mq_cells ?q (get_cell ?q (holder (mq s))) gs ps"
    then show "apart c 8 (link_of ?q msg) 8"
    proof (cases rule: mm_cell [OF assms(1) rep, consumes 1])
      case (1 i)
      have "(self ?q, msgqueue_size) \<in> set (hblocks ?h)" using heap by (simp add: mm_heap_def)
      with 1 block [OF msg] show ?thesis
        unfolding link 1(1) by (intro cell_in_block [OF hok, where n = msgqueue_size and n' = count_size]) (auto simp: count_size_def)
    next
      case (2 m)
      then show ?thesis unfolding 2(1) using mm_messages(2) [OF assms(1)] mm_messages(3) [OF assms] by (intro apart_link) auto
    qed
  qed
  moreover have "apart (link_of ?q m) 8 (link_of ?q msg) 8" if "inflight (pcs (mq s) u) = Some m" for u m
    using mm_messages(4) [OF assms(1) that] mm_messages(5) [OF assms that] got by (intro apart_link) auto
  ultimately show ?thesis unfolding put_may_def by blast
qed

text \<open>Deleting a message that was got is none of the queue's business.\<close>

lemma mm_delete:
  assumes "mm_inv ns1 ns2 s" "cnt s t = Some n"
  obtains h where "h_free n (mem (mq s)) = Inr h" "client_heap (mq s) h" "hblocks h = filter (\<lambda>b. fst b \<noteq> n) (hblocks (mem (mq s)))"
proof -
  let ?q = "que (mq s)" and ?h = "mem (mq s)"
  note heap = mm_invD(2) [OF assms(1)] and link = mm_link [OF mm_invD(2) [OF assms(1)]]
  obtain rest where got: "sent (mq s) = got (mq s) @ rest" using mm_got [OF assms(1)] by blast
  have hok: "heap_ok ?h" using mq_reach_inv [OF mm_invD(10) [OF assms(1)]] by (auto simp: data_inv_def data_ok_def mq_rep_def)
  have n: "n \<in> set (got (mq s))" using assms(2) mm_invD(9) [OF assms(1)] unfolding cnt_ok_def by blast
  then have n_in: "n \<in> set (ns1 @ ns2)" using mm_messages(2) [OF assms(1)] got by auto
  have blk: "(n, count_size) \<in> set (hblocks ?h)" "n \<noteq> self ?q"
    using mm_block [OF heap n_in] assms(2) by (auto simp: live_msg_def)
  define h where "h = ?h\<lparr>hblocks := filter (\<lambda>b. fst b \<noteq> n) (hblocks ?h)\<rparr>"
  have "n \<noteq> 0" using blk(1) hok by (force simp: heap_ok_def)
  then have free: "h_free n ?h = Inr h" using blk(1) by (force simp: h_free_def h_def)
  then have hok': "heap_ok h" using heap_ok_free [OF hok] by blast
  have kept: "cell_kept ?h h (b + of_nat i)" if "(b, k) \<in> set (hblocks ?h)" "b \<noteq> n" "i + 8 \<le> k" for b k i
    using field_valid(1) [OF hok', of b k i 8] that by (simp add: cell_kept_def h_def)
  have msg: "cell_kept ?h h (link_of ?q m)" if "m \<in> set (ns1 @ ns2)" "m \<notin> set (got (mq s))" for m
    unfolding link using mm_block [OF heap that(1)] that(2) n by (intro kept [where k = count_size]) (auto simp: live_msg_def count_size_def)
  have "cell_kept ?h h c" if rep: "mq_rep ?h ?q (get_cell ?q (holder (mq s))) gs ps"
    and c: "c \<in> mq_cells ?q (get_cell ?q (holder (mq s))) gs ps" for gs ps c
    using c
  proof (cases rule: mm_cell [OF assms(1) rep, consumes 1])
    case (1 i)
    have "(self ?q, msgqueue_size) \<in> set (hblocks ?h)" using heap by (simp add: mm_heap_def)
    with 1 blk(2) show ?thesis unfolding 1(1) by (intro kept) auto
  next
    case (2 m)
    then show ?thesis unfolding 2(1) using mm_messages(2) [OF assms(1)] by (intro msg) auto
  qed
  moreover have "cell_kept ?h h (link_of ?q m)" if "inflight (pcs (mq s) u) = Some m" for u m
    using mm_messages(4) [OF assms(1) that] got by (intro msg) auto
  ultimately have "client_heap (mq s) h" using hok' unfolding client_heap_def by blast
  with free show thesis by (rule that) (simp add: h_def)
qed

lemma mm_heap_same:
  "mm_heap (mem s) (que s) ns live \<Longrightarrow> same_queue s s' \<Longrightarrow> (\<And>n. n \<in> set ns \<Longrightarrow> live' n = live n) \<Longrightarrow> mm_heap (mem s') (que s') ns live'"
  by (simp add: mm_heap_def same_queue_def)

lemma cnt_okD: "cnt_ok s \<Longrightarrow> cnt s t = Some n \<Longrightarrow> (t = 2 \<or> t = 3) \<and> n \<in> set (got (mq s)) \<and> pcs (mq s) t = Idle"
  "cnt_ok s \<Longrightarrow> cnt s t = Some n \<Longrightarrow> cnt s u = Some n \<Longrightarrow> t = u"
  unfolding cnt_ok_def by blast+

lemma cnt_okI:
  "(\<And>t n. cnt s t = Some n \<Longrightarrow> (t = 2 \<or> t = 3) \<and> n \<in> set (got (mq s)) \<and> pcs (mq s) t = Idle) \<Longrightarrow>
   (\<And>t u n. cnt s t = Some n \<Longrightarrow> cnt s u = Some n \<Longrightarrow> t = u) \<Longrightarrow> cnt_ok s"
  unfolding cnt_ok_def by blast

lemma mm_step_put:
  assumes "mm_inv ns1 ns2 s" "pcs (mq s) t = Idle" "todo s t = msg # ms"
    "s' = s\<lparr>mq := crash_or (mq s) (put_enter msg (que (mq s)) (mem (mq s)))
        (\<lambda>h. (mq s)\<lparr>mem := h, pcs := (pcs (mq s))(t := PutLock msg)\<rparr>),
      todo := (todo s)(t := ms)\<rparr>"
  shows "mm_inv ns1 ns2 s'"
proof -
  note i = mm_invD [OF assms(1)]
  have may: "put_may (mq s) msg" using mm_put_may [OF assms(1,3)] .
  obtain h where h: "put_enter msg (que (mq s)) (mem (mq s)) = Inr h"
    using data_inv_begin [of "mq s" t msg] mq_reach_inv [OF i(10)] assms(2) may by auto
  define m where "m = (mq s)\<lparr>mem := h, pcs := (pcs (mq s))(t := PutLock msg)\<rparr>"
  have s': "s' = s\<lparr>mq := m, todo := (todo s)(t := ms)\<rparr>" using assms(4) h by (simp add: crash_or_def m_def)
  have step: "mq_step (mq s) m" using mq_step.put_begin [OF assms(2) may] h by (simp add: crash_or_def m_def)
  have t: "t < 2" using i(4) [of t] assms(3) by (cases "2 \<le> t") auto
  have same: "hand m u @ todo s' u = hand (mq s) u @ todo s u" for u using assms(2,3) s' by (simp add: hand_def m_def)
  have live: "live_msg s' = live_msg s" by (simp add: live_msg_def s' m_def fun_eq_iff)
  show ?thesis
  proof (rule mm_invI)
    show "mq_reach_block (mq s')" using mq_reach_block.step [OF i(1) step] i(11) by (simp add: s' m_def)
    show "mm_heap (mem (mq s')) (que (mq s')) (ns1 @ ns2) (live_msg s')"
      using mm_heap_same [OF i(2) mq_step_same_queue [OF step]] live by (simp add: s')
    show "sent_of ns1 ns2 (hand (mq s') 0 @ todo s' 0) (hand (mq s') 1 @ todo s' 1) (sent (mq s'))"
      using i(3) same [of 0] same [of 1] by (simp add: s' m_def)
    have "u \<noteq> t" if "cnt s u = Some n" for u n using cnt_okD(1) [OF i(9) that] t by auto
    then show "cnt_ok s'" using cnt_okD [OF i(9)] by (intro cnt_okI) (auto simp: s' m_def)
  qed (use i(4-8) t in \<open>auto simp: s' m_def\<close>)
qed

lemma mm_step_get:
  assumes "mm_inv ns1 ns2 s" "pcs (mq s) t = Idle" "getting s t" "cnt s t = None"
    "s' = s\<lparr>mq := (mq s)\<lparr>pcs := (pcs (mq s))(t := GetLock)\<rparr>\<rparr>"
  shows "mm_inv ns1 ns2 s'"
proof -
  note i = mm_invD [OF assms(1)]
  have step: "mq_step (mq s) (mq s')" unfolding assms(5) using mq_step.get_begin [OF assms(2)] by simp
  have t: "t = 2 \<or> t = 3" using i(5) assms(3) by blast
  have same: "hand (mq s') u = hand (mq s) u" for u using assms(2) by (simp add: hand_def assms(5))
  have live: "live_msg s' = live_msg s" by (simp add: live_msg_def assms(5) fun_eq_iff)
  show ?thesis
  proof (rule mm_invI)
    show "mq_reach_block (mq s')" using mq_reach_block.step [OF i(1) step] i(11) by (simp add: assms(5))
    show "mm_heap (mem (mq s')) (que (mq s')) (ns1 @ ns2) (live_msg s')"
      using mm_heap_same [OF i(2) mq_step_same_queue [OF step]] live by simp
    show "sent_of ns1 ns2 (hand (mq s') 0 @ todo s' 0) (hand (mq s') 1 @ todo s' 1) (sent (mq s'))"
      using i(3) same by (simp add: assms(5))
    show "cnt_ok s'" using cnt_okD [OF i(9)] assms(4) by (intro cnt_okI) (auto simp: assms(5))
  qed (use i(4-8) t in \<open>auto simp: assms(5)\<close>)
qed

text \<open>A message that comes out of the queue is held by the consumer that got it.\<close>

lemma mm_step_cnt:
  assumes "mm_inv ns1 ns2 s" "mq_step (mq s) m" "sent m = got m @ rest" "distinct (sent m)"
    "\<forall>t. pcs (mq s) t = Idle \<longrightarrow> pcs m t = Idle"
    "s' = s\<lparr>mq := m, getting := g,
      cnt := (\<lambda>t. if pcs (mq s) t \<noteq> Idle \<and> pcs m t = Idle \<and> got m \<noteq> got (mq s) then Some (last (got m)) else cnt s t)\<rparr>"
  shows "cnt_ok s' \<and> live_msg s' = live_msg s"
proof -
  note c = mm_invD(9) [OF assms(1)]
  from mq_step_got [OF assms(2)] show ?thesis
  proof
    assume "got m = got (mq s)"
    with c assms(5) show ?thesis by (auto simp: assms(6) cnt_ok_def live_msg_def fun_eq_iff)
  next
    assume "\<exists>t x. got m = got (mq s) @ [x] \<and> pcs (mq s) t = GetPop \<and> pcs m = (pcs (mq s))(t := Idle)"
    then obtain t x where x: "got m = got (mq s) @ [x]" "pcs (mq s) t = GetPop" "pcs m = (pcs (mq s))(t := Idle)" by blast
    have t: "t = 2 \<or> t = 3" using mm_invD(8) [OF assms(1), of t] x(2) by auto
    have new: "x \<notin> set (got (mq s))" using assms(3,4) x(1) by auto
    have cnt': "cnt s' = (cnt s)(t := Some x)" using x by (auto simp: assms(6) fun_eq_iff)
    have busy: "u \<noteq> t" if "cnt s u = Some n" for u n using cnt_okD(1) [OF c that] x(2) by auto
    then have "cnt s t = None" using busy [of t] by (cases "cnt s t") auto
    have "(\<exists>u. cnt s' u = Some n) \<longleftrightarrow> (\<exists>u. cnt s u = Some n) \<or> n = x" for n
      unfolding cnt' using busy by (auto intro: exI [of _ t])
    moreover have "mq s' = m" by (simp add: assms(6))
    ultimately have "live_msg s' n = live_msg s n" for n using new x(1) by (auto simp: live_msg_def)
    moreover have "cnt_ok s'"
    proof (rule cnt_okI)
      fix u n assume u: "cnt s' u = Some n"
      show "(u = 2 \<or> u = 3) \<and> n \<in> set (got (mq s')) \<and> pcs (mq s') u = Idle"
      proof (cases "u = t")
        case True
        with u t x cnt' show ?thesis by (simp add: assms(6))
      next
        case False
        with u cnt' have "cnt s u = Some n" by simp
        from cnt_okD(1) [OF c this] False x show ?thesis by (simp add: assms(6))
      qed
      fix v assume v: "cnt s' v = Some n"
      have old: "n \<noteq> x" if "cnt s w = Some n" for w using cnt_okD(1) [OF c that] new by auto
      show "u = v" using u v cnt' old cnt_okD(2) [OF c] by (auto split: if_splits)
    qed
    ultimately show ?thesis by auto
  qed
qed

lemma mm_step_inside:
  assumes "mm_inv ns1 ns2 s" "mq_step (mq s) m" "\<forall>t. pcs (mq s) t = Idle \<longrightarrow> pcs m t = Idle"
    "s' = s\<lparr>mq := m,
      getting := (\<lambda>t. getting s t \<and> \<not> (pcs (mq s) t \<noteq> Idle \<and> pcs m t = Idle \<and> got m = got (mq s))),
      cnt := (\<lambda>t. if pcs (mq s) t \<noteq> Idle \<and> pcs m t = Idle \<and> got m \<noteq> got (mq s) then Some (last (got m)) else cnt s t)\<rparr>"
  shows "mm_inv ns1 ns2 s'"
proof -
  note i = mm_invD [OF assms(1)]
  note q = mq_step_inside [OF assms(2,3) i(11)]
  have reach: "mq_reach_block m" using mq_reach_block.step [OF i(1) assms(2)] q by simp
  have sent: "sent_of ns1 ns2 (hand m 0 @ todo s 0) (hand m 1 @ todo s 1) (sent m) \<and> (\<forall>u \<ge> 2. inflight (pcs m u) = None)"
  proof (cases "\<forall>t. inflight (pcs m t) = inflight (pcs (mq s) t)")
    case True
    moreover from True have "sent m = sent (mq s)" using q by force
    ultimately show ?thesis using i(3,4) by (simp add: hand_def)
  next
    case False
    with q obtain t x where x: "inflight (pcs (mq s) t) = Some x" "inflight (pcs m t) = None"
      "\<And>u. u \<noteq> t \<Longrightarrow> inflight (pcs m u) = inflight (pcs (mq s) u)" "sent m = sent (mq s) @ [x]" by blast
    have t: "t < 2" using i(4) [of t] x(1) by (cases "2 \<le> t") auto
    let ?h = "\<lambda>c u. hand c u @ todo s u"
    have "sent_of ns1 ns2 (?h m 0) (?h m 1) (sent (mq s) @ [x])"
      by (rule sent_of_thread [of ns1 ns2 "?h (mq s)" _ t x "todo s t" "?h m"]) (use i(3) t x in \<open>simp_all add: hand_def\<close>)
    moreover have "inflight (pcs m u) = None" if "2 \<le> u" for u using x(3) [of u] i(4) [OF that] t that by auto
    ultimately show ?thesis by (simp add: x(4))
  qed
  obtain rest where rest: "sent m = got m @ rest"
    using mq_reach_inv [OF mq_reach_block_reach [OF reach, THEN conjunct1]] by (auto simp: data_inv_def data_ok_def)
  from sent obtain a b l1 l2 where ab: "ns1 = a @ l1" "ns2 = b @ l2" "sent m \<in> shuffles a b" unfolding sent_of_def by auto
  have "distinct (sent m)"
    by (rule distinct_disjoint_shuffles [OF _ _ _ ab(3)]) (use i(2) ab(1,2) in \<open>auto simp: mm_heap_def\<close>)
  note c = mm_step_cnt [OF assms(1,2) rest this assms(3,4)]
  note g = mq_step_in_get [OF assms(2,3) i(11)]
  show ?thesis
  proof (rule mm_invI)
    show "mq_reach_block (mq s')" using reach by (simp add: assms(4))
    show "mm_heap (mem (mq s')) (que (mq s')) (ns1 @ ns2) (live_msg s')"
      using mm_heap_same [OF i(2) mq_step_same_queue [OF assms(2)]] c by (simp add: assms(4))
    show "getting s' t \<longleftrightarrow> t = 2 \<or> t = 3" for t using g i(5-7) by (auto simp: assms(4))
    show "pcs (mq s') t = Idle \<or> \<not> in_get (pcs (mq s') t)" if "t \<noteq> 2" "t \<noteq> 3" for t
      using mq_step_out_of_get [OF assms(2,3) i(8) [OF that]] by (simp add: assms(4))
  qed (use c g i(4,6,7) sent in \<open>auto simp: assms(4)\<close>)
qed

lemma mm_step_delete:
  assumes "mm_inv ns1 ns2 s" "cnt s t = Some n"
    "s' = s\<lparr>mq := crash_or (mq s) (h_free n (mem (mq s))) (\<lambda>h. (mq s)\<lparr>mem := h\<rparr>), cnt := (cnt s)(t := None)\<rparr>"
  shows "mm_inv ns1 ns2 s'"
proof -
  note i = mm_invD [OF assms(1)]
  obtain h where h: "h_free n (mem (mq s)) = Inr h" "client_heap (mq s) h" "hblocks h = filter (\<lambda>b. fst b \<noteq> n) (hblocks (mem (mq s)))"
    using mm_delete [OF assms(1,2)] .
  have s': "s' = s\<lparr>mq := (mq s)\<lparr>mem := h\<rparr>, cnt := (cnt s)(t := None)\<rparr>" using assms(3) h(1) by (simp add: crash_or_def)
  have n: "n \<in> set (got (mq s))" "\<And>u. cnt s u = Some n \<Longrightarrow> u = t"
    using i(9) assms(2) unfolding cnt_ok_def by blast+
  obtain rest where "sent (mq s) = got (mq s) @ rest" using mm_got [OF assms(1)] by blast
  then have "n \<in> set (ns1 @ ns2)" using n(1) mm_messages(2) [OF assms(1)] by auto
  have live: "live_msg s' k \<longleftrightarrow> live_msg s k \<and> k \<noteq> n" for k
  proof -
    have "cnt s' u = Some k \<longleftrightarrow> cnt s u = Some k \<and> k \<noteq> n" for u
      using n(2) [of u] assms(2) by (cases "u = t") (auto simp: s')
    then show ?thesis using n(1) by (auto simp: live_msg_def s')
  qed
  show ?thesis
  proof (rule mm_invI)
    show "mq_reach_block (mq s')" using mq_reach_block.client [OF i(1) h(2)] by (simp add: s')
    show "mm_heap (mem (mq s')) (que (mq s')) (ns1 @ ns2) (live_msg s')"
      using i(2) \<open>n \<in> set (ns1 @ ns2)\<close> unfolding mm_heap_def live by (auto simp: h(3) s')
    show "cnt_ok s'" using cnt_okD [OF i(9)] by (intro cnt_okI) (auto simp: s' split: if_splits)
  qed (use i(3-8) in \<open>auto simp: s' hand_def\<close>)
qed

lemma mm_step_inv:
  assumes "mm_step s s'" "mm_inv ns1 ns2 s"
  shows "mm_inv ns1 ns2 s'"
  using assms(1)
proof (cases rule: mm_step.cases)
  case (put t msg ms)
  from mm_step_put [OF assms(2) put(2,3,1)] show ?thesis .
next
  case (get t)
  from mm_step_get [OF assms(2) get(2,3,4,1)] show ?thesis .
next
  case (inside m)
  from mm_step_inside [OF assms(2) inside(2,3,1)] show ?thesis .
next
  case (delete t n)
  from mm_step_delete [OF assms(2) delete(2,1)] show ?thesis .
qed

lemma mm_reach_inv: "mm_reach ns1 ns2 s \<Longrightarrow> mm_inv ns1 ns2 s"
proof (induction rule: mm_reach.induct)
  case (start p h0 q res err h)
  from msgqueue_create_ok [OF start(2,3), of 1024 count_linkoff] start(1,3) have
    q: "mq_rep h q (get_head q) [] []" "self q = p" "linkoff q = count_linkoff" "nonblock q = 0" "hblocks h = (p, msgqueue_size) # hblocks h0"
    by (auto simp: fresh_def)
  have "n \<noteq> p" if "n \<in> set (ns1 @ ns2)" for n using start(3,7) that by (force simp: fresh_def)
  with q start(6,7) have "mm_heap h q (ns1 @ ns2) (\<lambda>_. True)" by (auto simp: mm_heap_def)
  moreover have "mq_reach_block (mq_start h q)" using q(1,4) by (rule mq_reach_block.start)
  moreover have "live_msg (mm_start h q ns1 ns2) = (\<lambda>_. True)" by (simp add: live_msg_def mm_start_def mq_start_def fun_eq_iff)
  ultimately show ?case by (simp add: mm_inv_def mm_start_def mq_start_def hand_def sent_of_start cnt_ok_def)
qed (rule mm_step_inv)

text \<open>
  C38: \<^verbatim>\<open>main_msgqueue.cpp\<close> never ends: its consumers never leave their loops, so that \<open>main\<close> does not get past the third join and the queue is
  never destroyed. Until then nothing goes wrong: no thread touches memory that is not its own, although the links lie across the members
  of the messages, what the consumers have got is a prefix of an interleaving of what the producers have put, in the order of each, and
  the messages that are gone from memory are exactly those that were got and deleted.
\<close>

theorem msgqueue_main_never_ends:
  assumes "mm_reach ns1 ns2 s"
  shows "getting s 2 \<and> getting s 3 \<and> \<not> crashed (mq s) \<and> (\<exists>rest. sent (mq s) = got (mq s) @ rest) \<and>
    (\<exists>l1 l2. sent_of ns1 ns2 l1 l2 (sent (mq s))) \<and>
    (\<forall>n \<in> set (ns1 @ ns2). (n, count_size) \<in> set (hblocks (mem (mq s))) \<longleftrightarrow>
       n \<notin> set (got (mq s)) \<or> cnt s 2 = Some n \<or> cnt s 3 = Some n)"
proof -
  have inv: "mm_inv ns1 ns2 s" using assms by (rule mm_reach_inv)
  note i = mm_invD [OF inv]
  obtain rest where "sent (mq s) = got (mq s) @ rest" "\<not> crashed (mq s)" using mm_got [OF inv] .
  moreover have "live_msg s n \<longleftrightarrow> n \<notin> set (got (mq s)) \<or> cnt s 2 = Some n \<or> cnt s 3 = Some n" for n
    using i(9) unfolding cnt_ok_def live_msg_def by blast
  ultimately show ?thesis using i(2,3) i(5) [of 2] i(5) [of 3] unfolding mm_heap_def by blast
qed

text \<open>A heap with eight messages, and the program before its first step.\<close>

definition mm_nodes1 :: "addr list" where "mm_nodes1 = [8192, 8224, 8256, 8288]"

definition mm_nodes2 :: "addr list" where "mm_nodes2 = [8320, 8352, 8384, 8416]"

definition mm_heap0 :: heap where
  "mm_heap0 = \<lparr>hbytes = (\<lambda>_. 0), hblocks = map (\<lambda>n. (n, count_size)) (mm_nodes1 @ mm_nodes2)\<rparr>"

theorem msgqueue_main_never_ends_witness:
  "\<exists>s. mm_reach mm_nodes1 mm_nodes2 s \<and> todo s 0 = mm_nodes1 \<and> getting s 2 \<and> getting s 3 \<and> \<not> crashed (mq s)"
proof -
  have h: "heap_ok mm_heap0" "fresh 4096 msgqueue_size mm_heap0"
    by (auto simp: heap_ok_def fresh_def mm_heap0_def mm_nodes1_def mm_nodes2_def room_def count_size_def msgqueue_size_def
      blocks_apart_def apart_def)
  from msgqueue_create_ok [OF h, of 1024 count_linkoff] obtain q res err h' where
    "msgqueue_create 4096 0 0 0 0 1024 count_linkoff mm_heap0 = Inr (Some q, res, err, h')" by blast
  from mm_reach.start [OF this h, of mm_nodes1 mm_nodes2] have r: "mm_reach mm_nodes1 mm_nodes2 (mm_start h' q mm_nodes1 mm_nodes2)"
    by (simp add: mm_heap0_def mm_nodes1_def mm_nodes2_def)
  with msgqueue_main_never_ends [OF r] show ?thesis by (intro exI [of _ "mm_start h' q mm_nodes1 mm_nodes2"]) (simp add: mm_start_def)
qed

end
