(* ===== verification/Spinlock.thy ===== *)
theory Spinlock
  imports Prelude
begin

text \<open>
  The spin lock and the atomic operations of the thread pool (\<^verbatim>\<open>spinlock.h\<close> and
  \<^verbatim>\<open>atomic.h\<close>, of which the repository holds two identical copies). The three compile-time
  variants of the lock are one parameter. First the functions as one thread runs them, then any
  number of threads on one lock, one access to the lock word at a time.
\<close>

subsection \<open>The lock word and the functions\<close>

datatype lock_impl =
    Sync_Builtin     \<comment> \<open>\<open>__STDC_NO_ATOMICS__\<close>: \<open>__sync_lock_test_and_set\<close>\<close>
  | Std_Atomic       \<comment> \<open>\<open>atomic_exchange_explicit\<close> and a relaxed load while the lock is taken\<close>
  | Pthread_Mutex    \<comment> \<open>\<open>USE_PTHREAD_LOCK\<close>: a mutex, which blocks instead of spinning\<close>

definition test_and_set :: "int \<Rightarrow> int \<times> int" where
  "test_and_set v = (v, 1)"

definition spinlock_init :: "lock_impl \<Rightarrow> int" where
  "spinlock_init impl = 0"

definition spinlock_trylock :: "lock_impl \<Rightarrow> int \<Rightarrow> bool \<times> int" where
  "spinlock_trylock impl v =
     (case impl of
        Std_Atomic \<Rightarrow>
          if v \<noteq> 0 then (False, v)
          else let (old, v') = test_and_set v in (old = 0, v')
      | _ \<Rightarrow> let (old, v') = test_and_set v in (old = 0, v'))"

text \<open>
  \<open>spinlock_lock\<close> run by a thread that nobody interrupts: on a lock that is taken it never
  returns.
\<close>

partial_function (option) spin_while_taken :: "int \<Rightarrow> unit option" where
  "spin_while_taken v = (if v \<noteq> 0 then spin_while_taken v else Some ())"

partial_function (option) spinlock_lock :: "lock_impl \<Rightarrow> int \<Rightarrow> int option" where
  "spinlock_lock impl v =
     (case test_and_set v of (old, v') \<Rightarrow>
        if old = 0 then Some v'
        else if impl = Std_Atomic
          then Option.bind (spin_while_taken v') (\<lambda>_. spinlock_lock impl v')
          else spinlock_lock impl v')"

definition spinlock_unlock :: "lock_impl \<Rightarrow> int \<Rightarrow> int" where
  "spinlock_unlock impl v = 0"

definition spinlock_destroy :: "lock_impl \<Rightarrow> int \<Rightarrow> int" where
  "spinlock_destroy impl v = v"

lemma spin_while_taken_Some: "spin_while_taken v = Some u \<Longrightarrow> v = 0"
  by (rule spin_while_taken.raw_induct [of "\<lambda>v u. v = 0"]) (auto split: if_splits)

lemma spinlock_lock_free: "spinlock_lock impl 0 = Some 1"
  by (subst spinlock_lock.simps) (simp add: test_and_set_def)

lemma spinlock_lock_Some: "spinlock_lock impl v = Some v' \<Longrightarrow> v = 0 \<and> v' = 1"
  by (rule spinlock_lock.raw_induct [of "\<lambda>i v v'. v = 0 \<and> v' = 1"])
    (fastforce simp: test_and_set_def split: if_splits Option.bind_splits)+


subsection \<open>Threads on one lock\<close>

text \<open>
  Each step is one access of one thread to the lock word. \<open>LockSpin\<close> is the relaxed load of the
  inner loop, which only the \<open>Std_Atomic\<close> variant has, \<open>TryLoad\<close> the relaxed load of its
  \<open>spinlock_trylock\<close>. A mutex that is taken blocks: its \<open>LockTas\<close> has no step until it is free.
  A thread unlocks only while it holds the lock.
\<close>

datatype spin_pc = Away | LockTas | LockSpin | TryLoad | TryTas | Inside

record spin_sys =
  word :: int
  spcs :: "nat \<Rightarrow> spin_pc"

inductive spin_step :: "lock_impl \<Rightarrow> spin_sys \<Rightarrow> spin_sys \<Rightarrow> bool" for impl where
  lock_call: "spcs s t = Away \<Longrightarrow>
    spin_step impl s (s\<lparr>spcs := (spcs s)(t := LockTas)\<rparr>)"
| lock_taken: "spcs s t = LockTas \<Longrightarrow> test_and_set (word s) = (old, w) \<Longrightarrow> old = 0 \<Longrightarrow>
    spin_step impl s (s\<lparr>word := w, spcs := (spcs s)(t := Inside)\<rparr>)"
| lock_busy: "spcs s t = LockTas \<Longrightarrow> impl \<noteq> Pthread_Mutex \<Longrightarrow> test_and_set (word s) = (old, w) \<Longrightarrow> old \<noteq> 0 \<Longrightarrow>
    spin_step impl s (s\<lparr>word := w, spcs := (spcs s)(t := (if impl = Std_Atomic then LockSpin else LockTas))\<rparr>)"
| lock_spin: "spcs s t = LockSpin \<Longrightarrow>
    spin_step impl s (s\<lparr>spcs := (spcs s)(t := (if word s \<noteq> 0 then LockSpin else LockTas))\<rparr>)"
| try_call: "spcs s t = Away \<Longrightarrow>
    spin_step impl s (s\<lparr>spcs := (spcs s)(t := (if impl = Std_Atomic then TryLoad else TryTas))\<rparr>)"
| try_load: "spcs s t = TryLoad \<Longrightarrow>
    spin_step impl s (s\<lparr>spcs := (spcs s)(t := (if word s \<noteq> 0 then Away else TryTas))\<rparr>)"
| try_tas: "spcs s t = TryTas \<Longrightarrow> test_and_set (word s) = (old, w) \<Longrightarrow>
    spin_step impl s (s\<lparr>word := w, spcs := (spcs s)(t := (if old = 0 then Inside else Away))\<rparr>)"
| unlock: "spcs s t = Inside \<Longrightarrow>
    spin_step impl s (s\<lparr>word := spinlock_unlock impl (word s), spcs := (spcs s)(t := Away)\<rparr>)"

definition spin_start :: "lock_impl \<Rightarrow> spin_sys" where
  "spin_start impl = \<lparr>word = spinlock_init impl, spcs = (\<lambda>_. Away)\<rparr>"

definition spin_reach :: "lock_impl \<Rightarrow> spin_sys \<Rightarrow> bool" where
  "spin_reach impl s \<longleftrightarrow> (spin_step impl)\<^sup>*\<^sup>* (spin_start impl) s"

definition spin_inv :: "spin_sys \<Rightarrow> bool" where
  "spin_inv s \<longleftrightarrow> (\<forall>t u. spcs s t = Inside \<longrightarrow> spcs s u = Inside \<longrightarrow> t = u) \<and>
     (word s = 0 \<or> word s = 1) \<and> (word s = 0 \<longleftrightarrow> (\<forall>t. spcs s t \<noteq> Inside))"

lemma spin_inv_start: "spin_inv (spin_start impl)"
  by (simp add: spin_inv_def spin_start_def spinlock_init_def)

lemma spin_inv_other:
  "spin_inv s \<Longrightarrow> spcs s t \<noteq> Inside \<Longrightarrow> pc \<noteq> Inside \<Longrightarrow> spin_inv (s\<lparr>spcs := (spcs s)(t := pc)\<rparr>)"
  unfolding spin_inv_def by (simp, metis)

lemma spin_inv_busy:
  "spin_inv s \<Longrightarrow> word s \<noteq> 0 \<Longrightarrow> spcs s t \<noteq> Inside \<Longrightarrow> pc \<noteq> Inside \<Longrightarrow>
     spin_inv (s\<lparr>word := 1, spcs := (spcs s)(t := pc)\<rparr>)"
  unfolding spin_inv_def by (simp, metis)

lemma spin_inv_enter:
  "spin_inv s \<Longrightarrow> word s = 0 \<Longrightarrow> spin_inv (s\<lparr>word := 1, spcs := (spcs s)(t := Inside)\<rparr>)"
  unfolding spin_inv_def by auto

lemma spin_inv_step: "spin_step impl s s' \<Longrightarrow> spin_inv s \<Longrightarrow> spin_inv s'"
proof (induction rule: spin_step.induct)
  case (unlock s t)
  then show ?case unfolding spin_inv_def spinlock_unlock_def by auto
qed (auto simp: test_and_set_def intro: spin_inv_other spin_inv_busy spin_inv_enter)

lemma spin_reach_inv:
  assumes "spin_reach impl s"
  shows "spin_inv s"
  using assms unfolding spin_reach_def
  by (induction rule: rtranclp_induct) (simp_all add: spin_inv_start spin_inv_step)

subsection \<open>The contract of a lock\<close>

text \<open>
  What the clients of the lock rely on: whoever finds it free takes it, and it is free again after
  an unlock.
\<close>

locale try_lock =
  fixes free :: "'l \<Rightarrow> bool"
    and try_acquire :: "'l \<Rightarrow> bool \<times> 'l"
    and release :: "'l \<Rightarrow> 'l"
  assumes try_free: "free l \<Longrightarrow> fst (try_acquire l) \<and> \<not> free (snd (try_acquire l))"
    and try_taken: "\<not> free l \<Longrightarrow> \<not> fst (try_acquire l) \<and> \<not> free (snd (try_acquire l))"
    and release_free: "free (release l)"
begin

primrec winners :: "nat \<Rightarrow> 'l \<Rightarrow> bool list" where
  "winners 0 l = []"
| "winners (Suc n) l = fst (try_acquire l) # winners n (snd (try_acquire l))"

lemma taken_stays: "\<not> free l \<Longrightarrow> winners n l = replicate n False"
  using try_taken by (induction n arbitrary: l) simp_all

lemma one_winner: "free l \<Longrightarrow> winners (Suc n) l = True # replicate n False"
  using try_free taken_stays by simp

end

interpretation spin: try_lock "\<lambda>v. v = (0 :: int)" "spinlock_trylock impl" "spinlock_unlock impl"
  by unfold_locales (auto simp: spinlock_trylock_def test_and_set_def spinlock_unlock_def split: lock_impl.split)

primrec trylock_calls :: "lock_impl \<Rightarrow> nat \<Rightarrow> int \<Rightarrow> bool list" where
  "trylock_calls impl 0 v = []"
| "trylock_calls impl (Suc n) v =
     (let (ok, v') = spinlock_trylock impl v in ok # trylock_calls impl n v')"

lemma trylock_calls_winners: "trylock_calls impl n v = spin.winners impl n v"
  by (induction n arbitrary: v) (simp_all add: spin.winners.simps case_prod_beta Let_def)

subsection \<open>The atomic operations\<close>

text \<open>
  \<open>atomic.h\<close> on a cell of \<open>w\<close> bits. \<open>ATOM_CAS\<close> is the weak compare-and-exchange: it may
  fail although the values agree (\<open>spurious\<close>); with \<open>__STDC_NO_ATOMICS__\<close> it never does. What
  the exchange stores into its expected value is lost, because that is the function's own copy.
\<close>

definition ATOM_CAS :: "bool \<Rightarrow> 'a::len word \<Rightarrow> 'a word \<Rightarrow> 'a word \<Rightarrow> int \<times> 'a word" where
  "ATOM_CAS spurious cell oval nval =
     (if cell = oval \<and> \<not> spurious then (1, nval) else (0, cell))"

definition ATOM_FADD :: "'a::len word \<Rightarrow> 'a word \<Rightarrow> 'a word \<times> 'a word" where
  "ATOM_FADD cell n = (cell, cell + n)"

definition ATOM_FSUB :: "'a::len word \<Rightarrow> 'a word \<Rightarrow> 'a word \<times> 'a word" where
  "ATOM_FSUB cell n = (cell, cell - n)"

definition ATOM_FAND :: "'a::len word \<Rightarrow> 'a word \<Rightarrow> 'a word \<times> 'a word" where
  "ATOM_FAND cell n = (cell, and cell n)"

definition ATOM_FINC :: "'a::len word \<Rightarrow> 'a word \<times> 'a word" where
  "ATOM_FINC cell = ATOM_FADD cell 1"

definition ATOM_FDEC :: "'a::len word \<Rightarrow> 'a word \<times> 'a word" where
  "ATOM_FDEC cell = ATOM_FSUB cell 1"

text \<open>The values a run of \<open>ATOM_FINC\<close> calls, by whichever threads, returns.\<close>

primrec tickets :: "nat \<Rightarrow> 'a::len word \<Rightarrow> 'a word list" where
  "tickets 0 cell = []"
| "tickets (Suc n) cell = (let (v, cell') = ATOM_FINC cell in v # tickets n cell')"

lemma tickets_eq: "tickets n cell = map (\<lambda>i. cell + of_nat i) [0..<n]"
proof (induction n arbitrary: cell)
  case (Suc n)
  have "map (\<lambda>i. cell + 1 + of_nat i) [0..<n] = map (\<lambda>i. cell + of_nat i) (map Suc [0..<n])"
    by (simp add: algebra_simps)
  also have "map Suc [0..<n] = [1..<Suc n]" by (simp add: map_Suc_upt)
  finally show ?case using Suc by (simp add: ATOM_FINC_def ATOM_FADD_def upt_rec [of 0])
qed simp

subsection \<open>Properties\<close>

text \<open>
  C27: mutual exclusion, for all three variants and any number of threads: no two threads are
  inside the lock, the lock word is 0 or 1, and it is 0 exactly when nobody is inside.
\<close>

theorem spin_mutual_exclusion:
  assumes "spin_reach impl s"
  shows "(\<forall>t u. spcs s t = Inside \<longrightarrow> spcs s u = Inside \<longrightarrow> t = u) \<and>
    (word s = 0 \<or> word s = 1) \<and> (word s = 0 \<longleftrightarrow> (\<forall>t. spcs s t \<noteq> Inside))"
  using spin_reach_inv [OF assms] by (auto simp: spin_inv_def)

text \<open>
  The lock is not lost: whenever it is free, a waiting thread that gets to run on its own is
  inside after at most two of its accesses; and while it is taken the owner can always unlock it,
  after which it is free.
\<close>

theorem spin_progress:
  assumes "spin_reach impl s"
  shows "(word s = 0 \<and> (spcs s t = LockTas \<or> spcs s t = LockSpin) \<longrightarrow>
      (\<exists>s'. (spin_step impl)\<^sup>*\<^sup>* s s' \<and> spcs s' = (spcs s)(t := Inside))) \<and>
    (word s \<noteq> 0 \<longrightarrow> (\<exists>u s'. spcs s u = Inside \<and> spin_step impl s s' \<and> word s' = 0 \<and>
      spcs s' = (spcs s)(u := Away)))"
proof (intro conjI impI)
  assume free: "word s = 0 \<and> (spcs s t = LockTas \<or> spcs s t = LockSpin)"
  have go: "\<exists>s'. spin_step impl r s' \<and> spcs s' = (spcs r)(t := Inside)"
    if "word r = 0" "spcs r t = LockTas" for r
    using spin_step.lock_taken [of r t 0 1 impl] that by (auto simp: test_and_set_def)
  show "\<exists>s'. (spin_step impl)\<^sup>*\<^sup>* s s' \<and> spcs s' = (spcs s)(t := Inside)"
  proof (cases "spcs s t = LockTas")
    case True
    with go free show ?thesis by blast
  next
    case False
    let ?r = "s\<lparr>spcs := (spcs s)(t := LockTas)\<rparr>"
    have "spin_step impl s ?r" using spin_step.lock_spin [of s t impl] free False by simp
    moreover from go [of ?r] free obtain s' where "spin_step impl ?r s'" "spcs s' = (spcs ?r)(t := Inside)"
      by auto
    ultimately show ?thesis by (intro exI [of _ s']) (auto intro: converse_rtranclp_into_rtranclp)
  qed
next
  assume "word s \<noteq> 0"
  with spin_reach_inv [OF assms] obtain u where "spcs s u = Inside" by (auto simp: spin_inv_def)
  with spin_step.unlock [of s u impl] show "\<exists>u s'. spcs s u = Inside \<and> spin_step impl s s' \<and> word s' = 0 \<and>
      spcs s' = (spcs s)(u := Away)"
    by (intro exI [of _ u] exI [of _ "s\<lparr>word := spinlock_unlock impl (word s), spcs := (spcs s)(u := Away)\<rparr>"])
      (simp add: spinlock_unlock_def)
qed

text \<open>
  Of any number of \<open>spinlock_trylock\<close> calls on a free lock the first one wins and no other
  does; the variants agree.
\<close>

theorem trylock_one_winner:
  "trylock_calls impl (Suc n) (spinlock_init impl') = True # replicate n False"
  using spin.one_winner [of "spinlock_init impl'" impl n]
  by (simp add: trylock_calls_winners spinlock_init_def)

text \<open>
  Run by a thread that nobody interrupts, \<open>spinlock_lock\<close> returns exactly when the lock is
  free, with the lock taken; on a lock that is taken it spins for ever, so a second lock by the
  owner never returns.
\<close>

theorem spinlock_lock_returns_iff:
  "spinlock_lock impl v = (if v = 0 then Some 1 else None)"
  using spinlock_lock_free [of impl] spinlock_lock_Some [of impl v] by (cases "spinlock_lock impl v") auto

text \<open>
  The values that \<open>ATOM_FINC\<close> hands out are pairwise different as long as fewer than
  \<open>2 ^ w\<close> calls were made on a cell of \<open>w\<close> bits, wherever the cell started; after that they repeat.
\<close>

theorem atom_finc_tickets:
  "distinct (tickets n (cell :: 'a::len word)) \<longleftrightarrow> n \<le> 2 ^ LENGTH('a)"
proof
  assume "distinct (tickets n cell)"
  then have "length (tickets n cell) = card (set (tickets n cell))" by (simp add: distinct_card)
  also have "\<dots> \<le> card (UNIV :: 'a word set)" by (intro card_mono) simp_all
  finally show "n \<le> 2 ^ LENGTH('a)" by (simp add: card_word tickets_eq)
next
  assume n: "n \<le> 2 ^ LENGTH('a)"
  have "inj_on (\<lambda>i. cell + of_nat i) {0..<n}"
  proof (rule inj_onI)
    fix i j assume "i \<in> {0..<n}" "j \<in> {0..<n}" "cell + of_nat i = cell + of_nat j"
    with n have "unat (of_nat i :: 'a word) = unat (of_nat j :: 'a word)" "i < 2 ^ LENGTH('a)" "j < 2 ^ LENGTH('a)"
      by auto
    then show "i = j" by (simp add: unsigned_of_nat take_bit_nat_eq_self)
  qed
  then show "distinct (tickets n cell)" by (simp add: tickets_eq distinct_map)
qed

theorem spin_mutual_exclusion_witness:
  "\<exists>s. spin_reach Std_Atomic s \<and> word s = 1 \<and> spcs s 0 = Inside \<and> (\<forall>u. spcs s u = Inside \<longrightarrow> 0 = u)"
proof -
  let ?s1 = "spin_start Std_Atomic\<lparr>spcs := (\<lambda>_. Away)(0 := LockTas)\<rparr>"
  let ?s2 = "?s1\<lparr>word := 1, spcs := (\<lambda>_. Away)(0 := Inside)\<rparr>"
  have "spin_step Std_Atomic (spin_start Std_Atomic) ?s1"
    using spin_step.lock_call [of "spin_start Std_Atomic" 0 Std_Atomic] by (simp add: spin_start_def)
  moreover have "spin_step Std_Atomic ?s1 ?s2"
    using spin_step.lock_taken [of ?s1 0 0 1 Std_Atomic] by (simp add: spin_start_def spinlock_init_def test_and_set_def)
  ultimately have r: "spin_reach Std_Atomic ?s2"
    unfolding spin_reach_def by (intro rtranclp.rtrancl_into_rtrancl [OF r_into_rtranclp])
  have i: "word ?s2 = 1" "spcs ?s2 0 = Inside" by simp_all
  have "\<forall>u. spcs ?s2 u = Inside \<longrightarrow> 0 = u"
    using spin_mutual_exclusion [OF r, THEN conjunct1] i(2) by blast
  with r i show ?thesis by blast
qed

theorem spin_progress_witness:
  "\<exists>s'. (spin_step Sync_Builtin)\<^sup>*\<^sup>* (spin_start Sync_Builtin\<lparr>spcs := (\<lambda>_. Away)(3 := LockTas)\<rparr>) s' \<and>
     spcs s' 3 = Inside"
proof -
  let ?s = "spin_start Sync_Builtin\<lparr>spcs := (\<lambda>_. Away)(3 := LockTas)\<rparr>"
  have "spin_step Sync_Builtin (spin_start Sync_Builtin) ?s"
    using spin_step.lock_call [of "spin_start Sync_Builtin" 3 Sync_Builtin] by (simp add: spin_start_def)
  then have "spin_reach Sync_Builtin ?s" unfolding spin_reach_def by auto
  moreover have "word ?s = 0" "spcs ?s 3 = LockTas" by (simp_all add: spin_start_def spinlock_init_def)
  ultimately obtain s' where "(spin_step Sync_Builtin)\<^sup>*\<^sup>* ?s s'" "spcs s' = (spcs ?s)(3 := Inside)"
    using spin_progress [of Sync_Builtin ?s 3] by blast
  then show ?thesis by (intro exI [of _ s']) simp
qed

end
