(* ===== verification/Spinlock_Variants.thy ===== *)
theory Spinlock_Variants
  imports Spinlock
begin

text \<open>
  The other two variants of \<^verbatim>\<open>spinlock.h\<close> function by function: the one on the builtins of the compiler (\<open>__STDC_NO_ATOMICS__\<close>) and the one on a
  \<open>pthread_mutex_t\<close> (\<open>USE_PTHREAD_LOCK\<close>). \<open>Spinlock\<close> has all variants as one parameter; here it is proved that this is right:
  each function does what the parametrised one does, and clients cannot tell the variants apart.
\<close>

subsection \<open>The builtins\<close>

definition sync_init :: "int \<Rightarrow> int" where
  "sync_init v = 0"

text \<open>\<open>while (__sync_lock_test_and_set(ptr, 1)) {}\<close>\<close>

partial_function (option) sync_lock :: "int \<Rightarrow> int option" where
  "sync_lock v = (case test_and_set v of (old, v') \<Rightarrow> if old \<noteq> 0 then sync_lock v' else Some v')"

definition sync_trylock :: "int \<Rightarrow> bool \<times> int" where
  "sync_trylock v = (case test_and_set v of (old, v') \<Rightarrow> (old = 0, v'))"

definition sync_unlock :: "int \<Rightarrow> int" where
  "sync_unlock v = 0"

definition sync_destroy :: "int \<Rightarrow> int" where
  "sync_destroy v = v"

interpretation sync: try_lock "\<lambda>v. v = 0" sync_trylock sync_unlock
  by unfold_locales (auto simp: sync_trylock_def test_and_set_def sync_unlock_def)

subsection \<open>The mutex\<close>

text \<open>A mutex is its owner. A lock that blocks for ever, because nobody else runs, is \<open>None\<close>; \<open>EBUSY\<close> is 16.\<close>

type_synonym pthread_mutex = "nat option"

definition pthread_mutex_trylock :: "nat \<Rightarrow> pthread_mutex \<Rightarrow> int \<times> pthread_mutex" where
  "pthread_mutex_trylock t m = (if m = None then (0, Some t) else (16, m))"

definition pthread_mutex_unlock :: "nat \<Rightarrow> pthread_mutex \<Rightarrow> fault + pthread_mutex" where
  "pthread_mutex_unlock t m = (if m = Some t then Inr None else Inl NotOwner)"

definition mutex_init :: "pthread_mutex \<Rightarrow> pthread_mutex" where
  "mutex_init m = None"

definition mutex_lock :: "nat \<Rightarrow> pthread_mutex \<Rightarrow> pthread_mutex option" where
  "mutex_lock t m = (if m = None then Some (Some t) else None)"

definition mutex_trylock :: "nat \<Rightarrow> pthread_mutex \<Rightarrow> bool \<times> pthread_mutex" where
  "mutex_trylock t m = (case pthread_mutex_trylock t m of (r, m') \<Rightarrow> (r = 0, m'))"

definition mutex_unlock :: "nat \<Rightarrow> pthread_mutex \<Rightarrow> fault + pthread_mutex" where
  "mutex_unlock t m = pthread_mutex_unlock t m"

definition mutex_destroy :: "pthread_mutex \<Rightarrow> pthread_mutex" where
  "mutex_destroy m = m"

subsection \<open>Each is the parametrised one\<close>

definition mutex_word :: "pthread_mutex \<Rightarrow> int" where
  "mutex_word m = (if m = None then 0 else 1)"

lemma sync_lock_Some: "sync_lock v = Some v' \<Longrightarrow> v = 0 \<and> v' = 1"
  by (rule sync_lock.raw_induct [of "\<lambda>v v'. v = 0 \<and> v' = 1"]) (fastforce simp: test_and_set_def split: if_splits)+

lemma sync_lock_eq: "sync_lock v = spinlock_lock Sync_Builtin v"
proof (cases "v = 0")
  case True
  then show ?thesis by (subst sync_lock.simps) (simp add: test_and_set_def spinlock_lock_free)
next
  case False
  then have "sync_lock v = None" "spinlock_lock Sync_Builtin v = None"
    using sync_lock_Some [of v] spinlock_lock_Some [of Sync_Builtin v] by (metis not_None_eq)+
  then show ?thesis by simp
qed

lemma mutex_lock_eq: "map_option mutex_word (mutex_lock t m) = spinlock_lock Pthread_Mutex (mutex_word m)"
proof (cases m)
  case None
  then show ?thesis by (simp add: mutex_lock_def mutex_word_def spinlock_lock_free)
next
  case (Some u)
  then have "spinlock_lock Pthread_Mutex (mutex_word m) = None"
    using spinlock_lock_Some [of Pthread_Mutex "mutex_word m"] by (metis mutex_word_def not_None_eq option.discI zero_neq_one)
  with Some show ?thesis by (simp add: mutex_lock_def)
qed

lemma sync_functions: "sync_init v = spinlock_init Sync_Builtin" "sync_trylock v = spinlock_trylock Sync_Builtin v"
  "sync_unlock v = spinlock_unlock Sync_Builtin v" "sync_destroy v = spinlock_destroy Sync_Builtin v"
  by (simp_all add: sync_init_def sync_trylock_def sync_unlock_def sync_destroy_def spinlock_init_def spinlock_trylock_def
    spinlock_unlock_def spinlock_destroy_def)

lemma mutex_functions: "mutex_word (mutex_init m) = spinlock_init Pthread_Mutex"
  "map_prod id mutex_word (mutex_trylock t m) = spinlock_trylock Pthread_Mutex (mutex_word m)"
  "mutex_word (mutex_destroy m) = spinlock_destroy Pthread_Mutex (mutex_word m)"
  "m = Some t \<Longrightarrow> map_sum id mutex_word (mutex_unlock t m) = Inr (spinlock_unlock Pthread_Mutex (mutex_word m))"
  by (auto simp: mutex_word_def mutex_init_def mutex_trylock_def pthread_mutex_trylock_def mutex_destroy_def mutex_unlock_def
    pthread_mutex_unlock_def spinlock_init_def spinlock_trylock_def test_and_set_def spinlock_unlock_def spinlock_destroy_def)

subsection \<open>Clients cannot tell them apart\<close>

datatype lock_call = Try nat | Unlock nat      \<comment> \<open>by a thread; only the owner unlocks\<close>

fun may_call :: "lock_call list \<Rightarrow> nat option \<Rightarrow> bool" where
  "may_call [] m = True"
| "may_call (Try t # cs) m = may_call cs (if m = None then Some t else m)"
| "may_call (Unlock t # cs) m = (m = Some t \<and> may_call cs None)"

fun spin_answers :: "lock_impl \<Rightarrow> lock_call list \<Rightarrow> int \<Rightarrow> bool list" where
  "spin_answers impl [] v = []"
| "spin_answers impl (Try t # cs) v = (case spinlock_trylock impl v of (ok, v') \<Rightarrow> ok # spin_answers impl cs v')"
| "spin_answers impl (Unlock t # cs) v = spin_answers impl cs (spinlock_unlock impl v)"

fun mutex_answers :: "lock_call list \<Rightarrow> pthread_mutex \<Rightarrow> fault + bool list" where
  "mutex_answers [] m = Inr []"
| "mutex_answers (Try t # cs) m = (case mutex_trylock t m of (ok, m') \<Rightarrow> map_sum id ((#) ok) (mutex_answers cs m'))"
| "mutex_answers (Unlock t # cs) m = bindE (mutex_unlock t m) (mutex_answers cs)"

lemma variants_answer:
  "may_call cs m \<Longrightarrow> mutex_answers cs m = Inr (spin_answers impl cs (mutex_word m))"
proof (induction cs arbitrary: m)
  case (Cons c cs)
  show ?case
  proof (cases c)
    case (Try t)
    with Cons.prems Cons.IH [of "if m = None then Some t else m"] show ?thesis
      by (cases impl; cases m) (simp_all add: mutex_trylock_def pthread_mutex_trylock_def spinlock_trylock_def test_and_set_def mutex_word_def)
  next
    case (Unlock t)
    with Cons.prems Cons.IH [of None] show ?thesis
      by (simp add: mutex_unlock_def pthread_mutex_unlock_def spinlock_unlock_def mutex_word_def)
  qed
qed simp

text \<open>
  In any sequence of \<open>spinlock_trylock\<close> and \<open>spinlock_unlock\<close> calls in which only the owner unlocks, the three variants of the lock
  give the same answers, and the one on the mutex is never unlocked by a thread that does not own it.
\<close>

theorem spinlock_variants_agree:
  assumes "may_call cs None"
  shows "mutex_answers cs (mutex_init m) = Inr (spin_answers impl cs (spinlock_init impl))"
  using variants_answer [OF assms, of impl] by (simp add: mutex_init_def mutex_word_def spinlock_init_def)

theorem spinlock_variants_agree_witness:
  "mutex_answers [Try 0, Try 1, Unlock 0, Try 1] (mutex_init None) = Inr [True, False, True]"
  using spinlock_variants_agree [of "[Try 0, Try 1, Unlock 0, Try 1]" None Std_Atomic]
  by (simp add: spinlock_trylock_def spinlock_init_def spinlock_unlock_def test_and_set_def)

end
