(* ===== verification/Autoinc.thy ===== *)
theory Autoinc
  imports Spinlock
begin

text \<open>
  The counter of \<^verbatim>\<open>atomic_and_lock-master/autoinc.cc\<close>, a client of the spin lock and of the atomic
  operations: some threads increment one counter, under a lock, with \<open>fetch_add\<close>, or with neither, as
  the macros of the program choose. The lock is an argument, and what is proved of the locked counter rests on the
  contract of \<open>Spinlock\<close> alone.
\<close>

subsection \<open>The threads\<close>

datatype discipline =
    Locked     \<comment> \<open>\<open>USE_MUTEX\<close> and \<open>USE_SPINLOCK\<close>\<close>
  | Atomic     \<comment> \<open>\<open>USE_ATOMIC\<close>, the one the program sets\<close>
  | Bare

text \<open>Where a thread is in the body of the loop of \<open>incrby\<close>; \<open>++count\<close> is a load and a store.\<close>

datatype at_body = Top | Held | Loaded "32 word" | Stored

text \<open>A thread is how many turns of its loop are left, the running one included, and where it is in it.\<close>

record 'l counter =
  the_lock :: 'l
  count :: "32 word"
  crew :: "(nat \<times> at_body) list"

inductive inc_step :: "discipline \<Rightarrow> ('l \<Rightarrow> bool \<times> 'l) \<Rightarrow> ('l \<Rightarrow> 'l) \<Rightarrow> 'l counter \<Rightarrow> 'l counter \<Rightarrow> bool"
  for d :: discipline and acquire :: "'l \<Rightarrow> bool \<times> 'l" and release :: "'l \<Rightarrow> 'l" where
  fetch_add: "d = Atomic \<Longrightarrow> i < length (crew s) \<Longrightarrow> crew s ! i = (Suc n, Top) \<Longrightarrow> ATOM_FADD (count s) 1 = (old, c) \<Longrightarrow>
    inc_step d acquire release s (s\<lparr>count := c, crew := (crew s)[i := (n, Top)]\<rparr>)"
| lock: "d = Locked \<Longrightarrow> i < length (crew s) \<Longrightarrow> crew s ! i = (Suc n, Top) \<Longrightarrow> acquire (the_lock s) = (True, l) \<Longrightarrow>
    inc_step d acquire release s (s\<lparr>the_lock := l, crew := (crew s)[i := (Suc n, Held)]\<rparr>)"
| spin: "d = Locked \<Longrightarrow> i < length (crew s) \<Longrightarrow> crew s ! i = (Suc n, Top) \<Longrightarrow> acquire (the_lock s) = (False, l) \<Longrightarrow>
    inc_step d acquire release s (s\<lparr>the_lock := l\<rparr>)"
| load: "i < length (crew s) \<Longrightarrow> crew s ! i = (Suc n, Held) \<or> d = Bare \<and> crew s ! i = (Suc n, Top) \<Longrightarrow>
    inc_step d acquire release s (s\<lparr>crew := (crew s)[i := (Suc n, Loaded (count s))]\<rparr>)"
| store: "i < length (crew s) \<Longrightarrow> crew s ! i = (Suc n, Loaded v) \<Longrightarrow>
    inc_step d acquire release s (s\<lparr>count := v + 1, crew := (crew s)[i := (if d = Bare then (n, Top) else (Suc n, Stored))]\<rparr>)"
| unlock: "i < length (crew s) \<Longrightarrow> crew s ! i = (Suc n, Stored) \<Longrightarrow>
    inc_step d acquire release s (s\<lparr>the_lock := release (the_lock s), crew := (crew s)[i := (n, Top)]\<rparr>)"

text \<open>\<open>main\<close> clears the counter and starts the threads, one for each number in \<open>nums\<close>.\<close>

definition inc_start :: "'l \<Rightarrow> nat list \<Rightarrow> 'l counter" where
  "inc_start l nums = \<lparr>the_lock = l, count = 0, crew = map (\<lambda>n. (n, Top)) nums\<rparr>"

definition inc_reach :: "discipline \<Rightarrow> ('l \<Rightarrow> bool \<times> 'l) \<Rightarrow> ('l \<Rightarrow> 'l) \<Rightarrow> 'l \<Rightarrow> nat list \<Rightarrow> 'l counter \<Rightarrow> bool" where
  "inc_reach d acquire release l nums s \<longleftrightarrow> (inc_step d acquire release)\<^sup>*\<^sup>* (inc_start l nums) s"

definition all_joined :: "'l counter \<Rightarrow> bool" where
  "all_joined s \<longleftrightarrow> (\<forall>x \<in> set (crew s). x = (0, Top))"

subsection \<open>What is left to add\<close>

fun left :: "nat \<times> at_body \<Rightarrow> nat" where
  "left (n, Stored) = n - 1"
| "left (n, _) = n"

definition to_add :: "'l counter \<Rightarrow> nat" where
  "to_add s = sum_list (map left (crew s))"

lemma to_add_upd:
  assumes "i < length (crew s)"
  shows "sum_list (map left ((crew s)[i := x])) + left (crew s ! i) = to_add s + left x"
proof -
  have "left (crew s ! i) \<le> to_add s" using assms by (auto simp: to_add_def intro: member_le_sum_list)
  then show ?thesis using assms by (simp add: to_add_def map_update sum_list_update)
qed

text \<open>The parts of the invariant that each discipline keeps.\<close>

definition inc_sum :: "nat \<Rightarrow> 'l counter \<Rightarrow> bool" where
  "inc_sum goal s \<longleftrightarrow> count s + of_nat (to_add s) = of_nat goal"

definition holds_lock :: "nat \<Rightarrow> 'l counter \<Rightarrow> bool" where
  "holds_lock h s \<longleftrightarrow> h < length (crew s) \<and> 0 < fst (crew s ! h) \<and> snd (crew s ! h) \<noteq> Top \<and>
     (\<forall>v. snd (crew s ! h) = Loaded v \<longrightarrow> v = count s) \<and> (\<forall>i < length (crew s). i \<noteq> h \<longrightarrow> snd (crew s ! i) = Top)"

definition inc_lock :: "('l \<Rightarrow> bool) \<Rightarrow> 'l counter \<Rightarrow> bool" where
  "inc_lock free s \<longleftrightarrow> (if free (the_lock s) then \<forall>i < length (crew s). snd (crew s ! i) = Top else \<exists>h. holds_lock h s)"

lemma inc_lock_holder:
  assumes "inc_lock free s" "i < length (crew s)" "snd (crew s ! i) \<noteq> Top"
  shows "\<not> free (the_lock s) \<and> holds_lock i s"
proof -
  from assms have "\<not> free (the_lock s)" "\<exists>h. holds_lock h s" unfolding inc_lock_def by (auto split: if_splits)
  moreover have "h = i" if "holds_lock h s" for h using that assms(2,3) unfolding holds_lock_def by blast
  ultimately show ?thesis by blast
qed

lemma inc_sum_start: "inc_sum (sum_list nums) (inc_start l nums)"
  by (simp add: inc_sum_def to_add_def inc_start_def comp_def)

lemma inc_sum_same: "inc_sum goal s \<Longrightarrow> to_add s' = to_add s \<Longrightarrow> count s' = count s \<Longrightarrow> inc_sum goal s'"
  by (simp add: inc_sum_def)

lemma inc_sum_one: "inc_sum goal s \<Longrightarrow> to_add s = Suc (to_add s') \<Longrightarrow> count s' = count s + 1 \<Longrightarrow> inc_sum goal s'"
  by (simp add: inc_sum_def algebra_simps)

lemma inc_sum_done: "inc_sum goal s \<Longrightarrow> all_joined s \<Longrightarrow> count s = of_nat goal"
proof -
  assume "inc_sum goal s" "all_joined s"
  moreover from this have "map left (crew s) = map (\<lambda>_. 0) (crew s)" unfolding all_joined_def by (intro map_cong) auto
  ultimately show ?thesis by (simp add: inc_sum_def to_add_def)
qed

subsection \<open>The locked counter\<close>

context try_lock
begin

lemma locked_step:
  assumes "inc_step Locked try_acquire release s s'" "inc_sum goal s" "inc_lock free s"
  shows "inc_sum goal s' \<and> inc_lock free s'"
  using assms(1)
proof (cases rule: inc_step.cases)
  case (lock i n l)
  have "free (the_lock s)" using try_taken lock(5) by (metis fst_conv)
  then have l: "\<not> free l" "\<forall>j < length (crew s). snd (crew s ! j) = Top"
    using try_free [of "the_lock s"] lock(5) assms(3) by (auto simp: inc_lock_def)
  have "holds_lock i s'" using lock l(2) by (auto simp: holds_lock_def nth_list_update)
  moreover have "to_add s' = to_add s" using to_add_upd [of i s "(Suc n, Held)"] lock by (simp add: to_add_def)
  ultimately show ?thesis using assms(2) lock l(1) by (auto simp: inc_lock_def intro: inc_sum_same)
next
  case (spin i n l)
  then have nf: "\<not> free (the_lock s)" "\<not> free l" using try_free [of "the_lock s"] try_taken [of "the_lock s"] by auto
  then obtain h where "holds_lock h s" using assms(3) by (auto simp: inc_lock_def)
  then have "holds_lock h s'" using spin by (simp add: holds_lock_def)
  then show ?thesis using assms(2) spin nf by (auto simp: inc_lock_def to_add_def intro: inc_sum_same)
next
  case (load i n)
  then have pc: "crew s ! i = (Suc n, Held)" by simp
  with inc_lock_holder [OF assms(3) load(2)] have h: "\<not> free (the_lock s)" "holds_lock i s" by auto
  have "holds_lock i s'" using h(2) load(1,2) by (auto simp: holds_lock_def nth_list_update)
  moreover have "to_add s' = to_add s" using to_add_upd [of i s "(Suc n, Loaded (count s))"] load pc by (simp add: to_add_def)
  ultimately show ?thesis using assms(2) load(1) h(1) by (auto simp: inc_lock_def intro: inc_sum_same)
next
  case (store i n v)
  then have s': "s' = s\<lparr>count := v + 1, crew := (crew s)[i := (Suc n, Stored)]\<rparr>" by (simp add: HOL.induct_false_def)
  from store inc_lock_holder [OF assms(3) store(2)] have h: "\<not> free (the_lock s)" "holds_lock i s" by auto
  have v: "v = count s" using h(2) store(3) by (simp add: holds_lock_def)
  have "holds_lock i s'" using h(2) s' store(2) by (auto simp: holds_lock_def nth_list_update)
  moreover have "to_add s = Suc (to_add s')" using to_add_upd [of i s "(Suc n, Stored)"] s' store(2,3) by (simp add: to_add_def)
  ultimately show ?thesis using assms(2) s' h(1) v by (auto simp: inc_lock_def intro: inc_sum_one)
next
  case (unlock i n)
  with inc_lock_holder [OF assms(3) unlock(2)] have h: "holds_lock i s" by auto
  have "\<forall>j < length (crew s'). snd (crew s' ! j) = Top" using h unlock(1) by (auto simp: holds_lock_def nth_list_update)
  moreover have "to_add s' = to_add s" using to_add_upd [of i s "(n, Top)"] unlock by (simp add: to_add_def)
  ultimately show ?thesis using assms(2) unlock(1) release_free by (auto simp: inc_lock_def intro: inc_sum_same)
qed simp

lemma locked_reach:
  assumes "inc_reach Locked try_acquire release l nums s" "free l"
  shows "inc_sum (sum_list nums) s \<and> inc_lock free s"
  using assms(1) unfolding inc_reach_def
proof (induction rule: rtranclp_induct)
  case base
  then show ?case using assms(2) inc_sum_start by (simp add: inc_lock_def inc_start_def)
next
  case (step s s')
  then show ?case using locked_step by blast
qed

text \<open>A thread that is not done can go on, or the one that holds the lock can.\<close>

lemma locked_moves:
  assumes "inc_lock free s" "\<not> all_joined s"
  shows "\<exists>s'. inc_step Locked try_acquire release s s' \<and> (crew s' \<noteq> crew s)"
proof (cases "free (the_lock s)")
  case True
  from assms(2) obtain i where i: "i < length (crew s)" "crew s ! i \<noteq> (0, Top)" unfolding all_joined_def by (metis in_set_conv_nth)
  then obtain n where n: "crew s ! i = (Suc n, Top)"
    using True assms(1) by (cases "crew s ! i"; cases "fst (crew s ! i)") (auto simp: inc_lock_def)
  obtain l where "try_acquire (the_lock s) = (True, l)" using try_free [OF True] by (cases "try_acquire (the_lock s)") auto
  from inc_step.lock [of Locked i s n try_acquire l release, OF refl i(1) n this] n i(1) show ?thesis
    by (fastforce simp: list_eq_iff_nth_eq)
next
  case False
  with assms(1) obtain h where h: "holds_lock h s" by (auto simp: inc_lock_def)
  then obtain n p where p: "crew s ! h = (Suc n, p)" "p \<noteq> Top" "h < length (crew s)"
    by (cases "crew s ! h"; cases "fst (crew s ! h)") (auto simp: holds_lock_def)
  have changed: "(crew s)[h := x] \<noteq> crew s" if "x \<noteq> (Suc n, p)" for x using that p by (metis nth_list_update_eq)
  show ?thesis
  proof (cases p)
    case Held
    with inc_step.load [of h s n Locked try_acquire release] p changed [of "(Suc n, Loaded (count s))"] show ?thesis by fastforce
  next
    case (Loaded v)
    with inc_step.store [of h s n v Locked try_acquire release] p changed [of "(Suc n, Stored)"] show ?thesis by fastforce
  next
    case Stored
    with inc_step.unlock [of h s n Locked try_acquire release] p changed [of "(n, Top)"] show ?thesis by fastforce
  qed (use p in simp)
qed

end

subsection \<open>The atomic counter\<close>

definition all_top :: "'l counter \<Rightarrow> bool" where
  "all_top s \<longleftrightarrow> (\<forall>i < length (crew s). snd (crew s ! i) = Top)"

lemma atomic_step:
  assumes "inc_step Atomic acquire release s s'" "inc_sum goal s" "all_top s"
  shows "inc_sum goal s' \<and> all_top s'"
  using assms(1)
proof (cases rule: inc_step.cases)
  case (fetch_add i n old c)
  have "to_add s = Suc (to_add s')" using to_add_upd [of i s "(n, Top)"] fetch_add by (simp add: to_add_def)
  then have "inc_sum goal s'" by (rule inc_sum_one [OF assms(2)]) (use fetch_add in \<open>auto simp: ATOM_FADD_def\<close>)
  moreover have "all_top s'" using assms(3) fetch_add by (auto simp: all_top_def nth_list_update)
  ultimately show ?thesis ..
qed (use assms(3) in \<open>auto simp: all_top_def HOL.induct_false_def\<close>)

lemma atomic_reach:
  assumes "inc_reach Atomic acquire release l nums s"
  shows "inc_sum (sum_list nums) s \<and> all_top s"
  using assms unfolding inc_reach_def
proof (induction rule: rtranclp_induct)
  case base
  then show ?case using inc_sum_start by (simp add: all_top_def inc_start_def)
next
  case (step s s')
  then show ?case using atomic_step by blast
qed

lemma atomic_moves:
  assumes "all_top s" "\<not> all_joined s"
  shows "\<exists>s'. inc_step Atomic acquire release s s' \<and> crew s' \<noteq> crew s"
proof -
  from assms(2) obtain i where i: "i < length (crew s)" "crew s ! i \<noteq> (0, Top)" unfolding all_joined_def by (metis in_set_conv_nth)
  then obtain n where n: "crew s ! i = (Suc n, Top)"
    using assms(1) by (cases "crew s ! i"; cases "fst (crew s ! i)") (auto simp: all_top_def)
  from inc_step.fetch_add [of Atomic i s n _ _ acquire release, OF refl i(1) n surjective_pairing] n i(1) show ?thesis
    by (fastforce simp: list_eq_iff_nth_eq)
qed

subsection \<open>Every step is progress\<close>

fun turns :: "nat \<times> at_body \<Rightarrow> nat" where
  "turns (n, Top) = 4 * n"
| "turns (n, Held) = 4 * n - 1"
| "turns (n, Loaded v) = 4 * n - 2"
| "turns (n, Stored) = 4 * n - 3"

definition turns_left :: "'l counter \<Rightarrow> nat" where
  "turns_left s = sum_list (map turns (crew s))"

lemma turns_upd:
  assumes "i < length (crew s)" "turns x < turns (crew s ! i)" "crew s' = (crew s)[i := x]"
  shows "turns_left s' < turns_left s"
proof -
  have "turns (crew s ! i) \<le> turns_left s" using assms(1) by (auto simp: turns_left_def intro: member_le_sum_list)
  then show ?thesis using assms by (simp add: turns_left_def map_update sum_list_update)
qed

lemma inc_step_turns: "inc_step d acquire release s s' \<Longrightarrow> crew s' \<noteq> crew s \<Longrightarrow> turns_left s' < turns_left s"
proof (induction rule: inc_step.induct)
  case (fetch_add i s n old c)
  then show ?case by (intro turns_upd [of i s "(n, Top)"]) simp_all
next
  case (lock i s n l)
  then show ?case by (intro turns_upd [of i s "(Suc n, Held)"]) simp_all
next
  case (load i s n)
  then show ?case by (intro turns_upd [of i s "(Suc n, Loaded (count s))"]) auto
next
  case (store i s n v)
  then show ?case by (intro turns_upd [of i s "if d = Bare then (n, Top) else (Suc n, Stored)"]) auto
next
  case (unlock i s n)
  then show ?case by (intro turns_upd [of i s "(n, Top)"]) simp_all
qed simp

subsection \<open>Properties\<close>

text \<open>
  C36: under any of the locks, and with \<open>fetch_add\<close>, the joined threads have counted exactly: the counter is the sum of the
  numbers they were given, so that the test of \<open>main\<close> finds 2000. Until then some thread has a step
  other than spinning, and such a step lowers \<open>turns_left\<close>.
\<close>

theorem autoinc_counts:
  assumes "inc_reach d (spinlock_trylock impl) (spinlock_unlock impl) (spinlock_init impl) nums s" "d \<noteq> Bare"
  shows "if all_joined s then count s = of_nat (sum_list nums)
    else \<exists>s'. inc_step d (spinlock_trylock impl) (spinlock_unlock impl) s s' \<and> turns_left s' < turns_left s"
proof -
  have "inc_sum (sum_list nums) s \<and> (\<not> all_joined s \<longrightarrow>
      (\<exists>s'. inc_step d (spinlock_trylock impl) (spinlock_unlock impl) s s' \<and> crew s' \<noteq> crew s))"
  proof (cases d)
    case Locked
    have r: "inc_reach Locked (spinlock_trylock impl) (spinlock_unlock impl) (spinlock_init impl) nums s" using assms(1) Locked by simp
    have "inc_sum (sum_list nums) s \<and> inc_lock (\<lambda>v. v = 0) s" by (rule spin.locked_reach [OF r]) (simp add: spinlock_init_def)
    then show ?thesis using spin.locked_moves [of s impl] unfolding Locked by blast
  next
    case Atomic
    have r: "inc_reach Atomic (spinlock_trylock impl) (spinlock_unlock impl) (spinlock_init impl) nums s" using assms(1) Atomic by simp
    show ?thesis using atomic_reach [OF r] atomic_moves [of s] unfolding Atomic by blast
  qed (use assms(2) in simp)
  then show ?thesis using inc_sum_done [of "sum_list nums" s] inc_step_turns [of d _ _ s] by (simp split: if_splits) blast
qed

text \<open>One turn of one thread under the spin lock.\<close>

lemma locked_turn:
  assumes "i < length (crew s)" "crew s ! i = (Suc n, Top)" "the_lock s = (0 :: int)"
  shows "(inc_step Locked (spinlock_trylock impl) (spinlock_unlock impl))\<^sup>*\<^sup>* s
    (s\<lparr>the_lock := 0, count := count s + 1, crew := (crew s)[i := (n, Top)]\<rparr>)"
proof -
  let ?R = "inc_step Locked (spinlock_trylock impl) (spinlock_unlock impl)"
  let ?s = "\<lambda>l c x. s\<lparr>the_lock := l, count := c, crew := (crew s)[i := x]\<rparr>"
  have "spinlock_trylock impl 0 = (True, 1)" by (cases impl) (simp_all add: spinlock_trylock_def test_and_set_def)
  then have 1: "?R s (?s 1 (count s) (Suc n, Held))" using inc_step.lock [of Locked i s n "spinlock_trylock impl" 1] assms by simp
  have 2: "?R (?s 1 (count s) (Suc n, Held)) (?s 1 (count s) (Suc n, Loaded (count s)))"
    using inc_step.load [of i "?s 1 (count s) (Suc n, Held)" n Locked] assms(1) by simp
  have 3: "?R (?s 1 (count s) (Suc n, Loaded (count s))) (?s 1 (count s + 1) (Suc n, Stored))"
    using inc_step.store [of i "?s 1 (count s) (Suc n, Loaded (count s))" n "count s" Locked] assms(1) by simp
  have 4: "?R (?s 1 (count s + 1) (Suc n, Stored)) (?s 0 (count s + 1) (n, Top))"
    using inc_step.unlock [of i "?s 1 (count s + 1) (Suc n, Stored)" n Locked "spinlock_trylock impl" "spinlock_unlock impl"] assms(1)
    by (cases s) (simp add: spinlock_unlock_def)
  show ?thesis by (rule four_steps [of ?R, OF 1 2 3 4])
qed

theorem autoinc_counts_witness:
  "\<exists>s. inc_reach Locked (spinlock_trylock Std_Atomic) (spinlock_unlock Std_Atomic) (spinlock_init Std_Atomic) [1, 1] s \<and>
     all_joined s \<and> count s = of_nat (sum_list [1, 1])"
proof -
  let ?R = "inc_step Locked (spinlock_trylock Std_Atomic) (spinlock_unlock Std_Atomic)"
  let ?s = "\<lambda>c x y. \<lparr>the_lock = 0, count = c, crew = [x, y]\<rparr>"
  have "?R\<^sup>*\<^sup>* (?s 0 (1, Top) (1, Top)) (?s 1 (0, Top) (1, Top))"
    using locked_turn [of 0 "?s 0 (1, Top) (1, Top)" 0 Std_Atomic] by simp
  also have "?R\<^sup>*\<^sup>* (?s 1 (0, Top) (1, Top)) (?s 2 (0, Top) (0, Top))"
    using locked_turn [of 1 "?s 1 (0, Top) (1, Top)" 0 Std_Atomic] by simp
  finally have r: "inc_reach Locked (spinlock_trylock Std_Atomic) (spinlock_unlock Std_Atomic) (spinlock_init Std_Atomic) [1, 1] (?s 2 (0, Top) (0, Top))"
    unfolding inc_reach_def inc_start_def spinlock_init_def by simp
  have "all_joined (?s 2 (0, Top) (0, Top))" by (simp add: all_joined_def)
  with r autoinc_counts [OF r] show ?thesis by (metis discipline.distinct(3))
qed

text \<open>Without a lock an increment can be lost: both threads load 0.\<close>

lemma bare_run:
  "inc_reach Bare acquire release l [1, 1] \<lparr>the_lock = l, count = 1, crew = [(0, Top), (0, Top)]\<rparr>"
proof -
  let ?s = "\<lambda>c x y. \<lparr>the_lock = l, count = c, crew = [x, y]\<rparr>"
  let ?R = "inc_step Bare acquire release"
  have 1: "?R (?s 0 (1, Top) (1, Top)) (?s 0 (1, Loaded 0) (1, Top))" using inc_step.load [of 0 "?s 0 (1, Top) (1, Top)" 0 Bare] by simp
  have 2: "?R (?s 0 (1, Loaded 0) (1, Top)) (?s 0 (1, Loaded 0) (1, Loaded 0))" using inc_step.load [of 1 "?s 0 (1, Loaded 0) (1, Top)" 0 Bare] by simp
  have 3: "?R (?s 0 (1, Loaded 0) (1, Loaded 0)) (?s 1 (0, Top) (1, Loaded 0))" using inc_step.store [of 0 "?s 0 (1, Loaded 0) (1, Loaded 0)" 0 0 Bare] by simp
  have 4: "?R (?s 1 (0, Top) (1, Loaded 0)) (?s 1 (0, Top) (0, Top))" using inc_step.store [of 1 "?s 1 (0, Top) (1, Loaded 0)" 0 0 Bare] by simp
  have "inc_start l [1, 1] = ?s 0 (1, Top) (1, Top)" by (simp add: inc_start_def)
  moreover have "?R\<^sup>*\<^sup>* (?s 0 (1, Top) (1, Top)) (?s 1 (0, Top) (0, Top))"
    by (rule four_steps [of ?R, OF 1 2 3 4])
  ultimately show ?thesis unfolding inc_reach_def by simp
qed

lemma bare_loses: "\<exists>s. inc_reach Bare acquire release l [1, 1] s \<and> all_joined s \<and> count s \<noteq> of_nat (sum_list [1, 1])"
  by (rule exI, intro conjI, rule bare_run) (simp_all add: all_joined_def)

end
