(* ===== verification/Memory_Orders.thy ===== *)
theory Memory_Orders
  imports Prelude
begin

text \<open>
  The demonstrations of the memory orders (\<^verbatim>\<open>relaxed.cc\<close>, \<^verbatim>\<open>acquire_release.cc\<close>, \<^verbatim>\<open>seq_cst.cc\<close> and
  \<^verbatim>\<open>relaxed_test.cc\<close> under \<^verbatim>\<open>3_pool/atomic_and_lock-master\<close>) on a machine with the memory of C++11
  as far as they use it. A location is the list of its messages in modification order. A thread
  has a view, the message of each location it must not read behind; a load may take any message
  from there on. A release store puts the thread's view into the message and an acquire load takes
  it over; starting and joining a thread hand the views on in the same way. In these programs a
  location that has an access with \<open>seq_cst\<close> has no weaker ones but the last read of \<open>main\<close>, so that a \<open>seq_cst\<close> load takes the
  newest message. Stores that race are appended in the order in which they are made.
\<close>

subsection \<open>The machine\<close>

datatype location = Loc_x | Loc_y | Loc_z

datatype order = Relaxed | Acquire | Release | Seq_cst

type_synonym view = "location \<Rightarrow> nat"

type_synonym message = "int \<times> view"

datatype instr =
    Store location int order
  | Spin location order               \<comment> \<open>\<open>while (!l.load(o));\<close>\<close>
  | If_inc location order location    \<comment> \<open>\<open>if (l.load(o)) ++m;\<close>\<close>
  | Inc location                      \<comment> \<open>\<open>++m;\<close>\<close>

record machine =
  msgs :: "location \<Rightarrow> message list"
  views :: "nat \<Rightarrow> view"
  code :: "nat \<Rightarrow> instr list"

definition machine_start :: "(nat \<Rightarrow> instr list) \<Rightarrow> machine" where
  "machine_start progs = \<lparr>msgs = (\<lambda>_. [(0, \<lambda>_. 0)]), views = (\<lambda>_ _. 0), code = progs\<rparr>"

definition join_views :: "view \<Rightarrow> view \<Rightarrow> view" where
  "join_views V W = (\<lambda>l. max (V l) (W l))"

definition write_message :: "nat \<Rightarrow> location \<Rightarrow> int \<Rightarrow> order \<Rightarrow> machine \<Rightarrow> machine" where
  "write_message t l v ord s =
     (let V = (views s t)(l := length (msgs s l));
          W = if ord = Release \<or> ord = Seq_cst then V else (\<lambda>_. 0)(l := length (msgs s l))
      in s\<lparr>msgs := (msgs s)(l := msgs s l @ [(v, W)]), views := (views s)(t := V)\<rparr>)"

definition may_read :: "nat \<Rightarrow> location \<Rightarrow> order \<Rightarrow> nat \<Rightarrow> machine \<Rightarrow> bool" where
  "may_read t l ord i s \<longleftrightarrow> views s t l \<le> i \<and> i < length (msgs s l) \<and> (ord = Seq_cst \<longrightarrow> i = length (msgs s l) - 1)"

definition read_message :: "nat \<Rightarrow> location \<Rightarrow> order \<Rightarrow> nat \<Rightarrow> machine \<Rightarrow> int \<times> machine" where
  "read_message t l ord i s =
     (let (v, W) = msgs s l ! i;
          V = (views s t)(l := i)
      in (v, s\<lparr>views := (views s)(t := if ord = Acquire \<or> ord = Seq_cst then join_views V W else V)\<rparr>))"

text \<open>The next access of thread \<open>t\<close>; a load takes message \<open>i\<close>. An increment reads the newest message.\<close>

definition machine_turn :: "nat \<Rightarrow> nat \<Rightarrow> machine \<Rightarrow> machine option" where
  "machine_turn t i s =
     (case code s t of
        [] \<Rightarrow> None
      | Store l v ord # is \<Rightarrow> Some ((write_message t l v ord s)\<lparr>code := (code s)(t := is)\<rparr>)
      | Spin l ord # is \<Rightarrow>
          if may_read t l ord i s then
            let (v, s') = read_message t l ord i s in Some (if v = 0 then s' else s'\<lparr>code := (code s)(t := is)\<rparr>)
          else None
      | If_inc l ord m # is \<Rightarrow>
          if may_read t l ord i s then
            let (v, s') = read_message t l ord i s in Some (s'\<lparr>code := (code s)(t := if v = 0 then is else Inc m # is)\<rparr>)
          else None
      | Inc m # is \<Rightarrow>
          let (v, s') = read_message t m Seq_cst (length (msgs s m) - 1) s
          in Some ((write_message t m (v + 1) Seq_cst s')\<lparr>code := (code s)(t := is)\<rparr>))"

inductive machine_reach :: "(nat \<Rightarrow> instr list) \<Rightarrow> machine \<Rightarrow> bool" for progs where
  boot: "machine_reach progs (machine_start progs)"
| turn: "machine_reach progs s \<Longrightarrow> machine_turn t i s = Some s' \<Longrightarrow> machine_reach progs s'"

text \<open>\<open>main\<close> has joined all threads, and reads \<open>l\<close>.\<close>

definition all_done :: "machine \<Rightarrow> bool" where
  "all_done s \<longleftrightarrow> (\<forall>t. code s t = [])"

definition main_reads :: "location \<Rightarrow> order \<Rightarrow> machine \<Rightarrow> int \<Rightarrow> bool" where
  "main_reads l ord s v \<longleftrightarrow> (\<exists>i < length (msgs s l). (\<forall>t. views s t l \<le> i) \<and>
     (ord = Seq_cst \<longrightarrow> i = length (msgs s l) - 1) \<and> fst (msgs s l ! i) = v)"

definition outcomes :: "location \<Rightarrow> order \<Rightarrow> (nat \<Rightarrow> instr list) \<Rightarrow> int set" where
  "outcomes l ord progs = {v. \<exists>s. machine_reach progs s \<and> all_done s \<and> main_reads l ord s v}"

subsection \<open>The programs\<close>

text \<open>\<^verbatim>\<open>relaxed.cc\<close>\<close>

definition relaxed_write_x_then_y :: "instr list" where
  "relaxed_write_x_then_y = [Store Loc_x 1 Relaxed, Store Loc_y 1 Relaxed]"

definition relaxed_read_y_then_x :: "instr list" where
  "relaxed_read_y_then_x = [Spin Loc_y Relaxed, If_inc Loc_x Relaxed Loc_z]"

definition relaxed_main :: "nat \<Rightarrow> instr list" where
  "relaxed_main = (\<lambda>_. [])(0 := relaxed_write_x_then_y, 1 := relaxed_read_y_then_x)"

text \<open>\<^verbatim>\<open>acquire_release.cc\<close>\<close>

definition release_write_x_then_y :: "instr list" where
  "release_write_x_then_y = [Store Loc_x 1 Relaxed, Store Loc_y 1 Release]"

definition acquire_read_y_then_x :: "instr list" where
  "acquire_read_y_then_x = [Spin Loc_y Acquire, If_inc Loc_x Relaxed Loc_z]"

definition acquire_release_main :: "nat \<Rightarrow> instr list" where
  "acquire_release_main = (\<lambda>_. [])(0 := release_write_x_then_y, 1 := acquire_read_y_then_x)"

text \<open>\<^verbatim>\<open>seq_cst.cc\<close>\<close>

definition write_x :: "instr list" where
  "write_x = [Store Loc_x 1 Seq_cst]"

definition write_y :: "instr list" where
  "write_y = [Store Loc_y 1 Seq_cst]"

definition read_x_then_y :: "instr list" where
  "read_x_then_y = [Spin Loc_x Seq_cst, If_inc Loc_y Seq_cst Loc_z]"

definition read_y_then_x :: "instr list" where
  "read_y_then_x = [Spin Loc_y Seq_cst, If_inc Loc_x Seq_cst Loc_z]"

definition seq_cst_main :: "nat \<Rightarrow> instr list" where
  "seq_cst_main = (\<lambda>_. [])(0 := write_x, 1 := write_y, 2 := read_x_then_y, 3 := read_y_then_x)"

text \<open>\<^verbatim>\<open>relaxed_test.cc\<close>\<close>

definition thread_func1 :: "instr list" where
  "thread_func1 = map (\<lambda>i. Store Loc_x i Relaxed) [0..99999]"

definition thread_func2 :: "instr list" where
  "thread_func2 = map (\<lambda>i. Store Loc_x (- i) Relaxed) [0..99999]"

definition relaxed_test_main :: "nat \<Rightarrow> instr list" where
  "relaxed_test_main = (\<lambda>_. [])(0 := thread_func1, 1 := thread_func2)"

subsection \<open>Every thread can always go on\<close>

text \<open>A view never points behind the messages there are.\<close>

definition in_memory :: "(location \<Rightarrow> message list) \<Rightarrow> view \<Rightarrow> bool" where
  "in_memory M V \<longleftrightarrow> (\<forall>l. V l < length (M l))"

definition machine_wf :: "machine \<Rightarrow> bool" where
  "machine_wf s \<longleftrightarrow> (\<forall>t. in_memory (msgs s) (views s t)) \<and> (\<forall>l. \<forall>m \<in> set (msgs s l). in_memory (msgs s) (snd m))"

lemma machine_wf_start: "machine_wf (machine_start progs)"
  by (simp add: machine_wf_def machine_start_def in_memory_def)

lemma in_memory_append: "in_memory M V \<Longrightarrow> in_memory (M(l := M l @ [m])) V"
  by (auto simp: in_memory_def less_Suc_eq)

lemma in_memory_new: "in_memory M V \<Longrightarrow> in_memory (M(l := M l @ [m])) (V(l := length (M l)))"
  by (auto simp: in_memory_def less_Suc_eq)

lemma machine_wf_write:
  assumes "machine_wf s"
  shows "machine_wf (write_message t l v ord s)"
proof -
  have zero: "in_memory (msgs s) (\<lambda>_. 0)"
    using assms unfolding machine_wf_def in_memory_def by (metis bot_nat_0.not_eq_extremum less_nat_zero_code)
  have V: "in_memory (msgs s) (views s t)" for t using assms by (simp add: machine_wf_def)
  have M: "in_memory (msgs s) (snd m)" if "m \<in> set (msgs s k)" for m k using assms that by (auto simp: machine_wf_def)
  note new = in_memory_new [OF V [of t], of l] in_memory_new [OF zero, of l]
  show ?thesis
    unfolding machine_wf_def write_message_def Let_def
    using new in_memory_append [OF V, of l] in_memory_append [OF M, of _ _ l] by auto
qed

lemma machine_wf_read:
  assumes "machine_wf s" "i < length (msgs s l)"
  shows "machine_wf (snd (read_message t l ord i s))"
proof -
  have V: "in_memory (msgs s) (views s t)" for t using assms by (simp add: machine_wf_def)
  have "msgs s l ! i \<in> set (msgs s l)" using assms(2) by simp
  then have "in_memory (msgs s) (snd (msgs s l ! i))" using assms(1) unfolding machine_wf_def by blast
  moreover have "in_memory (msgs s) ((views s t)(l := i))" using V [of t] assms(2) by (simp add: in_memory_def)
  moreover from calculation have "in_memory (msgs s) (join_views ((views s t)(l := i)) (snd (msgs s l ! i)))"
    by (simp add: in_memory_def join_views_def)
  ultimately show ?thesis
    using assms(1) by (auto simp: machine_wf_def read_message_def Let_def split: prod.splits)
qed

lemma machine_wf_code: "machine_wf (s\<lparr>code := c\<rparr>) = machine_wf s"
  by (simp add: machine_wf_def)

lemma machine_wf_pos: "machine_wf s \<Longrightarrow> 0 < length (msgs s l)"
  unfolding machine_wf_def in_memory_def by (metis less_nat_zero_code neq0_conv)

lemma machine_wf_turn:
  assumes "machine_turn t i s = Some s'" "machine_wf s"
  shows "machine_wf s'"
proof (cases "code s t")
  case (Cons c "is")
  show ?thesis
  proof (cases c)
    case (Store l v ord)
    with Cons assms show ?thesis by (auto simp: machine_turn_def machine_wf_code machine_wf_write)
  next
    case (Spin l ord)
    with Cons assms have "may_read t l ord i s" by (simp add: machine_turn_def split: if_splits)
    with Cons assms Spin machine_wf_read [OF assms(2), of i l t ord] show ?thesis
      by (auto simp: machine_turn_def machine_wf_code may_read_def split: prod.splits if_splits)
  next
    case (If_inc l ord m)
    with Cons assms have "may_read t l ord i s" by (simp add: machine_turn_def split: if_splits)
    with Cons assms If_inc machine_wf_read [OF assms(2), of i l t ord] show ?thesis
      by (auto simp: machine_turn_def machine_wf_code may_read_def split: prod.splits if_splits)
  next
    case (Inc m)
    have "length (msgs s m) - 1 < length (msgs s m)" using machine_wf_pos [OF assms(2), of m] by simp
    from machine_wf_read [OF assms(2) this, of t Seq_cst] show ?thesis
      using Cons Inc assms
      by (auto simp: machine_turn_def machine_wf_code machine_wf_write split: prod.splits)
  qed
qed (use assms in \<open>simp add: machine_turn_def\<close>)

lemma machine_reach_wf: "machine_reach progs s \<Longrightarrow> machine_wf s"
  by (induction rule: machine_reach.induct) (auto intro: machine_wf_start machine_wf_turn)

text \<open>The newest message can always be read.\<close>

lemma may_read_newest: "machine_wf s \<Longrightarrow> may_read t l ord (length (msgs s l) - 1) s"
  unfolding machine_wf_def in_memory_def may_read_def by (metis Suc_pred' diff_less less_Suc_eq_le less_nat_zero_code neq0_conv zero_less_one)

definition vals :: "machine \<Rightarrow> location \<Rightarrow> int list" where
  "vals s l = map fst (msgs s l)"

lemma length_msgs: "length (msgs s l) = length (vals s l)"
  by (simp add: vals_def)

lemma vals_length: "vals s l = vs \<Longrightarrow> length (msgs s l) = length vs"
  by (simp add: length_msgs)

lemma vals_nth: "i < length (vals s l) \<Longrightarrow> fst (msgs s l ! i) = vals s l ! i"
  by (simp add: vals_def)

lemma start_simps [simp]:
  "vals (machine_start progs) l = [0]" "code (machine_start progs) = progs" "views (machine_start progs) t l = 0"
  by (simp_all add: vals_def machine_start_def)

lemma may_read_val: "may_read t l ord i s \<Longrightarrow> fst (msgs s l ! i) = vals s l ! i"
  by (simp add: may_read_def vals_def)

lemma vals_code [simp]: "vals (s\<lparr>code := c\<rparr>) l = vals s l"
  by (simp add: vals_def)

subsection \<open>What a turn does, by the instruction\<close>

lemma turn_simps:
  "code s t = [] \<Longrightarrow> machine_turn t i s = None"
  "code s t = Store l v ord # is \<Longrightarrow> machine_turn t i s = Some ((write_message t l v ord s)\<lparr>code := (code s)(t := is)\<rparr>)"
  "code s t = Spin l ord # is \<Longrightarrow> machine_turn t i s =
     (if may_read t l ord i s then
        Some ((snd (read_message t l ord i s))\<lparr>code := (code s)(t := if vals s l ! i = 0 then code s t else is)\<rparr>) else None)"
  "code s t = If_inc l ord m # is \<Longrightarrow> machine_turn t i s =
     (if may_read t l ord i s then
        Some ((snd (read_message t l ord i s))\<lparr>code := (code s)(t := if vals s l ! i = 0 then is else Inc m # is)\<rparr>) else None)"
  "code s t = Inc m # is \<Longrightarrow> machine_turn t i s =
     Some ((write_message t m (fst (msgs s m ! (length (msgs s m) - 1)) + 1) Seq_cst
       (snd (read_message t m Seq_cst (length (msgs s m) - 1) s)))\<lparr>code := (code s)(t := is)\<rparr>)"
proof -
  have c: "code (snd (read_message t l ord i s)) = code s" "fst (read_message t l ord i s) = fst (msgs s l ! i)" for t l ord i
    by (auto simp: read_message_def Let_def split: prod.splits)
  have u: "s'\<lparr>code := code s'\<rparr> = s'" for s' :: machine by (cases s') simp
  show "code s t = [] \<Longrightarrow> machine_turn t i s = None" by (simp add: machine_turn_def)
  show "code s t = Store l v ord # is \<Longrightarrow> machine_turn t i s = Some ((write_message t l v ord s)\<lparr>code := (code s)(t := is)\<rparr>)"
    by (simp add: machine_turn_def)
  show "code s t = If_inc l ord m # is \<Longrightarrow> machine_turn t i s =
     (if may_read t l ord i s then
        Some ((snd (read_message t l ord i s))\<lparr>code := (code s)(t := if vals s l ! i = 0 then is else Inc m # is)\<rparr>) else None)"
    using c(2) [of t l ord i] may_read_val [of t l ord i s] by (auto simp: machine_turn_def split: prod.splits)
  show "code s t = Inc m # is \<Longrightarrow> machine_turn t i s =
     Some ((write_message t m (fst (msgs s m ! (length (msgs s m) - 1)) + 1) Seq_cst
       (snd (read_message t m Seq_cst (length (msgs s m) - 1) s)))\<lparr>code := (code s)(t := is)\<rparr>)"
    using c(2) [of t m Seq_cst "length (msgs s m) - 1"] by (auto simp: machine_turn_def split: prod.splits)
  assume spin: "code s t = Spin l ord # is"
  moreover have "(code s)(t := Spin l ord # is) = code s" using spin by (simp add: fun_upd_idem)
  moreover have "snd (read_message t l ord i s) = (snd (read_message t l ord i s))\<lparr>code := code s\<rparr>"
    using u [of "snd (read_message t l ord i s)"] by (simp add: c)
  ultimately show "machine_turn t i s =
     (if may_read t l ord i s then
        Some ((snd (read_message t l ord i s))\<lparr>code := (code s)(t := if vals s l ! i = 0 then code s t else is)\<rparr>) else None)"
    using c(2) [of t l ord i] may_read_val [of t l ord i s] by (auto simp: machine_turn_def split: prod.splits)
qed

lemma message_simps [simp]:
  "msgs (snd (read_message t l ord i s)) = msgs s" "code (snd (read_message t l ord i s)) = code s"
  "code (write_message t l v ord s) = code s"
  "u \<noteq> t \<Longrightarrow> views (snd (read_message t l ord i s)) u = views s u"
  "u \<noteq> t \<Longrightarrow> views (write_message t l v ord s) u = views s u"
  "views (write_message t l v ord s) t = (views s t)(l := length (msgs s l))"
  "l' \<noteq> l \<Longrightarrow> msgs (write_message t l v ord s) l' = msgs s l'"
  "vals (snd (read_message t l ord i s)) k = vals s k"
  "l' \<noteq> l \<Longrightarrow> vals (write_message t l v ord s) l' = vals s l'"
  "vals (write_message t l v ord s) l = vals s l @ [v]"
  by (auto simp: vals_def read_message_def write_message_def Let_def split: prod.splits)

lemma release_message:
  "length (msgs s l) = n \<Longrightarrow> snd (msgs (write_message t l v Release s) l ! n) = (views s t)(l := n)"
  by (auto simp: write_message_def Let_def nth_append)

lemma view_read:
  "views (snd (read_message t l ord i s)) t l' =
     (if ord = Acquire \<or> ord = Seq_cst then max (((views s t)(l := i)) l') (snd (msgs s l ! i) l') else ((views s t)(l := i)) l')"
  by (simp add: read_message_def Let_def join_views_def split: prod.splits)

subsection \<open>The end can always be reached\<close>

definition machine_step :: "machine \<Rightarrow> machine \<Rightarrow> bool" where
  "machine_step s s' \<longleftrightarrow> (\<exists>t i. machine_turn t i s = Some s')"

primrec instr_weight :: "instr \<Rightarrow> nat" where
  "instr_weight (Store l v ord) = 1"
| "instr_weight (Spin l ord) = 1"
| "instr_weight (If_inc l ord m) = 2"
| "instr_weight (Inc m) = 1"

definition code_weight :: "instr list \<Rightarrow> nat" where
  "code_weight is = sum_list (map instr_weight is)"

definition work_left :: "machine \<Rightarrow> nat" where
  "work_left s = (\<Sum>t < 4. code_weight (code s t))"

lemma work_left_less:
  assumes "t < 4" "code s' = (code s)(t := c)" "code_weight c < code_weight (code s t)"
  shows "work_left s' < work_left s"
proof -
  have r: "(\<Sum>u < 4. code_weight (c' u)) = code_weight (c' t) + (\<Sum>u \<in> {..<4} - {t}. code_weight (c' u))" for c'
    using assms(1) by (simp add: sum.remove)
  have "(\<Sum>u \<in> {..<4} - {t}. code_weight (code s' u)) = (\<Sum>u \<in> {..<4} - {t}. code_weight (code s u))"
    using assms(2) by simp
  then have "work_left s' = code_weight c + (\<Sum>u \<in> {..<4} - {t}. code_weight (code s u))"
    using assms(2) unfolding work_left_def r [of "code s'"] by simp
  moreover have "work_left s = code_weight (code s t) + (\<Sum>u \<in> {..<4} - {t}. code_weight (code s u))"
    unfolding work_left_def by (rule r)
  ultimately show ?thesis using assms(3) by simp
qed

text \<open>A thread advances unless it spins on a location whose newest value is zero.\<close>

lemma turn_advances:
  assumes wf: "machine_wf s" and t: "t < 4" and c: "code s t = c # is" "\<And>l ord. c = Spin l ord \<Longrightarrow> last (vals s l) \<noteq> 0"
  shows "\<exists>i s'. machine_turn t i s = Some s' \<and> work_left s' < work_left s"
proof (cases c)
  case (Store l v ord)
  with c show ?thesis by (auto simp: turn_simps code_weight_def intro!: work_left_less [OF t])
next
  case (Spin l ord)
  have "vals s l ! (length (msgs s l) - 1) = last (vals s l)"
    using machine_wf_pos [OF wf, of l] by (simp add: vals_def last_map last_conv_nth)
  with c(2) [OF Spin] have "vals s l ! (length (msgs s l) - 1) \<noteq> 0" by simp
  with c Spin may_read_newest [OF wf, of t l ord] show ?thesis
    by (intro exI [of _ "length (msgs s l) - 1"]) (auto simp: turn_simps code_weight_def intro!: work_left_less [OF t])
next
  case (If_inc l ord m)
  with c may_read_newest [OF wf, of t l ord] show ?thesis
    by (intro exI [of _ "length (msgs s l) - 1"]) (auto simp: turn_simps code_weight_def intro!: work_left_less [OF t])
next
  case (Inc m)
  with c show ?thesis by (auto simp: turn_simps code_weight_def intro!: work_left_less [OF t])
qed

lemma can_finish:
  assumes wf: "machine_wf s" and P: "P s" and keep: "\<And>s t i s'. P s \<Longrightarrow> machine_turn t i s = Some s' \<Longrightarrow> P s'"
    and go: "\<And>s. P s \<Longrightarrow> \<not> all_done s \<Longrightarrow> \<exists>t c is. t < 4 \<and> code s t = c # is \<and> (\<forall>l ord. c = Spin l ord \<longrightarrow> last (vals s l) \<noteq> 0)"
  shows "\<exists>s'. machine_step\<^sup>*\<^sup>* s s' \<and> all_done s'"
  using wf P
proof (induction "work_left s" arbitrary: s rule: less_induct)
  case less
  show ?case
  proof (cases "all_done s")
    case False
    from go [OF less.prems(2) False] obtain t c "is" where "t < 4" "code s t = c # is" "\<forall>l ord. c = Spin l ord \<longrightarrow> last (vals s l) \<noteq> 0"
      by blast
    with turn_advances [OF less.prems(1)] obtain i s' where s': "machine_turn t i s = Some s'" "work_left s' < work_left s"
      by blast
    from less.hyps [OF s'(2)] machine_wf_turn [OF s'(1) less.prems(1)] keep [OF less.prems(2) s'(1)]
    obtain s'' where "machine_step\<^sup>*\<^sup>* s' s''" "all_done s''" by blast
    moreover have "machine_step s s'" using s'(1) by (auto simp: machine_step_def)
    ultimately show ?thesis by (metis converse_rtranclp_into_rtranclp)
  qed auto
qed

lemma machine_reach_steps: "machine_step\<^sup>*\<^sup>* s s' \<Longrightarrow> machine_reach progs s \<Longrightarrow> machine_reach progs s'"
  by (induction rule: rtranclp_induct) (auto simp: machine_step_def intro: machine_reach.turn)

text \<open>\<open>main\<close> finds something to read.\<close>

lemma main_reads_newest: "machine_wf s \<Longrightarrow> main_reads l ord s (last (vals s l))"
proof -
  assume wf: "machine_wf s"
  have "0 < length (msgs s l)" by (rule machine_wf_pos [OF wf])
  moreover have "views s t l \<le> length (msgs s l) - 1" for t
    using wf by (auto simp: machine_wf_def in_memory_def dest!: spec [of _ t] spec [of _ l])
  ultimately show ?thesis
    by (auto simp: main_reads_def vals_def last_map last_conv_nth intro!: exI [of _ "length (msgs s l) - 1"])
qed

subsection \<open>x before y, and y read before x\<close>

text \<open>The two programs differ in the orders of the accesses to \<open>y\<close>.\<close>

definition xy_programs :: "order \<Rightarrow> order \<Rightarrow> nat \<Rightarrow> instr list" where
  "xy_programs wo ro = (\<lambda>_. [])(0 := [Store Loc_x 1 Relaxed, Store Loc_y 1 wo],
     1 := [Spin Loc_y ro, If_inc Loc_x Relaxed Loc_z])"

lemma xy_programs:
  "relaxed_main = xy_programs Relaxed Relaxed" "acquire_release_main = xy_programs Release Acquire"
  by (simp_all add: relaxed_main_def acquire_release_main_def xy_programs_def relaxed_write_x_then_y_def
      relaxed_read_y_then_x_def release_write_x_then_y_def acquire_read_y_then_x_def)

definition writer_at :: "order \<Rightarrow> machine \<Rightarrow> bool" where
  "writer_at wo s \<longleftrightarrow>
     code s 0 = [Store Loc_x 1 Relaxed, Store Loc_y 1 wo] \<and> vals s Loc_x = [0] \<and> vals s Loc_y = [0] \<or>
     code s 0 = [Store Loc_y 1 wo] \<and> vals s Loc_x = [0, 1] \<and> vals s Loc_y = [0] \<or>
     code s 0 = [] \<and> vals s Loc_x = [0, 1] \<and> vals s Loc_y = [0, 1]"

definition reader_at :: "order \<Rightarrow> machine \<Rightarrow> bool" where
  "reader_at ro s \<longleftrightarrow>
     code s 1 = [Spin Loc_y ro, If_inc Loc_x Relaxed Loc_z] \<and> vals s Loc_z = [0] \<or>
     code s 0 = [] \<and>
      (code s 1 = [If_inc Loc_x Relaxed Loc_z] \<and> vals s Loc_z = [0] \<or>
       code s 1 = [Inc Loc_z] \<and> vals s Loc_z = [0] \<or>
       code s 1 = [] \<and> (vals s Loc_z = [0] \<or> vals s Loc_z = [0, 1] \<and> views s 1 Loc_z = 1))"

definition xy_inv :: "order \<Rightarrow> order \<Rightarrow> machine \<Rightarrow> bool" where
  "xy_inv wo ro s \<longleftrightarrow> (\<forall>t. t \<noteq> 0 \<longrightarrow> t \<noteq> 1 \<longrightarrow> code s t = []) \<and> writer_at wo s \<and> reader_at ro s"

lemma xy_inv_writer:
  assumes "xy_inv wo ro s" "machine_turn 0 i s = Some s'"
  shows "xy_inv wo ro s' \<and> code s' 1 = code s 1"
proof -
  have rest: "\<forall>t. t \<noteq> 0 \<longrightarrow> t \<noteq> 1 \<longrightarrow> code s t = []" and w: "writer_at wo s" and r: "reader_at ro s"
    using assms(1) by (simp_all add: xy_inv_def)
  from w assms(2) consider
      (x) "code s 0 = [Store Loc_x 1 Relaxed, Store Loc_y 1 wo]" "vals s Loc_x = [0]" "vals s Loc_y = [0]"
    | (y) "code s 0 = [Store Loc_y 1 wo]" "vals s Loc_x = [0, 1]" "vals s Loc_y = [0]"
    by (auto simp: writer_at_def turn_simps)
  then show ?thesis
  proof cases
    case x
    with assms(2) have s': "s' = (write_message 0 Loc_x 1 Relaxed s)\<lparr>code := (code s)(0 := [Store Loc_y 1 wo])\<rparr>"
      by (simp add: turn_simps)
    from x rest r show ?thesis by (simp add: s' xy_inv_def writer_at_def reader_at_def)
  next
    case y
    with assms(2) have s': "s' = (write_message 0 Loc_y 1 wo s)\<lparr>code := (code s)(0 := [])\<rparr>"
      by (simp add: turn_simps)
    from y rest r show ?thesis by (simp add: s' xy_inv_def writer_at_def reader_at_def)
  qed
qed

lemma xy_inv_reader:
  assumes "xy_inv wo ro s" "machine_turn 1 i s = Some s'"
  shows "xy_inv wo ro s' \<and> code s' 0 = code s 0"
proof -
  have rest: "\<forall>t. t \<noteq> 0 \<longrightarrow> t \<noteq> 1 \<longrightarrow> code s t = []" and w: "writer_at wo s" and r: "reader_at ro s"
    using assms(1) by (simp_all add: xy_inv_def)
  from r assms(2) consider
      (spin) "code s 1 = [Spin Loc_y ro, If_inc Loc_x Relaxed Loc_z]" "vals s Loc_z = [0]"
    | (test) "code s 0 = []" "code s 1 = [If_inc Loc_x Relaxed Loc_z]" "vals s Loc_z = [0]"
    | (inc) "code s 0 = []" "code s 1 = [Inc Loc_z]" "vals s Loc_z = [0]"
    by (auto simp: reader_at_def turn_simps)
  then show ?thesis
  proof cases
    case spin
    with assms(2) have i: "i < length (msgs s Loc_y)"
      and s': "s' = (snd (read_message 1 Loc_y ro i s))\<lparr>code := (code s)(1 := if vals s Loc_y ! i = 0 then code s 1
        else [If_inc Loc_x Relaxed Loc_z])\<rparr>"
      by (auto simp: turn_simps may_read_def split: if_splits)
    have "code s 0 = []" if "vals s Loc_y ! i \<noteq> 0"
      using w i that by (auto simp: writer_at_def length_msgs)
    with spin rest w show ?thesis by (auto simp: s' xy_inv_def writer_at_def reader_at_def)
  next
    case test
    with assms(2) obtain c where "c = [] \<or> c = [Inc Loc_z]" "s' = (snd (read_message 1 Loc_x Relaxed i s))\<lparr>code := (code s)(1 := c)\<rparr>"
      by (auto simp: turn_simps split: if_splits)
    with test rest w show ?thesis by (auto simp: xy_inv_def writer_at_def reader_at_def)
  next
    case inc
    have "length (msgs s Loc_z) = 1" using vals_length [OF inc(3)] by simp
    moreover have "fst (msgs s Loc_z ! 0) = 0" using inc(3) by (simp add: vals_nth)
    ultimately have s': "s' = (write_message 1 Loc_z 1 Seq_cst (snd (read_message 1 Loc_z Seq_cst 0 s)))\<lparr>code := (code s)(1 := [])\<rparr>"
      using assms(2) inc by (simp add: turn_simps)
    from inc rest w \<open>length (msgs s Loc_z) = 1\<close> show ?thesis by (simp add: s' xy_inv_def writer_at_def reader_at_def)
  qed
qed

lemma xy_turn_cases:
  assumes "xy_inv wo ro s" "machine_turn t i s = Some s'"
  shows "t = 0 \<or> t = 1"
  using assms by (auto simp: xy_inv_def turn_simps)

lemma xy_reach: "machine_reach (xy_programs wo ro) s \<Longrightarrow> xy_inv wo ro s"
proof (induction rule: machine_reach.induct)
  case boot
  show ?case by (simp add: xy_inv_def writer_at_def reader_at_def xy_programs_def)
next
  case (turn s t i s')
  then show ?case using xy_turn_cases xy_inv_writer xy_inv_reader by metis
qed

lemma xy_go:
  assumes "xy_inv wo ro s" "\<not> all_done s"
  shows "\<exists>t c is. t < 4 \<and> code s t = c # is \<and> (\<forall>l ord. c = Spin l ord \<longrightarrow> last (vals s l) \<noteq> 0)"
proof (cases "code s 0")
  case (Cons c "is")
  with assms show ?thesis
    by (intro exI [of _ 0] exI [of _ c] exI [of _ "is"]) (auto simp: xy_inv_def writer_at_def)
next
  case Nil
  with assms obtain c "is" where c: "code s 1 = c # is" unfolding all_done_def xy_inv_def by (metis list.exhaust)
  have "vals s Loc_y = [0, 1]" using Nil assms by (simp add: xy_inv_def writer_at_def)
  with c assms show ?thesis
    by (intro exI [of _ 1] exI [of _ c] exI [of _ "is"]) (auto simp: xy_inv_def reader_at_def)
qed

lemma xy_finishes:
  assumes "machine_reach (xy_programs wo ro) s"
  shows "\<exists>s'. machine_step\<^sup>*\<^sup>* s s' \<and> all_done s'"
proof (rule can_finish [where P = "xy_inv wo ro"])
  show "machine_wf s" "xy_inv wo ro s" using assms machine_reach_wf xy_reach by blast+
next
  fix s t i s' assume "xy_inv wo ro s" "machine_turn t i s = Some s'"
  then show "xy_inv wo ro s'" using xy_turn_cases xy_inv_writer xy_inv_reader by metis
qed (rule xy_go)

lemma xy_outcomes:
  assumes "machine_reach (xy_programs wo ro) s" "all_done s" "main_reads Loc_z Relaxed s v"
  shows "v = last (vals s Loc_z) \<and> (vals s Loc_z = [0] \<or> vals s Loc_z = [0, 1])"
proof -
  from assms(3) obtain i where i: "i < length (vals s Loc_z)" "\<forall>t. views s t Loc_z \<le> i" "vals s Loc_z ! i = v"
    by (auto simp: main_reads_def length_msgs vals_nth)
  from xy_reach [OF assms(1)] assms(2)
  have "vals s Loc_z = [0] \<or> vals s Loc_z = [0, 1] \<and> views s 1 Loc_z = 1"
    by (auto simp: xy_inv_def reader_at_def all_done_def)
  then show ?thesis
  proof
    assume "vals s Loc_z = [0, 1] \<and> views s 1 Loc_z = 1"
    moreover from this i have "i = 1" using spec [OF i(2), of 1] by simp
    ultimately show ?thesis using i(3) by auto
  qed (use i in auto)
qed

text \<open>With release and acquire the reader that has seen \<open>y\<close> has \<open>x\<close> in its view.\<close>

definition handed_over :: "machine \<Rightarrow> bool" where
  "handed_over s \<longleftrightarrow> (vals s Loc_x = [0, 1] \<longrightarrow> 1 \<le> views s 0 Loc_x) \<and>
     (vals s Loc_y = [0, 1] \<longrightarrow> 1 \<le> snd (msgs s Loc_y ! 1) Loc_x) \<and>
     (code s 1 = [If_inc Loc_x Relaxed Loc_z] \<longrightarrow> 1 \<le> views s 1 Loc_x) \<and>
     (code s 1 = [] \<longrightarrow> vals s Loc_z = [0, 1])"

lemma handed_over_writer:
  assumes "xy_inv Release Acquire s" "handed_over s" "machine_turn 0 i s = Some s'"
  shows "handed_over s'"
proof -
  from assms(1,3) consider
      (x) "code s 0 = [Store Loc_x 1 Relaxed, Store Loc_y 1 Release]" "vals s Loc_x = [0]" "vals s Loc_y = [0]"
    | (y) "code s 0 = [Store Loc_y 1 Release]" "vals s Loc_x = [0, 1]" "vals s Loc_y = [0]"
    by (auto simp: xy_inv_def writer_at_def turn_simps)
  then show ?thesis
  proof cases
    case x
    then have "s' = (write_message 0 Loc_x 1 Relaxed s)\<lparr>code := (code s)(0 := [Store Loc_y 1 Release])\<rparr>"
      "length (msgs s Loc_x) = 1" using assms(3) vals_length [OF x(2)] by (simp_all add: turn_simps)
    with x assms(2) show ?thesis by (simp add: handed_over_def)
  next
    case y
    then have "s' = (write_message 0 Loc_y 1 Release s)\<lparr>code := (code s)(0 := [])\<rparr>"
      "length (msgs s Loc_y) = 1" using assms(3) vals_length [OF y(3)] by (simp_all add: turn_simps)
    with y assms(2) release_message [of s Loc_y 1 0 1] show ?thesis by (simp add: handed_over_def)
  qed
qed

lemma handed_over_reader:
  assumes "xy_inv Release Acquire s" "handed_over s" "machine_turn 1 i s = Some s'"
  shows "handed_over s'"
proof -
  from assms(1,3) consider
      (spin) "code s 1 = [Spin Loc_y Acquire, If_inc Loc_x Relaxed Loc_z]" "vals s Loc_z = [0]"
    | (test) "code s 0 = []" "code s 1 = [If_inc Loc_x Relaxed Loc_z]" "vals s Loc_z = [0]"
    | (inc) "code s 0 = []" "code s 1 = [Inc Loc_z]" "vals s Loc_z = [0]"
    by (auto simp: xy_inv_def reader_at_def turn_simps)
  then show ?thesis
  proof cases
    case spin
    with assms(3) have i: "i < length (msgs s Loc_y)"
      and s': "s' = (snd (read_message 1 Loc_y Acquire i s))\<lparr>code := (code s)(1 := if vals s Loc_y ! i = 0 then code s 1
        else [If_inc Loc_x Relaxed Loc_z])\<rparr>"
      by (auto simp: turn_simps may_read_def split: if_splits)
    have "1 \<le> snd (msgs s Loc_y ! i) Loc_x" if "vals s Loc_y ! i \<noteq> 0"
    proof -
      have "vals s Loc_y = [0] \<or> vals s Loc_y = [0, 1]" using assms(1) by (auto simp: xy_inv_def writer_at_def)
      with i that have "vals s Loc_y = [0, 1]" "i = 1" by (auto simp: length_msgs less_Suc_eq)
      with assms(2) show ?thesis by (simp add: handed_over_def)
    qed
    with spin assms(2) show ?thesis by (auto simp: s' handed_over_def view_read)
  next
    case test
    have x: "vals s Loc_x = [0, 1]" using assms(1) test(1) by (simp add: xy_inv_def writer_at_def)
    have "1 \<le> i" "i < length (vals s Loc_x)" using assms(2,3) test(2)
      by (auto simp: handed_over_def turn_simps may_read_def length_msgs split: if_splits)
    with x have "i = 1" "vals s Loc_x ! i = 1" by auto
    with assms(3) test have "s' = (snd (read_message 1 Loc_x Relaxed i s))\<lparr>code := (code s)(1 := [Inc Loc_z])\<rparr>"
      by (simp add: turn_simps split: if_splits)
    with test assms(2) show ?thesis by (simp add: handed_over_def)
  next
    case inc
    have "length (msgs s Loc_z) = 1" using vals_length [OF inc(3)] by simp
    moreover have "fst (msgs s Loc_z ! 0) = 0" using inc(3) by (simp add: vals_nth)
    ultimately have "s' = (write_message 1 Loc_z 1 Seq_cst (snd (read_message 1 Loc_z Seq_cst 0 s)))\<lparr>code := (code s)(1 := [])\<rparr>"
      using assms(3) inc by (simp add: turn_simps)
    with inc assms(2) show ?thesis by (simp add: handed_over_def)
  qed
qed

lemma handed_over_reach: "machine_reach (xy_programs Release Acquire) s \<Longrightarrow> handed_over s"
proof (induction rule: machine_reach.induct)
  case boot
  show ?case by (simp add: handed_over_def xy_programs_def)
next
  case (turn s t i s')
  then show ?case using xy_turn_cases xy_reach handed_over_writer handed_over_reader by metis
qed

subsection \<open>Two writers and two readers with seq_cst\<close>

text \<open>What a turn of a thread does to the values of the locations and to its own code.\<close>

lemma newest_value: "may_read t l Seq_cst i s \<Longrightarrow> vals s l ! i = last (vals s l)"
  by (cases "msgs s l = []") (auto simp: may_read_def vals_def last_map last_conv_nth)

lemma seq_turn:
  assumes "machine_turn t i s = Some s'" "code s t = c # is" "msgs s m \<noteq> []"
  shows "c = Store l v Seq_cst \<Longrightarrow> code s' = (code s)(t := is) \<and> vals s' l = vals s l @ [v] \<and> (\<forall>k. k \<noteq> l \<longrightarrow> vals s' k = vals s k)"
    and "c = Spin l Seq_cst \<Longrightarrow> code s' = (code s)(t := if last (vals s l) = 0 then code s t else is) \<and> (\<forall>k. vals s' k = vals s k)"
    and "c = If_inc l Seq_cst m \<Longrightarrow> code s' = (code s)(t := if last (vals s l) = 0 then is else Inc m # is) \<and> (\<forall>k. vals s' k = vals s k)"
    and "c = Inc m \<Longrightarrow> code s' = (code s)(t := is) \<and> vals s' m = vals s m @ [last (vals s m) + 1] \<and> (\<forall>k. k \<noteq> m \<longrightarrow> vals s' k = vals s k)"
proof -
  show "c = Store l v Seq_cst \<Longrightarrow> code s' = (code s)(t := is) \<and> vals s' l = vals s l @ [v] \<and> (\<forall>k. k \<noteq> l \<longrightarrow> vals s' k = vals s k)"
    using assms by (auto simp: turn_simps)
  show "c = Spin l Seq_cst \<Longrightarrow> code s' = (code s)(t := if last (vals s l) = 0 then code s t else is) \<and> (\<forall>k. vals s' k = vals s k)"
    using assms newest_value [of t l i s] by (auto simp: turn_simps split: if_splits)
  show "c = If_inc l Seq_cst m \<Longrightarrow> code s' = (code s)(t := if last (vals s l) = 0 then is else Inc m # is) \<and> (\<forall>k. vals s' k = vals s k)"
    using assms newest_value [of t l i s] by (auto simp: turn_simps split: if_splits)
  have "fst (msgs s m ! (length (msgs s m) - 1)) = last (vals s m)"
    using assms(3) by (simp add: vals_def last_map last_conv_nth)
  then show "c = Inc m \<Longrightarrow> code s' = (code s)(t := is) \<and> vals s' m = vals s m @ [last (vals s m) + 1] \<and> (\<forall>k. k \<noteq> m \<longrightarrow> vals s' k = vals s k)"
    using assms by (auto simp: turn_simps)
qed

definition stored :: "nat \<Rightarrow> location \<Rightarrow> machine \<Rightarrow> bool" where
  "stored t l s \<longleftrightarrow> code s t = [Store l 1 Seq_cst] \<and> vals s l = [0] \<or> code s t = [] \<and> vals s l = [0, 1]"

text \<open>A reader that spins on \<open>a\<close> and then looks at \<open>b\<close>.\<close>

definition looking :: "nat \<Rightarrow> location \<Rightarrow> location \<Rightarrow> machine \<Rightarrow> bool" where
  "looking t a b s \<longleftrightarrow> code s t = [Spin a Seq_cst, If_inc b Seq_cst Loc_z] \<or>
     vals s a = [0, 1] \<and> (code s t = [If_inc b Seq_cst Loc_z] \<or> code s t = [Inc Loc_z] \<or> code s t = [])"

definition counted :: "machine \<Rightarrow> bool" where
  "counted s \<longleftrightarrow>
     vals s Loc_z = [0] \<and> \<not> (code s 2 = [] \<and> code s 3 = []) \<or>
     vals s Loc_z = [0, 1] \<and> (code s 2 = [] \<or> code s 3 = []) \<or>
     vals s Loc_z = [0, 1, 2] \<and> code s 2 = [] \<and> code s 3 = []"

definition seq_inv :: "machine \<Rightarrow> bool" where
  "seq_inv s \<longleftrightarrow> (\<forall>t \<ge> 4. code s t = []) \<and> stored 0 Loc_x s \<and> stored 1 Loc_y s \<and>
     looking 2 Loc_x Loc_y s \<and> looking 3 Loc_y Loc_x s \<and> counted s"

lemma seq_inv_writer:
  assumes "seq_inv s" "machine_turn t i s = Some s'" "t = 0 \<and> l = Loc_x \<or> t = 1 \<and> l = Loc_y"
  shows "seq_inv s'"
proof -
  have c: "code s t = [Store l 1 Seq_cst]" "vals s l = [0]"
    using assms by (auto simp: seq_inv_def stored_def turn_simps)
  then have z: "msgs s l \<noteq> []" by (auto simp: vals_def)
  from seq_turn(1) [OF assms(2) c(1) z refl] c(2)
  have s': "code s' = (code s)(t := [])" "vals s' l = [0, 1]" "\<And>k. k \<noteq> l \<Longrightarrow> vals s' k = vals s k" by auto
  show ?thesis using assms(3)
  proof (elim disjE conjE)
    assume tl: "t = 0" "l = Loc_x"
    then have "looking 2 Loc_x Loc_y s' \<longleftrightarrow> looking 2 Loc_x Loc_y s" using assms(1) s' c
      by (auto simp: seq_inv_def looking_def)
    with tl assms(1) s' show ?thesis by (simp add: seq_inv_def stored_def looking_def counted_def)
  next
    assume tl: "t = 1" "l = Loc_y"
    then have "looking 3 Loc_y Loc_x s' \<longleftrightarrow> looking 3 Loc_y Loc_x s" using assms(1) s' c
      by (auto simp: seq_inv_def looking_def)
    with tl assms(1) s' show ?thesis by (simp add: seq_inv_def stored_def looking_def counted_def)
  qed
qed

lemma seq_inv_reader:
  assumes "seq_inv s" "machine_turn t i s = Some s'" "t = 2 \<and> a = Loc_x \<and> b = Loc_y \<or> t = 3 \<and> a = Loc_y \<and> b = Loc_x"
  shows "seq_inv s'"
proof -
  have z: "msgs s Loc_z \<noteq> []" using assms(1) by (auto simp: seq_inv_def counted_def vals_def)
  have k: "looking t a b s" using assms(1,3) by (auto simp: seq_inv_def)
  with assms(2) consider
      (spin) "code s t = [Spin a Seq_cst, If_inc b Seq_cst Loc_z]"
    | (test) "code s t = [If_inc b Seq_cst Loc_z]" "vals s a = [0, 1]"
    | (inc) "code s t = [Inc Loc_z]" "vals s a = [0, 1]"
    by (auto simp: looking_def turn_simps)
  then show ?thesis
  proof cases
    case spin
    have a: "vals s a = [0] \<or> vals s a = [0, 1]" using assms(1,3) by (auto simp: seq_inv_def stored_def)
    from seq_turn(2) [OF assms(2) spin z refl]
    have s': "code s' = (code s)(t := if last (vals s a) = 0 then code s t else [If_inc b Seq_cst Loc_z])"
      "\<And>k. vals s' k = vals s k" by auto
    show ?thesis using assms(3)
      by (elim disjE conjE) (use a assms(1) spin s' in \<open>simp add: seq_inv_def stored_def looking_def counted_def, fastforce\<close>)+
  next
    case test
    from seq_turn(3) [OF assms(2) test(1) z refl]
    have s': "code s' = (code s)(t := if last (vals s b) = 0 then [] else [Inc Loc_z])" "\<And>k. vals s' k = vals s k" by auto
    show ?thesis using assms(3)
    proof (elim disjE conjE)
      assume t: "t = 2" "a = Loc_x" "b = Loc_y"
      have "code s 3 \<noteq> []" if "last (vals s Loc_y) = 0" using that assms(1) by (auto simp: seq_inv_def looking_def)
      with t assms(1) test s' show ?thesis by (simp add: seq_inv_def stored_def looking_def counted_def) blast
    next
      assume t: "t = 3" "a = Loc_y" "b = Loc_x"
      have "code s 2 \<noteq> []" if "last (vals s Loc_x) = 0" using that assms(1) by (auto simp: seq_inv_def looking_def)
      with t assms(1) test s' show ?thesis by (simp add: seq_inv_def stored_def looking_def counted_def) blast
    qed
  next
    case inc
    from seq_turn(4) [OF assms(2) inc(1) z refl]
    have s': "code s' = (code s)(t := [])" "vals s' Loc_z = vals s Loc_z @ [last (vals s Loc_z) + 1]"
      "\<And>k. k \<noteq> Loc_z \<Longrightarrow> vals s' k = vals s k" by auto
    show ?thesis using assms(3)
    proof (elim disjE conjE)
      assume t: "t = 2" "a = Loc_x" "b = Loc_y"
      with assms(1) inc have "vals s Loc_z = [0] \<or> vals s Loc_z = [0, 1] \<and> code s 3 = []"
        by (auto simp: seq_inv_def counted_def)
      with t assms(1) inc s' show ?thesis by (auto simp: seq_inv_def stored_def looking_def counted_def)
    next
      assume t: "t = 3" "a = Loc_y" "b = Loc_x"
      with assms(1) inc have "vals s Loc_z = [0] \<or> vals s Loc_z = [0, 1] \<and> code s 2 = []"
        by (auto simp: seq_inv_def counted_def)
      with t assms(1) inc s' show ?thesis by (auto simp: seq_inv_def stored_def looking_def counted_def)
    qed
  qed
qed

lemma seq_main_inv: "machine_reach seq_cst_main s \<Longrightarrow> seq_inv s"
proof (induction rule: machine_reach.induct)
  case boot
  show ?case
    by (simp add: seq_inv_def stored_def looking_def counted_def seq_cst_main_def write_x_def write_y_def
        read_x_then_y_def read_y_then_x_def)
next
  case (turn s t i s')
  have "t < 4" using turn(2,3) by (auto simp: seq_inv_def turn_simps not_less [symmetric])
  then have "t = 0 \<or> t = 1 \<or> t = 2 \<or> t = 3" by auto
  then show ?case
    using seq_inv_writer [OF turn(3,2)] seq_inv_reader [OF turn(3,2)] by blast
qed

lemma seq_go:
  assumes "seq_inv s" "\<not> all_done s"
  shows "\<exists>t c is. t < 4 \<and> code s t = c # is \<and> (\<forall>l ord. c = Spin l ord \<longrightarrow> last (vals s l) \<noteq> 0)"
proof (cases "code s 0 = [] \<and> code s 1 = []")
  case True
  with assms(1) have v: "vals s Loc_x = [0, 1]" "vals s Loc_y = [0, 1]" by (auto simp: seq_inv_def stored_def)
  from assms obtain t where t: "code s t \<noteq> []" "t < 4" by (auto simp: all_done_def seq_inv_def not_less [symmetric])
  with True have "t = 2 \<or> t = 3" by (auto simp: eval_nat_numeral less_Suc_eq)
  moreover obtain c "is" where c: "code s t = c # is" using t by (cases "code s t") auto
  ultimately have "\<forall>l ord. c = Spin l ord \<longrightarrow> l = Loc_x \<or> l = Loc_y" using assms(1) by (auto simp: seq_inv_def looking_def)
  with v c t show ?thesis by (intro exI [of _ t] exI [of _ c] exI [of _ "is"]) auto
next
  case False
  then obtain t c "is" where c: "code s t = c # is" "t = 0 \<or> t = 1" by (auto simp: neq_Nil_conv)
  with assms(1) have "\<exists>l. c = Store l 1 Seq_cst" by (auto simp: seq_inv_def stored_def)
  with c show ?thesis by (intro exI [of _ t] exI [of _ c] exI [of _ "is"]) auto
qed

lemma seq_finishes:
  assumes "machine_reach seq_cst_main s"
  shows "\<exists>s'. machine_step\<^sup>*\<^sup>* s s' \<and> all_done s'"
proof (rule can_finish [where P = "\<lambda>s. machine_reach seq_cst_main s"])
  show "machine_wf s" using assms by (rule machine_reach_wf)
qed (use assms seq_go seq_main_inv machine_reach.turn in blast)+

subsection \<open>Two threads that store again and again\<close>

lemma upto_snoc: "0 \<le> n \<Longrightarrow> map f [0..n] = map f [0..n - 1] @ [f n]" for n :: int
  by (simp add: upto_rec2)

lemma thread_func_snoc:
  "thread_func1 = map (\<lambda>i. Store Loc_x i Relaxed) [0..99999 - 1] @ [Store Loc_x 99999 Relaxed]"
  "thread_func2 = map (\<lambda>i. Store Loc_x (- i) Relaxed) [0..99999 - 1] @ [Store Loc_x (- 99999) Relaxed]"
  unfolding thread_func1_def thread_func2_def
  by (rule upto_snoc [of _ "\<lambda>i. Store Loc_x i Relaxed"], simp) (rule upto_snoc [of _ "\<lambda>i. Store Loc_x (- i) Relaxed"], simp)

definition storing :: "instr list \<Rightarrow> bool" where
  "storing is \<longleftrightarrow> (\<forall>c \<in> set is. \<exists>v. c = Store Loc_x v Relaxed)"

lemma storing_test: "storing (relaxed_test_main t)"
  by (auto simp: storing_def relaxed_test_main_def thread_func1_def thread_func2_def)

text \<open>The newest message was stored by a thread that has it in its view.\<close>

definition test_inv :: "machine \<Rightarrow> bool" where
  "test_inv s \<longleftrightarrow> (\<forall>t. \<exists>pre. relaxed_test_main t = pre @ code s t) \<and>
     (vals s Loc_x = [0] \<and> code s = relaxed_test_main \<or>
      (\<exists>t pre. views s t Loc_x = length (vals s Loc_x) - 1 \<and>
        relaxed_test_main t = pre @ Store Loc_x (last (vals s Loc_x)) Relaxed # code s t))"

lemma test_reach: "machine_reach relaxed_test_main s \<Longrightarrow> test_inv s"
proof (induction rule: machine_reach.induct)
  case boot
  show ?case by (simp add: test_inv_def)
next
  case (turn s t i s')
  from turn(3) obtain pre where pre: "relaxed_test_main t = pre @ code s t" by (auto simp: test_inv_def)
  then have "storing (code s t)" using storing_test [of t] by (auto simp: storing_def)
  with turn(2) obtain v "is" where c: "code s t = Store Loc_x v Relaxed # is"
    by (cases "code s t") (auto simp: turn_simps storing_def)
  with turn(2) have s': "s' = (write_message t Loc_x v Relaxed s)\<lparr>code := (code s)(t := is)\<rparr>" by (simp add: turn_simps)
  have "\<exists>pre. relaxed_test_main u = pre @ code s' u" for u
    using turn(3) pre c by (auto simp: test_inv_def s' intro: exI [of _ "pre @ [Store Loc_x v Relaxed]"])
  moreover have "views s' t Loc_x = length (vals s' Loc_x) - 1 \<and>
      relaxed_test_main t = pre @ Store Loc_x (last (vals s' Loc_x)) Relaxed # code s' t"
    using pre c by (simp add: s' length_msgs)
  ultimately show ?case unfolding test_inv_def by blast
qed

lemma test_outcome:
  assumes "machine_reach relaxed_test_main s" "all_done s" "main_reads Loc_x Relaxed s v"
  shows "v = 99999 \<or> v = - 99999"
proof -
  have "relaxed_test_main 0 \<noteq> []" by (simp add: relaxed_test_main_def thread_func_snoc)
  then have "code s \<noteq> relaxed_test_main" using assms(2) by (auto simp: all_done_def)
  with test_reach [OF assms(1)] assms(2) obtain t pre where t: "views s t Loc_x = length (vals s Loc_x) - 1"
    "relaxed_test_main t = pre @ [Store Loc_x (last (vals s Loc_x)) Relaxed]"
    by (auto simp: test_inv_def all_done_def)
  from assms(3) obtain i where i: "i < length (vals s Loc_x)" "\<forall>t. views s t Loc_x \<le> i" "vals s Loc_x ! i = v"
    by (auto simp: main_reads_def length_msgs vals_nth)
  from i(1) spec [OF i(2), of t] t(1) have "i = length (vals s Loc_x) - 1" by simp
  with i have "v = last (vals s Loc_x)" by (metis last_conv_nth length_0_conv less_nat_zero_code)
  with t(2) have "last (relaxed_test_main t) = Store Loc_x v Relaxed" "relaxed_test_main t \<noteq> []" by simp_all
  then show ?thesis by (auto simp: relaxed_test_main_def thread_func_snoc split: if_splits)
qed

text \<open>A thread can run to its end while the others wait.\<close>

lemma run_stores:
  "machine_reach progs s \<Longrightarrow> code s t = is \<Longrightarrow> storing is \<Longrightarrow>
     \<exists>s'. machine_reach progs s' \<and> code s' = (code s)(t := []) \<and>
       vals s' Loc_x = vals s Loc_x @ map (\<lambda>c. case c of Store l v ord \<Rightarrow> v) is"
proof (induction "is" arbitrary: s)
  case Nil
  then show ?case by (intro exI [of _ s]) (simp add: fun_upd_idem)
next
  case (Cons c "is")
  from Cons.prems(3) obtain v where c: "c = Store Loc_x v Relaxed" by (auto simp: storing_def)
  let ?s = "(write_message t Loc_x v Relaxed s)\<lparr>code := (code s)(t := is)\<rparr>"
  have "machine_turn t 0 s = Some ?s" using Cons.prems(2) c by (simp add: turn_simps)
  with Cons.prems(1) have "machine_reach progs ?s" by (rule machine_reach.turn)
  moreover have "code ?s t = is" "storing is" using Cons.prems(3) by (simp_all add: storing_def)
  ultimately obtain s' where s': "machine_reach progs s'" "code s' = (code ?s)(t := [])"
    "vals s' Loc_x = vals ?s Loc_x @ map (\<lambda>c. case c of Store l v ord \<Rightarrow> v) is"
    using Cons.IH by blast
  have "(code ?s)(t := []) = (code s)(t := [])" by simp
  with s' c show ?case by (intro exI [of _ s']) simp
qed

lemma test_run:
  fixes t u :: nat
  assumes "t = 0 \<and> u = 1 \<or> t = 1 \<and> u = 0"
  shows "\<exists>s. machine_reach relaxed_test_main s \<and> all_done s \<and> last (vals s Loc_x) = (if u = 0 then 99999 else - 99999)"
proof -
  let ?p = relaxed_test_main and ?v = "\<lambda>c. case c of Store l v ord \<Rightarrow> v"
  obtain s where s: "machine_reach ?p s" "code s = ?p(t := [])"
    using run_stores [OF machine_reach.boot, of ?p t] storing_test by fastforce
  have u: "code s u = ?p u" using s(2) assms by auto
  from run_stores [OF s(1) u storing_test] obtain s' where s': "machine_reach ?p s'" "code s' = ?p(t := [], u := [])"
    "vals s' Loc_x = vals s Loc_x @ map ?v (?p u)" using s(2) by auto
  have "all_done s'" using s'(2) assms by (auto simp: all_done_def relaxed_test_main_def)
  moreover have "last (vals s' Loc_x) = (if u = 0 then 99999 else - 99999)"
    using s'(3) assms by (auto simp: relaxed_test_main_def thread_func_snoc)
  ultimately show ?thesis using s'(1) by blast
qed

subsection \<open>Runs for the outcomes that can happen\<close>

fun run_schedule :: "(nat \<times> nat) list \<Rightarrow> machine \<Rightarrow> machine option" where
  "run_schedule [] s = Some s"
| "run_schedule ((t, i) # sched) s = (case machine_turn t i s of None \<Rightarrow> None | Some s' \<Rightarrow> run_schedule sched s')"

lemma run_schedule_reach: "run_schedule sched s = Some s' \<Longrightarrow> machine_reach progs s \<Longrightarrow> machine_reach progs s'"
  by (induction sched s rule: run_schedule.induct) (auto split: option.splits intro: machine_reach.turn)

definition outcome_of :: "(nat \<times> nat) list \<Rightarrow> (nat \<Rightarrow> instr list) \<Rightarrow> (instr list list \<times> int list) option" where
  "outcome_of sched progs =
     map_option (\<lambda>s. ([code s 0, code s 1, code s 2, code s 3], vals s Loc_z)) (run_schedule sched (machine_start progs))"

lemma outcome_reached:
  assumes "outcome_of sched progs = Some ([[], [], [], []], zs)" "\<forall>t \<ge> 4. progs t = []"
  shows "\<exists>s. machine_reach progs s \<and> all_done s \<and> vals s Loc_z = zs"
proof -
  from assms(1) obtain s where s: "run_schedule sched (machine_start progs) = Some s" "[code s 0, code s 1, code s 2, code s 3] = [[], [], [], []]"
    "vals s Loc_z = zs" by (auto simp: outcome_of_def)
  have r: "machine_reach progs s" by (rule run_schedule_reach [OF s(1) machine_reach.boot])
  then have "\<forall>t \<ge> 4. code s t = []"
  proof (induction rule: machine_reach.induct)
    case (turn s t i s')
    have "t < 4" using turn(2,3) by (auto simp: turn_simps not_less [symmetric])
    moreover have "\<exists>c. code s' = (code s)(t := c)"
      using turn(2) by (cases "code s t"; cases "hd (code s t)") (auto simp: turn_simps split: if_splits)
    ultimately show ?case using turn(3) by auto
  qed (use assms(2) in simp)
  moreover have "code s t = []" if "t < 4" for t
  proof -
    from that have "t = 0 \<or> t = 1 \<or> t = 2 \<or> t = 3" by auto
    with s(2) show ?thesis by auto
  qed
  ultimately have "all_done s" unfolding all_done_def by (metis not_less)
  with r s(3) show ?thesis by blast
qed

lemma relaxed_runs:
  "outcome_of [(0, 0), (0, 0), (1, 1), (1, 0)] relaxed_main = Some ([[], [], [], []], [0])"
  "outcome_of [(0, 0), (0, 0), (1, 1), (1, 1), (1, 0)] relaxed_main = Some ([[], [], [], []], [0, 1])"
  by code_simp+

lemma seq_cst_runs:
  "outcome_of [(0, 0), (2, 1), (2, 0), (1, 0), (3, 1), (3, 1), (3, 0)] seq_cst_main = Some ([[], [], [], []], [0, 1])"
  "outcome_of [(0, 0), (1, 0), (2, 1), (2, 1), (2, 0), (3, 1), (3, 1), (3, 0)] seq_cst_main = Some ([[], [], [], []], [0, 1, 2])"
  by code_simp+

lemma test_finishes:
  assumes "machine_reach relaxed_test_main s"
  shows "\<exists>s'. machine_step\<^sup>*\<^sup>* s s' \<and> all_done s'"
proof (rule can_finish [where P = "machine_reach relaxed_test_main"])
  show "machine_wf s" using assms by (rule machine_reach_wf)
next
  fix s assume s: "machine_reach relaxed_test_main s" "\<not> all_done s"
  then obtain t where t: "code s t \<noteq> []" by (auto simp: all_done_def)
  obtain pre where pre: "relaxed_test_main t = pre @ code s t" using test_reach [OF s(1)] by (auto simp: test_inv_def)
  with t have "t < 4" by (auto simp: relaxed_test_main_def split: if_splits)
  moreover obtain c "is" where c: "code s t = c # is" using t by (cases "code s t") auto
  moreover have "\<exists>v. c = Store Loc_x v Relaxed" using pre c storing_test [of t] by (auto simp: storing_def)
  ultimately show "\<exists>t c is. t < 4 \<and> code s t = c # is \<and> (\<forall>l ord. c = Spin l ord \<longrightarrow> last (vals s l) \<noteq> 0)" by blast
qed (use assms machine_reach.turn in blast)+

lemma finished_run:
  assumes "\<And>s. machine_reach progs s \<Longrightarrow> \<exists>s'. machine_step\<^sup>*\<^sup>* s s' \<and> all_done s'"
  shows "\<exists>s. machine_reach progs s \<and> all_done s \<and> main_reads l ord s (last (vals s l))"
proof -
  from assms [OF machine_reach.boot] obtain s where "machine_step\<^sup>*\<^sup>* (machine_start progs) s" "all_done s" by blast
  with machine_reach_steps [OF this(1) machine_reach.boot] main_reads_newest machine_reach_wf show ?thesis by blast
qed

lemma outcome_run:
  assumes "outcome_of sched progs = Some ([[], [], [], []], zs)" "\<forall>t \<ge> 4. progs t = []"
  shows "last zs \<in> outcomes Loc_z ord progs"
  using outcome_reached [OF assms] main_reads_newest machine_reach_wf by (fastforce simp: outcomes_def)

lemma acquire_release_outcomes: "outcomes Loc_z Relaxed acquire_release_main = {1}"
proof -
  have one: "v = 1" if "machine_reach acquire_release_main s" "all_done s" "main_reads Loc_z Relaxed s v" for s v
    using xy_outcomes [OF that [unfolded xy_programs]] handed_over_reach [of s] that
    by (auto simp: xy_programs handed_over_def all_done_def)
  obtain s where s: "machine_reach acquire_release_main s" "all_done s" "main_reads Loc_z Relaxed s (last (vals s Loc_z))"
    using finished_run [of acquire_release_main] xy_finishes by (metis xy_programs(2))
  with one [OF s] have "1 \<in> outcomes Loc_z Relaxed acquire_release_main" by (auto simp: outcomes_def)
  with one show ?thesis by (auto simp: outcomes_def)
qed

lemma relaxed_outcomes: "outcomes Loc_z Relaxed relaxed_main = {0, 1}"
proof -
  have "v \<in> {0, 1}" if "machine_reach relaxed_main s" "all_done s" "main_reads Loc_z Relaxed s v" for s v
    using xy_outcomes [OF that [unfolded xy_programs]] by auto
  moreover have "\<forall>t \<ge> 4. relaxed_main t = []" by (simp add: relaxed_main_def)
  from relaxed_runs [THEN outcome_run, OF this, of Relaxed] have "{0, 1} \<subseteq> outcomes Loc_z Relaxed relaxed_main" by simp
  ultimately show ?thesis by (auto simp: outcomes_def)
qed

lemma seq_cst_outcomes: "outcomes Loc_z Seq_cst seq_cst_main = {1, 2}"
proof -
  have "v \<in> {1, 2}" if "machine_reach seq_cst_main s" "all_done s" "main_reads Loc_z Seq_cst s v" for s v
  proof -
    have "vals s Loc_z = [0, 1] \<or> vals s Loc_z = [0, 1, 2]"
      using seq_main_inv [OF that(1)] that(2) by (auto simp: seq_inv_def counted_def all_done_def)
    moreover have "v = last (vals s Loc_z)"
      using that(3) by (cases "msgs s Loc_z = []") (auto simp: main_reads_def vals_def last_map last_conv_nth)
    ultimately show ?thesis by auto
  qed
  moreover have "\<forall>t \<ge> 4. seq_cst_main t = []" by (simp add: seq_cst_main_def)
  from seq_cst_runs [THEN outcome_run, OF this, of Seq_cst] have "{1, 2} \<subseteq> outcomes Loc_z Seq_cst seq_cst_main" by simp
  ultimately show ?thesis by (auto simp: outcomes_def)
qed

lemma relaxed_test_outcomes: "outcomes Loc_x Relaxed relaxed_test_main = {99999, - 99999}"
proof -
  have "last (vals s Loc_x) \<in> outcomes Loc_x Relaxed relaxed_test_main" if "machine_reach relaxed_test_main s" "all_done s" for s
    using that main_reads_newest [OF machine_reach_wf [OF that(1)]] by (auto simp: outcomes_def)
  then have "99999 \<in> outcomes Loc_x Relaxed relaxed_test_main" "- 99999 \<in> outcomes Loc_x Relaxed relaxed_test_main"
    using test_run [of 1 0] test_run [of 0 1] by (metis zero_neq_one)+
  with test_outcome show ?thesis by (auto simp: outcomes_def)
qed

subsection \<open>Properties\<close>


text \<open>
  None of the four programs can get stuck: from every state it can reach, all its threads can
  be led to their ends, the spinning readers too.
\<close>

theorem memory_orders_finish:
  assumes "machine_reach progs s" "progs = relaxed_main \<or> progs = acquire_release_main \<or> progs = seq_cst_main \<or> progs = relaxed_test_main"
  shows "\<exists>s'. machine_step\<^sup>*\<^sup>* s s' \<and> all_done s'"
  using assms xy_finishes [of Relaxed Relaxed s] xy_finishes [of Release Acquire s] seq_finishes test_finishes
  by (auto simp: xy_programs)

theorem memory_orders_finish_witness:
  "\<exists>s'. machine_step\<^sup>*\<^sup>* (machine_start seq_cst_main) s' \<and> all_done s'"
  by (rule memory_orders_finish [OF machine_reach.boot]) simp

end
