(* ===== verification/Spinlock_Weak.thy ===== *)
theory Spinlock_Weak
  imports Autoinc Memory_Orders
begin

text \<open>
  The spin lock of \<^verbatim>\<open>spinlock.h\<close> with the memory orders it asks for, around the counter of \<^verbatim>\<open>autoinc.cc\<close>,
  on the memory of C++11: the lock word and the counter are lists of messages in modification order, a thread may read any message
  that is not behind its view, and only a release that is acquired passes a view on. The exchange reads the newest message of the
  lock, hands the view it finds there on with the message it writes (a release sequence), and takes it over if it acquires. A plain access
  of the counter may read anything from the thread's view on; that it can only read the newest value, as in the sequentially consistent model
  of \<open>Autoinc\<close>, is what is proved.
\<close>

subsection \<open>The lock word\<close>

text \<open>A message of the lock word: its value, and the message of the counter behind which one who acquires it must not read.\<close>

type_synonym lock_word = "(int \<times> nat) list"

definition test_and_set_order :: order where
  "test_and_set_order = Acquire"

definition clear_order :: order where
  "clear_order = Release"

text \<open>\<open>atomic_test_and_set_\<close>: the old value and the view of the thread that has run it.\<close>

definition weak_test_and_set :: "order \<Rightarrow> nat \<Rightarrow> lock_word \<Rightarrow> int \<times> nat \<times> lock_word" where
  "weak_test_and_set ord seen l =
     (let (old, W) = last l in (old, if ord = Acquire then max seen W else seen, l @ [(1, W)]))"

text \<open>\<open>atomic_clear_\<close>, by a thread with the view \<open>seen\<close>; a relaxed store passes nothing on.\<close>

definition weak_clear :: "order \<Rightarrow> nat \<Rightarrow> lock_word \<Rightarrow> lock_word" where
  "weak_clear ord seen l = l @ [(0, if ord = Release then seen else 0)]"

subsection \<open>The counter under the lock\<close>

record weak_counter =
  lock_word :: lock_word
  history :: "32 word list"                 \<comment> \<open>the values of \<open>count\<close> in modification order\<close>
  lock_seen :: "nat \<Rightarrow> nat"
  count_seen :: "nat \<Rightarrow> nat"
  spinning :: "nat \<Rightarrow> bool"                 \<comment> \<open>in the inner loop of \<open>spinlock_lock\<close>\<close>
  weak_crew :: "(nat \<times> at_body) list"

definition weak_start :: "nat list \<Rightarrow> weak_counter" where
  "weak_start nums = \<lparr>lock_word = [(spinlock_init Std_Atomic, 0)], history = [0], lock_seen = (\<lambda>_. 0), count_seen = (\<lambda>_. 0),
     spinning = (\<lambda>_. False), weak_crew = map (\<lambda>n. (n, Top)) nums\<rparr>"

text \<open>
  \<open>incrby\<close> under the lock, one access at a time, for any orders of the exchange and of the clearing store. The
  relaxed load of the inner loop may find an old value of the lock word.
\<close>

inductive weak_step :: "order \<Rightarrow> order \<Rightarrow> weak_counter \<Rightarrow> weak_counter \<Rightarrow> bool" for acq rel where
  lock: "i < length (weak_crew s) \<Longrightarrow> weak_crew s ! i = (Suc n, Top) \<Longrightarrow> \<not> spinning s i \<Longrightarrow>
    weak_test_and_set acq (count_seen s i) (lock_word s) = (old, seen, l) \<Longrightarrow>
    weak_step acq rel s (s\<lparr>lock_word := l, lock_seen := (lock_seen s)(i := length (lock_word s)), count_seen := (count_seen s)(i := seen),
      spinning := (spinning s)(i := old \<noteq> 0), weak_crew := (if old \<noteq> 0 then weak_crew s else (weak_crew s)[i := (Suc n, Held)])\<rparr>)"
| spin: "i < length (weak_crew s) \<Longrightarrow> spinning s i \<Longrightarrow> lock_seen s i \<le> j \<Longrightarrow> j < length (lock_word s) \<Longrightarrow>
    weak_step acq rel s (s\<lparr>lock_seen := (lock_seen s)(i := j), spinning := (spinning s)(i := fst (lock_word s ! j) \<noteq> 0)\<rparr>)"
| load: "i < length (weak_crew s) \<Longrightarrow> weak_crew s ! i = (Suc n, Held) \<Longrightarrow> count_seen s i \<le> j \<Longrightarrow> j < length (history s) \<Longrightarrow>
    weak_step acq rel s (s\<lparr>count_seen := (count_seen s)(i := j), weak_crew := (weak_crew s)[i := (Suc n, Loaded (history s ! j))]\<rparr>)"
| store: "i < length (weak_crew s) \<Longrightarrow> weak_crew s ! i = (Suc n, Loaded v) \<Longrightarrow>
    weak_step acq rel s (s\<lparr>history := history s @ [v + 1], count_seen := (count_seen s)(i := length (history s)),
      weak_crew := (weak_crew s)[i := (Suc n, Stored)]\<rparr>)"
| unlock: "i < length (weak_crew s) \<Longrightarrow> weak_crew s ! i = (Suc n, Stored) \<Longrightarrow>
    weak_step acq rel s (s\<lparr>lock_word := weak_clear rel (count_seen s i) (lock_word s), lock_seen := (lock_seen s)(i := length (lock_word s)),
      weak_crew := (weak_crew s)[i := (n, Top)]\<rparr>)"

definition weak_reach :: "order \<Rightarrow> order \<Rightarrow> nat list \<Rightarrow> weak_counter \<Rightarrow> bool" where
  "weak_reach acq rel nums s \<longleftrightarrow> (weak_step acq rel)\<^sup>*\<^sup>* (weak_start nums) s"

text \<open>What \<open>main\<close> can find in \<open>count\<close> when it has joined the threads and with them their views.\<close>

definition main_finds :: "weak_counter \<Rightarrow> 32 word \<Rightarrow> bool" where
  "main_finds s v \<longleftrightarrow> (\<exists>j < length (history s). (\<forall>i < length (weak_crew s). count_seen s i \<le> j) \<and> history s ! j = v)"

subsection \<open>What the views know\<close>

text \<open>The sequentially consistent counter that a state stands for.\<close>

definition as_counter :: "weak_counter \<Rightarrow> int counter" where
  "as_counter s = \<lparr>the_lock = fst (last (lock_word s)), count = last (history s), crew = weak_crew s\<rparr>"

definition newest :: "weak_counter \<Rightarrow> nat" where
  "newest s = length (history s) - 1"

lemma newest_simps [simp]:
  "newest (s\<lparr>lock_word := l\<rparr>) = newest s" "newest (s\<lparr>lock_seen := ls\<rparr>) = newest s" "newest (s\<lparr>count_seen := cs\<rparr>) = newest s"
  "newest (s\<lparr>spinning := sp\<rparr>) = newest s" "newest (s\<lparr>weak_crew := w\<rparr>) = newest s"
  "newest (s\<lparr>history := h @ [v]\<rparr>) = length h"
  by (simp_all add: newest_def)

text \<open>The newest value of the counter is known to the holder of the lock, or to the last message of the free lock.\<close>

definition weak_inv :: "weak_counter \<Rightarrow> bool" where
  "weak_inv s \<longleftrightarrow> lock_word s \<noteq> [] \<and> history s \<noteq> [] \<and>
     (\<forall>i. count_seen s i < length (history s)) \<and> (\<forall>m \<in> set (lock_word s). snd m < length (history s)) \<and>
     (\<forall>i. lock_seen s i < length (lock_word s)) \<and>
     (fst (last (lock_word s)) = 0 \<and> snd (last (lock_word s)) = newest s \<or> fst (last (lock_word s)) = 1) \<and>
     (\<forall>i < length (weak_crew s). snd (weak_crew s ! i) \<noteq> Top \<longrightarrow> count_seen s i = newest s \<and> \<not> spinning s i) \<and>
     (newest s = 0 \<or> (\<exists>i < length (weak_crew s). count_seen s i = newest s))"

lemma weak_invD:
  assumes "weak_inv s"
  shows "lock_word s \<noteq> []" "history s \<noteq> []" "count_seen s i < length (history s)" "m \<in> set (lock_word s) \<Longrightarrow> snd m < length (history s)"
    "lock_seen s i < length (lock_word s)"
    "fst (last (lock_word s)) = 0 \<and> snd (last (lock_word s)) = newest s \<or> fst (last (lock_word s)) = 1"
    "i < length (weak_crew s) \<Longrightarrow> snd (weak_crew s ! i) \<noteq> Top \<Longrightarrow> count_seen s i = newest s"
    "i < length (weak_crew s) \<Longrightarrow> snd (weak_crew s ! i) \<noteq> Top \<Longrightarrow> \<not> spinning s i"
    "newest s = 0 \<or> (\<exists>i < length (weak_crew s). count_seen s i = newest s)"
  using assms unfolding weak_inv_def by simp_all

lemma weak_inv_start: "weak_inv (weak_start nums)"
  by (simp add: weak_inv_def weak_start_def newest_def spinlock_init_def)

text \<open>The invariant of the locked counter, seen through \<open>as_counter\<close>.\<close>

abbreviation locked_inv :: "weak_counter \<Rightarrow> bool" where
  "locked_inv s \<equiv> inc_lock (\<lambda>v. v = 0) (as_counter s)"

lemma locked_holder:
  assumes "locked_inv s" "i < length (weak_crew s)" "snd (weak_crew s ! i) \<noteq> Top"
  shows "fst (last (lock_word s)) \<noteq> 0" "j < length (weak_crew s) \<Longrightarrow> j \<noteq> i \<Longrightarrow> snd (weak_crew s ! j) = Top"
proof -
  have "fst (last (lock_word s)) \<noteq> 0 \<and> holds_lock i (as_counter s)"
    using inc_lock_holder [OF assms(1), of i] assms(2,3) by (simp add: as_counter_def)
  then show "fst (last (lock_word s)) \<noteq> 0" "j < length (weak_crew s) \<Longrightarrow> j \<noteq> i \<Longrightarrow> snd (weak_crew s ! j) = Top"
    by (simp_all add: holds_lock_def as_counter_def)
qed

lemma locked_free: "locked_inv s \<Longrightarrow> fst (last (lock_word s)) = 0 \<Longrightarrow> i < length (weak_crew s) \<Longrightarrow> snd (weak_crew s ! i) = Top"
  by (simp add: inc_lock_def as_counter_def)

abbreviation proved_step :: "weak_counter \<Rightarrow> weak_counter \<Rightarrow> bool" where
  "proved_step \<equiv> weak_step test_and_set_order clear_order"

lemma nth_newest:
  assumes "history s \<noteq> []" "newest s \<le> j" "j < length (history s)"
  shows "j = newest s \<and> history s ! j = last (history s)"
proof -
  have "j = length (history s) - 1" using assms(2,3) unfolding newest_def by linarith
  then show ?thesis using assms(1) by (simp add: newest_def last_conv_nth)
qed

lemma weak_invI:
  assumes "lock_word s \<noteq> []" "history s \<noteq> []" "\<And>i. count_seen s i < length (history s)"
    "\<And>m. m \<in> set (lock_word s) \<Longrightarrow> snd m < length (history s)"
    "\<And>i. lock_seen s i < length (lock_word s)"
    "fst (last (lock_word s)) = 0 \<and> snd (last (lock_word s)) = newest s \<or> fst (last (lock_word s)) = 1"
    "\<And>i. i < length (weak_crew s) \<Longrightarrow> snd (weak_crew s ! i) \<noteq> Top \<Longrightarrow> count_seen s i = newest s \<and> \<not> spinning s i"
    "newest s = 0 \<or> (\<exists>i < length (weak_crew s). count_seen s i = newest s)"
  shows "weak_inv s"
  using assms unfolding weak_inv_def by blast

lemma weak_inv_lock:
  assumes "weak_inv s" "locked_inv s" "i < length (weak_crew s)" "weak_crew s ! i = (Suc n, Top)"
    and "weak_test_and_set test_and_set_order (count_seen s i) (lock_word s) = (old, seen, l)"
  shows "weak_inv (s\<lparr>lock_word := l, lock_seen := (lock_seen s)(i := length (lock_word s)), count_seen := (count_seen s)(i := seen),
    spinning := (spinning s)(i := old \<noteq> 0), weak_crew := (if old \<noteq> 0 then weak_crew s else (weak_crew s)[i := (Suc n, Held)])\<rparr>)"
    (is "weak_inv ?s")
proof -
  note inv = weak_invD [OF assms(1)]
  define W where "W = snd (last (lock_word s))"
  have m: "fst (last (lock_word s)) = old" and l: "l = lock_word s @ [(1, W)]" and seen: "seen = max (count_seen s i) W"
    using assms(5) by (auto simp: weak_test_and_set_def test_and_set_order_def W_def split: prod.splits)
  have W: "W < length (history s)" using inv(4) [of "last (lock_word s)"] inv(1) by (simp add: W_def)
  have keep: "count_seen s j \<le> newest s" for j using inv(2) inv(3) [of j] by (simp add: newest_def)
  have held: "seen = newest s" if "old = 0" using inv(6) that m keep [of i] by (simp add: seen W_def)
  have stays: "seen = newest s" if "count_seen s i = newest s" using W that by (simp add: seen newest_def)
  show ?thesis
  proof (rule weak_invI)
    fix j assume j: "j < length (weak_crew ?s)" "snd (weak_crew ?s ! j) \<noteq> Top"
    then have "old = 0 \<longrightarrow> j = i" using locked_free [OF assms(2), of j] m by (cases "j = i") auto
    moreover have "old \<noteq> 0 \<longrightarrow> j \<noteq> i" using j assms(4) by auto
    ultimately show "count_seen ?s j = newest ?s \<and> \<not> spinning ?s j"
      using held inv(7) [of j] inv(8) [of j] j by (cases "old = 0") auto
  next
    show "newest ?s = 0 \<or> (\<exists>j < length (weak_crew ?s). count_seen ?s j = newest ?s)"
    proof (cases "newest s = 0")
      case False
      with inv(9) obtain k where k: "k < length (weak_crew s)" "count_seen s k = newest s" by auto
      with stays show ?thesis by (intro disjI2 exI [of _ k]) auto
    qed simp
  qed (use inv W l seen in \<open>auto simp: less_Suc_eq\<close>)
qed

lemma weak_inv_step:
  assumes "proved_step s s'" "weak_inv s" "locked_inv s"
  shows "weak_inv s'"
  using assms(1)
proof (cases rule: weak_step.cases)
  case (lock i n old seen l)
  with weak_inv_lock [OF assms(2,3) lock(2,3,5)] show ?thesis by simp
next
  case (spin i j)
  then show ?thesis using assms(2) unfolding weak_inv_def newest_def by auto
next
  case (load i n j)
  note inv = weak_invD [OF assms(2)]
  have "count_seen s i = newest s" using inv(7) [of i] load by simp
  with nth_newest [OF inv(2), of j] load have "j = count_seen s i" by simp
  then have s': "s' = s\<lparr>weak_crew := (weak_crew s)[i := (Suc n, Loaded (history s ! j))]\<rparr>" using load(1) by simp
  show ?thesis
  proof (rule weak_invI)
    fix k assume "k < length (weak_crew s')" "snd (weak_crew s' ! k) \<noteq> Top"
    then show "count_seen s' k = newest s' \<and> \<not> spinning s' k"
      using inv(7,8) [of k] inv(7,8) [of i] load(3) s' by (cases "k = i") auto
  qed (use inv load(2,3) s' in auto)
next
  case (store i n v)
  note inv = weak_invD [OF assms(2)] and other = locked_holder [OF assms(3) store(2)]
  show ?thesis
  proof (rule weak_invI)
    fix j assume "j < length (weak_crew s')" "snd (weak_crew s' ! j) \<noteq> Top"
    then show "count_seen s' j = newest s' \<and> \<not> spinning s' j"
      using other(2) [of j] inv(8) [of i] store(1,2,3) by (cases "j = i") auto
  qed (use inv other(1) store(1,2,3) in \<open>auto simp: less_Suc_eq\<close>)
next
  case (unlock i n)
  have lt: "newest s < length (history s)" using assms(2) by (simp add: weak_inv_def newest_def)
  note inv = weak_invD [OF assms(2)] and other = locked_holder [OF assms(3) unlock(2)]
  show ?thesis
  proof (rule weak_invI)
    fix j assume "j < length (weak_crew s')" "snd (weak_crew s' ! j) \<noteq> Top"
    then show "count_seen s' j = newest s' \<and> \<not> spinning s' j"
      using other(2) [of j] unlock(1,2,3) by (cases "j = i") auto
  qed (use inv lt unlock(1,2,3) in \<open>auto simp: less_Suc_eq weak_clear_def clear_order_def\<close>)
qed

subsection \<open>Simulation by the sequentially consistent counter\<close>

abbreviation sc_step :: "int counter \<Rightarrow> int counter \<Rightarrow> bool" where
  "sc_step \<equiv> inc_step Locked (spinlock_trylock Std_Atomic) (spinlock_unlock Std_Atomic)"

lemma weak_step_simulated:
  assumes "proved_step s s'" "weak_inv s"
  shows "as_counter s' = as_counter s \<or> sc_step (as_counter s) (as_counter s')"
  using assms(1)
proof (cases rule: weak_step.cases)
  case (lock i n old seen l)
  have l: "fst (last l) = 1" "fst (last (lock_word s)) = old"
    using lock(5) by (auto simp: weak_test_and_set_def split: prod.splits)
  show ?thesis
  proof (cases "old = 0")
    case True
    then have "spinlock_trylock Std_Atomic (the_lock (as_counter s)) = (True, 1)"
      using l by (simp add: as_counter_def spinlock_trylock_def test_and_set_def)
    with inc_step.lock [of Locked i "as_counter s" n "spinlock_trylock Std_Atomic" 1 "spinlock_unlock Std_Atomic"] show ?thesis
      using True lock l by (simp add: as_counter_def)
  next
    case False
    then show ?thesis using weak_invD(6) [OF assms(2)] l lock(1) by (simp add: as_counter_def)
  qed
next
  case (load i n j)
  note inv = weak_invD [OF assms(2)]
  have "j = newest s" "history s ! newest s = last (history s)"
    using nth_newest [OF inv(2), of j] inv(7) [of i] load by auto
  with inc_step.load [of i "as_counter s" n Locked "spinlock_trylock Std_Atomic" "spinlock_unlock Std_Atomic"] load show ?thesis
    by (simp add: as_counter_def)
next
  case (store i n v)
  with inc_step.store [of i "as_counter s" n v Locked "spinlock_trylock Std_Atomic" "spinlock_unlock Std_Atomic"] show ?thesis
    by (simp add: as_counter_def)
next
  case (unlock i n)
  with inc_step.unlock [of i "as_counter s" n Locked "spinlock_trylock Std_Atomic" "spinlock_unlock Std_Atomic"] show ?thesis
    by (simp add: as_counter_def weak_clear_def spinlock_unlock_def)
qed (simp add: as_counter_def)

lemma as_counter_start: "as_counter (weak_start nums) = inc_start (spinlock_init Std_Atomic) nums"
  by (simp add: as_counter_def weak_start_def inc_start_def)

abbreviation sc_reach :: "nat list \<Rightarrow> int counter \<Rightarrow> bool" where
  "sc_reach \<equiv> inc_reach Locked (spinlock_trylock Std_Atomic) (spinlock_unlock Std_Atomic) (spinlock_init Std_Atomic)"

lemma sc_reach_inv: "sc_reach nums c \<Longrightarrow> inc_sum (sum_list nums) c \<and> inc_lock (\<lambda>v. v = 0) c"
  by (rule spin.locked_reach) (simp_all add: spinlock_init_def)

lemma weak_reach_simulated:
  assumes "weak_reach test_and_set_order clear_order nums s"
  shows "weak_inv s \<and> sc_reach nums (as_counter s)"
  using assms unfolding weak_reach_def
proof (induction rule: rtranclp_induct)
  case base
  then show ?case by (simp add: weak_inv_start as_counter_start inc_reach_def)
next
  case (step s s')
  then have inv: "weak_inv s" "sc_reach nums (as_counter s)" by simp_all
  have "weak_inv s'" using weak_inv_step [OF step(2) inv(1)] sc_reach_inv [OF inv(2)] by simp
  moreover have "sc_reach nums (as_counter s')"
    using weak_step_simulated [OF step(2) inv(1)] inv(2) unfolding inc_reach_def
    by (metis rtranclp.rtrancl_into_rtrancl)
  ultimately show ?case by simp
qed

text \<open>After the joins \<open>main\<close> cannot read behind the newest value.\<close>

lemma main_finds_last: "weak_inv s \<Longrightarrow> main_finds s v \<longleftrightarrow> v = last (history s)"
proof -
  assume w: "weak_inv s"
  note inv = weak_invD [OF w]
  have "j = newest s" if "j < length (history s)" "\<forall>i < length (weak_crew s). count_seen s i \<le> j" for j
    using nth_newest [OF inv(2) _ that(1)] inv(9) that(2) by auto
  moreover have "\<forall>i. count_seen s i \<le> newest s" "newest s < length (history s)" "history s ! newest s = last (history s)"
    using inv(2,3) by (simp_all add: newest_def last_conv_nth Suc_le_eq less_Suc_eq_le flip: less_Suc_eq_le)
  ultimately show ?thesis unfolding main_finds_def by metis
qed

subsection \<open>Properties\<close>

text \<open>
  C11: the orders of \<^verbatim>\<open>spinlock.h\<close> are enough: on the memory of C++11 every run of the counter under the spin lock is a run of
  the sequentially consistent counter, no thread reads an old value of it, and \<open>main\<close>
  finds the sum of all increments.
\<close>

theorem spinlock_orders_suffice:
  assumes "weak_reach test_and_set_order clear_order nums s"
  shows "sc_reach nums (as_counter s) \<and>
    (\<forall>i n. i < length (weak_crew s) \<longrightarrow> weak_crew s ! i = (n, Held) \<longrightarrow> count_seen s i = length (history s) - 1) \<and>
    (all_joined (as_counter s) \<longrightarrow> (\<forall>v. main_finds s v \<longleftrightarrow> v = of_nat (sum_list nums)))"
proof -
  have w: "weak_inv s" "sc_reach nums (as_counter s)" using weak_reach_simulated [OF assms] by simp_all
  have "\<forall>v. main_finds s v \<longleftrightarrow> v = of_nat (sum_list nums)" if "all_joined (as_counter s)"
    using inc_sum_done [OF _ that, of "sum_list nums"] sc_reach_inv [OF w(2)] main_finds_last [OF w(1)]
    by (simp add: as_counter_def)
  with w weak_invD(7) [OF w(1)] show ?thesis by (simp add: newest_def)
qed

text \<open>A whole turn of the loop by thread \<open>i\<close>, which finds the lock free and reads message \<open>j\<close> of the counter.\<close>

definition after_turn :: "order \<Rightarrow> nat \<Rightarrow> nat \<Rightarrow> nat \<Rightarrow> nat \<Rightarrow> weak_counter \<Rightarrow> weak_counter" where
  "after_turn rel i n W j s =
     s\<lparr>lock_word := weak_clear rel (length (history s)) (lock_word s @ [(1, W)]),
       history := history s @ [history s ! j + 1],
       lock_seen := (lock_seen s)(i := Suc (length (lock_word s))),
       count_seen := (count_seen s)(i := length (history s)),
       spinning := (spinning s)(i := False),
       weak_crew := (weak_crew s)[i := (n, Top)]\<rparr>"

lemma weak_turn:
  assumes "i < length (weak_crew s)" "weak_crew s ! i = (Suc n, Top)" "\<not> spinning s i" "last (lock_word s) = (0, W)"
    and "(if acq = Acquire then max (count_seen s i) W else count_seen s i) \<le> j" "j < length (history s)"
  shows "(weak_step acq rel)\<^sup>*\<^sup>* s (after_turn rel i n W j s)"
proof -
  define seen where "seen = (if acq = Acquire then max (count_seen s i) W else count_seen s i)"
  let ?s = "\<lambda>h c x. s\<lparr>lock_word := lock_word s @ [(1, W)], history := h,
    lock_seen := (lock_seen s)(i := length (lock_word s)), count_seen := (count_seen s)(i := c), spinning := (spinning s)(i := False),
    weak_crew := (weak_crew s)[i := (Suc n, x)]\<rparr>"
  let ?h = "history s @ [history s ! j + 1]"
  have 1: "weak_step acq rel s (?s (history s) seen Held)"
    using weak_step.lock [of i s n acq 0 seen "lock_word s @ [(1, W)]" rel] assms by (cases s) (simp add: weak_test_and_set_def seen_def)
  have 2: "weak_step acq rel (?s (history s) seen Held) (?s (history s) j (Loaded (history s ! j)))"
    using weak_step.load [of i "?s (history s) seen Held" n j acq rel] assms unfolding seen_def [symmetric] by (cases s) simp
  have 3: "weak_step acq rel (?s (history s) j (Loaded (history s ! j))) (?s ?h (length (history s)) Stored)"
    using weak_step.store [of i "?s (history s) j (Loaded (history s ! j))" n "history s ! j" acq rel] assms by (cases s) simp
  have 4: "weak_step acq rel (?s ?h (length (history s)) Stored) (after_turn rel i n W j s)"
    using weak_step.unlock [of i "?s ?h (length (history s)) Stored" n acq rel] assms(1) by (cases s) (simp add: after_turn_def)
  show ?thesis by (rule four_steps [of "weak_step acq rel", OF 1 2 3 4])
qed

text \<open>Two threads, one turn each; the second one reads message \<open>j\<close>, which it may if the orders let it.\<close>

definition two_turns :: "order \<Rightarrow> nat \<Rightarrow> nat \<Rightarrow> weak_counter" where
  "two_turns rel W j = after_turn rel 1 0 W j (after_turn rel 0 0 0 0 (weak_start [1, 1]))"

lemma two_turns_reach:
  assumes "W = (if rel = Release then 1 else 0)" "j < 2" "acq = Acquire \<longrightarrow> W \<le> j"
  shows "weak_reach acq rel [1, 1] (two_turns rel W j)"
proof -
  let ?s = "after_turn rel 0 0 0 0 (weak_start [1, 1])"
  have "(weak_step acq rel)\<^sup>*\<^sup>* (weak_start [1, 1]) ?s"
    by (rule weak_turn) (simp_all add: weak_start_def spinlock_init_def)
  also have "(weak_step acq rel)\<^sup>*\<^sup>* ?s (after_turn rel 1 0 W j ?s)"
    by (rule weak_turn) (use assms in \<open>simp_all add: after_turn_def weak_start_def weak_clear_def\<close>)
  finally show ?thesis by (simp add: weak_reach_def two_turns_def)
qed

theorem spinlock_orders_suffice_witness:
  "weak_reach test_and_set_order clear_order [1, 1] (two_turns Release 1 1) \<and>
   all_joined (as_counter (two_turns Release 1 1)) \<and> (\<forall>v. main_finds (two_turns Release 1 1) v \<longleftrightarrow> v = of_nat (sum_list [1, 1]))"
proof -
  have r: "weak_reach test_and_set_order clear_order [1, 1] (two_turns Release 1 1)"
    unfolding test_and_set_order_def clear_order_def by (rule two_turns_reach) simp_all
  moreover have "all_joined (as_counter (two_turns Release 1 1))"
    by (simp add: two_turns_def after_turn_def weak_start_def as_counter_def all_joined_def)
  ultimately show ?thesis using spinlock_orders_suffice [OF r] by blast
qed

text \<open>Both orders are needed: with a relaxed store, or a relaxed exchange, an increment can be lost.\<close>

lemma relaxed_orders_lose:
  assumes "acq \<noteq> Acquire \<or> rel \<noteq> Release"
  shows "\<exists>s. weak_reach acq rel [1, 1] s \<and> all_joined (as_counter s) \<and> main_finds s 1"
proof -
  let ?s = "two_turns rel (if rel = Release then 1 else 0) 0"
  have "weak_reach acq rel [1, 1] ?s" using assms by (intro two_turns_reach) auto
  moreover have "all_joined (as_counter ?s)" "main_finds ?s 1"
    by (auto simp: two_turns_def after_turn_def weak_start_def as_counter_def all_joined_def main_finds_def less_Suc_eq
      intro!: exI [of _ "2 :: nat"])
  ultimately show ?thesis by blast
qed

end
