(* ===== verification/Taskqueue.thy ===== *)
theory Taskqueue
  imports Interfaces
begin

text \<open>
  The task queue of the thread pool (\<^verbatim>\<open>3_pool/thread_pool-master/thrd_pool.c\<close>): an intrusive
  singly linked list whose link is the first word of a task, with \<open>tail\<close> pointing to the cell
  that ends the list, be it the queue's own \<open>head\<close> or the last task's link. The cells are in the
  checked byte memory; the other fields of the queue are a record. The locks and the condition
  variable are the subject of \<open>Thrdpool\<close>, which runs these same bodies from many threads.
\<close>

subsection \<open>The queue and its operations\<close>

definition task_size :: nat where
  "task_size = 24"

definition taskqueue_size :: nat where
  "taskqueue_size = 112"

definition task_func :: "addr \<Rightarrow> addr" where
  "task_func t = t + of_nat 8"

definition task_arg :: "addr \<Rightarrow> addr" where
  "task_arg t = t + of_nat 16"

record task_queue_t =
  head :: addr          \<comment> \<open>the address of the structure, and so of its first field, the cell \<open>head\<close>\<close>
  tail :: addr
  block :: int

datatype queue_resource = QueueMutex | QueueCond

text \<open>
  \<open>__taskqueue_create\<close>, with what \<open>malloc\<close> and the two \<open>init\<close> calls answer as arguments: the
  queue or null, the objects that are initialised when it returns, the heap.
\<close>

definition taskqueue_create ::
    "addr \<Rightarrow> int \<Rightarrow> int \<Rightarrow> heap \<Rightarrow> fault + (task_queue_t option \<times> queue_resource list \<times> heap)" where
  "taskqueue_create p r_mutex r_cond h0 =
     (let h = h_malloc p taskqueue_size h0
      in if p = 0 then Inr (None, [], h)
         else if r_mutex = 0 then
           if r_cond = 0 then
             bindE (wr64 h p 0) (\<lambda>h1.
             Inr (Some \<lparr>head = p, tail = p, block = 1\<rparr>, [QueueMutex, QueueCond], h1))
           else bindE (h_free p h) (\<lambda>h1. Inr (None, remove1 QueueMutex [QueueMutex], h1))
         else bindE (h_free p h) (\<lambda>h1. Inr (None, [], h1)))"

definition nonblock_flag :: "task_queue_t \<Rightarrow> task_queue_t" where
  "nonblock_flag q = q\<lparr>block := 0\<rparr>"

text \<open>\<open>__add_task\<close>: the store before the spin lock, and the critical section.\<close>

definition add_enter :: "addr \<Rightarrow> heap \<Rightarrow> fault + heap" where
  "add_enter task h = wr64 h task 0"

definition add_body :: "addr \<Rightarrow> task_queue_t \<times> heap \<Rightarrow> fault + (task_queue_t \<times> heap)" where
  "add_body task s =
     bindE (wr64 (snd s) (tail (fst s)) task) (\<lambda>h1. Inr ((fst s)\<lparr>tail := task\<rparr>, h1))"

definition add_task :: "addr \<Rightarrow> task_queue_t \<times> heap \<Rightarrow> fault + (task_queue_t \<times> heap)" where
  "add_task task s = bindE (add_enter task (snd s)) (\<lambda>h1. add_body task (fst s, h1))"

text \<open>\<open>__pop_task\<close>, all of it under the spin lock.\<close>

definition pop_task :: "task_queue_t \<times> heap \<Rightarrow> fault + (addr option \<times> (task_queue_t \<times> heap))" where
  "pop_task s =
     (let q = fst s; h = snd s in
      bindE (rd64 h (head q)) (\<lambda>task.
      if task = 0 then Inr (None, (q, h))
      else
        bindE (rd64 h task) (\<lambda>link.
        bindE (wr64 h (head q) link) (\<lambda>h1.
        bindE (rd64 h1 (head q)) (\<lambda>hd.
        Inr (Some task, (if hd = 0 then q\<lparr>tail := head q\<rparr> else q, h1)))))))"

text \<open>The loop of \<open>__taskqueue_destroy\<close> frees the tasks that are left, until none is.\<close>

partial_function (option) drain :: "task_queue_t \<times> heap \<Rightarrow> (fault + (task_queue_t \<times> heap)) option" where
  "drain s =
     (case pop_task s of
        Inl e \<Rightarrow> Some (Inl e)
      | Inr (None, s') \<Rightarrow> Some (Inr s')
      | Inr (Some task, (q, h)) \<Rightarrow>
          (case h_free task h of Inl e \<Rightarrow> Some (Inl e) | Inr h' \<Rightarrow> drain (q, h')))"

definition taskqueue_destroy ::
    "task_queue_t \<Rightarrow> queue_resource list \<Rightarrow> heap \<Rightarrow> (fault + (queue_resource list \<times> heap)) option" where
  "taskqueue_destroy q res h =
     map_option (\<lambda>r. bindE r (\<lambda>(q', h1).
       bindE (h_free (head q') h1) (\<lambda>h2. Inr (remove1 QueueMutex (remove1 QueueCond res), h2))))
     (drain (q, h))"

subsection \<open>The list in memory\<close>

definition tq_rep :: "heap \<Rightarrow> task_queue_t \<Rightarrow> addr list \<Rightarrow> bool" where
  "tq_rep h q ts \<longleftrightarrow> heap_ok h \<and> chain (hbytes h) (head q) ts \<and> tail q = last (head q # ts) \<and>
     distinct (head q # ts) \<and> (head q, taskqueue_size) \<in> set (hblocks h) \<and>
     (\<forall>t \<in> set ts. (t, task_size) \<in> set (hblocks h))"

definition tq_cell :: "heap \<Rightarrow> addr \<Rightarrow> bool" where
  "tq_cell h c \<longleftrightarrow> (\<exists>n \<ge> 8. (c, n) \<in> set (hblocks h))"

lemma tq_cellI: "(c, n) \<in> set (hblocks h) \<Longrightarrow> 8 \<le> n \<Longrightarrow> tq_cell h c"
  by (auto simp: tq_cell_def)

lemma task_cell: "(t, task_size) \<in> set (hblocks h) \<Longrightarrow> tq_cell h t"
  using tq_cellI [of t task_size h] by (simp add: task_size_def)

lemma cell_valid: "heap_ok h \<Longrightarrow> tq_cell h c \<Longrightarrow> valid h c 8 \<and> room c 8"
  using field_valid [of h c _ 0 8] valid_room by (fastforce simp: tq_cell_def)

lemma cell_apart: "heap_ok h \<Longrightarrow> tq_cell h c \<Longrightarrow> tq_cell h d \<Longrightarrow> c \<noteq> d \<Longrightarrow> apart c 8 d 8"
  using fields_apart [of h c _ d _ 0 8 0 8] by (auto simp: tq_cell_def)

lemma tq_cells: "tq_rep h q ts \<Longrightarrow> \<forall>c \<in> set (head q # ts). tq_cell h c"
  using tq_cellI [of "head q" taskqueue_size h]
  by (auto simp: tq_rep_def task_cell) (simp add: taskqueue_size_def)

lemma tq_rep_write:
  assumes "tq_rep h q ts" "room a 8" "\<forall>c \<in> set (head q # ts). apart a 8 c 8"
  shows "tq_rep (h\<lparr>hbytes := st64 a v (hbytes h)\<rparr>) q ts"
proof -
  have "heap_ok h" using assms(1) by (simp add: tq_rep_def)
  then have "\<forall>c \<in> set (head q # ts). room c 8" using tq_cells [OF assms(1)] cell_valid by blast
  with assms have "chain (st64 a v (hbytes h)) (head q) ts = chain (hbytes h) (head q) ts"
    by (intro chain_frame) auto
  with assms(1) show ?thesis by (simp add: tq_rep_def)
qed

lemma tq_rep_malloc:
  assumes "tq_rep h q ts" "fresh p n h"
  shows "tq_rep (h_malloc p n h) q ts"
  using assms heap_ok_malloc [of h p n] by (simp add: tq_rep_def) (simp add: h_malloc_def)

lemma tq_rep_free:
  assumes "tq_rep h q ts" "h_free p h = Inr h'" "p \<notin> set (head q # ts)"
  shows "tq_rep h' q ts"
proof -
  have "hbytes h' = hbytes h" "\<And>a n. a \<noteq> p \<Longrightarrow> (a, n) \<in> set (hblocks h) \<Longrightarrow> (a, n) \<in> set (hblocks h')"
    using assms(2) by (auto simp: h_free_def split: if_splits)
  moreover have "\<forall>t \<in> set (head q # ts). t \<noteq> p" using assms(3) by auto
  ultimately show ?thesis using assms(1) heap_ok_free [OF _ assms(2)] by (simp add: tq_rep_def)
qed

lemma add_body_rep:
  assumes rep: "tq_rep h q ts" and t: "(t, task_size) \<in> set (hblocks h)" "t \<notin> set (head q # ts)"
    and z: "ld64 (hbytes h) t = 0"
  shows "add_body t (q, h) = Inr (q\<lparr>tail := t\<rparr>, h\<lparr>hbytes := st64 (tail q) t (hbytes h)\<rparr>)"
    and "tq_rep (h\<lparr>hbytes := st64 (tail q) t (hbytes h)\<rparr>) (q\<lparr>tail := t\<rparr>) (ts @ [t])"
proof -
  have hok: "heap_ok h" and tl: "tail q = last (head q # ts)" using rep by (simp_all add: tq_rep_def)
  have cells: "\<forall>c \<in> set (head q # ts @ [t]). tq_cell h c"
    using tq_cells [OF rep] t task_cell by auto
  have "last (head q # ts) \<in> set (head q # ts)" by (rule last_in_set) simp
  then have "tq_cell h (tail q)" using cells tl by auto
  then show "add_body t (q, h) = Inr (q\<lparr>tail := t\<rparr>, h\<lparr>hbytes := st64 (tail q) t (hbytes h)\<rparr>)"
    using cell_valid [OF hok] by (simp add: add_body_def)
  have "distinct (head q # ts @ [t])" using rep t by (auto simp: tq_rep_def)
  then have "cells_apart (head q # ts @ [t])"
    unfolding cells_apart_iff using cells cell_apart [OF hok] by blast
  moreover have "t \<noteq> 0" using hok t by (auto simp: heap_ok_def)
  moreover have "\<forall>c \<in> set (head q # ts @ [t]). room c 8" using cells cell_valid [OF hok] by blast
  ultimately have "chain (st64 (last (head q # ts)) t (hbytes h)) (head q) (ts @ [t])"
    using rep z by (intro chain_snoc) (auto simp: tq_rep_def)
  moreover have "distinct (head q # ts @ [t])" by fact
  ultimately show "tq_rep (h\<lparr>hbytes := st64 (tail q) t (hbytes h)\<rparr>) (q\<lparr>tail := t\<rparr>) (ts @ [t])"
    using rep t tl by (simp add: tq_rep_def)
qed

lemma add_enter_rep:
  assumes rep: "tq_rep h q ts" and t: "(t, task_size) \<in> set (hblocks h)" "t \<notin> set (head q # ts)"
  shows "add_enter t h = Inr (h\<lparr>hbytes := st64 t 0 (hbytes h)\<rparr>)"
    and "tq_rep (h\<lparr>hbytes := st64 t 0 (hbytes h)\<rparr>) q ts"
proof -
  have hok: "heap_ok h" using rep by (simp add: tq_rep_def)
  have c: "tq_cell h t" using t(1) by (rule task_cell)
  then show "add_enter t h = Inr (h\<lparr>hbytes := st64 t 0 (hbytes h)\<rparr>)"
    using cell_valid [OF hok] by (simp add: add_enter_def)
  show "tq_rep (h\<lparr>hbytes := st64 t 0 (hbytes h)\<rparr>) q ts"
    using rep t(2) cell_valid [OF hok c] cell_apart [OF hok c] tq_cells [OF rep]
    by (intro tq_rep_write) auto
qed

lemma pop_task_empty:
  assumes "tq_rep h q []"
  shows "pop_task (q, h) = Inr (None, (q, h))"
  using assms cell_valid [of h "head q"] tq_cells [OF assms] by (simp add: pop_task_def tq_rep_def)

lemma pop_task_rep:
  assumes rep: "tq_rep h q (t # ts)"
  shows "\<exists>q'. pop_task (q, h) = Inr (Some t, (q', h\<lparr>hbytes := st64 (head q) (ld64 (hbytes h) t) (hbytes h)\<rparr>)) \<and>
    tq_rep (h\<lparr>hbytes := st64 (head q) (ld64 (hbytes h) t) (hbytes h)\<rparr>) q' ts \<and>
    head q' = head q \<and> block q' = block q"
proof -
  let ?n = "ld64 (hbytes h) t" and ?c = "head q"
  let ?h = "h\<lparr>hbytes := st64 ?c ?n (hbytes h)\<rparr>" and ?q = "if ?n = 0 then q\<lparr>tail := ?c\<rparr> else q"
  have hok: "heap_ok h" using rep by (simp add: tq_rep_def)
  have v: "valid h ?c 8" "room ?c 8" "valid h t 8" "t \<noteq> 0" "ld64 (hbytes h) ?c = t"
    using rep cell_valid [OF hok] tq_cells [OF rep] by (auto simp: tq_rep_def)
  then have pop: "pop_task (q, h) = Inr (Some t, (?q, ?h))" by (simp add: pop_task_def mem_simps)
  have ap: "\<forall>c \<in> set ts. room c 8 \<and> apart ?c 8 c 8"
    using rep cell_apart [OF hok] cell_valid [OF hok] tq_cells [OF rep] by (auto simp: tq_rep_def)
  have z: "?n = 0 \<longleftrightarrow> ts = []" using rep by (cases ts) (auto simp: tq_rep_def)
  have "chain (st64 ?c ?n (hbytes h)) ?c ts"
  proof (cases ts)
    case Nil
    with z show ?thesis by simp
  next
    case (Cons x xs)
    with rep have "x = ?n" "x \<noteq> 0" "chain (hbytes h) x xs" by (auto simp: tq_rep_def)
    moreover have "chain (st64 ?c ?n (hbytes h)) x xs = chain (hbytes h) x xs"
      using Cons v ap by (intro chain_frame) auto
    ultimately show ?thesis using Cons by simp
  qed
  then have "tq_rep ?h ?q ts" using rep z by (auto simp: tq_rep_def)
  with pop show ?thesis by (intro exI [of _ ?q]) simp
qed

lemma tq_rep_unique: "tq_rep h q ts \<Longrightarrow> tq_rep h q ts' \<Longrightarrow> ts = ts'"
  by (auto simp: tq_rep_def dest: chain_unique)

lemma add_task_rep:
  assumes rep: "tq_rep h q ts" and t: "(t, task_size) \<in> set (hblocks h)" "t \<notin> set (head q # ts)"
  shows "\<exists>h'. add_task t (q, h) = Inr (q\<lparr>tail := t\<rparr>, h') \<and> tq_rep h' (q\<lparr>tail := t\<rparr>) (ts @ [t]) \<and>
    hblocks h' = hblocks h"
proof -
  let ?h = "h\<lparr>hbytes := st64 t 0 (hbytes h)\<rparr>"
  have t': "(t, task_size) \<in> set (hblocks ?h)" "ld64 (hbytes ?h) t = 0" using t by simp_all
  note e = add_enter_rep [OF rep t]
  note b = add_body_rep [OF e(2) t'(1) t(2) t'(2)]
  show ?thesis unfolding add_task_def using e(1) b by simp
qed

subsection \<open>The contract of a first-in first-out queue\<close>

definition tq_usable :: "addr \<Rightarrow> task_queue_t \<times> heap \<Rightarrow> bool" where
  "tq_usable t s \<longleftrightarrow> (t, task_size) \<in> set (hblocks (snd s)) \<and>
     (\<forall>ts. tq_rep (snd s) (fst s) ts \<longrightarrow> t \<notin> set (head (fst s) # ts))"

definition tq_fifo :: "task_queue_t \<times> heap \<Rightarrow> addr list \<Rightarrow> bool" where
  "tq_fifo s ts \<longleftrightarrow> tq_rep (snd s) (fst s) ts"

interpretation task_queue: fifo_queue tq_fifo tq_usable "(\<noteq>)" add_task pop_task
proof unfold_locales
  fix s xs x
  assume "tq_fifo s xs" "tq_usable x s"
  then show "\<exists>s'. add_task x s = Inr s' \<and> tq_fifo s' (xs @ [x])"
    using add_task_rep [of "snd s" "fst s" xs x] by (auto simp: tq_fifo_def tq_usable_def)
next
  fix s
  assume "tq_fifo s []"
  then show "\<exists>s'. pop_task s = Inr (None, s') \<and> tq_fifo s' []"
    using pop_task_empty [of "snd s" "fst s"] by (simp add: tq_fifo_def)
next
  fix s x xs
  assume "tq_fifo s (x # xs)"
  then show "\<exists>s'. pop_task s = Inr (Some x, s') \<and> tq_fifo s' xs"
    using pop_task_rep [of "snd s" "fst s" x xs] by (auto simp: tq_fifo_def)
next
  fix s xs x y s'
  assume a: "tq_fifo s xs" "tq_usable x s" "tq_usable y s" "x \<noteq> y" "add_task x s = Inr s'"
  then obtain h' where h': "s' = ((fst s)\<lparr>tail := x\<rparr>, h')" "hblocks h' = hblocks (snd s)"
    "tq_rep h' ((fst s)\<lparr>tail := x\<rparr>) (xs @ [x])"
    using add_task_rep [of "snd s" "fst s" xs x] by (auto simp: tq_fifo_def tq_usable_def)
  have "y \<notin> set (head (fst s) # xs)" using a(1,3) by (simp add: tq_fifo_def tq_usable_def)
  with a(3,4) h' show "tq_usable y s'" by (auto simp: tq_usable_def dest: tq_rep_unique)
next
  fix s xs y r s'
  assume a: "tq_fifo s xs" "tq_usable y s" "pop_task s = Inr (r, s')"
  show "tq_usable y s'"
  proof (cases xs)
    case Nil
    with a pop_task_empty [of "snd s" "fst s"] show ?thesis by (simp add: tq_fifo_def)
  next
    case (Cons x ys)
    with a(1) have "tq_rep (snd s) (fst s) (x # ys)" by (simp add: tq_fifo_def)
    from pop_task_rep [OF this] a(3) obtain q' h' where
      "s' = (q', h')" "hblocks h' = hblocks (snd s)" "tq_rep h' q' ys" "head q' = head (fst s)"
      by fastforce
    with a(1,2) Cons show ?thesis by (auto simp: tq_usable_def tq_fifo_def dest: tq_rep_unique)
  qed
qed


subsection \<open>Creating and destroying a queue\<close>

lemma taskqueue_create_rep:
  assumes "heap_ok h" "p = 0 \<or> fresh p taskqueue_size h"
  shows "\<exists>qo res h'. taskqueue_create p r_mutex r_cond h = Inr (qo, res, h') \<and>
    (if p \<noteq> 0 \<and> r_mutex = 0 \<and> r_cond = 0
     then \<exists>q. qo = Some q \<and> res = [QueueMutex, QueueCond] \<and> tq_rep h' q [] \<and> head q = p \<and> block q = 1 \<and>
       hblocks h' = (p, taskqueue_size) # hblocks h
     else qo = None \<and> res = [] \<and> hblocks h' = hblocks h)"
proof (cases "p = 0")
  case True
  then show ?thesis by (simp add: taskqueue_create_def h_malloc_def)
next
  case p: False
  with assms(2) have fr: "fresh p taskqueue_size h" by simp
  let ?h = "h_malloc p taskqueue_size h"
  have hok: "heap_ok ?h" using assms(1) fr by (rule heap_ok_malloc)
  have blocks: "hblocks ?h = (p, taskqueue_size) # hblocks h" using p by (simp add: h_malloc_def)
  obtain h' where h': "h_free p ?h = Inr h'" "hblocks h' = hblocks h"
    using malloc_free_blocks [OF fr] by blast
  have "tq_cell ?h p" by (rule tq_cellI [of _ taskqueue_size]) (simp_all add: blocks, simp add: taskqueue_size_def)
  then have c: "valid ?h p 8" using cell_valid [OF hok] by simp
  have "tq_rep (?h\<lparr>hbytes := st64 p 0 (hbytes ?h)\<rparr>) \<lparr>head = p, tail = p, block = 1\<rparr> []"
    using hok blocks by (simp add: tq_rep_def)
  with p c h' blocks show ?thesis by (auto simp: taskqueue_create_def Let_def)
qed


lemma free_listed: "(p, n) \<in> set (hblocks h) \<Longrightarrow> p \<noteq> 0 \<Longrightarrow>
    h_free p h = Inr (h\<lparr>hblocks := filter (\<lambda>b. fst b \<noteq> p) (hblocks h)\<rparr>)"
  by (force simp: h_free_def)

lemma tq_rep_nonzero: "tq_rep h q ts \<Longrightarrow> 0 \<notin> set (head q # ts)"
  using chain_nonzero [of "hbytes h" "head q" ts] by (auto simp: tq_rep_def heap_ok_def)

lemma drain_rep:
  "tq_rep h q ts \<Longrightarrow> \<exists>q' h'. drain (q, h) = Some (Inr (q', h')) \<and> tq_rep h' q' [] \<and> head q' = head q \<and>
     hblocks h' = filter (\<lambda>b. fst b \<notin> set ts) (hblocks h)"
proof (induction ts arbitrary: q h)
  case Nil
  then have "drain (q, h) = Some (Inr (q, h))" by (subst drain.simps) (simp add: pop_task_empty)
  with Nil show ?case by simp
next
  case (Cons t ts)
  from pop_task_rep [OF Cons.prems] obtain q1 h1 where pop: "pop_task (q, h) = Inr (Some t, (q1, h1))"
    and rep: "tq_rep h1 q1 ts" and hd: "head q1 = head q" and blocks: "hblocks h1 = hblocks h" by fastforce
  have t: "(t, task_size) \<in> set (hblocks h1)" "t \<noteq> 0" "t \<notin> set (head q1 # ts)"
    using Cons.prems tq_rep_nonzero [OF Cons.prems] blocks hd by (auto simp: tq_rep_def)
  let ?h2 = "h1\<lparr>hblocks := filter (\<lambda>b. fst b \<noteq> t) (hblocks h1)\<rparr>"
  have free: "h_free t h1 = Inr ?h2" using t(1,2) by (rule free_listed)
  from Cons.IH [OF tq_rep_free [OF rep free t(3)]] obtain q' h' where
    "drain (q1, ?h2) = Some (Inr (q', h'))" "tq_rep h' q' []" "head q' = head q1"
    "hblocks h' = filter (\<lambda>b. fst b \<notin> set ts) (hblocks ?h2)" by blast
  moreover from this pop free have "drain (q, h) = Some (Inr (q', h'))" by (subst drain.simps) simp
  ultimately show ?case using blocks hd by (auto simp: conj_commute)
qed

lemma taskqueue_destroy_rep:
  assumes "tq_rep h q ts"
  shows "\<exists>h'. taskqueue_destroy q [QueueMutex, QueueCond] h = Some (Inr ([], h')) \<and>
    hblocks h' = filter (\<lambda>b. fst b \<notin> set (head q # ts)) (hblocks h)"
proof -
  from drain_rep [OF assms] obtain q' h1 where d: "drain (q, h) = Some (Inr (q', h1))" "tq_rep h1 q' []"
    "head q' = head q" "hblocks h1 = filter (\<lambda>b. fst b \<notin> set ts) (hblocks h)" by blast
  have "(head q', taskqueue_size) \<in> set (hblocks h1)" "head q' \<noteq> 0"
    using d(2) tq_rep_nonzero [OF d(2)] by (auto simp: tq_rep_def)
  from free_listed [OF this] d show ?thesis
    by (simp add: taskqueue_destroy_def) (metis (no_types, lifting) filter_cong)
qed

subsection \<open>Properties\<close>

text \<open>
  \<open>__taskqueue_create\<close>. When the allocation and both initialisations succeed it answers an
  empty queue in blocking mode. When one of them fails it answers null, with every object it had
  initialised destroyed and the structure freed: the live blocks are those from before the call.
\<close>

theorem taskqueue_create_correct:
  assumes "heap_ok h" "p = 0 \<or> fresh p taskqueue_size h"
  shows "\<exists>qo res h'. taskqueue_create p r_mutex r_cond h = Inr (qo, res, h') \<and>
    (if p \<noteq> 0 \<and> r_mutex = 0 \<and> r_cond = 0
     then \<exists>q. qo = Some q \<and> res = [QueueMutex, QueueCond] \<and> tq_rep h' q [] \<and> head q = p \<and> block q = 1 \<and>
       hblocks h' = (p, taskqueue_size) # hblocks h
     else qo = None \<and> res = [] \<and> hblocks h' = hblocks h)"
  using assms by (rule taskqueue_create_rep)

text \<open>
  C19: any sequence of \<open>__add_task\<close> and \<open>__pop_task\<close> calls on tasks that the client owns runs
  without a fault and answers what a list queue answers: tasks come out once each, in the order
  they went in, and null exactly when none is left.
\<close>

theorem taskqueue_refines_list:
  assumes "tq_rep h q ts" "distinct (puts_of ops)"
    and "\<forall>t \<in> set (puts_of ops). (t, task_size) \<in> set (hblocks h) \<and> t \<notin> set (head q # ts)"
  shows "\<exists>s'. run_queue add_task pop_task ops (q, h) = Inr (fst (list_queue ops ts), s') \<and>
    tq_fifo s' (snd (list_queue ops ts))"
proof (rule task_queue.run_refines)
  show "tq_fifo (q, h) ts" using assms(1) by (simp add: tq_fifo_def)
  show "sorted_wrt (\<noteq>) (puts_of ops)" using assms(2) by (simp add: sorted_wrt_neq)
  show "\<forall>t \<in> set (puts_of ops). tq_usable t (q, h)"
    using assms(1,3) by (auto simp: tq_usable_def dest: tq_rep_unique)
qed

text \<open>
  \<open>__taskqueue_destroy\<close> returns, on a queue of any length; it frees the tasks that are still
  in the queue and the queue, each exactly once, and no other block, and destroys both
  synchronisation objects.
\<close>

theorem taskqueue_destroy_frees:
  assumes "tq_rep h q ts"
  shows "\<exists>h'. taskqueue_destroy q [QueueMutex, QueueCond] h = Some (Inr ([], h')) \<and>
    hblocks h' = filter (\<lambda>b. fst b \<notin> set (head q # ts)) (hblocks h)"
  using assms by (rule taskqueue_destroy_rep)

definition small_heap :: heap where
  "small_heap = \<lparr>hbytes = (\<lambda>_. 0), hblocks = [(4096, 112), (8192, 24), (8256, 24)]\<rparr>"

definition small_queue :: task_queue_t where
  "small_queue = \<lparr>head = 4096, tail = 4096, block = 1\<rparr>"

lemma small_rep: "tq_rep small_heap small_queue []"
  by (simp add: tq_rep_def small_heap_def small_queue_def heap_ok_def room_def blocks_apart_def apart_def
      taskqueue_size_def) (simp add: ld64_def eval_nat_numeral)

theorem taskqueue_create_correct_witness:
  "\<exists>q h. taskqueue_create 4096 0 0 \<lparr>hbytes = (\<lambda>_. 0), hblocks = []\<rparr> = Inr (Some q, [QueueMutex, QueueCond], h) \<and>
     tq_rep h q [] \<and> block q = 1"
  using taskqueue_create_correct [of "\<lparr>hbytes = (\<lambda>_. 0), hblocks = []\<rparr>" 4096 0 0]
  by (auto simp: heap_ok_def fresh_def room_def taskqueue_size_def)

theorem taskqueue_refines_list_witness:
  "\<exists>s'. run_queue add_task pop_task [Put 8192, Put 8256, Get, Get, Get] (small_queue, small_heap)
     = Inr ([Some 8192, Some 8256, None], s')"
  using taskqueue_refines_list [OF small_rep, of "[Put 8192, Put 8256, Get, Get, Get]"]
  by (auto simp: small_heap_def small_queue_def task_size_def)

theorem taskqueue_destroy_frees_witness:
  "\<exists>h'. taskqueue_destroy small_queue [QueueMutex, QueueCond] small_heap = Some (Inr ([], h')) \<and>
     hblocks h' = [(8192, 24), (8256, 24)]"
  using taskqueue_destroy_frees [OF small_rep] by (auto simp: small_heap_def small_queue_def)

end
