(* ===== verification/Thrdpool.thy ===== *)
theory Thrdpool
  imports Taskqueue
begin

text \<open>
  Creating and winding up the thread pool (\<^verbatim>\<open>thrd_pool.c\<close>): the sequential functions of the
  thread that owns the pool, with every resource they create and release: blocks of the heap, the
  thread attributes, the queue's synchronisation objects and the running threads. The calls that
  may fail have their answers as arguments (\<open>create_env\<close>). What the workers and the posting
  threads do meanwhile is the subject of \<open>Thrdpool_Conc\<close>.
\<close>

subsection \<open>The pool and its functions\<close>

definition pool_size :: nat where
  "pool_size = 24"

record thrdpool_t =
  pool :: addr
  task_queue :: task_queue_t
  quit :: int
  thrd_count :: int
  threads :: addr

record create_env =
  a_pool :: addr               \<comment> \<open>what the three \<open>malloc\<close> calls answer\<close>
  a_queue :: addr
  a_threads :: addr
  r_mutex :: int               \<comment> \<open>what the three \<open>init\<close> calls answer\<close>
  r_cond :: int
  r_attr :: int
  n_ok :: nat                  \<comment> \<open>how many \<open>pthread_create\<close> calls succeed before the first failure\<close>
  tid :: "nat \<Rightarrow> addr"         \<comment> \<open>the handles they store\<close>

record pool_sys =
  pheap :: heap
  running :: "addr list"       \<comment> \<open>the threads that were created and not joined\<close>
  objects :: "queue_resource list"
  attr_live :: bool

definition threads_slot :: "addr \<Rightarrow> nat \<Rightarrow> addr" where
  "threads_slot a i = a + of_nat (8 * i)"

text \<open>The loop of \<open>__threads_create\<close>, with the number of rounds left, and the join loop.\<close>

primrec start_threads :: "create_env \<Rightarrow> addr \<Rightarrow> nat \<Rightarrow> nat \<Rightarrow> pool_sys \<Rightarrow> fault + (nat \<times> pool_sys)" where
  "start_threads e a 0 i s = Inr (i, s)"
| "start_threads e a (Suc k) i s =
     (if i < n_ok e
      then bindE (wr64 (pheap s) (threads_slot a i) (tid e i)) (\<lambda>h.
           start_threads e a k (Suc i) (s\<lparr>pheap := h, running := running s @ [tid e i]\<rparr>))
      else Inr (i, s))"

primrec join_threads :: "addr \<Rightarrow> nat \<Rightarrow> nat \<Rightarrow> pool_sys \<Rightarrow> fault + pool_sys" where
  "join_threads a 0 i s = Inr s"
| "join_threads a (Suc k) i s =
     bindE (rd64 (pheap s) (threads_slot a i)) (\<lambda>t.
     bindE (assertE (BadIndex (int i)) (t \<in> set (running s))) (\<lambda>_.
     join_threads a k (Suc i) (s\<lparr>running := remove1 t (running s)\<rparr>)))"

definition threads_terminate :: "thrdpool_t \<Rightarrow> pool_sys \<Rightarrow> fault + (thrdpool_t \<times> pool_sys)" where
  "threads_terminate p s =
     (let p' = p\<lparr>quit := 1, task_queue := nonblock_flag (task_queue p)\<rparr> in
      bindE (join_threads (threads p) (nat (thrd_count p)) 0 s) (\<lambda>s'. Inr (p', s')))"

text \<open>
  \<open>__threads_create\<close>: the \<open>int\<close> counter is compared with the \<open>size_t\<close> argument. It answers
  the return value, the pool and the state.
\<close>

definition threads_create ::
    "create_env \<Rightarrow> thrdpool_t \<Rightarrow> nat \<Rightarrow> pool_sys \<Rightarrow> fault + (int \<times> thrdpool_t \<times> pool_sys)" where
  "threads_create e p n s0 =
     (if r_attr e \<noteq> 0 then Inr (r_attr e, p, s0)
      else
        let s = s0\<lparr>attr_live := True, pheap := h_malloc (a_threads e) ((8 * n) mod 2 ^ 64) (pheap s0)\<rparr>;
            p1 = p\<lparr>threads := a_threads e\<rparr>
        in if a_threads e = 0 then Inr (-1, p1, s)
           else bindE (start_threads e (a_threads e) n 0 s) (\<lambda>(i, s1).
             let p2 = p1\<lparr>thrd_count := int i\<rparr>; s2 = s1\<lparr>attr_live := False\<rparr> in
             if i = n then Inr (0, p2, s2)
             else bindE (threads_terminate p2 s2) (\<lambda>(p3, s3).
               bindE (h_free (threads p3) (pheap s3)) (\<lambda>h. Inr (-1, p3, s3\<lparr>pheap := h\<rparr>)))))"

text \<open>\<open>thrdpool_create\<close>; the queue's loop makes the result an option, \<open>None\<close> for not returning.\<close>

definition thrdpool_create ::
    "create_env \<Rightarrow> int \<Rightarrow> pool_sys \<Rightarrow> (fault + (thrdpool_t option \<times> pool_sys)) option" where
  "thrdpool_create e count s0 =
     (let s = s0\<lparr>pheap := h_malloc (a_pool e) pool_size (pheap s0)\<rparr>;
          give_up = (\<lambda>s. bindE (h_free (a_pool e) (pheap s)) (\<lambda>h. Inr (None, s\<lparr>pheap := h\<rparr>)))
      in if a_pool e = 0 then Some (Inr (None, s))
         else case taskqueue_create (a_queue e) (r_mutex e) (r_cond e) (pheap s) of
           Inl f \<Rightarrow> Some (Inl f)
         | Inr (None, objs, h) \<Rightarrow> Some (give_up (s\<lparr>pheap := h, objects := objs @ objects s\<rparr>))
         | Inr (Some queue, objs, h) \<Rightarrow>
             (case threads_create e \<lparr>pool = a_pool e, task_queue = queue, quit = 0, thrd_count = 0, threads = 0\<rparr>
                     (size_t_of_int count) (s\<lparr>pheap := h, objects := objs @ objects s\<rparr>) of
                Inl f \<Rightarrow> Some (Inl f)
              | Inr (r, p, s1) \<Rightarrow>
                  if r = 0 then Some (Inr (Some p, s1))
                  else map_option (\<lambda>d. bindE d (\<lambda>(objs', h1). give_up (s1\<lparr>pheap := h1, objects := objs'\<rparr>)))
                    (taskqueue_destroy (task_queue p) (objects s1) (pheap s1))))"

definition thrdpool_waitdone :: "thrdpool_t \<Rightarrow> pool_sys \<Rightarrow> (fault + pool_sys) option" where
  "thrdpool_waitdone p s0 =
     (case join_threads (threads p) (nat (thrd_count p)) 0 s0 of
        Inl f \<Rightarrow> Some (Inl f)
      | Inr s \<Rightarrow>
          map_option (\<lambda>d. bindE d (\<lambda>(objs, h1).
            bindE (h_free (threads p) h1) (\<lambda>h2.
            bindE (h_free (pool p) h2) (\<lambda>h3. Inr (s\<lparr>pheap := h3, objects := objs\<rparr>)))))
          (taskqueue_destroy (task_queue p) (objects s) (pheap s)))"

subsection \<open>The array of handles\<close>

primrec handles :: "mem \<Rightarrow> addr \<Rightarrow> nat \<Rightarrow> addr list \<Rightarrow> bool" where
  "handles m a i [] \<longleftrightarrow> True"
| "handles m a i (t # ts) \<longleftrightarrow> ld64 m (threads_slot a i) = t \<and> handles m a (Suc i) ts"

lemma thread_slot_valid:
  "heap_ok h \<Longrightarrow> (a, 8 * n) \<in> set (hblocks h) \<Longrightarrow> i < n \<Longrightarrow> valid h (threads_slot a i) 8 \<and> room (threads_slot a i) 8"
  unfolding threads_slot_def using field_valid(1) [of h a "8 * n" "8 * i" 8] valid_room by auto

lemma thread_slots_apart:
  "heap_ok h \<Longrightarrow> (a, 8 * n) \<in> set (hblocks h) \<Longrightarrow> i < n \<Longrightarrow> j < n \<Longrightarrow> i \<noteq> j \<Longrightarrow>
     apart (threads_slot a i) 8 (threads_slot a j) 8"
  unfolding threads_slot_def by (rule fields_apart [of h a "8 * n" a "8 * n"]) linarith+

lemma slot_cell_apart:
  "heap_ok h \<Longrightarrow> (a, 8 * n) \<in> set (hblocks h) \<Longrightarrow> i < n \<Longrightarrow> tq_cell h c \<Longrightarrow> c \<noteq> a \<Longrightarrow>
     apart (threads_slot a i) 8 c 8"
  unfolding threads_slot_def tq_cell_def using fields_apart [of h a "8 * n" c _ "8 * i" 8 0 8] by auto

lemma tq_rep_slot:
  assumes "tq_rep h q ts" "(a, 8 * n) \<in> set (hblocks h)" "i < n" "a \<notin> set (head q # ts)"
  shows "tq_rep (h\<lparr>hbytes := st64 (threads_slot a i) v (hbytes h)\<rparr>) q ts"
proof -
  have hok: "heap_ok h" using assms(1) by (simp add: tq_rep_def)
  have "\<forall>c \<in> set (head q # ts). apart (threads_slot a i) 8 c 8"
    using tq_cells [OF assms(1)] slot_cell_apart [OF hok assms(2,3)] assms(4) by metis
  with thread_slot_valid [OF hok assms(2,3)] show ?thesis by (intro tq_rep_write [OF assms(1)]) auto
qed

lemma handles_frame:
  assumes "heap_ok h" "(a, 8 * n) \<in> set (hblocks h)" "j < i" "i + length ts \<le> n"
  shows "handles (st64 (threads_slot a j) v m) a i ts = handles m a i ts"
  using assms(3,4)
proof (induction ts arbitrary: i)
  case (Cons t ts)
  then have "ld64 (st64 (threads_slot a j) v m) (threads_slot a i) = ld64 m (threads_slot a i)"
    using thread_slot_valid [OF assms(1,2)] thread_slots_apart [OF assms(1,2), of j i] by (simp add: mem_simps)
  with Cons show ?case by simp
qed simp


lemma start_threads_spec:
  assumes "heap_ok (pheap s)" "(a, 8 * n) \<in> set (hblocks (pheap s))" "i + k = n"
  shows "\<exists>h'. start_threads e a k i s = Inr (max i (min n (n_ok e)),
      s\<lparr>pheap := h', running := running s @ map (tid e) [i..<max i (min n (n_ok e))]\<rparr>) \<and>
    heap_ok h' \<and> hblocks h' = hblocks (pheap s) \<and>
    handles (hbytes h') a i (map (tid e) [i..<max i (min n (n_ok e))]) \<and>
    (\<forall>j < i. ld64 (hbytes h') (threads_slot a j) = ld64 (hbytes (pheap s)) (threads_slot a j)) \<and>
    (\<forall>q ts. tq_rep (pheap s) q ts \<longrightarrow> a \<notin> set (head q # ts) \<longrightarrow> tq_rep h' q ts)"
  using assms
proof (induction k arbitrary: i s)
  case 0
  then show ?case by (intro exI [of _ "pheap s"]) simp
next
  case (Suc k)
  show ?case
  proof (cases "i < n_ok e")
    case False
    then have "max i (min n (n_ok e)) = i" by simp
    with False Suc.prems(1) show ?thesis by (intro exI [of _ "pheap s"]) simp
  next
    case True
    let ?h = "(pheap s)\<lparr>hbytes := st64 (threads_slot a i) (tid e i) (hbytes (pheap s))\<rparr>"
    let ?s = "s\<lparr>pheap := ?h, running := running s @ [tid e i]\<rparr>"
    let ?m = "max (Suc i) (min n (n_ok e))"
    have i: "i < n" using Suc.prems(3) by simp
    have v: "valid (pheap s) (threads_slot a i) 8" "room (threads_slot a i) 8"
      using thread_slot_valid [OF Suc.prems(1,2) i] by auto
    have m: "max i (min n (n_ok e)) = ?m" using True i by simp
    have upt: "[i..<?m] = i # [Suc i..<?m]" by (rule upt_rec [THEN trans]) simp
    from Suc.IH [of ?s "Suc i"] Suc.prems obtain h' where
      go: "start_threads e a k (Suc i) ?s = Inr (?m, ?s\<lparr>pheap := h', running := running ?s @ map (tid e) [Suc i..<?m]\<rparr>)"
      and h': "heap_ok h'" "hblocks h' = hblocks (pheap s)" "handles (hbytes h') a (Suc i) (map (tid e) [Suc i..<?m])"
      and old: "\<forall>j < Suc i. ld64 (hbytes h') (threads_slot a j) = ld64 (hbytes ?h) (threads_slot a j)"
      and rep: "\<forall>q ts. tq_rep ?h q ts \<longrightarrow> a \<notin> set (head q # ts) \<longrightarrow> tq_rep h' q ts"
      by auto
    have "ld64 (hbytes h') (threads_slot a i) = tid e i" using old by simp
    moreover have "\<forall>j < i. ld64 (hbytes h') (threads_slot a j) = ld64 (hbytes (pheap s)) (threads_slot a j)"
      using old thread_slots_apart [OF Suc.prems(1,2) i] thread_slot_valid [OF Suc.prems(1,2)] v i by (auto simp: mem_simps)
    moreover have "\<forall>q ts. tq_rep (pheap s) q ts \<longrightarrow> a \<notin> set (head q # ts) \<longrightarrow> tq_rep h' q ts"
      using rep tq_rep_slot [OF _ Suc.prems(2) i] by blast
    moreover have "start_threads e a (Suc k) i s =
        Inr (?m, s\<lparr>pheap := h', running := running s @ map (tid e) [i..<?m]\<rparr>)"
      unfolding upt using True v go by simp
    ultimately show ?thesis unfolding m upt using h' by (intro exI [of _ h']) simp
  qed
qed

lemma join_threads_spec:
  assumes "heap_ok (pheap s)" "(a, 8 * n) \<in> set (hblocks (pheap s))" "i + length ts \<le> n"
    and "handles (hbytes (pheap s)) a i ts" "running s = ts"
  shows "join_threads a (length ts) i s = Inr (s\<lparr>running := []\<rparr>)"
  using assms
proof (induction ts arbitrary: i s)
  case (Cons t ts)
  then have "valid (pheap s) (threads_slot a i) 8" using thread_slot_valid [of "pheap s" a n i] by simp
  with Cons.prems Cons.IH [of "s\<lparr>running := ts\<rparr>" "Suc i"] show ?case by (simp add: assertE_def)
qed simp

lemma queue_after_create:
  assumes "heap_ok h" "p = 0 \<or> fresh p taskqueue_size h"
  obtains (ok) q h' where "taskqueue_create p rm rc h = Inr (Some q, [QueueMutex, QueueCond], h')"
      "p \<noteq> 0" "rm = 0" "rc = 0" "tq_rep h' q []" "head q = p" "block q = 1" "hblocks h' = (p, taskqueue_size) # hblocks h"
  | (fail) h' where "taskqueue_create p rm rc h = Inr (None, [], h')"
      "\<not> (p \<noteq> 0 \<and> rm = 0 \<and> rc = 0)" "hblocks h' = hblocks h"
  using taskqueue_create_rep [OF assms, of rm rc] by (auto split: if_splits)


lemma tq_rep_nonblock [simp]: "tq_rep h (nonblock_flag q) ts = tq_rep h q ts" "head (nonblock_flag q) = head q"
  by (simp_all add: tq_rep_def nonblock_flag_def)

lemma fresh_not_listed: "fresh a n h \<Longrightarrow> tq_rep h q ts \<Longrightarrow> a \<notin> set (head q # ts)"
  by (force simp: fresh_def tq_rep_def)

lemma free_fresh: "fresh a n h \<Longrightarrow> hblocks h' = (a, n) # hblocks h \<Longrightarrow>
    h_free a h' = Inr (h'\<lparr>hblocks := hblocks h\<rparr>)"
  by (auto simp: fresh_def h_free_def filter_id_conv)

lemma threads_create_spec:
  assumes rep: "tq_rep (pheap s) (task_queue p) []" and n: "8 * n < 2 ^ 64"
    and a: "a_threads e = 0 \<or> fresh (a_threads e) (8 * n) (pheap s)"
    and s: "running s = []" "\<not> attr_live s"
  shows "\<exists>r p' s'. threads_create e p n s = Inr (r, p', s') \<and> objects s' = objects s \<and> pool p' = pool p \<and>
    tq_rep (pheap s') (task_queue p') [] \<and> head (task_queue p') = head (task_queue p) \<and>
    (if r_attr e = 0 \<and> a_threads e \<noteq> 0 \<and> n \<le> n_ok e
     then r = 0 \<and> p' = p\<lparr>threads := a_threads e, thrd_count := int n\<rparr> \<and>
       handles (hbytes (pheap s')) (a_threads e) 0 (running s') \<and> running s' = map (tid e) [0..<n] \<and>
       hblocks (pheap s') = (a_threads e, 8 * n) # hblocks (pheap s) \<and> \<not> attr_live s'
     else r \<noteq> 0 \<and> hblocks (pheap s') = hblocks (pheap s) \<and> running s' = [] \<and>
       (attr_live s' \<longleftrightarrow> r_attr e = 0 \<and> a_threads e = 0))"
proof (cases "r_attr e = 0 \<and> a_threads e \<noteq> 0")
  case False
  with rep s show ?thesis by (auto simp: threads_create_def h_malloc_def)
next
  case True
  with a have fr: "fresh (a_threads e) (8 * n) (pheap s)" by simp
  let ?a = "a_threads e" and ?k = "min n (n_ok e)"
  let ?s = "s\<lparr>attr_live := True, pheap := h_malloc ?a (8 * n) (pheap s)\<rparr>"
  have hok: "heap_ok (pheap s)" using rep by (simp add: tq_rep_def)
  have blocks: "hblocks (pheap ?s) = (?a, 8 * n) # hblocks (pheap s)" using True by (simp add: h_malloc_def)
  from start_threads_spec [of ?s ?a n 0 n e] heap_ok_malloc [OF hok fr] blocks s obtain h' where
    st: "start_threads e ?a n 0 ?s = Inr (?k, ?s\<lparr>pheap := h', running := map (tid e) [0..<?k]\<rparr>)"
    and h': "heap_ok h'" "hblocks h' = (?a, 8 * n) # hblocks (pheap s)" "handles (hbytes h') ?a 0 (map (tid e) [0..<?k])"
    and keep: "\<forall>q ts. tq_rep (pheap ?s) q ts \<longrightarrow> ?a \<notin> set (head q # ts) \<longrightarrow> tq_rep h' q ts"
    by auto
  have rep': "tq_rep h' (task_queue p) []"
    using keep tq_rep_malloc [OF rep fr] fresh_not_listed [OF fr rep] by simp
  show ?thesis
  proof (cases "n \<le> n_ok e")
    case all: True
    then have "?k = n" by simp
    with True st h' rep' n show ?thesis by (simp add: threads_create_def Let_def)
  next
    case part: False
    let ?s2 = "?s\<lparr>pheap := h', running := map (tid e) [0..<?k], attr_live := False\<rparr>"
    from part have k: "?k = n_ok e" "n_ok e < n" by simp_all
    have join: "join_threads ?a ?k 0 ?s2 = Inr (?s2\<lparr>running := []\<rparr>)"
      using join_threads_spec [of ?s2 ?a n 0 "map (tid e) [0..<?k]"] h' by simp
    have free: "h_free ?a h' = Inr (h'\<lparr>hblocks := hblocks (pheap s)\<rparr>)" using fr h'(2) by (rule free_fresh)
    have "tq_rep (h'\<lparr>hblocks := hblocks (pheap s)\<rparr>) (task_queue p) []"
      using tq_rep_free [OF rep' free] fresh_not_listed [OF fr rep] by simp
    with True part k st h' join free n show ?thesis
      by (simp add: threads_create_def threads_terminate_def Let_def)
  qed
qed


subsection \<open>A pool that is ready\<close>

definition pool_ready :: "thrdpool_t \<Rightarrow> pool_sys \<Rightarrow> addr list \<Rightarrow> bool" where
  "pool_ready p s ts \<longleftrightarrow>
     tq_rep (pheap s) (task_queue p) ts \<and> thrd_count p = int (length (running s)) \<and>
     (pool p, pool_size) \<in> set (hblocks (pheap s)) \<and>
     (threads p, 8 * length (running s)) \<in> set (hblocks (pheap s)) \<and>
     distinct (pool p # threads p # head (task_queue p) # ts) \<and>
     handles (hbytes (pheap s)) (threads p) 0 (running s) \<and> objects s = [QueueMutex, QueueCond]"

definition all_calls_succeed :: "create_env \<Rightarrow> nat \<Rightarrow> bool" where
  "all_calls_succeed e n \<longleftrightarrow> a_pool e \<noteq> 0 \<and> a_queue e \<noteq> 0 \<and> r_mutex e = 0 \<and> r_cond e = 0 \<and>
     r_attr e = 0 \<and> a_threads e \<noteq> 0 \<and> n \<le> n_ok e"

definition create_may :: "create_env \<Rightarrow> nat \<Rightarrow> heap \<Rightarrow> bool" where
  "create_may e n h \<longleftrightarrow> heap_ok h \<and> (a_pool e = 0 \<or> fresh (a_pool e) pool_size h) \<and>
     (a_queue e = 0 \<or> fresh (a_queue e) taskqueue_size (h_malloc (a_pool e) pool_size h)) \<and>
     (a_threads e = 0 \<or>
        fresh (a_threads e) (8 * n) (h_malloc (a_queue e) taskqueue_size (h_malloc (a_pool e) pool_size h)))"

lemma fresh_blocks: "hblocks h' = hblocks h \<Longrightarrow> fresh a n h' = fresh a n h"
  by (simp add: fresh_def)

lemma waitdone_spec:
  assumes "pool_ready p s ts"
  shows "\<exists>s'. thrdpool_waitdone p s = Some (Inr s') \<and> running s' = [] \<and> objects s' = [] \<and>
    hblocks (pheap s') =
      filter (\<lambda>b. fst b \<notin> set (pool p # threads p # head (task_queue p) # ts)) (hblocks (pheap s))"
proof -
  let ?n = "length (running s)" and ?q = "task_queue p"
  have rep: "tq_rep (pheap s) ?q ts" and hok: "heap_ok (pheap s)"
    using assms by (simp_all add: pool_ready_def tq_rep_def)
  have join: "join_threads (threads p) (nat (thrd_count p)) 0 s = Inr (s\<lparr>running := []\<rparr>)"
    using join_threads_spec [OF hok, of "threads p" ?n 0 "running s"] assms by (simp add: pool_ready_def)
  obtain h1 where des: "taskqueue_destroy ?q (objects s) (pheap s) = Some (Inr ([], h1))"
    and b1: "hblocks h1 = filter (\<lambda>b. fst b \<notin> set (head ?q # ts)) (hblocks (pheap s))"
    using taskqueue_destroy_rep [OF rep] assms by (auto simp: pool_ready_def)
  have nz: "threads p \<noteq> 0" "pool p \<noteq> 0" using assms hok by (auto simp: pool_ready_def heap_ok_def)
  have "(threads p, 8 * ?n) \<in> set (hblocks h1)" using assms b1 by (auto simp: pool_ready_def)
  note f1 = free_listed [OF this nz(1)]
  let ?h2 = "h1\<lparr>hblocks := filter (\<lambda>b. fst b \<noteq> threads p) (hblocks h1)\<rparr>"
  have "(pool p, pool_size) \<in> set (hblocks ?h2)" using assms b1 by (auto simp: pool_ready_def)
  note f2 = free_listed [OF this nz(2)]
  show ?thesis using join des f1 f2 b1
    by (auto simp: thrdpool_waitdone_def intro!: filter_cong)
qed

lemma count_bound: "0 \<le> count \<Longrightarrow> int32 count \<Longrightarrow> size_t_of_int count = nat count \<and> 8 * nat count < 2 ^ 64"
  by (auto simp: int32_def size_t_of_int_nonneg)

text \<open>The two ends of \<open>thrdpool_create\<close> once the pool's block and the queue are there.\<close>

lemma create_with_queue:
  assumes may: "create_may e (nat count) (pheap s)" and n: "0 \<le> count" "int32 count"
    and s: "running s = []" "objects s = []" "\<not> attr_live s" and p: "a_pool e \<noteq> 0"
    and q: "taskqueue_create (a_queue e) (r_mutex e) (r_cond e) (h_malloc (a_pool e) pool_size (pheap s)) =
        Inr (Some q, [QueueMutex, QueueCond], h1)" "a_queue e \<noteq> 0" "r_mutex e = 0" "r_cond e = 0"
      "tq_rep h1 q []" "head q = a_queue e" "block q = 1"
      "hblocks h1 = (a_queue e, taskqueue_size) # hblocks (h_malloc (a_pool e) pool_size (pheap s))"
  shows "\<exists>po s'. thrdpool_create e count s = Some (Inr (po, s')) \<and>
    (if all_calls_succeed e (nat count)
     then \<exists>p. po = Some p \<and> pool_ready p s' [] \<and> quit p = 0 \<and> block (task_queue p) = 1 \<and>
       running s' = map (tid e) [0..<nat count] \<and> \<not> attr_live s' \<and>
       hblocks (pheap s') = (threads p, 8 * nat count) # (head (task_queue p), taskqueue_size) #
         (pool p, pool_size) # hblocks (pheap s)
     else po = None \<and> hblocks (pheap s') = hblocks (pheap s) \<and> running s' = [] \<and> objects s' = [] \<and>
       (attr_live s' \<longleftrightarrow> r_attr e = 0 \<and> a_threads e = 0))"
proof -
  let ?n = "nat count" and ?q = "a_queue e" and ?a = "a_threads e"
  let ?p = "\<lparr>pool = a_pool e, task_queue = q, quit = 0, thrd_count = 0, threads = 0\<rparr>"
  let ?s = "s\<lparr>pheap := h1, objects := [QueueMutex, QueueCond]\<rparr>"
  have b1: "hblocks h1 = (?q, taskqueue_size) # (a_pool e, pool_size) # hblocks (pheap s)"
    using q(8) p by (simp add: h_malloc_def)
  have frp: "fresh (a_pool e) pool_size (pheap s)" using may p by (simp add: create_may_def)
  have frq: "fresh ?q taskqueue_size (h_malloc (a_pool e) pool_size (pheap s))"
    using may q(2) by (simp add: create_may_def)
  have "hblocks h1 = hblocks (h_malloc ?q taskqueue_size (h_malloc (a_pool e) pool_size (pheap s)))"
    using q(2) p b1 by (simp add: h_malloc_def)
  from fresh_blocks [OF this] have fra: "?a = 0 \<or> fresh ?a (8 * ?n) h1" using may by (simp add: create_may_def)
  have rep: "tq_rep (pheap ?s) (task_queue ?p) []" using q(5) by simp
  have fra': "?a = 0 \<or> fresh ?a (8 * ?n) (pheap ?s)" using fra by simp
  have rs: "running ?s = []" "\<not> attr_live ?s" using s by simp_all
  have cb: "8 * ?n < 2 ^ 64" using count_bound [OF n] by simp
  have pb: "hblocks (pheap ?s) = hblocks h1" "objects ?s = [QueueMutex, QueueCond]" "head (task_queue ?p) = ?q"
    using q(6) by simp_all
  from threads_create_spec [OF rep cb fra' rs, unfolded pb] obtain r p' s' where
    tc: "threads_create e ?p ?n ?s = Inr (r, p', s')"
    and obj: "objects s' = [QueueMutex, QueueCond]" and rep': "tq_rep (pheap s') (task_queue p') []"
    and hd: "head (task_queue p') = ?q"
    and res: "if r_attr e = 0 \<and> ?a \<noteq> 0 \<and> ?n \<le> n_ok e
     then r = 0 \<and> p' = ?p\<lparr>threads := ?a, thrd_count := int ?n\<rparr> \<and>
       handles (hbytes (pheap s')) ?a 0 (running s') \<and> running s' = map (tid e) [0..<?n] \<and>
       hblocks (pheap s') = (?a, 8 * ?n) # hblocks h1 \<and> \<not> attr_live s'
     else r \<noteq> 0 \<and> hblocks (pheap s') = hblocks h1 \<and> running s' = [] \<and>
       (attr_live s' \<longleftrightarrow> r_attr e = 0 \<and> ?a = 0)" by blast
  show ?thesis
  proof (cases "all_calls_succeed e ?n")
    case True
    with res have r: "r = 0" "p' = ?p\<lparr>threads := ?a, thrd_count := int ?n\<rparr>" "hblocks (pheap s') = (?a, 8 * ?n) # hblocks h1"
      "handles (hbytes (pheap s')) ?a 0 (running s')" "running s' = map (tid e) [0..<?n]" "\<not> attr_live s'"
      by (auto simp: all_calls_succeed_def)
    have "?a \<noteq> a_pool e" "?a \<noteq> ?q" using fra True b1 by (auto simp: all_calls_succeed_def fresh_def)
    moreover have "?q \<noteq> a_pool e" using frq p by (auto simp: fresh_def h_malloc_def)
    ultimately have "pool_ready p' s' []"
      using r obj rep' q(6) b1 by (auto simp: pool_ready_def)
    with True tc r p q b1 s count_bound [OF n] show ?thesis
      by (simp add: thrdpool_create_def Let_def)
  next
    case False
    with p q have no: "\<not> (r_attr e = 0 \<and> ?a \<noteq> 0 \<and> ?n \<le> n_ok e)" by (auto simp: all_calls_succeed_def)
    from res [unfolded if_not_P [OF no]] have r: "r \<noteq> 0" "hblocks (pheap s') = hblocks h1" "running s' = []"
      "attr_live s' \<longleftrightarrow> r_attr e = 0 \<and> ?a = 0" by simp_all
    from taskqueue_destroy_rep [OF rep'] obj obtain h2 where
      des: "taskqueue_destroy (task_queue p') (objects s') (pheap s') = Some (Inr ([], h2))"
      and b2: "hblocks h2 = filter (\<lambda>b. fst b \<noteq> ?q) (hblocks h1)" using r hd by auto
    have "filter (\<lambda>b. fst b \<noteq> ?q) (hblocks h1) = (a_pool e, pool_size) # hblocks (pheap s)"
      using frq p b1 by (auto simp: fresh_def h_malloc_def filter_id_conv)
    with b2 have free: "h_free (a_pool e) h2 = Inr (h2\<lparr>hblocks := hblocks (pheap s)\<rparr>)"
      using free_fresh [OF frp] by simp
    show ?thesis using False tc r p q des free s count_bound [OF n]
      by (simp add: thrdpool_create_def Let_def)
  qed
qed

lemma thrdpool_create_split:
  assumes may: "create_may e (nat count) (pheap s)" and n: "0 \<le> count" "int32 count"
    and s: "running s = []" "objects s = []" "\<not> attr_live s" and p: "a_pool e \<noteq> 0"
  shows "\<exists>po s'. thrdpool_create e count s = Some (Inr (po, s')) \<and>
    (if all_calls_succeed e (nat count)
     then \<exists>p. po = Some p \<and> pool_ready p s' [] \<and> quit p = 0 \<and> block (task_queue p) = 1 \<and>
       running s' = map (tid e) [0..<nat count] \<and> \<not> attr_live s' \<and>
       hblocks (pheap s') = (threads p, 8 * nat count) # (head (task_queue p), taskqueue_size) #
         (pool p, pool_size) # hblocks (pheap s)
     else po = None \<and> hblocks (pheap s') = hblocks (pheap s) \<and> running s' = [] \<and> objects s' = [] \<and>
       (attr_live s' \<longleftrightarrow> a_pool e \<noteq> 0 \<and> a_queue e \<noteq> 0 \<and> r_mutex e = 0 \<and> r_cond e = 0 \<and> r_attr e = 0 \<and>
          a_threads e = 0))"
proof -
  let ?h = "h_malloc (a_pool e) pool_size (pheap s)"
  have frp: "fresh (a_pool e) pool_size (pheap s)" using may p by (simp add: create_may_def)
  have hok: "heap_ok ?h" using may frp by (simp add: create_may_def heap_ok_malloc)
  have frq: "a_queue e = 0 \<or> fresh (a_queue e) taskqueue_size ?h" using may by (simp add: create_may_def)
  show ?thesis
  proof (cases rule: queue_after_create [OF hok frq, of "r_mutex e" "r_cond e"])
    case (1 q h1)
    have eq: "(a_pool e \<noteq> 0 \<and> a_queue e \<noteq> 0 \<and> r_mutex e = 0 \<and> r_cond e = 0 \<and> r_attr e = 0 \<and> a_threads e = 0)
        \<longleftrightarrow> r_attr e = 0 \<and> a_threads e = 0" using 1(2-4) p by simp
    show ?thesis unfolding eq by (rule create_with_queue [OF may n s p 1])
  next
    case (2 h1)
    have "h_free (a_pool e) h1 = Inr (h1\<lparr>hblocks := hblocks (pheap s)\<rparr>)"
      using free_fresh [OF frp, of h1] 2(3) p by (simp add: h_malloc_def)
    with 2 p s show ?thesis by (auto simp: thrdpool_create_def all_calls_succeed_def)
  qed
qed

subsection \<open>Properties\<close>

text \<open>
  C28: \<open>thrdpool_create\<close>, for any count that is not negative. If every call it makes succeeds it
  answers a pool that is ready, with all its threads running and the queue empty and blocking. If
  any call fails, however many threads were already running, it answers null, every block is
  freed, every thread is joined and the queue's objects are destroyed again. One resource is lost:
  when the allocation of the thread array fails, the thread attributes are never destroyed.
\<close>

theorem thrdpool_create_correct:
  assumes "create_may e (nat count) (pheap s)" "0 \<le> count" "int32 count"
    and "running s = []" "objects s = []" "\<not> attr_live s"
  shows "\<exists>po s'. thrdpool_create e count s = Some (Inr (po, s')) \<and>
    (if all_calls_succeed e (nat count)
     then \<exists>p. po = Some p \<and> pool_ready p s' [] \<and> quit p = 0 \<and> block (task_queue p) = 1 \<and>
       running s' = map (tid e) [0..<nat count] \<and> \<not> attr_live s' \<and>
       hblocks (pheap s') = (threads p, 8 * nat count) # (head (task_queue p), taskqueue_size) #
         (pool p, pool_size) # hblocks (pheap s)
     else po = None \<and> hblocks (pheap s') = hblocks (pheap s) \<and> running s' = [] \<and> objects s' = [] \<and>
       (attr_live s' \<longleftrightarrow> a_pool e \<noteq> 0 \<and> a_queue e \<noteq> 0 \<and> r_mutex e = 0 \<and> r_cond e = 0 \<and> r_attr e = 0 \<and>
          a_threads e = 0))"
proof (cases "a_pool e = 0")
  case True
  with assms show ?thesis by (simp add: thrdpool_create_def all_calls_succeed_def h_malloc_def)
next
  case False
  with thrdpool_create_split [OF assms] show ?thesis by blast
qed

text \<open>
  \<open>thrdpool_waitdone\<close> on a pool that is ready, once its threads end: it returns, joins every
  thread it created, and frees the tasks left in the queue, the queue, the array and the pool,
  each exactly once and nothing else.
\<close>

theorem thrdpool_waitdone_releases:
  assumes "pool_ready p s ts"
  shows "\<exists>s'. thrdpool_waitdone p s = Some (Inr s') \<and> running s' = [] \<and> objects s' = [] \<and>
    hblocks (pheap s') =
      filter (\<lambda>b. fst b \<notin> set (pool p # threads p # head (task_queue p) # ts)) (hblocks (pheap s))"
  using assms by (rule waitdone_spec)

definition demo_env :: create_env where
  "demo_env = \<lparr>a_pool = 4096, a_queue = 4224, a_threads = 4480, r_mutex = 0, r_cond = 0, r_attr = 0,
     n_ok = 2, tid = (\<lambda>i. 7000 + of_nat i)\<rparr>"

definition no_pool :: pool_sys where
  "no_pool = \<lparr>pheap = \<lparr>hbytes = (\<lambda>_. 0), hblocks = [(1024, 64)]\<rparr>, running = [], objects = [], attr_live = False\<rparr>"

lemma demo_may: "create_may (demo_env\<lparr>n_ok := k, a_threads := if b then 0 else 4480\<rparr>) 2 (pheap no_pool)"
  by (simp add: create_may_def demo_env_def no_pool_def heap_ok_def fresh_def room_def h_malloc_def
      blocks_apart_def apart_def pool_size_def taskqueue_size_def)

text \<open>Two threads are asked for and only one starts; then, the array cannot be allocated.\<close>

theorem thrdpool_create_correct_witness:
  "(\<exists>s'. thrdpool_create (demo_env\<lparr>n_ok := 1, a_threads := 4480\<rparr>) 2 no_pool = Some (Inr (None, s')) \<and>
      running s' = [] \<and> hblocks (pheap s') = [(1024, 64)] \<and> \<not> attr_live s') \<and>
   (\<exists>s'. thrdpool_create (demo_env\<lparr>n_ok := 2, a_threads := 0\<rparr>) 2 no_pool = Some (Inr (None, s')) \<and>
      hblocks (pheap s') = [(1024, 64)] \<and> attr_live s')"
proof
  have c: "nat 2 = 2" "(0 :: int) \<le> 2" "int32 2" by (simp_all add: int32_def)
  have s: "running no_pool = []" "objects no_pool = []" "\<not> attr_live no_pool" by (simp_all add: no_pool_def)
  show "\<exists>s'. thrdpool_create (demo_env\<lparr>n_ok := 1, a_threads := 4480\<rparr>) 2 no_pool = Some (Inr (None, s')) \<and>
      running s' = [] \<and> hblocks (pheap s') = [(1024, 64)] \<and> \<not> attr_live s'"
    using thrdpool_create_correct [OF _ c(2,3) s, of "demo_env\<lparr>n_ok := 1, a_threads := 4480\<rparr>"] demo_may [where k = 1 and b = False]
    by (auto simp: all_calls_succeed_def demo_env_def no_pool_def)
  show "\<exists>s'. thrdpool_create (demo_env\<lparr>n_ok := 2, a_threads := 0\<rparr>) 2 no_pool = Some (Inr (None, s')) \<and>
      hblocks (pheap s') = [(1024, 64)] \<and> attr_live s'"
    using thrdpool_create_correct [OF _ c(2,3) s, of "demo_env\<lparr>n_ok := 2, a_threads := 0\<rparr>"] demo_may [where k = 2 and b = True]
    by (auto simp: all_calls_succeed_def demo_env_def no_pool_def)
qed

text \<open>Creating a pool of two threads and waiting for it leaves the heap as it was.\<close>

theorem thrdpool_waitdone_releases_witness:
  "\<exists>p s s'. thrdpool_create demo_env 2 no_pool = Some (Inr (Some p, s)) \<and>
     thrdpool_waitdone p s = Some (Inr s') \<and> running s' = [] \<and> hblocks (pheap s') = [(1024, 64)]"
proof -
  have may: "create_may demo_env (nat 2) (pheap no_pool)" using demo_may [where k = 2 and b = False] by (simp add: demo_env_def)
  have ok: "all_calls_succeed demo_env (nat 2)" by (simp add: all_calls_succeed_def demo_env_def)
  have s: "running no_pool = []" "objects no_pool = []" "\<not> attr_live no_pool" "a_pool demo_env \<noteq> 0"
    by (simp_all add: no_pool_def demo_env_def)
  from thrdpool_create_split [OF may _ _ s] ok obtain p s1 where
    c: "thrdpool_create demo_env 2 no_pool = Some (Inr (Some p, s1))" "pool_ready p s1 []"
    "hblocks (pheap s1) = (threads p, 16) # (head (task_queue p), taskqueue_size) # (pool p, pool_size) # [(1024, 64)]"
    by (auto simp: int32_def no_pool_def)
  have "heap_ok (pheap s1)" using c(2) by (simp add: pool_ready_def tq_rep_def)
  then have "threads p \<noteq> 1024" "head (task_queue p) \<noteq> 1024" "pool p \<noteq> 1024"
    using c(3) by (auto simp: heap_ok_def blocks_apart_def apart_def taskqueue_size_def pool_size_def)
  with thrdpool_waitdone_releases [OF c(2)] c(1,3) show ?thesis by auto
qed

end
