(* ===== verification/Thrdpool_Conc.thy ===== *)
theory Thrdpool_Conc
  imports Thrdpool
begin

text \<open>
  The thread pool at work (\<^verbatim>\<open>thrd_pool.c\<close>): its workers, and any number of threads that call
  \<open>thrdpool_post\<close> and \<open>thrdpool_terminate\<close>, the workers' own handlers among them. A step takes one
  thread from one access to shared state to the next: the atomic \<open>quit\<close>, the mutex and the
  condition variable, and the two critical sections of the queue's spin lock, each of which is one
  step (\<open>spin_mutual_exclusion\<close> of \<open>Spinlock\<close>) and runs the body of \<open>Taskqueue\<close> on the shared
  memory. \<open>pthread_cond_wait\<close> releases the mutex, may wake up at any time and takes the mutex
  again; a signal wakes one waiting thread if there is one.
\<close>

subsection \<open>The threads and their steps\<close>

datatype act =
    Calm                     \<comment> \<open>in none of the pool's functions\<close>
  | PostAlloc addr addr      \<comment> \<open>\<open>thrdpool_post\<close> has seen \<open>quit\<close> unset; at \<open>malloc\<close>\<close>
  | Add addr addr addr       \<comment> \<open>the task is filled in; at the spin lock of \<open>__add_task\<close>\<close>
  | Sig                      \<comment> \<open>at \<open>pthread_cond_signal\<close>\<close>
  | NbLock                   \<comment> \<open>\<open>quit\<close> is set; at the mutex of \<open>__nonblock\<close>\<close>
  | Bcast                    \<comment> \<open>at \<open>pthread_cond_broadcast\<close>\<close>

datatype tp_pc =
    Client act
  | Load                     \<comment> \<open>worker at the test of \<open>quit\<close>\<close>
  | Pop                      \<comment> \<open>at \<open>__pop_task\<close> in \<open>__get_task\<close>\<close>
  | Lock                     \<comment> \<open>the queue was empty; at the mutex\<close>
  | Test                     \<comment> \<open>holds the mutex, at the test of \<open>block\<close>\<close>
  | Wait                     \<comment> \<open>blocked in \<open>pthread_cond_wait\<close>\<close>
  | Wake                     \<comment> \<open>woken up, about to take the mutex again and release it\<close>
  | Got addr                 \<comment> \<open>has popped a task\<close>
  | Run addr addr act        \<comment> \<open>runs \<open>func(arg)\<close>, which may itself post or terminate\<close>
  | Done

record tp_sys =
  mem :: heap
  que :: task_queue_t
  quitv :: int
  mtx :: "nat option"
  pcs :: "nat \<Rightarrow> tp_pc"
  posted :: "(addr \<times> addr) list"          \<comment> \<open>function and argument of the tasks added, in order\<close>
  popped :: "(nat \<times> addr \<times> addr) list"   \<comment> \<open>which worker popped which task, in order\<close>
  ran :: "(nat \<times> addr \<times> addr) list"      \<comment> \<open>which worker started which task, in order\<close>
  base :: "(addr \<times> nat) list"            \<comment> \<open>the blocks that were live before the run\<close>
  crashed :: bool

fun act_of :: "tp_pc \<Rightarrow> act option" where
  "act_of (Client a) = Some a"
| "act_of (Run f x a) = Some a"
| "act_of _ = None"

fun with_act :: "tp_pc \<Rightarrow> act \<Rightarrow> tp_pc" where
  "with_act (Client _) a = Client a"
| "with_act (Run f x _) a = Run f x a"
| "with_act pc a = pc"

definition wake_all :: "tp_pc \<Rightarrow> tp_pc" where
  "wake_all pc = (if pc = Wait then Wake else pc)"

definition payload :: "heap \<Rightarrow> addr \<Rightarrow> addr \<times> addr" where
  "payload h p = (ld64 (hbytes h) (task_func p), ld64 (hbytes h) (task_arg p))"

text \<open>\<open>thrdpool_post\<close> up to the spin lock, and what a worker does with a task it has popped.\<close>

definition make_task :: "addr \<Rightarrow> addr \<Rightarrow> addr \<Rightarrow> heap \<Rightarrow> fault + heap" where
  "make_task p f x h =
     bindE (wr64 (h_malloc p task_size h) (task_func p) f) (\<lambda>h1.
     bindE (wr64 h1 (task_arg p) x) (\<lambda>h2.
     add_enter p h2))"

definition take_task :: "addr \<Rightarrow> heap \<Rightarrow> fault + (addr \<times> addr \<times> heap)" where
  "take_task p h =
     bindE (rd64 h (task_func p)) (\<lambda>f.
     bindE (rd64 h (task_arg p)) (\<lambda>x.
     bindE (h_free p h) (\<lambda>h1. Inr (f, x, h1))))"

definition tp_crash :: "tp_sys \<Rightarrow> fault + 'a \<Rightarrow> ('a \<Rightarrow> tp_sys) \<Rightarrow> tp_sys" where
  "tp_crash s r k = (case r of Inl e \<Rightarrow> s\<lparr>crashed := True\<rparr> | Inr x \<Rightarrow> k x)"

inductive tp_step :: "tp_sys \<Rightarrow> tp_sys \<Rightarrow> bool" where
  load: "pcs s t = Load \<Longrightarrow>
    tp_step s (s\<lparr>pcs := (pcs s)(t := (if quitv s = 0 then Pop else Done))\<rparr>)"
| pop: "pcs s t = Pop \<Longrightarrow>
    tp_step s (tp_crash s (pop_task (que s, mem s)) (\<lambda>(r, q, h).
      case r of
        None \<Rightarrow> s\<lparr>mem := h, que := q, pcs := (pcs s)(t := Lock)\<rparr>
      | Some p \<Rightarrow> s\<lparr>mem := h, que := q, pcs := (pcs s)(t := Got p), popped := popped s @ [(t, payload h p)]\<rparr>))"
| lock: "pcs s t = Lock \<Longrightarrow> mtx s = None \<Longrightarrow>
    tp_step s (s\<lparr>mtx := Some t, pcs := (pcs s)(t := Test)\<rparr>)"
| test_end: "pcs s t = Test \<Longrightarrow> block (que s) = 0 \<Longrightarrow>
    tp_step s (s\<lparr>mtx := None, pcs := (pcs s)(t := Done)\<rparr>)"
| test_wait: "pcs s t = Test \<Longrightarrow> block (que s) \<noteq> 0 \<Longrightarrow>
    tp_step s (s\<lparr>mtx := None, pcs := (pcs s)(t := Wait)\<rparr>)"
| spurious: "pcs s t = Wait \<Longrightarrow>
    tp_step s (s\<lparr>pcs := (pcs s)(t := Wake)\<rparr>)"
| wake: "pcs s t = Wake \<Longrightarrow> mtx s = None \<Longrightarrow>
    tp_step s (s\<lparr>pcs := (pcs s)(t := Pop)\<rparr>)"
| run: "pcs s t = Got p \<Longrightarrow>
    tp_step s (tp_crash s (take_task p (mem s)) (\<lambda>(f, x, h).
      s\<lparr>mem := h, pcs := (pcs s)(t := Run f x Calm), ran := ran s @ [(t, f, x)]\<rparr>))"
| handler_returns: "pcs s t = Run f x Calm \<Longrightarrow>
    tp_step s (s\<lparr>pcs := (pcs s)(t := Load)\<rparr>)"
| post_call: "act_of (pcs s t) = Some Calm \<Longrightarrow> quitv s \<noteq> 1 \<Longrightarrow>
    tp_step s (s\<lparr>pcs := (pcs s)(t := with_act (pcs s t) (PostAlloc f x))\<rparr>)"
| post_refused: "act_of (pcs s t) = Some Calm \<Longrightarrow> quitv s = 1 \<Longrightarrow>
    tp_step s s"
| post_no_memory: "act_of (pcs s t) = Some (PostAlloc f x) \<Longrightarrow>
    tp_step s (s\<lparr>pcs := (pcs s)(t := with_act (pcs s t) Calm)\<rparr>)"
| post_make: "act_of (pcs s t) = Some (PostAlloc f x) \<Longrightarrow> fresh p task_size (mem s) \<Longrightarrow>
    tp_step s (tp_crash s (make_task p f x (mem s)) (\<lambda>h.
      s\<lparr>mem := h, pcs := (pcs s)(t := with_act (pcs s t) (Add p f x))\<rparr>))"
| post_add: "act_of (pcs s t) = Some (Add p f x) \<Longrightarrow>
    tp_step s (tp_crash s (add_body p (que s, mem s)) (\<lambda>(q, h).
      s\<lparr>mem := h, que := q, pcs := (pcs s)(t := with_act (pcs s t) Sig), posted := posted s @ [(f, x)]\<rparr>))"
| signal_one: "act_of (pcs s t) = Some Sig \<Longrightarrow> pcs s u = Wait \<Longrightarrow>
    tp_step s (s\<lparr>pcs := (pcs s)(t := with_act (pcs s t) Calm, u := Wake)\<rparr>)"
| signal_none: "act_of (pcs s t) = Some Sig \<Longrightarrow> (\<forall>u. pcs s u \<noteq> Wait) \<Longrightarrow>
    tp_step s (s\<lparr>pcs := (pcs s)(t := with_act (pcs s t) Calm)\<rparr>)"
| terminate: "act_of (pcs s t) = Some Calm \<Longrightarrow>
    tp_step s (s\<lparr>quitv := 1, pcs := (pcs s)(t := with_act (pcs s t) NbLock)\<rparr>)"
| nonblock: "act_of (pcs s t) = Some NbLock \<Longrightarrow> mtx s = None \<Longrightarrow>
    tp_step s (s\<lparr>que := nonblock_flag (que s), pcs := (pcs s)(t := with_act (pcs s t) Bcast)\<rparr>)"
| broadcast: "act_of (pcs s t) = Some Bcast \<Longrightarrow>
    tp_step s (s\<lparr>pcs := (wake_all \<circ> pcs s)(t := with_act (pcs s t) Calm)\<rparr>)"

definition tp_start :: "nat \<Rightarrow> heap \<Rightarrow> task_queue_t \<Rightarrow> tp_sys" where
  "tp_start n h q = \<lparr>mem = h, que = q, quitv = 0, mtx = None, pcs = (\<lambda>t. if t < n then Load else Client Calm),
     posted = [], popped = [], ran = [], base = hblocks h, crashed = False\<rparr>"

inductive tp_reach :: "tp_sys \<Rightarrow> bool" where
  start: "tq_rep h q [] \<Longrightarrow> block q = 1 \<Longrightarrow> tp_reach (tp_start n h q)"
| step: "tp_reach s \<Longrightarrow> tp_step s s' \<Longrightarrow> tp_reach s'"

subsection \<open>Who owns which task\<close>

datatype hold = Nothing | Adding addr addr addr | Taken addr

fun act_hold :: "act \<Rightarrow> hold" where
  "act_hold (Add p f x) = Adding p f x"
| "act_hold _ = Nothing"

fun hold_of :: "tp_pc \<Rightarrow> hold" where
  "hold_of (Client a) = act_hold a"
| "hold_of (Run f x a) = act_hold a"
| "hold_of (Got p) = Taken p"
| "hold_of _ = Nothing"

fun task_in :: "hold \<Rightarrow> addr option" where
  "task_in Nothing = None"
| "task_in (Adding p f x) = Some p"
| "task_in (Taken p) = Some p"

definition of_thread :: "nat \<Rightarrow> (nat \<times> 'a) list \<Rightarrow> 'a list" where
  "of_thread t xs = map snd (filter (\<lambda>e. fst e = t) xs)"

fun hold_ok :: "heap \<Rightarrow> hold \<Rightarrow> (addr \<times> addr) list \<Rightarrow> (addr \<times> addr) list \<Rightarrow> bool" where
  "hold_ok h Nothing pd rn \<longleftrightarrow> pd = rn"
| "hold_ok h (Adding p f x) pd rn \<longleftrightarrow> pd = rn \<and> payload h p = (f, x) \<and> ld64 (hbytes h) p = 0"
| "hold_ok h (Taken p) pd rn \<longleftrightarrow> pd = rn @ [payload h p]"

definition owners_ok :: "heap \<Rightarrow> task_queue_t \<Rightarrow> addr list \<Rightarrow> (nat \<Rightarrow> hold) \<Rightarrow> bool" where
  "owners_ok h q ts hs \<longleftrightarrow>
     (\<forall>t p. task_in (hs t) = Some p \<longrightarrow> (p, task_size) \<in> set (hblocks h) \<and> p \<notin> set (head q # ts)) \<and>
     (\<forall>t u p. task_in (hs t) = Some p \<longrightarrow> task_in (hs u) = Some p \<longrightarrow> t = u)"

text \<open>
  The shared state: the queue is a list of tasks in memory; the tasks that threads hold are other
  live blocks, one owner each; what was posted is what was popped followed by what is queued; each
  worker has started what it popped but for the task in its hands; and every live block is one of
  those from before the run, a queued task or a task that a thread holds.
\<close>

definition tp_data :: "heap \<Rightarrow> task_queue_t \<Rightarrow> (nat \<Rightarrow> hold) \<Rightarrow> (addr \<times> addr) list \<Rightarrow> (nat \<times> addr \<times> addr) list \<Rightarrow>
    (nat \<times> addr \<times> addr) list \<Rightarrow> (addr \<times> nat) list \<Rightarrow> addr list \<Rightarrow> bool" where
  "tp_data h q hs pst pd rn bs ts \<longleftrightarrow>
     tq_rep h q ts \<and> owners_ok h q ts hs \<and> pst = map snd pd @ map (payload h) ts \<and>
     (\<forall>t. hold_ok h (hs t) (of_thread t pd) (of_thread t rn)) \<and>
     (\<forall>b \<in> set (hblocks h). b \<in> set bs \<or> fst b \<in> set ts \<or> (\<exists>t. task_in (hs t) = Some (fst b)))"

definition tp_inv :: "tp_sys \<Rightarrow> bool" where
  "tp_inv s \<longleftrightarrow> \<not> crashed s \<and>
     (\<exists>ts. tp_data (mem s) (que s) (hold_of \<circ> pcs s) (posted s) (popped s) (ran s) (base s) ts)"

lemma of_thread_snoc [simp]:
  "of_thread t (xs @ [(u, x)]) = of_thread t xs @ (if u = t then [x] else [])"
  by (simp add: of_thread_def)


subsection \<open>What the writes leave alone\<close>

lemma other_block_write:
  assumes "heap_ok h" "(c, n) \<in> set (hblocks h)" "i + 8 \<le> n" "(p, task_size) \<in> set (hblocks h)" "c \<noteq> p"
  shows "payload (h\<lparr>hbytes := st64 (c + of_nat i) v (hbytes h)\<rparr>) p = payload h p"
    "ld64 (st64 (c + of_nat i) v (hbytes h)) p = ld64 (hbytes h) p"
proof -
  have r: "room (c + of_nat i) 8" using field_valid(1) [OF assms(1,2), of i 8] assms(1,3) valid_room by simp
  have f: "ld64 (st64 (c + of_nat i) v (hbytes h)) (p + of_nat j) = ld64 (hbytes h) (p + of_nat j)" if "j + 8 \<le> task_size" for j
  proof -
    have "room (p + of_nat j) 8" using field_valid(1) [OF assms(1,4), of j 8] assms(1) that valid_room by simp
    moreover have "apart (c + of_nat i) 8 (p + of_nat j) 8"
      using fields_apart [OF assms(1,2,4,3) that] assms(5) by simp
    ultimately show ?thesis using r by (simp add: mem_simps)
  qed
  from f [of 8] f [of 16] show "payload (h\<lparr>hbytes := st64 (c + of_nat i) v (hbytes h)\<rparr>) p = payload h p"
    by (simp add: payload_def task_func_def task_arg_def task_size_def)
  from f [of 0] show "ld64 (st64 (c + of_nat i) v (hbytes h)) p = ld64 (hbytes h) p"
    by (simp add: task_size_def)
qed

lemma own_field_write:
  assumes "heap_ok h" "(p, task_size) \<in> set (hblocks h)" "i + 8 \<le> task_size" "j + 8 \<le> task_size"
    and "i + 8 \<le> j \<or> j + 8 \<le> i"
  shows "ld64 (st64 (p + of_nat i) v (hbytes h)) (p + of_nat j) = ld64 (hbytes h) (p + of_nat j)"
  using field_valid(1) [OF assms(1,2,3)] field_valid(1) [OF assms(1,2,4)] valid_room [OF assms(1)]
    fields_apart [OF assms(1,2,2,3,4)] assms(5) by (auto simp: mem_simps)

lemma link_write_payload:
  assumes "heap_ok h" "(p, task_size) \<in> set (hblocks h)" "tq_cell h c"
  shows "payload (h\<lparr>hbytes := st64 c v (hbytes h)\<rparr>) p = payload h p"
proof (cases "c = p")
  case True
  with own_field_write [OF assms(1,2), of 0 8] own_field_write [OF assms(1,2), of 0 16] show ?thesis
    by (simp add: payload_def task_func_def task_arg_def task_size_def)
next
  case False
  from assms(3) obtain n where "(c, n) \<in> set (hblocks h)" "0 + 8 \<le> n" by (auto simp: tq_cell_def)
  from other_block_write(1) [OF assms(1) this assms(2) False] show ?thesis by simp
qed

lemma link_write_link:
  assumes "heap_ok h" "(p, task_size) \<in> set (hblocks h)" "tq_cell h c" "c \<noteq> p"
  shows "ld64 (st64 c v (hbytes h)) p = ld64 (hbytes h) p"
proof -
  from assms(3) obtain n where "(c, n) \<in> set (hblocks h)" "0 + 8 \<le> n" by (auto simp: tq_cell_def)
  from other_block_write(2) [OF assms(1) this assms(2,4)] show ?thesis by simp
qed

lemma hold_ok_cong:
  assumes "hold_ok h w pd rn" "\<And>p. task_in w = Some p \<Longrightarrow> payload h' p = payload h p \<and> ld64 (hbytes h') p = ld64 (hbytes h) p"
  shows "hold_ok h' w pd rn"
  using assms by (cases w) auto

lemma hold_ok_link_write:
  assumes "owners_ok h q ts hs" "heap_ok h" "tq_cell h c" "\<forall>p. task_in (hs t) = Some p \<longrightarrow> c \<noteq> p"
    and "hold_ok h (hs t) pd rn"
  shows "hold_ok (h\<lparr>hbytes := st64 c v (hbytes h)\<rparr>) (hs t) pd rn"
  using assms link_write_payload [OF assms(2) _ assms(3)] link_write_link [OF assms(2) _ assms(3)]
  by (intro hold_ok_cong [OF assms(5)]) (auto simp: owners_ok_def)

lemma owners_ok_blocks: "owners_ok h q ts hs \<Longrightarrow> hblocks h' = hblocks h \<Longrightarrow> head q' = head q \<Longrightarrow> owners_ok h' q' ts hs"
  by (simp add: owners_ok_def)

subsection \<open>The steps of the shared state\<close>

lemma tp_data_heap: "tp_data h q hs pst pd rn bs ts \<Longrightarrow> heap_ok h \<and> tq_rep h q ts"
  by (simp add: tp_data_def tq_rep_def)

lemma tp_data_pop:
  assumes d: "tp_data h q hs pst pd rn bs (p # ts)" and t: "hs t = Nothing"
  shows "\<exists>q' h'. pop_task (q, h) = Inr (Some p, (q', h')) \<and> block q' = block q \<and>
    tp_data h' q' (hs(t := Taken p)) pst (pd @ [(t, payload h' p)]) rn bs ts"
proof -
  let ?h = "h\<lparr>hbytes := st64 (head q) (ld64 (hbytes h) p) (hbytes h)\<rparr>"
  have hok: "heap_ok h" and rep: "tq_rep h q (p # ts)" using tp_data_heap [OF d] by auto
  have c: "tq_cell h (head q)" using tq_cells [OF rep] by simp
  have own: "owners_ok h q (p # ts) hs" using d by (simp add: tp_data_def)
  from pop_task_rep [OF rep] obtain q' where pop: "pop_task (q, h) = Inr (Some p, (q', ?h))"
    and rep': "tq_rep ?h q' ts" and q': "head q' = head q" "block q' = block q" by blast
  have pay: "payload ?h u = payload h u" if "u \<in> set (p # ts)" for u
    using rep that by (intro link_write_payload [OF hok _ c]) (auto simp: tq_rep_def)
  have "owners_ok ?h q' ts (hs(t := Taken p))"
    using own rep q' by (auto simp: owners_ok_def tq_rep_def split: if_splits)
  moreover have "hold_ok ?h (hs u) (of_thread u pd) (of_thread u rn)" for u
    using d own by (intro hold_ok_link_write [OF own hok c]) (auto simp: owners_ok_def tp_data_def)
  moreover have "of_thread t pd = of_thread t rn"
    using d t by (metis hold_ok.simps(1) tp_data_def)
  moreover have "map (payload h) (p # ts) = map (payload ?h) (p # ts)" using pay by simp
  moreover have "pst = map snd pd @ map (payload h) (p # ts)" using d by (simp add: tp_data_def)
  moreover have "\<forall>b \<in> set (hblocks ?h). b \<in> set bs \<or> fst b \<in> set ts \<or> (\<exists>u. task_in ((hs(t := Taken p)) u) = Some (fst b))"
  proof
    fix b assume "b \<in> set (hblocks ?h)"
    with d have "b \<in> set bs \<or> fst b \<in> set (p # ts) \<or> (\<exists>u. task_in (hs u) = Some (fst b))"
      by (simp add: tp_data_def)
    with t show "b \<in> set bs \<or> fst b \<in> set ts \<or> (\<exists>u. task_in ((hs(t := Taken p)) u) = Some (fst b))"
      by (auto split: if_splits) (metis option.discI task_in.simps(1))
  qed
  ultimately have "tp_data ?h q' (hs(t := Taken p)) pst (pd @ [(t, payload ?h p)]) rn bs ts"
    using rep' by (simp add: tp_data_def)
  with pop q' show ?thesis by blast
qed


lemma tp_data_take:
  assumes d: "tp_data h q hs pst pd rn bs ts" and t: "hs t = Taken p"
  shows "\<exists>h'. take_task p h = Inr (fst (payload h p), snd (payload h p), h') \<and>
    tp_data h' q (hs(t := Nothing)) pst pd (rn @ [(t, payload h p)]) bs ts"
proof -
  let ?h = "h\<lparr>hblocks := filter (\<lambda>b. fst b \<noteq> p) (hblocks h)\<rparr>"
  have hok: "heap_ok h" and rep: "tq_rep h q ts" using tp_data_heap [OF d] by auto
  have own: "owners_ok h q ts hs" using d by (simp add: tp_data_def)
  have p: "(p, task_size) \<in> set (hblocks h)" "p \<notin> set (head q # ts)"
    using own t unfolding owners_ok_def by (metis task_in.simps(3))+
  have others: "task_in (hs u) \<noteq> Some p" if "u \<noteq> t" for u
    using own t that unfolding owners_ok_def by (metis task_in.simps(3))
  have "p \<noteq> 0" using p(1) hok by (auto simp: heap_ok_def)
  with p have free: "h_free p h = Inr ?h" by (intro free_listed)
  have "valid h (task_func p) 8" "valid h (task_arg p) 8"
    using field_valid(1) [OF hok p(1), of 8 8] field_valid(1) [OF hok p(1), of 16 8]
    by (simp_all add: task_func_def task_arg_def task_size_def)
  with free have take: "take_task p h = Inr (fst (payload h p), snd (payload h p), ?h)"
    by (simp add: take_task_def payload_def)
  have pay: "payload ?h u = payload h u" for u by (simp add: payload_def)
  have "hold_ok ?h ((hs(t := Nothing)) u) (of_thread u pd) (of_thread u (rn @ [(t, payload h p)]))" for u
  proof -
    have "hold_ok h (hs u) (of_thread u pd) (of_thread u rn)" using d by (simp add: tp_data_def)
    moreover from this have "hold_ok ?h (hs u) (of_thread u pd) (of_thread u rn)"
      by (rule hold_ok_cong) (simp add: pay)
    ultimately show ?thesis using t by auto
  qed
  moreover have "owners_ok ?h q ts (hs(t := Nothing))"
    using own others by (auto simp: owners_ok_def)
  moreover have "\<forall>b \<in> set (hblocks ?h). b \<in> set bs \<or> fst b \<in> set ts \<or> (\<exists>u. task_in ((hs(t := Nothing)) u) = Some (fst b))"
  proof
    fix b assume "b \<in> set (hblocks ?h)"
    then have b: "b \<in> set (hblocks h)" "fst b \<noteq> p" by auto
    with d have "b \<in> set bs \<or> fst b \<in> set ts \<or> (\<exists>u. task_in (hs u) = Some (fst b))"
      by (simp add: tp_data_def)
    with b(2) t show "b \<in> set bs \<or> fst b \<in> set ts \<or> (\<exists>u. task_in ((hs(t := Nothing)) u) = Some (fst b))"
      by auto (metis option.inject task_in.simps(3))
  qed
  moreover have "map (payload h) ts = map (payload ?h) ts" by (simp add: pay)
  ultimately have "tp_data ?h q (hs(t := Nothing)) pst pd (rn @ [(t, payload h p)]) bs ts"
    using d tq_rep_free [OF rep free p(2)] by (simp add: tp_data_def)
  with take show ?thesis by blast
qed

lemma tp_data_add:
  assumes d: "tp_data h q hs pst pd rn bs ts" and t: "hs t = Adding p f x"
  shows "\<exists>q' h'. add_body p (q, h) = Inr (q', h') \<and> block q' = block q \<and>
    tp_data h' q' (hs(t := Nothing)) (pst @ [(f, x)]) pd rn bs (ts @ [p])"
proof -
  let ?h = "h\<lparr>hbytes := st64 (tail q) p (hbytes h)\<rparr>" and ?q = "q\<lparr>tail := p\<rparr>"
  have hok: "heap_ok h" and rep: "tq_rep h q ts" using tp_data_heap [OF d] by auto
  have own: "owners_ok h q ts hs" using d by (simp add: tp_data_def)
  have p: "(p, task_size) \<in> set (hblocks h)" "p \<notin> set (head q # ts)"
    using own t unfolding owners_ok_def by (metis task_in.simps(2))+
  have others: "task_in (hs u) \<noteq> Some p" if "u \<noteq> t" for u
    using own t that unfolding owners_ok_def by (metis task_in.simps(2))
  have hp: "hold_ok h (hs t) (of_thread t pd) (of_thread t rn)" using d by (simp add: tp_data_def)
  with t have z: "ld64 (hbytes h) p = 0" and px: "payload h p = (f, x)" and pd: "of_thread t pd = of_thread t rn" by auto
  have "last (head q # ts) \<in> set (head q # ts)" by (rule last_in_set) simp
  then have tl: "tail q \<in> set (head q # ts)" using rep by (simp add: tq_rep_def)
  then have c: "tq_cell h (tail q)" using tq_cells [OF rep] by blast
  have pay: "payload ?h u = payload h u" if "(u, task_size) \<in> set (hblocks h)" for u
    using link_write_payload [OF hok that c] by simp
  have "owners_ok ?h ?q (ts @ [p]) (hs(t := Nothing))"
    using own others by (auto simp: owners_ok_def)
  moreover have "hold_ok ?h ((hs(t := Nothing)) u) (of_thread u pd) (of_thread u rn)" for u
  proof (cases "u = t")
    case False
    have "\<forall>r. task_in (hs u) = Some r \<longrightarrow> tail q \<noteq> r" using own tl by (auto simp: owners_ok_def)
    with False d show ?thesis by (simp add: tp_data_def hold_ok_link_write [OF own hok c])
  qed (simp add: pd)
  moreover have "map (payload ?h) (ts @ [p]) = map (payload h) ts @ [(f, x)]"
    using pay p(1) rep px by (simp add: tq_rep_def)
  moreover have "\<forall>b \<in> set (hblocks ?h). b \<in> set bs \<or> fst b \<in> set (ts @ [p]) \<or> (\<exists>u. task_in ((hs(t := Nothing)) u) = Some (fst b))"
  proof
    fix b assume "b \<in> set (hblocks ?h)"
    with d have "b \<in> set bs \<or> fst b \<in> set ts \<or> (\<exists>u. task_in (hs u) = Some (fst b))"
      by (simp add: tp_data_def)
    with t show "b \<in> set bs \<or> fst b \<in> set (ts @ [p]) \<or> (\<exists>u. task_in ((hs(t := Nothing)) u) = Some (fst b))"
      by auto (metis option.inject task_in.simps(2))
  qed
  ultimately have "tp_data ?h ?q (hs(t := Nothing)) (pst @ [(f, x)]) pd rn bs (ts @ [p])"
    using d add_body_rep(2) [OF rep p z] by (simp add: tp_data_def)
  with add_body_rep(1) [OF rep p z] show ?thesis by auto
qed

lemma tp_data_make:
  assumes d: "tp_data h q hs pst pd rn bs ts" and t: "hs t = Nothing" and fr: "fresh p task_size h"
  shows "\<exists>h'. make_task p f x h = Inr h' \<and> tp_data h' q (hs(t := Adding p f x)) pst pd rn bs ts"
proof -
  let ?new = "h_malloc p task_size h"
  let ?m1 = "st64 (p + of_nat 8) f (hbytes h)"
  let ?m2 = "st64 (p + of_nat 16) x ?m1"
  let ?m3 = "st64 (p + of_nat 0) 0 ?m2"
  let ?h = "\<lambda>m. ?new\<lparr>hbytes := m\<rparr>"
  have hok: "heap_ok h" and rep: "tq_rep h q ts" using tp_data_heap [OF d] by auto
  have own: "owners_ok h q ts hs" using d by (simp add: tp_data_def)
  have ok: "heap_ok (?h m)" for m using heap_ok_malloc [OF hok fr] by simp
  have blk: "hblocks (?h m) = (p, task_size) # hblocks h" for m using fr by (simp add: fresh_def h_malloc_def)
  have pin: "(p, task_size) \<in> set (hblocks (?h m))" for m by (simp add: blk)
  have new: "(u, n) \<in> set (hblocks h) \<Longrightarrow> p \<noteq> u" for u n using fr by (auto simp: fresh_def)
  have v: "valid (?h m) (p + of_nat i) 8" if "i + 8 \<le> task_size" for m i
    using field_valid(1) [OF ok pin that] by simp
  have make: "make_task p f x h = Inr (?h ?m3)"
    using v [of 8] v [of 16] v [of 0]
    by (simp add: make_task_def add_enter_def task_func_def task_arg_def task_size_def)
  have rep': "tq_rep (?h (st64 (p + of_nat i) w m)) q ts" if "tq_rep (?h m) q ts" "i + 8 \<le> task_size" for m i w
  proof -
    have "room (p + of_nat i) 8" using v [OF that(2)] ok valid_room by blast
    moreover have "apart (p + of_nat i) 8 c 8" if c: "c \<in> set (head q # ts)" for c
    proof -
      from tq_cells [OF rep] c obtain n where n: "(c, n) \<in> set (hblocks h)" "8 \<le> n" by (auto simp: tq_cell_def)
      with new [OF n(1)] show ?thesis
        using fields_apart [OF ok pin, of c n _ i 8 0 8] blk \<open>i + 8 \<le> task_size\<close> by simp
    qed
    ultimately show ?thesis using tq_rep_write [OF that(1), of "p + of_nat i" w] by simp
  qed
  have h0: "?h (hbytes h) = ?new" by (simp add: h_malloc_def)
  have "tq_rep (?h (hbytes h)) q ts" unfolding h0 using rep fr by (rule tq_rep_malloc)
  then have rep3: "tq_rep (?h ?m3) q ts" by (intro rep') (simp_all add: task_size_def)
  have keep: "payload (?h (st64 (p + of_nat i) w m)) u = payload (?h m) u \<and> ld64 (st64 (p + of_nat i) w m) u = ld64 m u"
    if "(u, task_size) \<in> set (hblocks h)" "i + 8 \<le> task_size" for m i w u
    using other_block_write [OF ok pin that(2), of u m w] that(1) new [OF that(1)] blk by simp
  have keep3: "payload (?h ?m3) u = payload h u \<and> ld64 ?m3 u = ld64 (hbytes h) u" if "(u, task_size) \<in> set (hblocks h)" for u
  proof -
    have "payload (?h (hbytes h)) u = payload h u" by (simp add: payload_def)
    with keep [OF that, where i = 0 and w = 0 and m = ?m2] keep [OF that, where i = 16 and w = x and m = ?m1]
      keep [OF that, where i = 8 and w = f and m = "hbytes h"]
    show ?thesis unfolding task_size_def by simp
  qed
  have f: "ld64 (st64 (p + of_nat i) w m) (p + of_nat j) = ld64 m (p + of_nat j)"
    if "i + 8 \<le> task_size" "j + 8 \<le> task_size" "i + 8 \<le> j \<or> j + 8 \<le> i" for i j w m
    using own_field_write [OF ok pin that, of w m] by simp
  have "ld64 ?m3 (p + of_nat 8) = f"
    using f [of 0 8 0 ?m2] f [of 16 8 x ?m1] by (simp add: task_size_def)
  moreover have "ld64 ?m3 (p + of_nat 16) = x"
    using f [of 0 16 0 ?m2] by (simp add: task_size_def)
  ultimately have pay: "payload (?h ?m3) p = (f, x)" "ld64 ?m3 p = 0"
    by (simp_all add: payload_def task_func_def task_arg_def)
  have "owners_ok (?h ?m3) q ts (hs(t := Adding p f x))"
  proof -
    have "p \<notin> set (head q # ts)" using rep new by (auto simp: tq_rep_def)
    moreover have "task_in (hs u) \<noteq> Some p" for u using own new by (auto simp: owners_ok_def)
    ultimately show ?thesis using own blk by (auto simp: owners_ok_def)
  qed
  moreover have "hold_ok (?h ?m3) ((hs(t := Adding p f x)) u) (of_thread u pd) (of_thread u rn)" for u
  proof -
    have old: "hold_ok h (hs u) (of_thread u pd) (of_thread u rn)" using d by (simp add: tp_data_def)
    then have "hold_ok (?h ?m3) (hs u) (of_thread u pd) (of_thread u rn)"
      using keep3 own by (intro hold_ok_cong [OF old]) (auto simp: owners_ok_def)
    with t old pay show ?thesis by auto
  qed
  moreover have "map (payload (?h ?m3)) ts = map (payload h) ts"
    using keep3 rep by (auto simp: tq_rep_def)
  moreover have "\<forall>b \<in> set (hblocks (?h ?m3)). b \<in> set bs \<or> fst b \<in> set ts \<or>
      (\<exists>u. task_in ((hs(t := Adding p f x)) u) = Some (fst b))"
  proof
    fix b assume "b \<in> set (hblocks (?h ?m3))"
    with blk have "b = (p, task_size) \<or> b \<in> set (hblocks h)" by auto
    then show "b \<in> set bs \<or> fst b \<in> set ts \<or> (\<exists>u. task_in ((hs(t := Adding p f x)) u) = Some (fst b))"
    proof
      assume "b \<in> set (hblocks h)"
      with d have "b \<in> set bs \<or> fst b \<in> set ts \<or> (\<exists>u. task_in (hs u) = Some (fst b))"
        by (simp add: tp_data_def)
      with t show ?thesis by auto (metis option.discI task_in.simps(1))
    qed (auto intro: exI [of _ t])
  qed
  ultimately have "tp_data (?h ?m3) q (hs(t := Adding p f x)) pst pd rn bs ts"
    using d rep3 by (simp add: tp_data_def)
  with make show ?thesis by blast
qed


subsection \<open>Every step keeps the shared state in order\<close>

lemma act_of_cases:
  "act_of pc = Some a \<Longrightarrow> hold_of pc = act_hold a \<and> hold_of (with_act pc b) = act_hold b \<and>
     pc \<noteq> Wait \<and> pc \<noteq> Test \<and> with_act pc b \<noteq> Wait \<and> with_act pc b \<noteq> Test \<and> act_of (with_act pc b) = Some b"
  by (cases pc) auto

lemma hold_wake_all [simp]: "hold_of (wake_all pc) = hold_of pc"
  by (cases pc) (simp_all add: wake_all_def)

lemma act_wake_all [simp]: "act_of (wake_all pc) = act_of pc"
  by (cases pc) (simp_all add: wake_all_def)

lemma hold_upd: "hold_of \<circ> (pcs s)(t := pc) = (hold_of \<circ> pcs s)(t := hold_of pc)"
  by (auto simp: fun_eq_iff)

lemma tp_inv_same:
  "tp_inv s \<Longrightarrow> mem s' = mem s \<Longrightarrow> head (que s') = head (que s) \<Longrightarrow> tail (que s') = tail (que s) \<Longrightarrow>
     posted s' = posted s \<Longrightarrow> popped s' = popped s \<Longrightarrow> ran s' = ran s \<Longrightarrow> base s' = base s \<Longrightarrow>
     crashed s' = crashed s \<Longrightarrow> hold_of \<circ> pcs s' = hold_of \<circ> pcs s \<Longrightarrow> tp_inv s'"
  by (simp add: tp_inv_def tp_data_def tq_rep_def owners_ok_def)

lemma tp_inv_pc:
  "tp_inv s \<Longrightarrow> hold_of pc = hold_of (pcs s t) \<Longrightarrow> tp_inv (s\<lparr>pcs := (pcs s)(t := pc)\<rparr>)"
  by (erule tp_inv_same) (auto simp: fun_eq_iff)

lemma tp_inv_step: "tp_step s s' \<Longrightarrow> tp_inv s \<Longrightarrow> tp_inv s'"
proof (induction rule: tp_step.induct)
  case (pop s t)
  then obtain ts where d: "tp_data (mem s) (que s) (hold_of \<circ> pcs s) (posted s) (popped s) (ran s) (base s) ts"
    and nc: "\<not> crashed s" by (auto simp: tp_inv_def)
  have t: "(hold_of \<circ> pcs s) t = Nothing" using pop by simp
  show ?case
  proof (cases ts)
    case Nil
    then have "pop_task (que s, mem s) = Inr (None, (que s, mem s))"
      using pop_task_empty tp_data_heap [OF d] by simp
    moreover have "tp_inv (s\<lparr>pcs := (pcs s)(t := Lock)\<rparr>)" using pop by (intro tp_inv_pc) simp_all
    ultimately show ?thesis by (simp add: tp_crash_def)
  next
    case (Cons p ps)
    from tp_data_pop [of "mem s" "que s" "hold_of \<circ> pcs s", OF d [unfolded Cons] t] nc show ?thesis
      by (fastforce simp: tp_crash_def tp_inv_def hold_upd)
  qed
next
  case (run s t p)
  then obtain ts where d: "tp_data (mem s) (que s) (hold_of \<circ> pcs s) (posted s) (popped s) (ran s) (base s) ts"
    and nc: "\<not> crashed s" by (auto simp: tp_inv_def)
  have "(hold_of \<circ> pcs s) t = Taken p" using run by simp
  from tp_data_take [where hs = "hold_of \<circ> pcs s" and t = t, OF d this] nc show ?case
    by (auto simp: tp_crash_def tp_inv_def hold_upd)
next
  case (post_make s t f x p)
  then obtain ts where d: "tp_data (mem s) (que s) (hold_of \<circ> pcs s) (posted s) (popped s) (ran s) (base s) ts"
    and nc: "\<not> crashed s" by (auto simp: tp_inv_def)
  note a = act_of_cases [OF post_make(1)]
  have "(hold_of \<circ> pcs s) t = Nothing" using a by simp
  from tp_data_make [where hs = "hold_of \<circ> pcs s" and t = t and f = f and x = x, OF d this post_make(2)] obtain h' where
    "make_task p f x (mem s) = Inr h'"
    "tp_data h' (que s) ((hold_of \<circ> pcs s)(t := Adding p f x)) (posted s) (popped s) (ran s) (base s) ts" by blast
  with nc a show ?case by (auto simp: tp_crash_def tp_inv_def hold_upd)
next
  case (post_add s t p f x)
  then obtain ts where d: "tp_data (mem s) (que s) (hold_of \<circ> pcs s) (posted s) (popped s) (ran s) (base s) ts"
    and nc: "\<not> crashed s" by (auto simp: tp_inv_def)
  note a = act_of_cases [OF post_add(1)]
  have "(hold_of \<circ> pcs s) t = Adding p f x" using a by simp
  from tp_data_add [where hs = "hold_of \<circ> pcs s" and t = t, OF d this] nc a show ?case
    by (fastforce simp: tp_crash_def tp_inv_def hold_upd)
next
  case (signal_one s t u)
  then show ?case using act_of_cases [OF signal_one(1)]
    by (intro tp_inv_same [OF signal_one(3)]) (auto simp: fun_eq_iff)
next
  case (terminate s t)
  then show ?case using act_of_cases [OF terminate(1)]
    by (intro tp_inv_same [OF terminate(2)]) (auto simp: fun_eq_iff)
next
  case (nonblock s t)
  then show ?case using act_of_cases [OF nonblock(1)]
    by (intro tp_inv_same [OF nonblock(3)]) (auto simp: fun_eq_iff nonblock_flag_def)
next
  case (broadcast s t)
  then show ?case using act_of_cases [OF broadcast(1)]
    by (intro tp_inv_same [OF broadcast(2)]) (auto simp: fun_eq_iff)
next
  case (post_call s t f x)
  then show ?case using act_of_cases [OF post_call(1)] by (intro tp_inv_pc) auto
next
  case (post_no_memory s t f x)
  then show ?case using act_of_cases [OF post_no_memory(1)] by (intro tp_inv_pc) auto
next
  case (signal_none s t)
  then show ?case using act_of_cases [OF signal_none(1)] by (intro tp_inv_pc) auto
qed (auto elim!: tp_inv_same simp: fun_eq_iff)

lemma tp_inv_start: "tq_rep h q [] \<Longrightarrow> tp_inv (tp_start n h q)"
  by (auto simp: tp_inv_def tp_start_def tp_data_def owners_ok_def of_thread_def intro!: exI [of _ "[]"])

lemma tp_reach_inv: "tp_reach s \<Longrightarrow> tp_inv s"
  by (induction rule: tp_reach.induct) (auto intro: tp_inv_start tp_inv_step)

subsection \<open>The mutex and the waiting workers\<close>

definition some_pc :: "(tp_pc \<Rightarrow> bool) \<Rightarrow> (nat \<Rightarrow> tp_pc) \<Rightarrow> bool" where
  "some_pc P f \<longleftrightarrow> (\<exists>t. P (f t))"

text \<open>
  Whoever finds \<open>block\<close> set under the mutex and waits will be woken by the thread that clears it:
  that thread takes the mutex first and broadcasts afterwards.
\<close>

definition stop_inv :: "tp_sys \<Rightarrow> bool" where
  "stop_inv s \<longleftrightarrow> (\<forall>t. pcs s t = Test \<longleftrightarrow> mtx s = Some t) \<and>
     (some_pc (\<lambda>pc. pc = Wait) (pcs s) \<and> block (que s) = 0 \<longrightarrow> some_pc (\<lambda>pc. act_of pc = Some Bcast) (pcs s)) \<and>
     (quitv s \<noteq> 0 \<and> block (que s) \<noteq> 0 \<longrightarrow> some_pc (\<lambda>pc. act_of pc = Some NbLock) (pcs s))"


lemma tp_some_upd [simp]:
  "P pc \<Longrightarrow> some_pc P (f(t := pc))"
  "\<not> P pc \<Longrightarrow> \<not> P (f t) \<Longrightarrow> some_pc P (f(t := pc)) = some_pc P f"
  by (auto simp: some_pc_def)

lemma tp_some_weaken: "some_pc P (f(t := pc)) \<Longrightarrow> \<not> P pc \<Longrightarrow> some_pc P f"
  by (auto simp: some_pc_def split: if_splits)

lemma stop_inv_move:
  assumes i: "stop_inv s" and t: "pcs s t \<noteq> Test" "pc \<noteq> Test" "pc \<noteq> Wait"
    and a: "act_of (pcs s t) \<noteq> Some Bcast" "act_of (pcs s t) \<noteq> Some NbLock"
    and s': "pcs s' = (pcs s)(t := pc)" "mtx s' = mtx s" "block (que s') = block (que s)" "quitv s' = quitv s"
  shows "stop_inv s'"
proof -
  have "\<forall>u. pcs s' u = Test \<longleftrightarrow> mtx s' = Some u" using i t s' by (auto simp: stop_inv_def)
  moreover have "some_pc (\<lambda>pc. pc = Wait) (pcs s') \<Longrightarrow> some_pc (\<lambda>pc. pc = Wait) (pcs s)"
    unfolding s'(1) by (erule tp_some_weaken) (simp add: t)
  moreover have "some_pc (\<lambda>pc. act_of pc = Some b) (pcs s) \<Longrightarrow> some_pc (\<lambda>pc. act_of pc = Some b) (pcs s')"
    if "act_of (pcs s t) \<noteq> Some b" for b
    using that unfolding s'(1) some_pc_def by (metis fun_upd_apply)
  ultimately show ?thesis using i a s' unfolding stop_inv_def by metis
qed

lemma stop_inv_step: "tp_step s s' \<Longrightarrow> tp_inv s \<Longrightarrow> stop_inv s \<Longrightarrow> stop_inv s'"
proof (induction rule: tp_step.induct)
  case (pop s t)
  then obtain ts where d: "tp_data (mem s) (que s) (hold_of \<circ> pcs s) (posted s) (popped s) (ran s) (base s) ts"
    by (auto simp: tp_inv_def)
  have t: "(hold_of \<circ> pcs s) t = Nothing" using pop by simp
  show ?case
  proof (cases ts)
    case Nil
    with pop_task_empty tp_data_heap [OF d] pop show ?thesis
      by (intro stop_inv_move [OF pop(3), of t Lock]) (auto simp: tp_crash_def)
  next
    case (Cons p ps)
    from tp_data_pop [where hs = "hold_of \<circ> pcs s", OF d [unfolded Cons] t] obtain q' h' where
      "pop_task (que s, mem s) = Inr (Some p, (q', h'))" "block q' = block (que s)" by blast
    with pop show ?thesis by (intro stop_inv_move [OF pop(3), of t "Got p"]) (auto simp: tp_crash_def)
  qed
next
  case (run s t p)
  then obtain ts where d: "tp_data (mem s) (que s) (hold_of \<circ> pcs s) (posted s) (popped s) (ran s) (base s) ts"
    by (auto simp: tp_inv_def)
  have "(hold_of \<circ> pcs s) t = Taken p" using run by simp
  from tp_data_take [where hs = "hold_of \<circ> pcs s" and t = t, OF d this] obtain h' where
    "take_task p (mem s) = Inr (fst (payload (mem s) p), snd (payload (mem s) p), h')" by blast
  with run show ?case
    by (intro stop_inv_move [OF run(3), of t "Run (fst (payload (mem s) p)) (snd (payload (mem s) p)) Calm"])
      (auto simp: tp_crash_def)
next
  case (post_make s t f x p)
  then obtain ts where d: "tp_data (mem s) (que s) (hold_of \<circ> pcs s) (posted s) (popped s) (ran s) (base s) ts"
    by (auto simp: tp_inv_def)
  note a = act_of_cases [OF post_make(1)]
  have "(hold_of \<circ> pcs s) t = Nothing" using a by simp
  from tp_data_make [where hs = "hold_of \<circ> pcs s" and t = t and f = f and x = x, OF d this post_make(2)] obtain h' where
    "make_task p f x (mem s) = Inr h'" by blast
  with post_make a show ?case
    by (intro stop_inv_move [OF post_make(4), of t "with_act (pcs s t) (Add p f x)"]) (auto simp: tp_crash_def)
next
  case (post_add s t p f x)
  then obtain ts where d: "tp_data (mem s) (que s) (hold_of \<circ> pcs s) (posted s) (popped s) (ran s) (base s) ts"
    by (auto simp: tp_inv_def)
  note a = act_of_cases [OF post_add(1)]
  have "(hold_of \<circ> pcs s) t = Adding p f x" using a by simp
  from tp_data_add [where hs = "hold_of \<circ> pcs s" and t = t, OF d this] obtain q' h' where
    "add_body p (que s, mem s) = Inr (q', h')" "block q' = block (que s)" by blast
  with post_add a show ?case
    by (intro stop_inv_move [OF post_add(3), of t "with_act (pcs s t) Sig"]) (auto simp: tp_crash_def)
next
  case (signal_one s t u)
  note a = act_of_cases [OF signal_one(1)]
  let ?s = "s\<lparr>pcs := (pcs s)(t := with_act (pcs s t) Calm)\<rparr>"
  from signal_one a have "u \<noteq> t" by auto
  have "stop_inv ?s" using signal_one a
    by (intro stop_inv_move [OF signal_one(4), of t "with_act (pcs s t) Calm"]) auto
  from stop_inv_move [OF this, of u Wake] \<open>u \<noteq> t\<close> signal_one show ?case by simp
next
  case (spurious s t)
  then show ?case by (intro stop_inv_move [OF spurious(3), of t Wake]) auto
next
  case (broadcast s t)
  note a = act_of_cases [OF broadcast(1)]
  have "\<not> some_pc (\<lambda>pc. pc = Wait) ((wake_all \<circ> pcs s)(t := with_act (pcs s t) Calm))"
    using a by (auto simp: some_pc_def wake_all_def)
  moreover have "some_pc (\<lambda>pc. act_of pc = Some NbLock) ((wake_all \<circ> pcs s)(t := with_act (pcs s t) Calm)) =
      some_pc (\<lambda>pc. act_of pc = Some NbLock) (pcs s)"
    using a broadcast(1) act_wake_all by (subst tp_some_upd(2)) (simp_all add: some_pc_def)
  moreover have "((wake_all \<circ> pcs s)(t := with_act (pcs s t) Calm)) u = Test \<longleftrightarrow> pcs s u = Test" for u
    using a by (simp add: wake_all_def)
  ultimately show ?case using broadcast(3) unfolding stop_inv_def by simp
next
  case (nonblock s t)
  then show ?case using act_of_cases [OF nonblock(1)] by (auto simp: stop_inv_def nonblock_flag_def)
next
  case (post_call s t f x)
  then show ?case using act_of_cases [OF post_call(1)]
    by (intro stop_inv_move [OF post_call(4), of t "with_act (pcs s t) (PostAlloc f x)"]) auto
next
  case (post_no_memory s t f x)
  then show ?case using act_of_cases [OF post_no_memory(1)]
    by (intro stop_inv_move [OF post_no_memory(3), of t "with_act (pcs s t) Calm"]) auto
next
  case (signal_none s t)
  then show ?case using act_of_cases [OF signal_none(1)]
    by (intro stop_inv_move [OF signal_none(4), of t "with_act (pcs s t) Calm"]) auto
next
  case (terminate s t)
  then show ?case using act_of_cases [OF terminate(1)] by (auto simp: stop_inv_def)
next
  case (load s t)
  then show ?case by (intro stop_inv_move [OF load(3), of t "if quitv s = 0 then Pop else Done"]) auto
next
  case (handler_returns s t f x)
  then show ?case by (intro stop_inv_move [OF handler_returns(3), of t Load]) auto
next
  case (wake s t)
  then show ?case by (intro stop_inv_move [OF wake(4), of t Pop]) auto
next
  case (lock s t)
  then show ?case by (auto simp: stop_inv_def)
next
  case (test_end s t)
  have e: "some_pc P ((pcs s)(t := Done)) = some_pc P (pcs s)" if "\<not> P Done" "\<not> P Test" for P
    using test_end(1) that by simp
  have "((pcs s)(t := Done)) u \<noteq> Test" for u using test_end(1,4) by (auto simp: stop_inv_def)
  with test_end(2,4) show ?case unfolding stop_inv_def by (simp add: e)
next
  case (test_wait s t)
  have e: "some_pc P ((pcs s)(t := Wait)) = some_pc P (pcs s)" if "\<not> P Wait" "\<not> P Test" for P
    using test_wait(1) that by simp
  have "((pcs s)(t := Wait)) u \<noteq> Test" for u using test_wait(1,4) by (auto simp: stop_inv_def)
  with test_wait(2,4) show ?case unfolding stop_inv_def by (simp add: e)
qed

lemma stop_inv_start: "block q = 1 \<Longrightarrow> stop_inv (tp_start n h q)"
  by (auto simp: stop_inv_def tp_start_def some_pc_def split: if_splits)

lemma tp_reach_stop: "tp_reach s \<Longrightarrow> stop_inv s"
proof (induction rule: tp_reach.induct)
  case (step s s')
  then show ?case using tp_reach_inv stop_inv_step by blast
qed (rule stop_inv_start)


subsection \<open>A run that loses a wakeup\<close>

text \<open>
  One worker, one posting thread. The worker finds the queue empty and gets to its test of
  \<open>block\<close>; then a task is added, and the signal finds nobody waiting; then the worker waits.
\<close>

lemma tp_reach_trans: "tp_reach s \<Longrightarrow> tp_step s s' \<Longrightarrow> s' = s'' \<Longrightarrow> tp_reach s''"
  by (auto intro: tp_reach.step)

definition lone :: tp_sys where
  "lone = tp_start 1 small_heap small_queue"

lemma lone_simps [simp]:
  "mem lone = small_heap" "que lone = small_queue" "quitv lone = 0" "mtx lone = None"
  "pcs lone = (\<lambda>_. Client Calm)(0 := Load)" "posted lone = []" "popped lone = []" "crashed lone = False"
  by (auto simp: lone_def tp_start_def fun_eq_iff)

lemma worker_at_test:
  "tp_reach (lone\<lparr>mtx := Some 0, pcs := (\<lambda>_. Client Calm)(0 := Test)\<rparr>)"
proof -
  let ?s0 = "lone"
  have "tp_reach ?s0" unfolding lone_def using small_rep by (intro tp_reach.start) (simp_all add: small_queue_def)
  then have "tp_reach (?s0\<lparr>pcs := (\<lambda>_. Client Calm)(0 := Pop)\<rparr>)"
    using tp_step.load [of ?s0 0] by (rule tp_reach_trans) simp_all
  then have "tp_reach (?s0\<lparr>pcs := (\<lambda>_. Client Calm)(0 := Lock)\<rparr>)"
    using tp_step.pop [of "?s0\<lparr>pcs := (\<lambda>_. Client Calm)(0 := Pop)\<rparr>" 0]
    by (rule tp_reach_trans) (simp_all add: tp_crash_def pop_task_empty [OF small_rep])
  then show ?thesis
    using tp_step.lock [of "?s0\<lparr>pcs := (\<lambda>_. Client Calm)(0 := Lock)\<rparr>" 0]
    by (rule tp_reach_trans) simp_all
qed

lemma lost_wakeup_run:
  "\<exists>s. tp_reach s \<and> pcs s = (\<lambda>_. Client Calm)(0 := Wait) \<and> posted s = [(f, x)] \<and> popped s = [] \<and>
     block (que s) = 1 \<and> quitv s = 0"
proof -
  let ?s0 = "lone\<lparr>mtx := Some 0, pcs := (\<lambda>_. Client Calm)(0 := Test)\<rparr>"
  let ?pc = "\<lambda>a. ((\<lambda>_. Client Calm)(0 := Test))(2 := Client a)"
  have q: "que ?s0 = small_queue" "mem ?s0 = small_heap" "block small_queue = 1"
    by (simp_all add: small_queue_def)
  have r0: "tp_reach ?s0" by (rule worker_at_test)
  let ?s1 = "?s0\<lparr>pcs := ?pc (PostAlloc f x)\<rparr>"
  have r1: "tp_reach ?s1"
    using tp_step.post_call [of ?s0 2 f x] by (rule tp_reach_trans [OF r0]) simp_all
  have fr: "fresh 12288 task_size small_heap"
    by (simp add: fresh_def small_heap_def room_def task_size_def blocks_apart_def apart_def)
  have "(hold_of \<circ> pcs ?s1) 2 = Nothing" by simp
  moreover obtain ts where "tp_data small_heap small_queue (hold_of \<circ> pcs ?s1) (posted ?s1) (popped ?s1) (ran ?s1) (base ?s1) ts"
    using tp_reach_inv [OF r1] q by (auto simp: tp_inv_def)
  ultimately obtain h where m: "make_task 12288 f x small_heap = Inr h"
    using tp_data_make [where hs = "hold_of \<circ> pcs ?s1" and t = 2 and f = f and x = x, OF _ _ fr] by blast
  let ?s2 = "?s1\<lparr>mem := h, pcs := ?pc (Add 12288 f x)\<rparr>"
  have r2: "tp_reach ?s2"
    using tp_step.post_make [of ?s1 2 f x 12288]
    by (rule tp_reach_trans [OF r1]) (simp_all add: fr tp_crash_def m)
  have "(hold_of \<circ> pcs ?s2) 2 = Adding 12288 f x" by simp
  moreover obtain ts' where "tp_data h small_queue (hold_of \<circ> pcs ?s2) (posted ?s2) (popped ?s2) (ran ?s2) (base ?s2) ts'"
    using tp_reach_inv [OF r2] q by (auto simp: tp_inv_def)
  ultimately obtain q' h' where b: "add_body 12288 (small_queue, h) = Inr (q', h')" "block q' = 1"
    using tp_data_add [where hs = "hold_of \<circ> pcs ?s2" and t = 2] q by metis
  let ?s3 = "?s2\<lparr>mem := h', que := q', pcs := ?pc Sig, posted := [(f, x)]\<rparr>"
  have r3: "tp_reach ?s3"
    using tp_step.post_add [of ?s2 2 12288 f x]
    by (rule tp_reach_trans [OF r2]) (simp_all add: q tp_crash_def b)
  let ?s4 = "?s3\<lparr>pcs := ?pc Calm\<rparr>"
  have r4: "tp_reach ?s4"
    using tp_step.signal_none [of ?s3 2] by (rule tp_reach_trans [OF r3]) simp_all
  let ?s5 = "?s4\<lparr>mtx := None, pcs := (\<lambda>_. Client Calm)(0 := Wait)\<rparr>"
  have "tp_reach ?s5"
    using tp_step.test_wait [of ?s4 0] by (rule tp_reach_trans [OF r4]) (simp_all add: b(2), auto simp: fun_eq_iff)
  then show ?thesis by (rule exI [of _ ?s5, OF conjI]) (simp add: b)
qed


subsection \<open>Properties\<close>


text \<open>
  No task is leaked: when no thread is between two of the pool's functions with a task in its
  hands (\<open>Taken\<close>) or about to be added, every live block is one that was live before the pool
  started working or a task that is still in the queue.
\<close>

theorem thrdpool_no_task_leaked:
  assumes "tp_reach s" "\<forall>t. hold_of (pcs s t) = Nothing"
  shows "\<exists>ts. tq_rep (mem s) (que s) ts \<and>
    (\<forall>b \<in> set (hblocks (mem s)). b \<in> set (base s) \<or> fst b \<in> set ts)"
  using tp_reach_inv [OF assms(1)] assms(2) by (auto simp: tp_inv_def tp_data_def)

text \<open>
  C29: shutting down loses no wakeup: while a worker still waits after \<open>thrdpool_terminate\<close> has
  set \<open>quit\<close>, a terminating thread is on its way to the broadcast; once it has broadcast, nobody
  waits. The mutex has one owner.
\<close>

theorem thrdpool_shutdown_wakes:
  assumes "tp_reach s"
  shows "(quitv s \<noteq> 0 \<and> some_pc (\<lambda>pc. pc = Wait) (pcs s) \<longrightarrow>
      some_pc (\<lambda>pc. act_of pc = Some NbLock) (pcs s) \<or> some_pc (\<lambda>pc. act_of pc = Some Bcast) (pcs s)) \<and>
    (\<forall>t u. pcs s t = Test \<longrightarrow> pcs s u = Test \<longrightarrow> t = u)"
proof
  have i: "stop_inv s" using assms by (rule tp_reach_stop)
  then show "quitv s \<noteq> 0 \<and> some_pc (\<lambda>pc. pc = Wait) (pcs s) \<longrightarrow>
      some_pc (\<lambda>pc. act_of pc = Some NbLock) (pcs s) \<or> some_pc (\<lambda>pc. act_of pc = Some Bcast) (pcs s)"
    unfolding stop_inv_def by blast
  show "\<forall>t u. pcs s t = Test \<longrightarrow> pcs s u = Test \<longrightarrow> t = u"
    using i by (simp add: stop_inv_def)
qed

text \<open>
  A posted task can be left lying. \<open>__add_task\<close> signals without taking the mutex, so the
  signal may fall between a worker's test of the empty queue and its wait. There is a run after
  which the only worker waits although a task is in the queue, the pool is not being terminated,
  and no other thread is in any function of the pool: only a spurious wakeup, another post or
  termination will move the worker.
\<close>

theorem thrdpool_lost_wakeup:
  "\<exists>s ts. tp_reach s \<and> tq_rep (mem s) (que s) ts \<and> map (payload (mem s)) ts = [(f, x)] \<and>
     pcs s = (\<lambda>_. Client Calm)(0 := Wait) \<and> quitv s = 0 \<and> block (que s) = 1"
proof -
  obtain s where s: "tp_reach s" "pcs s = (\<lambda>_. Client Calm)(0 := Wait)" "posted s = [(f, x)]" "popped s = []"
    "block (que s) = 1" "quitv s = 0" using lost_wakeup_run by blast
  with tp_reach_inv [OF s(1)] obtain ts where "tq_rep (mem s) (que s) ts" "map (payload (mem s)) ts = [(f, x)]"
    by (auto simp: tp_inv_def tp_data_def)
  with s show ?thesis by (intro exI [of _ s] exI [of _ ts]) auto
qed


theorem thrdpool_no_task_leaked_witness:
  "\<exists>(s :: tp_sys) ts. posted s = [(1, 2)] \<and> tq_rep (mem s) (que s) ts \<and>
     (\<forall>b \<in> set (hblocks (mem s)). b \<in> set (base s) \<or> fst b \<in> set ts)"
proof -
  obtain s where s: "tp_reach s" "posted s = [(1, 2)]" "pcs s = (\<lambda>_. Client Calm)(0 := Wait)"
    using lost_wakeup_run by blast
  then have "\<forall>t. hold_of (pcs s t) = Nothing" by simp
  with thrdpool_no_task_leaked [OF s(1)] s(2) show ?thesis by blast
qed

theorem thrdpool_shutdown_wakes_witness:
  "\<exists>s. tp_reach s \<and> quitv s = 1 \<and> pcs s 0 = Wait \<and>
     (some_pc (\<lambda>pc. act_of pc = Some NbLock) (pcs s) \<or> some_pc (\<lambda>pc. act_of pc = Some Bcast) (pcs s))"
proof -
  obtain s where s: "tp_reach s" "pcs s = (\<lambda>_. Client Calm)(0 := Wait)" using lost_wakeup_run [of 1 2] by blast
  let ?s = "s\<lparr>quitv := 1, pcs := (pcs s)(1 := with_act (pcs s 1) NbLock)\<rparr>"
  have "tp_step s ?s" using s(2) by (intro tp_step.terminate) simp
  with s(1) have r: "tp_reach ?s" by (rule tp_reach.step)
  have w: "pcs ?s 0 = Wait" "quitv ?s = 1" using s(2) by simp_all
  then have "some_pc (\<lambda>pc. pc = Wait) (pcs ?s)" unfolding some_pc_def by blast
  with thrdpool_shutdown_wakes [OF r] r w show ?thesis by (intro exI [of _ ?s]) auto
qed

end
