(* ===== verification/Thrdpool_Program.thy ===== *)
theory Thrdpool_Program
  imports Thrdpool_Conc
begin

text \<open>
  The program \<^verbatim>\<open>thread_pool-master/main.c\<close> on the thread pool: \<open>main\<close> posts \<open>do_task\<close> until \<open>thrdpool_post\<close> refuses, eight workers run it, and
  whoever finds a thousand tasks done terminates the pool. \<open>done\<close> is incremented under a mutex and read without one; the models take memory to be
  sequentially consistent, so that the read finds some value that \<open>done\<close> has at the time.
\<close>

subsection \<open>The program\<close>

definition worker_count :: nat where
  "worker_count = 8"

text \<open>\<open>main\<close> is the thread after the workers.\<close>

abbreviation main_thread :: nat where
  "main_thread \<equiv> worker_count"

datatype task_pc =
    Enter        \<comment> \<open>at \<open>pthread_mutex_lock\<close>\<close>
  | Holding      \<comment> \<open>at \<open>done++\<close>\<close>
  | Counted      \<comment> \<open>at \<open>pthread_mutex_unlock\<close>\<close>
  | Reading      \<comment> \<open>at \<open>done >= 1000\<close>\<close>
  | Stopping     \<comment> \<open>at \<open>thrdpool_terminate\<close>\<close>
  | Leaving      \<comment> \<open>in or behind it\<close>

datatype main_pc = Posting | Joining | Returned

record tp_program =
  pool :: tp_sys
  done_count :: int
  done_mutex :: "nat option"
  task :: "nat \<Rightarrow> task_pc"
  main :: main_pc
  late :: "nat set"       \<comment> \<open>the workers that have counted a task after the 999th; nothing depends on it\<close>

definition program_start :: "heap \<Rightarrow> task_queue_t \<Rightarrow> tp_program" where
  "program_start h q = \<lparr>pool = tp_start worker_count h q, done_count = 0, done_mutex = None, task = (\<lambda>_. Enter), main = Posting, late = {}\<rparr>"

definition in_task :: "tp_program \<Rightarrow> nat \<Rightarrow> bool" where
  "in_task s t \<longleftrightarrow> t < worker_count \<and> (\<exists>f x. pcs (pool s) t = Run f x Calm)"

text \<open>
  The pool itself goes on as long as no thread that is outside its functions is moved, and no \<open>post\<close> of
  \<open>main\<close> fails; those are steps of the program.
\<close>

definition pool_goes_on :: "tp_sys \<Rightarrow> tp_sys \<Rightarrow> bool" where
  "pool_goes_on c c' \<longleftrightarrow> tp_step c c' \<and> (\<forall>t. act_of (pcs c t) = Some Calm \<longrightarrow> pcs c' t = pcs c t) \<and>
     \<not> (\<exists>f x. pcs c main_thread = Client (PostAlloc f x) \<and> pcs c' main_thread = Client Calm)"

inductive program_step :: "addr \<Rightarrow> addr \<Rightarrow> tp_program \<Rightarrow> tp_program \<Rightarrow> bool" for do_task thepool where
  pool_step: "pool_goes_on (pool s) c \<Longrightarrow> program_step do_task thepool s (s\<lparr>pool := c\<rparr>)"
| post: "main s = Posting \<Longrightarrow> pcs (pool s) main_thread = Client Calm \<Longrightarrow> quitv (pool s) \<noteq> 1 \<Longrightarrow>
    program_step do_task thepool s (s\<lparr>pool := (pool s)\<lparr>pcs := (pcs (pool s))(main_thread := Client (PostAlloc do_task thepool))\<rparr>\<rparr>)"
| post_refused: "main s = Posting \<Longrightarrow> pcs (pool s) main_thread = Client Calm \<Longrightarrow> quitv (pool s) = 1 \<Longrightarrow>
    program_step do_task thepool s (s\<lparr>main := Joining\<rparr>)"
| post_fails: "main s = Posting \<Longrightarrow> pcs (pool s) main_thread = Client (PostAlloc f x) \<Longrightarrow>
    program_step do_task thepool s (s\<lparr>pool := (pool s)\<lparr>pcs := (pcs (pool s))(main_thread := Client Calm)\<rparr>, main := Joining\<rparr>)"
| task_lock: "in_task s t \<Longrightarrow> task s t = Enter \<Longrightarrow> done_mutex s = None \<Longrightarrow>
    program_step do_task thepool s (s\<lparr>done_mutex := Some t, task := (task s)(t := Holding)\<rparr>)"
| task_count: "in_task s t \<Longrightarrow> task s t = Holding \<Longrightarrow>
    program_step do_task thepool s (s\<lparr>done_count := done_count s + 1, task := (task s)(t := Counted),
      late := (if 1000 \<le> done_count s + 1 then insert t (late s) else late s)\<rparr>)"
| task_unlock: "in_task s t \<Longrightarrow> task s t = Counted \<Longrightarrow>
    program_step do_task thepool s (s\<lparr>done_mutex := None, task := (task s)(t := Reading)\<rparr>)"
| task_read: "in_task s t \<Longrightarrow> task s t = Reading \<Longrightarrow>
    program_step do_task thepool s (s\<lparr>task := (task s)(t := (if 1000 \<le> done_count s then Stopping else Leaving))\<rparr>)"
| task_stop: "in_task s t \<Longrightarrow> task s t = Stopping \<Longrightarrow>
    program_step do_task thepool s (s\<lparr>pool := (pool s)\<lparr>quitv := 1, pcs := (pcs (pool s))(t := with_act (pcs (pool s) t) NbLock)\<rparr>,
      task := (task s)(t := Leaving)\<rparr>)"
| task_return: "in_task s t \<Longrightarrow> task s t = Leaving \<Longrightarrow>
    program_step do_task thepool s (s\<lparr>pool := (pool s)\<lparr>pcs := (pcs (pool s))(t := Load)\<rparr>, task := (task s)(t := Enter)\<rparr>)"
| joined: "main s = Joining \<Longrightarrow> \<forall>t < worker_count. pcs (pool s) t = Done \<Longrightarrow>
    program_step do_task thepool s (s\<lparr>main := Returned\<rparr>)"

inductive program_reach :: "addr \<Rightarrow> addr \<Rightarrow> tp_program \<Rightarrow> bool" for do_task thepool where
  start: "tq_rep h q [] \<Longrightarrow> block q = 1 \<Longrightarrow> program_reach do_task thepool (program_start h q)"
| step: "program_reach do_task thepool s \<Longrightarrow> program_step do_task thepool s s' \<Longrightarrow> program_reach do_task thepool s'"

subsection \<open>The pool is used as it may be\<close>

lemma program_step_pool: "program_step f x s s' \<Longrightarrow> pool s' = pool s \<or> tp_step (pool s) (pool s')"
proof (induction rule: program_step.induct)
  case (post s)
  then show ?case using tp_step.post_call [of "pool s" main_thread f x] by simp
next
  case (post_fails s g y)
  then show ?case using tp_step.post_no_memory [of "pool s" main_thread g y] by simp
next
  case (task_stop s t)
  then show ?case using tp_step.terminate [of "pool s" t] by (auto simp: in_task_def)
next
  case (task_return s t)
  then show ?case using tp_step.handler_returns [of "pool s" t] by (auto simp: in_task_def)
qed (auto simp: pool_goes_on_def)

lemma program_reach_pool: "program_reach f x s \<Longrightarrow> tp_reach (pool s)"
proof (induction rule: program_reach.induct)
  case (start h q)
  then show ?case by (simp add: program_start_def tp_reach.start)
next
  case (step s s')
  with program_step_pool [OF step(2)] show ?case by (auto intro: tp_reach.step)
qed

subsection \<open>Invariant\<close>

text \<open>Where a worker is with respect to its task; \<open>late_ok\<close> is where one is that has seen the thousandth.\<close>

definition busy :: "tp_pc \<Rightarrow> bool" where
  "busy pc \<longleftrightarrow> (\<exists>f x a. pc = Run f x a)"

definition late_ok :: "tp_program \<Rightarrow> nat \<Rightarrow> bool" where
  "late_ok s t \<longleftrightarrow> (busy (pcs (pool s) t) \<and> (task s t = Counted \<or> task s t = Reading \<or> task s t = Stopping \<or> task s t = Leaving \<and> quitv (pool s) = 1)) \<or>
     quitv (pool s) = 1 \<and> (pcs (pool s) t = Load \<or> pcs (pool s) t = Done)"

definition program_inv :: "tp_program \<Rightarrow> bool" where
  "program_inv s \<longleftrightarrow> late s \<subseteq> {..<worker_count} \<and> 0 \<le> done_count s \<and> int (card (late s)) = max 0 (done_count s - 999) \<and>
     (\<forall>t \<in> late s. late_ok s t) \<and>
     (quitv (pool s) = 0 \<or> quitv (pool s) = 1 \<and> 1000 \<le> done_count s) \<and>
     (quitv (pool s) = 0 \<longrightarrow> block (que (pool s)) = 1 \<and> (\<forall>t. pcs (pool s) t \<noteq> Done \<and> act_of (pcs (pool s) t) \<noteq> Some NbLock)) \<and>
     (\<forall>t. \<not> busy (pcs (pool s) t) \<longrightarrow> task s t = Enter) \<and>
     (\<forall>t. task s t = Stopping \<longrightarrow> 1000 \<le> done_count s) \<and>
     (\<forall>t f x a. pcs (pool s) t = Run f x a \<longrightarrow> a \<noteq> Calm \<longrightarrow> task s t = Leaving) \<and>
     (main s = Returned \<longrightarrow> (\<forall>t < worker_count. pcs (pool s) t = Done))"

lemma pop_task_block: "pop_task (q, h) = Inr (r, q', h') \<Longrightarrow> block q' = block q"
  by (auto simp: pop_task_def bindE_eq_Inr split: if_splits)

lemma add_body_block: "add_body p (q, h) = Inr (q', h') \<Longrightarrow> block q' = block q"
  by (auto simp: add_body_def bindE_eq_Inr)

text \<open>What a step of the pool does to one thread.\<close>

fun pool_move :: "int \<Rightarrow> int \<Rightarrow> tp_pc \<Rightarrow> tp_pc \<Rightarrow> bool" where
  "pool_move q b (Client a) pc' \<longleftrightarrow> (\<exists>a'. pc' = Client a' \<and> (a' = NbLock \<longrightarrow> a = NbLock))"
| "pool_move q b (Run f x a) pc' \<longleftrightarrow> (\<exists>a'. pc' = Run f x a' \<and> (a' = NbLock \<longrightarrow> a = NbLock) \<and> (a = Calm \<longrightarrow> a' = Calm))"
| "pool_move q b Load pc' \<longleftrightarrow> pc' = Load \<or> pc' = Pop \<and> q = 0 \<or> pc' = Done \<and> q \<noteq> 0"
| "pool_move q b Done pc' \<longleftrightarrow> pc' = Done"
| "pool_move q b pc pc' \<longleftrightarrow> pc' \<noteq> Load \<and> (pc' = Done \<longrightarrow> b = 0) \<and> (act_of pc' = None \<or> (\<exists>f x. pc' = Run f x Calm))"

lemma pool_move_refl [simp]: "act_of pc = Some Calm \<Longrightarrow> pool_move q b pc pc" "pool_move q b Wait Wake"
  by (cases pc; simp)+

lemma pool_move_same: "pc \<noteq> Load \<Longrightarrow> act_of pc = None \<Longrightarrow> pool_move q b pc pc" "pool_move q b (Run f x a) (Run f x a)"
  "pool_move q b (Client a) (Client a)" "pool_move q b Load Load"
  by (cases pc; simp)+

lemma pool_move_id: "pool_move q b pc pc"
  using pool_move_same by (cases "pc = Load"; cases "act_of pc"; cases pc) auto

lemma pool_move_act: "act_of pc = Some a \<Longrightarrow> a \<noteq> Calm \<Longrightarrow> (a' = NbLock \<longrightarrow> a = NbLock) \<Longrightarrow> pool_move q b pc (with_act pc a')"
  by (cases pc) auto

lemma pool_move_wake: "pool_move q b pc (wake_all pc)"
  using pool_move_id [of q b pc] by (simp add: wake_all_def)

lemma tp_step_moves:
  assumes "tp_step c c'" "\<forall>t. act_of (pcs c t) = Some Calm \<longrightarrow> pcs c' t = pcs c t"
  shows "quitv c' = quitv c \<and> (block (que c') = block (que c) \<or> (\<exists>t. act_of (pcs c t) = Some NbLock)) \<and>
    pool_move (quitv c) (block (que c)) (pcs c t) (pcs c' t)"
  using assms
proof (induction rule: tp_step.induct)
  case (pop s u)
  then show ?case
    by (auto simp: tp_crash_def pool_move_id dest: pop_task_block split: sum.split option.split)
next
  case (post_call s u f x)
  from spec [OF post_call(3), of u] post_call(1) have "with_act (pcs s u) (PostAlloc f x) = pcs s u" by simp
  then have "act_of (pcs s u) = Some (PostAlloc f x)" using post_call(1) by (cases "pcs s u") auto
  with post_call(1) show ?case by simp
next
  case (terminate s u)
  from spec [OF terminate(2), of u] terminate(1) have "with_act (pcs s u) NbLock = pcs s u" by simp
  then have "act_of (pcs s u) = Some NbLock" using terminate(1) by (cases "pcs s u") auto
  with terminate(1) show ?case by simp
next
  case (handler_returns s u f x)
  from spec [OF handler_returns(2), of u] handler_returns(1) show ?case by simp
next
  case (nonblock s u)
  then show ?case by (auto simp: pool_move_id pool_move_act)
next
  case (post_add s u p f x)
  then show ?case by (auto simp: tp_crash_def pool_move_id pool_move_act dest: add_body_block split: sum.split)
next
  case (broadcast s u)
  then show ?case by (auto simp: pool_move_act pool_move_wake)
qed (auto simp: tp_crash_def pool_move_id pool_move_act split: sum.split)

lemma program_invD:
  assumes "program_inv s"
  shows "late s \<subseteq> {..<worker_count}" "0 \<le> done_count s" "int (card (late s)) = max 0 (done_count s - 999)"
    "t \<in> late s \<Longrightarrow> late_ok s t" "quitv (pool s) = 0 \<or> quitv (pool s) = 1 \<and> 1000 \<le> done_count s"
    "quitv (pool s) = 0 \<Longrightarrow> block (que (pool s)) = 1"
    "quitv (pool s) = 0 \<Longrightarrow> pcs (pool s) t \<noteq> Done \<and> act_of (pcs (pool s) t) \<noteq> Some NbLock"
    "\<not> busy (pcs (pool s) t) \<Longrightarrow> task s t = Enter" "task s t = Stopping \<Longrightarrow> 1000 \<le> done_count s"
    "pcs (pool s) t = Run f x a \<Longrightarrow> a \<noteq> Calm \<Longrightarrow> task s t = Leaving"
    "main s = Returned \<Longrightarrow> t < worker_count \<Longrightarrow> pcs (pool s) t = Done"
  using assms unfolding program_inv_def by blast+

lemma program_invI:
  assumes "late s \<subseteq> {..<worker_count}" "0 \<le> done_count s" "int (card (late s)) = max 0 (done_count s - 999)"
    "\<And>t. t \<in> late s \<Longrightarrow> late_ok s t" "quitv (pool s) = 0 \<or> quitv (pool s) = 1 \<and> 1000 \<le> done_count s"
    "quitv (pool s) = 0 \<Longrightarrow> block (que (pool s)) = 1"
    "\<And>t. quitv (pool s) = 0 \<Longrightarrow> pcs (pool s) t \<noteq> Done \<and> act_of (pcs (pool s) t) \<noteq> Some NbLock"
    "\<And>t. \<not> busy (pcs (pool s) t) \<Longrightarrow> task s t = Enter" "\<And>t. task s t = Stopping \<Longrightarrow> 1000 \<le> done_count s"
    "\<And>t f x a. pcs (pool s) t = Run f x a \<Longrightarrow> a \<noteq> Calm \<Longrightarrow> task s t = Leaving"
    "\<And>t. main s = Returned \<Longrightarrow> t < worker_count \<Longrightarrow> pcs (pool s) t = Done"
  shows "program_inv s"
  using assms unfolding program_inv_def by blast

lemma pool_goes_on_inv:
  assumes "program_inv s" "pool_goes_on (pool s) c"
  shows "program_inv (s\<lparr>pool := c\<rparr>)"
proof -
  note inv = program_invD [OF assms(1)]
  have step: "tp_step (pool s) c" "\<forall>t. act_of (pcs (pool s) t) = Some Calm \<longrightarrow> pcs c t = pcs (pool s) t"
    using assms(2) by (simp_all add: pool_goes_on_def)
  have q: "quitv c = quitv (pool s)" and b: "block (que c) = block (que (pool s)) \<or> (\<exists>t. act_of (pcs (pool s) t) = Some NbLock)"
    and mv: "\<And>t. pool_move (quitv (pool s)) (block (que (pool s))) (pcs (pool s) t) (pcs c t)"
    using tp_step_moves [OF step] by blast+
  have busy: "busy (pcs c t)" if "busy (pcs (pool s) t)" for t using that mv [of t] by (auto simp: busy_def)
  show ?thesis
  proof (rule program_invI)
    fix t assume "t \<in> late (s\<lparr>pool := c\<rparr>)"
    then show "late_ok (s\<lparr>pool := c\<rparr>) t" using inv(4) [of t] busy [of t] mv [of t] q by (auto simp: late_ok_def)
  next
    fix t assume "quitv (pool (s\<lparr>pool := c\<rparr>)) = 0"
    then have z: "quitv (pool s) = 0" by (simp add: q)
    with mv [of t] inv(6) inv(7) [of t]
    show "pcs (pool (s\<lparr>pool := c\<rparr>)) t \<noteq> Done \<and> act_of (pcs (pool (s\<lparr>pool := c\<rparr>)) t) \<noteq> Some NbLock"
      by (cases "pcs (pool s) t") auto
  next
    assume "quitv (pool (s\<lparr>pool := c\<rparr>)) = 0"
    then show "block (que (pool (s\<lparr>pool := c\<rparr>))) = 1" using b inv(6,7) q by auto
  next
    fix t assume "\<not> busy (pcs (pool (s\<lparr>pool := c\<rparr>)) t)"
    then show "task (s\<lparr>pool := c\<rparr>) t = Enter" using inv(8) [of t] busy [of t] by auto
  next
    fix t f x a assume "pcs (pool (s\<lparr>pool := c\<rparr>)) t = Run f x a" "a \<noteq> Calm"
    then show "task (s\<lparr>pool := c\<rparr>) t = Leaving" using mv [of t] inv(10) [of t] by (cases "pcs (pool s) t") auto
  next
    fix t assume "main (s\<lparr>pool := c\<rparr>) = Returned" "t < worker_count"
    then show "pcs (pool (s\<lparr>pool := c\<rparr>)) t = Done" using inv(11) [of t] mv [of t] by simp
  qed (use inv(1-3,5,9) q in auto)
qed

text \<open>Steps of a worker in its task that leave the pool alone.\<close>

lemma task_step_inv:
  assumes "program_inv s" "in_task s t" "pc \<noteq> Enter" "pc = Stopping \<Longrightarrow> 1000 \<le> done_count s"
    and "t \<in> late s \<Longrightarrow> pc = Counted \<or> pc = Reading \<or> pc = Stopping \<or> pc = Leaving \<and> quitv (pool s) = 1"
    and "s' = s\<lparr>done_mutex := m, task := (task s)(t := pc)\<rparr>"
  shows "program_inv s'"
proof -
  note inv = program_invD [OF assms(1)]
  obtain f x where run: "pcs (pool s) t = Run f x Calm" using assms(2) by (auto simp: in_task_def)
  show ?thesis
    unfolding assms(6)
  proof (rule program_invI)
    fix u assume "u \<in> late (s\<lparr>done_mutex := m, task := (task s)(t := pc)\<rparr>)"
    then show "late_ok (s\<lparr>done_mutex := m, task := (task s)(t := pc)\<rparr>) u"
      using inv(4) [of u] assms(5) run by (cases "u = t") (auto simp: late_ok_def busy_def)
  qed (use inv(1-3,5,6,7,8,9,10,11) run assms(3,4) in \<open>auto simp: busy_def split: if_splits\<close>)
qed

lemma program_step_inv:
  assumes "program_step f x s s'" "program_inv s"
  shows "program_inv s'"
proof -
  note inv = program_invD [OF assms(2)]
  have mt: "main_thread \<notin> late s" using inv(1) by auto
  from assms(1) show ?thesis
  proof (cases rule: program_step.cases)
    case (pool_step c)
    with pool_goes_on_inv [OF assms(2)] show ?thesis by simp
  next
    case post
    show ?thesis
      unfolding post(1) using inv mt post(3) by (intro program_invI) (auto simp: late_ok_def busy_def split: if_splits)
  next
    case post_refused
    show ?thesis unfolding post_refused(1) using inv by (intro program_invI) (auto simp: late_ok_def)
  next
    case (post_fails g y)
    show ?thesis
      unfolding post_fails(1) using inv mt post_fails(3) by (intro program_invI) (auto simp: late_ok_def busy_def split: if_splits)
  next
    case (task_lock t)
    have "t \<notin> late s" using inv(4) [of t] task_lock(2,3) by (auto simp: late_ok_def in_task_def)
    with task_step_inv [OF assms(2) task_lock(2), of Holding s' "Some t"] task_lock(1) show ?thesis by simp
  next
    case (task_count t)
    obtain g y where run: "pcs (pool s) t = Run g y Calm" "t < worker_count" using task_count(2) by (auto simp: in_task_def)
    have fresh: "t \<notin> late s" using inv(4) [of t] task_count(3) run by (auto simp: late_ok_def)
    have fin: "finite (late s)" using inv(1) finite_subset by blast
    have l: "late s' = (if 1000 \<le> done_count s + 1 then insert t (late s) else late s)" "done_count s' = done_count s + 1"
      using task_count(1) by simp_all
    show ?thesis
    proof (rule program_invI)
      show "int (card (late s')) = max 0 (done_count s' - 999)" using inv(3) fresh fin by (auto simp: l)
      fix u assume "u \<in> late s'"
      then show "late_ok s' u" using inv(4) [of u] fresh run task_count(1) by (cases "u = t") (auto simp: late_ok_def busy_def split: if_splits)
    qed (use inv(1,2,5,6,7,8,9,10,11) run task_count(1) in \<open>force simp: busy_def split: if_splits\<close>)+
  next
    case (task_unlock t)
    with task_step_inv [OF assms(2) task_unlock(2), of Reading s' None] show ?thesis by simp
  next
    case (task_read t)
    have "t \<in> late s \<Longrightarrow> 1000 \<le> done_count s"
    proof -
      assume "t \<in> late s"
      then have "0 < card (late s)" using inv(1) finite_subset card_gt_0_iff by blast
      then show ?thesis using inv(3) by (simp split: if_splits)
    qed
    with task_step_inv [OF assms(2) task_read(2), of "if 1000 \<le> done_count s then Stopping else Leaving" s' "done_mutex s"] task_read(1)
    show ?thesis by (cases s) (auto split: if_splits)
  next
    case (task_stop t)
    obtain g y where run: "pcs (pool s) t = Run g y Calm" "t < worker_count" using task_stop(2) by (auto simp: in_task_def)
    show ?thesis
    proof (rule program_invI)
      fix u assume "u \<in> late s'"
      then show "late_ok s' u" using inv(4) [of u] run task_stop(1) by (cases "u = t") (auto simp: late_ok_def busy_def)
    next
      fix u assume "main s' = Returned" "u < worker_count"
      then show "pcs (pool s') u = Done" using inv(11) [of u] inv(11) [of t] run task_stop(1) by auto
    qed (use inv(1,2,3,5,8,9,10) run task_stop in \<open>force simp: busy_def split: if_splits\<close>)+
  next
    case (task_return t)
    obtain g y where run: "pcs (pool s) t = Run g y Calm" "t < worker_count" using task_return(2) by (auto simp: in_task_def)
    show ?thesis
    proof (rule program_invI)
      fix u assume "u \<in> late s'"
      then show "late_ok s' u" using inv(4) [of u] run task_return(1,3) by (cases "u = t") (auto simp: late_ok_def busy_def)
    next
      fix u assume "main s' = Returned" "u < worker_count"
      then show "pcs (pool s') u = Done" using inv(11) [of u] inv(11) [of t] run task_return(1) by auto
    qed (use inv(1,2,3,5,6,7,8,9,10) run task_return in \<open>force simp: busy_def split: if_splits\<close>)+
  next
    case joined
    show ?thesis unfolding joined(1) using inv joined(3) by (intro program_invI) (auto simp: late_ok_def)
  qed
qed

lemma program_reach_inv: "program_reach f x s \<Longrightarrow> program_inv s"
proof (induction rule: program_reach.induct)
  case (start h q)
  then show ?case by (auto simp: program_inv_def program_start_def tp_start_def busy_def)
qed (rule program_step_inv)



end
