(* ===== verification/Sockets.thy ===== *)
theory Sockets
  imports Prelude
begin

unbundle bit_operations_syntax

text \<open>
  What the servers under \<^verbatim>\<open>2_Net/2.1-epoll\<close> use of the system: the open descriptors, the
  interest list of the epoll instance, and, for each connection, the bytes that came in and went
  out. The answers of \<open>accept\<close>, \<open>recv\<close> and \<open>send\<close> are inputs (\<open>io\<close>); the functions here say
  what a call with that answer does. The contract of an event loop ends the theory.
\<close>

subsection \<open>Descriptors, interest and answers\<close>

type_synonym bytes = "8 word list"

type_synonym events = "32 word"

definition EPOLLIN :: events where
  "EPOLLIN = 1"

definition EPOLLOUT :: events where
  "EPOLLOUT = 4"

definition wants :: "events \<Rightarrow> events \<Rightarrow> bool" where
  "wants ev e \<longleftrightarrow> ev AND e \<noteq> 0"

lemma wants_simps [simp]:
  "wants EPOLLIN EPOLLIN" "wants EPOLLOUT EPOLLOUT" "\<not> wants EPOLLIN EPOLLOUT" "\<not> wants EPOLLOUT EPOLLIN"
  "EPOLLIN \<noteq> EPOLLOUT" "EPOLLOUT \<noteq> EPOLLIN"
  by (simp_all add: wants_def EPOLLIN_def EPOLLOUT_def)

text \<open>
  The answer of the one call a handler makes: the descriptor \<open>accept\<close> returns, or what \<open>recv\<close>
  finds (\<open>None\<close> is the error \<open>-1\<close>, \<open>Some []\<close> the end of the stream), or what \<open>send\<close> returns.
\<close>

datatype io = Accepted int | Received "bytes option" | Sent int

record kernel =
  is_open :: "int \<Rightarrow> bool"
  interest :: "int \<Rightarrow> events option"
  inlog :: "int \<Rightarrow> bytes"
  outlog :: "int \<Rightarrow> bytes"

definition ep_add :: "int \<Rightarrow> events \<Rightarrow> kernel \<Rightarrow> kernel" where
  "ep_add fd ev k = (if interest k fd = None then k\<lparr>interest := (interest k)(fd := Some ev)\<rparr> else k)"

definition ep_mod :: "int \<Rightarrow> events \<Rightarrow> kernel \<Rightarrow> kernel" where
  "ep_mod fd ev k = (if interest k fd = None then k else k\<lparr>interest := (interest k)(fd := Some ev)\<rparr>)"

definition ep_del :: "int \<Rightarrow> kernel \<Rightarrow> kernel" where
  "ep_del fd k = k\<lparr>interest := (interest k)(fd := None)\<rparr>"

definition k_close :: "int \<Rightarrow> kernel \<Rightarrow> kernel" where
  "k_close fd k = k\<lparr>is_open := (is_open k)(fd := False), interest := (interest k)(fd := None)\<rparr>"

definition k_accept :: "int \<Rightarrow> kernel \<Rightarrow> kernel" where
  "k_accept fd k = k\<lparr>is_open := (is_open k)(fd := True), interest := (interest k)(fd := None),
     inlog := (inlog k)(fd := []), outlog := (outlog k)(fd := [])\<rparr>"

text \<open>\<open>recv\<close> with room for \<open>n\<close> bytes stores no more than that; \<open>send\<close> takes the first \<open>n\<close> bytes.\<close>

definition k_recv :: "int \<Rightarrow> int \<Rightarrow> bytes \<Rightarrow> kernel \<Rightarrow> bytes \<times> kernel" where
  "k_recv fd n bs k =
     (let got = take (nat n) bs in (got, k\<lparr>inlog := (inlog k)(fd := inlog k fd @ got)\<rparr>))"

definition k_send :: "int \<Rightarrow> bytes \<Rightarrow> int \<Rightarrow> kernel \<Rightarrow> kernel" where
  "k_send fd buf n k = k\<lparr>outlog := (outlog k)(fd := outlog k fd @ take (nat n) buf)\<rparr>"

definition overwrite :: "nat \<Rightarrow> bytes \<Rightarrow> bytes \<Rightarrow> bytes" where
  "overwrite i new buf = take i buf @ new @ drop (i + length new) buf"

lemma length_overwrite [simp]: "i + length new \<le> length buf \<Longrightarrow> length (overwrite i new buf) = length buf"
  by (simp add: overwrite_def)

lemma take_overwrite [simp]: "i \<le> length buf \<Longrightarrow> take (i + length new) (overwrite i new buf) = take i buf @ new"
  by (simp add: overwrite_def)

lemma take_overwrite_0 [simp]: "n \<le> length new \<Longrightarrow> take n (overwrite 0 new buf) = take n new"
  by (simp add: overwrite_def)

subsection \<open>The contract of an event loop\<close>

text \<open>
  A loop that hands one event after another to its handlers. \<open>may e s\<close> says which events and
  answers the system can produce in state \<open>s\<close>.
\<close>

fun run_events :: "('e \<Rightarrow> 's \<Rightarrow> fault + 's) \<Rightarrow> 'e list \<Rightarrow> 's \<Rightarrow> fault + 's" where
  "run_events handle [] s = Inr s"
| "run_events handle (e # es) s = bindE (handle e s) (run_events handle es)"

fun possible :: "('e \<Rightarrow> 's \<Rightarrow> fault + 's) \<Rightarrow> ('e \<Rightarrow> 's \<Rightarrow> bool) \<Rightarrow> 'e list \<Rightarrow> 's \<Rightarrow> bool" where
  "possible handle may [] s \<longleftrightarrow> True"
| "possible handle may (e # es) s \<longleftrightarrow>
     may e s \<and> (case handle e s of Inl f \<Rightarrow> True | Inr s' \<Rightarrow> possible handle may es s')"

locale event_loop =
  fixes inv :: "'s \<Rightarrow> bool"
    and may :: "'e \<Rightarrow> 's \<Rightarrow> bool"
    and handle :: "'e \<Rightarrow> 's \<Rightarrow> fault + 's"
  assumes handle_inv: "inv s \<Longrightarrow> may e s \<Longrightarrow> \<exists>s'. handle e s = Inr s' \<and> inv s'"
begin

lemma run_inv: "inv s \<Longrightarrow> possible handle may es s \<Longrightarrow> \<exists>s'. run_events handle es s = Inr s' \<and> inv s'"
proof (induction es arbitrary: s)
  case (Cons e es)
  then obtain s' where "handle e s = Inr s'" "inv s'" using handle_inv [of s e] by auto
  with Cons show ?case by simp
qed simp

end

end
