(* ===== verification/Reactor.thy ===== *)
theory Reactor
  imports Sockets
begin

text \<open>
  The echo server (\<^verbatim>\<open>2_Net/2.1-epoll/reactor.c\<close>): one epoll loop, a table of connections indexed
  by descriptor, and a callback for each kind of event. A connection alternates between waiting for
  input and waiting to send: \<open>recv_cb\<close> copies what came in to the output buffer and asks for
  \<open>EPOLLOUT\<close>, \<open>send_cb\<close> sends it and asks for \<open>EPOLLIN\<close> again. Only the printed messages and the
  time measurement are left out.
\<close>

subsection \<open>The connections and the callbacks\<close>

definition BUFFER_LENGTH :: int where
  "BUFFER_LENGTH = 512"

definition connlist_size :: int where
  "connlist_size = 1048576"

datatype callback = No_cb | Accept_cb | Recv_cb | Send_cb

record conn_item =
  fd :: int
  rbuffer :: bytes
  rlen :: int
  wbuffer :: bytes
  wlen :: int
  recv_t :: callback
  send_callback :: callback

record server =
  kern :: kernel
  connlist :: "int \<Rightarrow> conn_item"

definition conn_at :: "int \<Rightarrow> server \<Rightarrow> fault + conn_item" where
  "conn_at i s = (if 0 \<le> i \<and> i < connlist_size then Inr (connlist s i) else Inl (BadIndex i))"

definition set_conn :: "int \<Rightarrow> conn_item \<Rightarrow> server \<Rightarrow> server" where
  "set_conn i c s = s\<lparr>connlist := (connlist s)(i := c)\<rparr>"

definition set_event :: "int \<Rightarrow> events \<Rightarrow> bool \<Rightarrow> server \<Rightarrow> server" where
  "set_event i ev flag s = s\<lparr>kern := (if flag then ep_add i ev (kern s) else ep_mod i ev (kern s))\<rparr>"

definition zeroed :: bytes where
  "zeroed = replicate (nat BUFFER_LENGTH) 0"

definition accept_cb :: "int \<Rightarrow> int \<Rightarrow> server \<Rightarrow> fault + (int \<times> server)" where
  "accept_cb lfd clientfd s =
     (if clientfd < 0 then Inr (-1, s)
      else
        let s1 = set_event clientfd EPOLLIN True (s\<lparr>kern := k_accept clientfd (kern s)\<rparr>) in
        bindE (conn_at clientfd s1) (\<lambda>c.
        Inr (clientfd, set_conn clientfd
          (c\<lparr>fd := clientfd, rbuffer := zeroed, rlen := 0, wbuffer := zeroed, wlen := 0,
             recv_t := Recv_cb, send_callback := Send_cb\<rparr>) s1)))"

text \<open>\<open>memcpy\<close> of a negative length is a copy of almost the whole address space.\<close>

definition copy_out :: "conn_item \<Rightarrow> fault + conn_item" where
  "copy_out c =
     bindE (assertE (BadLength (rlen c)) (0 \<le> rlen c \<and> rlen c \<le> BUFFER_LENGTH)) (\<lambda>_.
     Inr (c\<lparr>wbuffer := overwrite 0 (take (nat (rlen c)) (rbuffer c)) (wbuffer c), wlen := rlen c, rlen := 0\<rparr>))"

definition recv_cb :: "int \<Rightarrow> bytes option \<Rightarrow> server \<Rightarrow> fault + (int \<times> server)" where
  "recv_cb i answer s =
     bindE (conn_at i s) (\<lambda>c.
     case answer of
       None \<Rightarrow>
         bindE (copy_out (c\<lparr>rlen := rlen c + (-1)\<rparr>)) (\<lambda>c'.
         Inr (-1, set_event i EPOLLOUT False (set_conn i c' s)))
     | Some bs \<Rightarrow>
         (let (got, k) = k_recv i (BUFFER_LENGTH - rlen c) bs (kern s); count = int (length got) in
          if count = 0 then Inr (-1, s\<lparr>kern := k_close i (ep_del i k)\<rparr>)
          else
            bindE (copy_out (c\<lparr>rbuffer := overwrite (nat (rlen c)) got (rbuffer c), rlen := rlen c + count\<rparr>)) (\<lambda>c'.
            Inr (count, set_event i EPOLLOUT False (set_conn i c' (s\<lparr>kern := k\<rparr>))))))"

definition send_cb :: "int \<Rightarrow> int \<Rightarrow> server \<Rightarrow> fault + (int \<times> server)" where
  "send_cb i count s =
     bindE (conn_at i s) (\<lambda>c.
     Inr (count, set_event i EPOLLIN False
       (s\<lparr>kern := k_send i (take (nat (wlen c)) (wbuffer c)) count (kern s)\<rparr>)))"

text \<open>One round of the inner loop of \<open>main\<close>: an event of \<open>epoll_wait\<close> and the answer of its call.\<close>

definition handle_event :: "int \<times> events \<times> io \<Rightarrow> server \<Rightarrow> fault + server" where
  "handle_event e s =
     (let (connfd, evs, io) = e in
      bindE (conn_at connfd s) (\<lambda>c.
      if wants evs EPOLLIN then
        (case (recv_t c, io) of
           (Accept_cb, Accepted n) \<Rightarrow> bindE (accept_cb connfd n s) (\<lambda>(_, s'). Inr s')
         | (Recv_cb, Received r) \<Rightarrow> bindE (recv_cb connfd r s) (\<lambda>(_, s'). Inr s')
         | _ \<Rightarrow> Inl NullUse)
      else if wants evs EPOLLOUT then
        (case (send_callback c, io) of
           (Send_cb, Sent n) \<Rightarrow> bindE (send_cb connfd n s) (\<lambda>(_, s'). Inr s')
         | _ \<Rightarrow> Inl NullUse)
      else Inr s))"

text \<open>What \<open>main\<close> does before the loop, with the descriptors \<open>init_server\<close> answers.\<close>

definition add_listener :: "int \<Rightarrow> server \<Rightarrow> fault + server" where
  "add_listener sockfd s =
     bindE (conn_at sockfd s) (\<lambda>c.
     Inr (set_event sockfd EPOLLIN True (set_conn sockfd (c\<lparr>fd := sockfd, recv_t := Accept_cb\<rparr>) s)))"

primrec start_server :: "int list \<Rightarrow> server \<Rightarrow> fault + server" where
  "start_server [] s = Inr s"
| "start_server (l # ls) s = bindE (add_listener l s) (start_server ls)"

subsection \<open>The two states of a connection\<close>

definition buffers_ok :: "conn_item \<Rightarrow> bool" where
  "buffers_ok c \<longleftrightarrow> length (rbuffer c) = 512 \<and> length (wbuffer c) = 512 \<and> rlen c = 0 \<and>
     0 \<le> wlen c \<and> wlen c \<le> 512 \<and> recv_t c = Recv_cb \<and> send_callback c = Send_cb"

definition waits_input :: "int \<Rightarrow> server \<Rightarrow> bool" where
  "waits_input i s \<longleftrightarrow> interest (kern s) i = Some EPOLLIN \<and> outlog (kern s) i = inlog (kern s) i"

definition waits_output :: "int \<Rightarrow> server \<Rightarrow> bool" where
  "waits_output i s \<longleftrightarrow> interest (kern s) i = Some EPOLLOUT \<and>
     inlog (kern s) i = outlog (kern s) i @ take (nat (wlen (connlist s i))) (wbuffer (connlist s i))"

definition echo_inv :: "int set \<Rightarrow> server \<Rightarrow> bool" where
  "echo_inv L s \<longleftrightarrow>
     (\<forall>l \<in> L. is_open (kern s) l \<and> 0 \<le> l \<and> l < connlist_size \<and> recv_t (connlist s l) = Accept_cb \<and>
        interest (kern s) l = Some EPOLLIN) \<and>
     (\<forall>i. is_open (kern s) i \<longrightarrow> i \<notin> L \<longrightarrow> 0 \<le> i \<and> i < connlist_size \<and> buffers_ok (connlist s i) \<and>
        (waits_input i s \<or> waits_output i s)) \<and>
     (\<forall>i. \<not> is_open (kern s) i \<longrightarrow> interest (kern s) i = None)"

text \<open>
  The events the system can report: on a descriptor that is of interest, for what it is of
  interest. Here calls succeed: \<open>recv\<close> has no error and \<open>send\<close> takes the whole buffer; \<open>accept\<close>
  may fail, and otherwise answers a descriptor that is not open and within the table.
\<close>

definition echo_may :: "int set \<Rightarrow> int \<times> events \<times> io \<Rightarrow> server \<Rightarrow> bool" where
  "echo_may L e s \<longleftrightarrow>
     (let (i, evs, io) = e in
      (\<exists>ev. interest (kern s) i = Some ev \<and> (wants evs EPOLLIN \<longrightarrow> wants ev EPOLLIN) \<and>
         (wants evs EPOLLOUT \<longrightarrow> wants ev EPOLLOUT)) \<and>
      (wants evs EPOLLIN \<longrightarrow>
         (if i \<in> L then \<exists>n. io = Accepted n \<and> (n < 0 \<or> n < connlist_size \<and> \<not> is_open (kern s) n)
          else \<exists>bs. io = Received (Some bs))) \<and>
      (wants evs EPOLLOUT \<longrightarrow> io = Sent (wlen (connlist s i))))"

lemma conn_at_ok: "0 \<le> i \<Longrightarrow> i < connlist_size \<Longrightarrow> conn_at i s = Inr (connlist s i)"
  by (simp add: conn_at_def)

lemma accept_cb_inv:
  assumes "echo_inv L s" "l \<in> L" "n < 0 \<or> n < connlist_size \<and> \<not> is_open (kern s) n"
  shows "\<exists>r s'. accept_cb l n s = Inr (r, s') \<and> echo_inv L s'"
proof (cases "n < 0")
  case True
  with assms show ?thesis by (simp add: accept_cb_def)
next
  case False
  with assms have n: "0 \<le> n" "n < connlist_size" "\<not> is_open (kern s) n" by auto
  then have "n \<notin> L" using assms(1) by (auto simp: echo_inv_def)
  with n assms(1) show ?thesis
    by (auto simp: accept_cb_def conn_at_ok set_event_def set_conn_def k_accept_def ep_add_def echo_inv_def
        buffers_ok_def waits_input_def waits_output_def zeroed_def BUFFER_LENGTH_def Let_def)
qed


lemma copy_out_ok:
  assumes "length (rbuffer c) = 512" "length (wbuffer c) = 512" "0 \<le> rlen c" "rlen c \<le> 512"
  shows "\<exists>w. copy_out c = Inr (c\<lparr>wbuffer := w, wlen := rlen c, rlen := 0\<rparr>) \<and> length w = 512 \<and>
    take (nat (rlen c)) w = take (nat (rlen c)) (rbuffer c)"
  using assms by (intro exI [of _ "overwrite 0 (take (nat (rlen c)) (rbuffer c)) (wbuffer c)"])
    (simp add: copy_out_def BUFFER_LENGTH_def overwrite_def)

lemma recv_cb_close:
  assumes "conn_at i s = Inr (connlist s i)" "rlen (connlist s i) = 0"
  shows "recv_cb i (Some []) s = Inr (-1, s\<lparr>kern := k_close i (ep_del i (snd (k_recv i BUFFER_LENGTH [] (kern s))))\<rparr>)"
  using assms by (simp add: recv_cb_def k_recv_def Let_def)

lemma recv_cb_data:
  assumes "conn_at i s = Inr (connlist s i)" "buffers_ok (connlist s i)" "bs \<noteq> []"
  shows "\<exists>n w r. recv_cb i (Some bs) s = Inr (n, set_event i EPOLLOUT False
      (set_conn i ((connlist s i)\<lparr>rbuffer := r, wbuffer := w, wlen := n, rlen := 0\<rparr>)
        (s\<lparr>kern := snd (k_recv i BUFFER_LENGTH bs (kern s))\<rparr>))) \<and>
    length r = 512 \<and> length w = 512 \<and> 0 < n \<and> n \<le> 512 \<and> take (nat n) w = take 512 bs"
proof -
  let ?c = "connlist s i" and ?got = "take 512 bs"
  let ?c' = "?c\<lparr>rbuffer := overwrite 0 ?got (rbuffer ?c), rlen := int (length ?got)\<rparr>"
  have b: "length (rbuffer ?c) = 512" "length (wbuffer ?c) = 512" "rlen ?c = 0"
    using assms(2) by (simp_all add: buffers_ok_def)
  have g: "length ?got \<le> 512" "length ?got \<noteq> 0" using assms(3) by auto
  from copy_out_ok [of ?c'] b g obtain w where
    w: "copy_out ?c' = Inr (?c'\<lparr>wbuffer := w, wlen := int (length ?got), rlen := 0\<rparr>)" "length w = 512"
    "take (length ?got) w = take (length ?got) (overwrite 0 ?got (rbuffer ?c))" by auto
  have t: "take (length ?got) w = ?got" unfolding w(3) by (simp add: overwrite_def min_def)
  have r: "length (overwrite 0 ?got (rbuffer ?c)) = 512" using b g by simp
  from w t r g assms(1) b(3) show ?thesis
    by (intro exI [of _ "int (length ?got)"] exI [of _ w] exI [of _ "overwrite 0 ?got (rbuffer ?c)"])
      (simp add: recv_cb_def k_recv_def BUFFER_LENGTH_def Let_def)
qed

lemma echo_conn:
  "echo_inv L s \<Longrightarrow> interest (kern s) i = Some ev \<Longrightarrow> i \<notin> L \<Longrightarrow>
     is_open (kern s) i \<and> conn_at i s = Inr (connlist s i) \<and> buffers_ok (connlist s i) \<and>
     (waits_input i s \<or> waits_output i s)"
  unfolding echo_inv_def by (metis conn_at_ok option.discI)

lemma recv_cb_inv:
  assumes inv: "echo_inv L s" and i: "i \<notin> L" "interest (kern s) i = Some ev" "wants ev EPOLLIN"
  shows "\<exists>r s'. recv_cb i (Some bs) s = Inr (r, s') \<and> echo_inv L s'"
proof -
  from echo_conn [OF inv i(2,1)] have o: "is_open (kern s) i" "conn_at i s = Inr (connlist s i)"
    "buffers_ok (connlist s i)" "waits_input i s \<or> waits_output i s" by auto
  with i have w: "waits_input i s" by (auto simp: waits_input_def waits_output_def)
  show ?thesis
  proof (cases "bs = []")
    case True
    have "rlen (connlist s i) = 0" using o(3) by (simp add: buffers_ok_def)
    with recv_cb_close [OF o(2)] True inv i show ?thesis
      by (auto simp: echo_inv_def k_close_def ep_del_def k_recv_def waits_input_def waits_output_def Let_def)
  next
    case False
    from recv_cb_data [OF o(2,3) False] obtain n w r where
      rc: "recv_cb i (Some bs) s = Inr (n, set_event i EPOLLOUT False
        (set_conn i ((connlist s i)\<lparr>rbuffer := r, wbuffer := w, wlen := n, rlen := 0\<rparr>)
          (s\<lparr>kern := snd (k_recv i BUFFER_LENGTH bs (kern s))\<rparr>)))"
      and n: "length r = 512" "length w = 512" "0 < n" "n \<le> 512" "take (nat n) w = take 512 bs" by blast
    have "interest (kern s) i = Some EPOLLIN" "outlog (kern s) i = inlog (kern s) i"
      using w by (simp_all add: waits_input_def)
    with rc n inv i o show ?thesis
      by (auto simp: echo_inv_def set_event_def set_conn_def ep_mod_def k_recv_def Let_def BUFFER_LENGTH_def
          buffers_ok_def waits_input_def waits_output_def)
  qed
qed

lemma send_cb_inv:
  assumes inv: "echo_inv L s" and i: "i \<notin> L" "interest (kern s) i = Some ev" "wants ev EPOLLOUT"
  shows "\<exists>r s'. send_cb i (wlen (connlist s i)) s = Inr (r, s') \<and> echo_inv L s'"
proof -
  from echo_conn [OF inv i(2,1)] have o: "is_open (kern s) i" "conn_at i s = Inr (connlist s i)"
    "buffers_ok (connlist s i)" "waits_input i s \<or> waits_output i s" by auto
  with i have w: "waits_output i s" by (auto simp: waits_input_def waits_output_def)
  then have "interest (kern s) i = Some EPOLLOUT"
    "inlog (kern s) i = outlog (kern s) i @ take (nat (wlen (connlist s i))) (wbuffer (connlist s i))"
    by (simp_all add: waits_output_def)
  with inv i o show ?thesis
    by (auto simp: send_cb_def echo_inv_def set_event_def ep_mod_def k_send_def waits_input_def waits_output_def)
qed

interpretation echo: event_loop "echo_inv L" "echo_may L" handle_event
proof unfold_locales
  fix s e
  assume inv: "echo_inv L s" and may: "echo_may L e s"
  obtain i evs io where e: "e = (i, evs, io)" by (cases e) auto
  from may e obtain ev where ev: "interest (kern s) i = Some ev" "wants evs EPOLLIN \<longrightarrow> wants ev EPOLLIN"
    "wants evs EPOLLOUT \<longrightarrow> wants ev EPOLLOUT" by (auto simp: echo_may_def)
  have at: "conn_at i s = Inr (connlist s i)"
    using inv echo_conn [OF inv ev(1)] by (cases "i \<in> L") (auto simp: echo_inv_def conn_at_ok)
  show "\<exists>s'. handle_event e s = Inr s' \<and> echo_inv L s'"
  proof (cases "i \<in> L")
    case True
    then have l: "recv_t (connlist s i) = Accept_cb" "interest (kern s) i = Some EPOLLIN"
      using inv by (auto simp: echo_inv_def)
    show ?thesis
    proof (cases "wants evs EPOLLIN")
      case inp: True
      with may e True obtain n where n: "io = Accepted n" "n < 0 \<or> n < connlist_size \<and> \<not> is_open (kern s) n"
        by (auto simp: echo_may_def)
      from accept_cb_inv [OF inv True n(2)] obtain r s' where "accept_cb i n s = Inr (r, s')" "echo_inv L s'" by blast
      with inp at l n e show ?thesis by (simp add: handle_event_def)
    next
      case False
      moreover have "\<not> wants evs EPOLLOUT" using ev l by auto
      ultimately show ?thesis using at inv e by (simp add: handle_event_def)
    qed
  next
    case False
    then have c: "recv_t (connlist s i) = Recv_cb" "send_callback (connlist s i) = Send_cb"
      using echo_conn [OF inv ev(1)] by (auto simp: buffers_ok_def)
    consider "wants evs EPOLLIN" | "\<not> wants evs EPOLLIN" "wants evs EPOLLOUT" | "\<not> wants evs EPOLLIN" "\<not> wants evs EPOLLOUT"
      by blast
    then show ?thesis
    proof cases
      case 1
      with may e False obtain bs where io: "io = Received (Some bs)" by (auto simp: echo_may_def)
      from recv_cb_inv [OF inv False ev(1)] 1 ev(2) obtain r s' where
        "recv_cb i (Some bs) s = Inr (r, s')" "echo_inv L s'" by blast
      with 1 at c io e show ?thesis by (simp add: handle_event_def)
    next
      case 2
      with may e have io: "io = Sent (wlen (connlist s i))" by (auto simp: echo_may_def)
      from send_cb_inv [OF inv False ev(1)] 2 ev(3) obtain r s' where
        "send_cb i (wlen (connlist s i)) s = Inr (r, s')" "echo_inv L s'" by blast
      with 2 at c io e show ?thesis by (simp add: handle_event_def)
    next
      case 3
      with at inv e show ?thesis by (simp add: handle_event_def)
    qed
  qed
qed


subsection \<open>Starting up\<close>

definition boot :: "int list \<Rightarrow> server" where
  "boot ls = \<lparr>kern = \<lparr>is_open = (\<lambda>i. i \<in> set ls), interest = (\<lambda>_. None), inlog = (\<lambda>_. []), outlog = (\<lambda>_. [])\<rparr>,
     connlist = (\<lambda>_. \<lparr>fd = 0, rbuffer = zeroed, rlen = 0, wbuffer = zeroed, wlen = 0, recv_t = No_cb,
       send_callback = No_cb\<rparr>)\<rparr>"

definition starting :: "int set \<Rightarrow> int list \<Rightarrow> server \<Rightarrow> bool" where
  "starting S ls s \<longleftrightarrow> (\<forall>i. is_open (kern s) i \<longleftrightarrow> i \<in> S \<union> set ls) \<and>
     (\<forall>l \<in> S. recv_t (connlist s l) = Accept_cb \<and> interest (kern s) l = Some EPOLLIN) \<and>
     (\<forall>i. i \<notin> S \<longrightarrow> interest (kern s) i = None)"

lemma start_server_starting:
  "starting S ls s \<Longrightarrow> \<forall>l \<in> set ls. 0 \<le> l \<and> l < connlist_size \<Longrightarrow>
     \<exists>s'. start_server ls s = Inr s' \<and> starting (S \<union> set ls) [] s'"
proof (induction ls arbitrary: S s)
  case (Cons l ls)
  let ?s = "set_event l EPOLLIN True (set_conn l ((connlist s l)\<lparr>fd := l, recv_t := Accept_cb\<rparr>) s)"
  have "add_listener l s = Inr ?s" using Cons.prems(2) by (simp add: add_listener_def conn_at_ok)
  moreover have "starting (insert l S) ls ?s"
    using Cons.prems(1) by (auto simp: starting_def set_event_def set_conn_def ep_add_def)
  moreover have "insert l S \<union> set ls = S \<union> set (l # ls)" by auto
  ultimately show ?case using Cons.IH [of "insert l S" ?s] Cons.prems(2) by auto
qed simp

lemma boot_echo_inv:
  assumes "\<forall>l \<in> set ls. 0 \<le> l \<and> l < connlist_size"
  shows "\<exists>s. start_server ls (boot ls) = Inr s \<and> echo_inv (set ls) s"
proof -
  have "starting {} ls (boot ls)" by (simp add: starting_def boot_def)
  from start_server_starting [OF this assms] obtain s where
    "start_server ls (boot ls) = Inr s" "starting (set ls) [] s" by auto
  with assms show ?thesis by (auto simp: starting_def echo_inv_def)
qed

lemma echo_inv_states:
  assumes "echo_inv L s" "is_open (kern s) i" "i \<notin> L"
  shows "interest (kern s) i = Some EPOLLIN \<and> outlog (kern s) i = inlog (kern s) i \<or>
    interest (kern s) i = Some EPOLLOUT \<and> (\<exists>rest. inlog (kern s) i = outlog (kern s) i @ rest \<and> length rest \<le> 512)"
proof -
  from assms have b: "length (wbuffer (connlist s i)) = 512" and "waits_input i s \<or> waits_output i s"
    by (auto simp: echo_inv_def buffers_ok_def)
  then show ?thesis
  proof (elim disjE)
    assume "waits_output i s"
    with b show ?thesis
      by (intro disjI2 conjI exI [of _ "take (nat (wlen (connlist s i))) (wbuffer (connlist s i))"])
        (simp_all add: waits_output_def)
  qed (simp add: waits_input_def)
qed

subsection \<open>Properties\<close>


text \<open>
  An error of \<open>recv\<close> brings the server down: \<open>recv_cb\<close> adds the \<open>-1\<close> to \<open>rlen\<close> and copies
  that many bytes, a length of \<open>SIZE_MAX\<close>, whichever connection of a running server reports it.
\<close>

theorem reactor_recv_error_faults:
  assumes "echo_inv L s" "is_open (kern s) i" "i \<notin> L"
  shows "handle_event (i, EPOLLIN, Received None) s = Inl (BadLength (-1))"
proof -
  from assms have "conn_at i s = Inr (connlist s i)" "buffers_ok (connlist s i)"
    by (auto simp: echo_inv_def conn_at_ok)
  then show ?thesis
    by (simp add: handle_event_def recv_cb_def copy_out_def buffers_ok_def assertE_def)
qed

text \<open>
  When \<open>send\<close> takes only \<open>n\<close> bytes of the buffer, as it may, the rest is never sent: the
  connection goes back to waiting for input, and the next answer follows the gap. What was received
  and what was sent differ by exactly the bytes that were left over.
\<close>

theorem reactor_partial_send_loses:
  assumes "echo_inv L s" "is_open (kern s) i" "i \<notin> L" "waits_output i s" "0 \<le> n" "n \<le> wlen (connlist s i)"
    and "bs \<noteq> []" "length bs \<le> 512"
  shows "\<exists>s' buf. run_events handle_event
      [(i, EPOLLOUT, Sent n), (i, EPOLLIN, Received (Some bs)), (i, EPOLLOUT, Sent (int (length bs)))] s = Inr s' \<and>
    buf = take (nat (wlen (connlist s i))) (wbuffer (connlist s i)) \<and>
    inlog (kern s') i = outlog (kern s) i @ take (nat n) buf @ drop (nat n) buf @ bs \<and>
    outlog (kern s') i = outlog (kern s) i @ take (nat n) buf @ bs"
proof -
  let ?c = "connlist s i" and ?buf = "take (nat (wlen (connlist s i))) (wbuffer (connlist s i))"
  have c: "0 \<le> i" "i < connlist_size" "buffers_ok ?c" using assms(1-3) by (auto simp: echo_inv_def)
  have w: "interest (kern s) i = Some EPOLLOUT" "inlog (kern s) i = outlog (kern s) i @ ?buf"
    using assms(4) by (simp_all add: waits_output_def)
  let ?s1 = "set_event i EPOLLIN False (s\<lparr>kern := k_send i ?buf n (kern s)\<rparr>)"
  have h1: "handle_event (i, EPOLLOUT, Sent n) s = Inr ?s1"
    using c by (simp add: handle_event_def send_cb_def conn_at_ok buffers_ok_def)
  have s1: "connlist ?s1 = connlist s" "interest (kern ?s1) i = Some EPOLLIN" "inlog (kern ?s1) i = inlog (kern s) i"
    "outlog (kern ?s1) i = outlog (kern s) i @ take (nat n) ?buf"
    using w by (simp_all add: set_event_def ep_mod_def k_send_def)
  have at1: "conn_at i ?s1 = Inr (connlist ?s1 i)" "buffers_ok (connlist ?s1 i)"
    using c s1 by (simp_all add: conn_at_ok)
  from recv_cb_data [OF at1 assms(7)] obtain m v r where
    rc: "recv_cb i (Some bs) ?s1 = Inr (m, set_event i EPOLLOUT False
        (set_conn i ((connlist ?s1 i)\<lparr>rbuffer := r, wbuffer := v, wlen := m, rlen := 0\<rparr>)
          (?s1\<lparr>kern := snd (k_recv i BUFFER_LENGTH bs (kern ?s1))\<rparr>)))"
    and v: "length v = 512" "0 < m" "m \<le> 512" "take (nat m) v = take 512 bs" by blast
  let ?s2 = "set_event i EPOLLOUT False
        (set_conn i ((connlist ?s1 i)\<lparr>rbuffer := r, wbuffer := v, wlen := m, rlen := 0\<rparr>)
          (?s1\<lparr>kern := snd (k_recv i BUFFER_LENGTH bs (kern ?s1))\<rparr>))"
  have h2: "handle_event (i, EPOLLIN, Received (Some bs)) ?s1 = Inr ?s2"
    using at1 rc by (simp add: handle_event_def buffers_ok_def)
  have m: "take (nat m) v = bs" using v assms(8) by simp
  have s2: "connlist ?s2 i = (connlist ?s1 i)\<lparr>rbuffer := r, wbuffer := v, wlen := m, rlen := 0\<rparr>"
    "inlog (kern ?s2) i = inlog (kern s) i @ bs" "outlog (kern ?s2) i = outlog (kern s) i @ take (nat n) ?buf"
    using s1 assms(8) by (simp_all add: set_event_def set_conn_def ep_mod_def k_recv_def BUFFER_LENGTH_def Let_def)
  have send2: "send_callback (connlist ?s2 i) = Send_cb" using at1(2) s2(1) by (simp add: buffers_ok_def)
  let ?s3 = "set_event i EPOLLIN False (?s2\<lparr>kern := k_send i bs (int (length bs)) (kern ?s2)\<rparr>)"
  have h3: "handle_event (i, EPOLLOUT, Sent (int (length bs))) ?s2 = Inr ?s3"
    using c(1,2) send2 s2(1) m by (simp add: handle_event_def send_cb_def conn_at_ok)
  have s3: "inlog (kern ?s3) i = inlog (kern ?s2) i" "outlog (kern ?s3) i = outlog (kern ?s2) i @ bs"
    by (simp_all add: set_event_def ep_mod_def k_send_def)
  have "?buf = take (nat n) ?buf @ drop (nat n) ?buf" by (rule append_take_drop_id [symmetric])
  with h1 h2 h3 s2 s3 w(2) show ?thesis
    by (intro exI [of _ ?s3] exI [of _ ?buf]) simp
qed

text \<open>
  The table is not checked against: a descriptor of \<open>accept\<close> that lies beyond it, which
  a raised descriptor limit makes possible, is used as an index all the same.
\<close>

theorem reactor_accept_out_of_table:
  assumes "echo_inv L s" "l \<in> L" "connlist_size \<le> n"
  shows "handle_event (l, EPOLLIN, Accepted n) s = Inl (BadIndex n)"
  using assms by (auto simp: handle_event_def echo_inv_def conn_at_ok accept_cb_def conn_at_def connlist_size_def)


text \<open>
  A small run for the witnesses: one listener, descriptor 3; a client arrives on descriptor 5 and
  sends two bytes.
\<close>

definition one_client :: server where
  "one_client = (case start_server [3] (boot [3]) of Inl _ \<Rightarrow> boot [3] | Inr s \<Rightarrow>
     (case handle_event (3, EPOLLIN, Accepted 5) s of Inl _ \<Rightarrow> s | Inr s1 \<Rightarrow> s1))"

lemma one_client_inv: "echo_inv {3} one_client" "is_open (kern one_client) 5" "waits_input 5 one_client"
proof -
  obtain s where s: "start_server [3] (boot [3]) = Inr s" "echo_inv {3} s"
    using boot_echo_inv [of "[3]"] by (auto simp: connlist_size_def)
  have no: "\<not> is_open (kern s) 5"
    using s(1) by (auto simp: add_listener_def conn_at_ok connlist_size_def set_event_def set_conn_def boot_def ep_add_def)
  have may: "echo_may {3} (3, EPOLLIN, Accepted 5) s"
    using s(2) no by (auto simp: echo_may_def echo_inv_def connlist_size_def)
  then obtain s1 where s1: "handle_event (3, EPOLLIN, Accepted 5) s = Inr s1" "echo_inv {3} s1"
    using echo.handle_inv [OF s(2)] by blast
  then have one: "one_client = s1" using s(1) by (simp add: one_client_def)
  have "is_open (kern s1) 5 \<and> interest (kern s1) 5 = Some EPOLLIN \<and> outlog (kern s1) 5 = [] \<and> inlog (kern s1) 5 = []"
    using s1(1) s(2) by (auto simp: handle_event_def echo_inv_def conn_at_ok accept_cb_def connlist_size_def
        set_event_def set_conn_def k_accept_def ep_add_def Let_def)
  with one s1(2) show "echo_inv {3} one_client" "is_open (kern one_client) 5" "waits_input 5 one_client"
    by (simp_all add: waits_input_def)
qed


theorem reactor_recv_error_faults_witness:
  "handle_event (5, EPOLLIN, Received None) one_client = Inl (BadLength (-1))"
  using one_client_inv by (intro reactor_recv_error_faults [of "{3}"]) simp_all

theorem reactor_accept_out_of_table_witness:
  "handle_event (3, EPOLLIN, Accepted 1048576) one_client = Inl (BadIndex 1048576)"
  using one_client_inv by (intro reactor_accept_out_of_table [of "{3}"]) (simp_all add: connlist_size_def)

text \<open>Two bytes are to be sent, one is; then a third byte comes in: 7, 8, 9 is answered by 7, 9.\<close>

theorem reactor_partial_send_loses_witness:
  "\<exists>s0 s. run_events handle_event [(5, EPOLLIN, Received (Some [7, 8]))] one_client = Inr s0 \<and>
     run_events handle_event
       [(5, EPOLLOUT, Sent 1), (5, EPOLLIN, Received (Some [9])), (5, EPOLLOUT, Sent 1)] s0 = Inr s \<and>
     inlog (kern s) 5 = [7, 8, 9] \<and> outlog (kern s) 5 = [7, 9]"
proof -
  note one = one_client_inv
  have at: "conn_at 5 one_client = Inr (connlist one_client 5)" "buffers_ok (connlist one_client 5)"
    using one by (auto simp: echo_inv_def conn_at_ok)
  from recv_cb_data [OF at, of "[7, 8]"] obtain m v r where
    rc: "recv_cb 5 (Some [7, 8]) one_client = Inr (m, set_event 5 EPOLLOUT False
        (set_conn 5 ((connlist one_client 5)\<lparr>rbuffer := r, wbuffer := v, wlen := m, rlen := 0\<rparr>)
          (one_client\<lparr>kern := snd (k_recv 5 BUFFER_LENGTH [7, 8] (kern one_client))\<rparr>)))" (is "_ = Inr (m, ?s)")
    and v: "length v = 512" "take (nat m) v = [7, 8]" "0 < m" "m \<le> 512" by auto
  have "length (take (nat m) v) = 2" using v(2) by simp
  then have "min 512 (nat m) = 2" using v(1) by (metis length_take)
  then have m: "m = 2" using v(3) by (simp add: min_def split: if_splits)
  have h: "handle_event (5, EPOLLIN, Received (Some [7, 8])) one_client = Inr ?s"
    using at rc by (simp add: handle_event_def buffers_ok_def)
  have "echo_may {3} (5, EPOLLIN, Received (Some [7, 8])) one_client"
    using one by (simp add: echo_may_def waits_input_def)
  then have inv: "echo_inv {3} ?s" using echo.handle_inv [OF one(1)] h by fastforce
  have logs: "outlog (kern one_client) 5 = inlog (kern one_client) 5" "interest (kern one_client) 5 = Some EPOLLIN"
    using one(3) by (simp_all add: waits_input_def)
  have e: "inlog (kern one_client) 5 = []"
  proof -
    obtain s where s: "start_server [3] (boot [3]) = Inr s" "echo_inv {3} s"
      using boot_echo_inv [of "[3]"] by (auto simp: connlist_size_def)
    then show ?thesis
      by (auto simp: one_client_def handle_event_def echo_inv_def conn_at_ok accept_cb_def connlist_size_def
          set_event_def set_conn_def k_accept_def ep_add_def Let_def)
  qed
  have w: "waits_output 5 ?s" "is_open (kern ?s) 5" "wlen (connlist ?s 5) = 2" "outlog (kern ?s) 5 = []"
    "take 2 (wbuffer (connlist ?s 5)) = [7, 8]"
    using logs e v m one(2) by (auto simp: waits_output_def set_event_def set_conn_def ep_mod_def k_recv_def
        BUFFER_LENGTH_def Let_def)
  from reactor_partial_send_loses [OF inv w(2) _ w(1), of 1 "[9]"] obtain s' where
    s': "run_events handle_event [(5, EPOLLOUT, Sent 1), (5, EPOLLIN, Received (Some [9])), (5, EPOLLOUT, Sent 1)] ?s = Inr s'"
    "inlog (kern s') 5 = [7, 8, 9]" "outlog (kern s') 5 = [7, 9]" using w by auto
  have "run_events handle_event [(5, EPOLLIN, Received (Some [7, 8]))] one_client = Inr ?s" using h by simp
  with s' show ?thesis by blast
qed

end
