(* ===== verification/Webserver.thy ===== *)
theory Webserver
  imports Sockets
begin

text \<open>
  The web server (\<^verbatim>\<open>2_Net/2.1-epoll/webserver.c\<close>): the loop of \<open>Reactor\<close> with a table of 1024
  connections and buffers of 1024 bytes, which answers whatever it receives with one fixed HTTP
  response. Unlike the echo server it never sets \<open>rlen\<close> back. The branches that the file disables
  by \<open>#if\<close> are not modelled.
\<close>

subsection \<open>The response\<close>

definition ws_BUFFER_LENGTH :: int where
  "ws_BUFFER_LENGTH = 1024"

definition ws_connlist_size :: int where
  "ws_connlist_size = 1024"

definition crlf :: string where
  "crlf = [CHR 0x0D, CHR 0x0A]"

definition response_head :: string where
  "response_head = ''HTTP/1.1 200 OK'' @ crlf @ ''Accept-Ranges: bytes'' @ crlf @ ''Content-Length: 82'' @ crlf @
     ''Content-Type: text/html'' @ crlf @ ''Date: Sat, 06 Aug 2023 13:16:46 GMT'' @ crlf @ crlf"

definition response_body :: string where
  "response_body =
     ''<html><head><title>0voice.king</title></head><body><h1>King</h1></body></html>'' @ crlf @ crlf"

definition bytes_of :: "string \<Rightarrow> bytes" where
  "bytes_of s = map of_char s"

definition response :: bytes where
  "response = bytes_of (response_head @ response_body)"

subsection \<open>The connections and the callbacks\<close>

datatype ws_callback = WsNone | WsAccept | WsRecv | WsSend

record ws_conn =
  fd :: int
  rbuffer :: bytes
  rlen :: int
  wbuffer :: bytes
  wlen :: int
  resource :: bytes
  recv_t :: ws_callback
  send_callback :: ws_callback

record ws_server =
  kern :: kernel
  connlist :: "int \<Rightarrow> ws_conn"

definition http_request :: "ws_conn \<Rightarrow> int" where
  "http_request c = 0"

definition http_response :: "ws_conn \<Rightarrow> fault + (int \<times> ws_conn)" where
  "http_response c =
     bindE (assertE (BadLength (int (length response) + 1)) (length response + 1 \<le> length (wbuffer c))) (\<lambda>_.
     let n = int (length response) in
     Inr (n, c\<lparr>wbuffer := overwrite 0 (response @ [0]) (wbuffer c), wlen := n\<rparr>))"

definition ws_conn_at :: "int \<Rightarrow> ws_server \<Rightarrow> fault + ws_conn" where
  "ws_conn_at i s = (if 0 \<le> i \<and> i < ws_connlist_size then Inr (connlist s i) else Inl (BadIndex i))"

definition ws_set_conn :: "int \<Rightarrow> ws_conn \<Rightarrow> ws_server \<Rightarrow> ws_server" where
  "ws_set_conn i c s = s\<lparr>connlist := (connlist s)(i := c)\<rparr>"

definition ws_set_event :: "int \<Rightarrow> events \<Rightarrow> bool \<Rightarrow> ws_server \<Rightarrow> ws_server" where
  "ws_set_event i ev flag s = s\<lparr>kern := (if flag then ep_add i ev (kern s) else ep_mod i ev (kern s))\<rparr>"

definition ws_zeroed :: bytes where
  "ws_zeroed = replicate (nat ws_BUFFER_LENGTH) 0"

definition ws_accept_cb :: "int \<Rightarrow> int \<Rightarrow> ws_server \<Rightarrow> fault + (int \<times> ws_server)" where
  "ws_accept_cb lfd clientfd s =
     (if clientfd < 0 then Inr (-1, s)
      else
        let s1 = ws_set_event clientfd EPOLLIN True (s\<lparr>kern := k_accept clientfd (kern s)\<rparr>) in
        bindE (ws_conn_at clientfd s1) (\<lambda>c.
        Inr (clientfd, ws_set_conn clientfd
          (c\<lparr>fd := clientfd, rbuffer := ws_zeroed, rlen := 0, wbuffer := ws_zeroed, wlen := 0,
             recv_t := WsRecv, send_callback := WsSend\<rparr>) s1)))"

text \<open>
  \<open>recv_cb\<close>. An error of \<open>recv\<close> is a count of \<open>-1\<close> like any other; storing bytes at a negative
  \<open>rlen\<close> writes in front of the buffer.
\<close>

definition ws_recv_cb :: "int \<Rightarrow> bytes option \<Rightarrow> ws_server \<Rightarrow> fault + (int \<times> ws_server)" where
  "ws_recv_cb i answer s =
     bindE (ws_conn_at i s) (\<lambda>c.
     let finish = (\<lambda>count c1 k.
           bindE (http_response c1) (\<lambda>(_, c2).
           Inr (count, ws_set_event i EPOLLOUT False (ws_set_conn i c2 (s\<lparr>kern := k\<rparr>)))))
     in case answer of
       None \<Rightarrow> finish (-1) (c\<lparr>rlen := rlen c + (-1)\<rparr>) (kern s)
     | Some bs \<Rightarrow>
         (let (got, k) = k_recv i (ws_BUFFER_LENGTH - rlen c) bs (kern s); count = int (length got) in
          if count = 0 then Inr (-1, s\<lparr>kern := k_close i (ep_del i k)\<rparr>)
          else
            bindE (assertE (BadIndex (rlen c)) (0 \<le> rlen c)) (\<lambda>_.
            finish count (c\<lparr>rbuffer := overwrite (nat (rlen c)) got (rbuffer c), rlen := rlen c + count\<rparr>) k)))"

definition ws_send_cb :: "int \<Rightarrow> int \<Rightarrow> ws_server \<Rightarrow> fault + (int \<times> ws_server)" where
  "ws_send_cb i count s =
     bindE (ws_conn_at i s) (\<lambda>c.
     Inr (count, ws_set_event i EPOLLIN False
       (s\<lparr>kern := k_send i (take (nat (wlen c)) (wbuffer c)) count (kern s)\<rparr>)))"

text \<open>One round of the inner loop of \<open>main\<close>, and what \<open>main\<close> does before it.\<close>

definition ws_handle :: "int \<times> events \<times> io \<Rightarrow> ws_server \<Rightarrow> fault + ws_server" where
  "ws_handle e s =
     (let (connfd, evs, io) = e in
      bindE (ws_conn_at connfd s) (\<lambda>c.
      if wants evs EPOLLIN then
        (case (recv_t c, io) of
           (WsAccept, Accepted n) \<Rightarrow> bindE (ws_accept_cb connfd n s) (\<lambda>(_, s'). Inr s')
         | (WsRecv, Received r) \<Rightarrow> bindE (ws_recv_cb connfd r s) (\<lambda>(_, s'). Inr s')
         | _ \<Rightarrow> Inl NullUse)
      else if wants evs EPOLLOUT then
        (case (send_callback c, io) of
           (WsSend, Sent n) \<Rightarrow> bindE (ws_send_cb connfd n s) (\<lambda>(_, s'). Inr s')
         | _ \<Rightarrow> Inl NullUse)
      else Inr s))"

definition ws_start :: "int \<Rightarrow> ws_server \<Rightarrow> fault + ws_server" where
  "ws_start sockfd s =
     bindE (ws_conn_at sockfd s) (\<lambda>c.
     Inr (ws_set_event sockfd EPOLLIN True (ws_set_conn sockfd (c\<lparr>fd := sockfd, recv_t := WsAccept\<rparr>) s)))"

lemma response_length [simp]: "length response = 205"
  by (simp add: response_def bytes_of_def response_head_def response_body_def crlf_def)

subsection \<open>What holds of every connection\<close>

definition ws_conn_ok :: "int \<Rightarrow> ws_server \<Rightarrow> bool" where
  "ws_conn_ok i s \<longleftrightarrow> 0 \<le> i \<and> i < ws_connlist_size \<and>
     recv_t (connlist s i) = WsRecv \<and> send_callback (connlist s i) = WsSend \<and>
     length (rbuffer (connlist s i)) = 1024 \<and> length (wbuffer (connlist s i)) = 1024 \<and>
     rlen (connlist s i) = int (length (inlog (kern s) i)) \<and> length (inlog (kern s) i) \<le> 1024 \<and>
     take (length (inlog (kern s) i)) (rbuffer (connlist s i)) = inlog (kern s) i \<and>
     (\<exists>n. outlog (kern s) i = concat (replicate n response)) \<and>
     (interest (kern s) i = Some EPOLLIN \<or>
      interest (kern s) i = Some EPOLLOUT \<and> wlen (connlist s i) = 205 \<and>
        take 205 (wbuffer (connlist s i)) = response)"

definition ws_inv :: "int \<Rightarrow> ws_server \<Rightarrow> bool" where
  "ws_inv l s \<longleftrightarrow> is_open (kern s) l \<and> 0 \<le> l \<and> l < ws_connlist_size \<and> recv_t (connlist s l) = WsAccept \<and>
     interest (kern s) l = Some EPOLLIN \<and>
     (\<forall>i. is_open (kern s) i \<longrightarrow> i \<noteq> l \<longrightarrow> ws_conn_ok i s) \<and>
     (\<forall>i. \<not> is_open (kern s) i \<longrightarrow> interest (kern s) i = None)"

definition ws_may :: "int \<Rightarrow> int \<times> events \<times> io \<Rightarrow> ws_server \<Rightarrow> bool" where
  "ws_may l e s \<longleftrightarrow>
     (let (i, evs, io) = e in
      (\<exists>ev. interest (kern s) i = Some ev \<and> (wants evs EPOLLIN \<longrightarrow> wants ev EPOLLIN) \<and>
         (wants evs EPOLLOUT \<longrightarrow> wants ev EPOLLOUT)) \<and>
      (wants evs EPOLLIN \<longrightarrow>
         (if i = l then \<exists>n. io = Accepted n \<and> (n < 0 \<or> n < ws_connlist_size \<and> \<not> is_open (kern s) n)
          else \<exists>bs. io = Received (Some bs))) \<and>
      (wants evs EPOLLOUT \<longrightarrow> io = Sent (wlen (connlist s i))))"

lemma ws_at_ok: "0 \<le> i \<Longrightarrow> i < ws_connlist_size \<Longrightarrow> ws_conn_at i s = Inr (connlist s i)"
  by (simp add: ws_conn_at_def)

lemma ws_conn_other: "ws_conn_ok i s \<Longrightarrow> connlist s' i = connlist s i \<Longrightarrow> interest (kern s') i = interest (kern s) i \<Longrightarrow>
    inlog (kern s') i = inlog (kern s) i \<Longrightarrow> outlog (kern s') i = outlog (kern s) i \<Longrightarrow> ws_conn_ok i s'"
  by (simp add: ws_conn_ok_def)

lemma ws_inv_update:
  assumes "ws_inv l s" "i \<noteq> l"
    and "\<And>j. j \<noteq> i \<Longrightarrow> connlist s' j = connlist s j \<and> interest (kern s') j = interest (kern s) j \<and>
      inlog (kern s') j = inlog (kern s) j \<and> outlog (kern s') j = outlog (kern s) j \<and> is_open (kern s') j = is_open (kern s) j"
    and "if is_open (kern s') i then ws_conn_ok i s' else interest (kern s') i = None"
  shows "ws_inv l s'"
  unfolding ws_inv_def
proof (intro conjI allI impI)
  fix j assume "is_open (kern s') j" "j \<noteq> l"
  then show "ws_conn_ok j s'"
    using assms ws_conn_other [of j s s'] by (cases "j = i") (auto simp: ws_inv_def)
next
  fix j assume "\<not> is_open (kern s') j"
  then show "interest (kern s') j = None"
    using assms by (cases "j = i") (auto simp: ws_inv_def)
qed (use assms in \<open>auto simp: ws_inv_def\<close>)

lemma ws_accept_inv:
  assumes "ws_inv l s" "n < 0 \<or> n < ws_connlist_size \<and> \<not> is_open (kern s) n"
  shows "\<exists>r s'. ws_accept_cb l n s = Inr (r, s') \<and> ws_inv l s'"
proof (cases "n < 0")
  case True
  with assms show ?thesis by (simp add: ws_accept_cb_def)
next
  case False
  with assms have n: "0 \<le> n" "n < ws_connlist_size" "\<not> is_open (kern s) n" by auto
  then have nl: "n \<noteq> l" using assms(1) by (auto simp: ws_inv_def)
  let ?c = "(connlist s n)\<lparr>fd := n, rbuffer := ws_zeroed, rlen := 0, wbuffer := ws_zeroed, wlen := 0,
    recv_t := WsRecv, send_callback := WsSend\<rparr>"
  let ?s = "ws_set_conn n ?c (ws_set_event n EPOLLIN True (s\<lparr>kern := k_accept n (kern s)\<rparr>))"
  have "ws_accept_cb l n s = Inr (n, ?s)"
    using False n by (simp add: ws_accept_cb_def ws_at_ok Let_def ws_set_event_def)
  moreover have "ws_inv l ?s"
  proof (rule ws_inv_update [OF assms(1) nl])
    have "\<exists>k. [] = concat (replicate k response)" by (rule exI [of _ 0]) simp
    with n show "if is_open (kern ?s) n then ws_conn_ok n ?s else interest (kern ?s) n = None"
      by (simp add: ws_conn_ok_def ws_set_conn_def ws_set_event_def k_accept_def ep_add_def ws_zeroed_def ws_BUFFER_LENGTH_def)
  qed (simp add: ws_set_conn_def ws_set_event_def k_accept_def ep_add_def)
  ultimately show ?thesis by blast
qed


lemma http_response_ok:
  "length (wbuffer c) = 1024 \<Longrightarrow> \<exists>w. http_response c = Inr (205, c\<lparr>wbuffer := w, wlen := 205\<rparr>) \<and>
     length w = 1024 \<and> take 205 w = response"
  by (intro exI [of _ "overwrite 0 (response @ [0]) (wbuffer c)"]) (simp add: http_response_def Let_def overwrite_def)

lemma take_append_overwrite:
  "length buf = 1024 \<Longrightarrow> n + length got \<le> 1024 \<Longrightarrow> take (n + length got) (overwrite n got buf) = take n buf @ got"
  by simp

lemma ws_conn:
  "ws_inv l s \<Longrightarrow> interest (kern s) i = Some ev \<Longrightarrow> i \<noteq> l \<Longrightarrow>
     is_open (kern s) i \<and> ws_conn_at i s = Inr (connlist s i) \<and> ws_conn_ok i s"
proof -
  assume a: "ws_inv l s" "interest (kern s) i = Some ev" "i \<noteq> l"
  then have "is_open (kern s) i" unfolding ws_inv_def by (metis option.discI)
  with a show ?thesis by (simp add: ws_inv_def) (simp add: ws_conn_ok_def ws_at_ok)
qed

text \<open>What a readable event does: the connection survives if there is data and room for it.\<close>

lemma ws_recv_inv:
  assumes inv: "ws_inv l s" and i: "i \<noteq> l" "interest (kern s) i = Some ev" "wants ev EPOLLIN"
  shows "\<exists>r s'. ws_recv_cb i (Some bs) s = Inr (r, s') \<and> ws_inv l s' \<and>
    (is_open (kern s') i \<longleftrightarrow> bs \<noteq> [] \<and> length (inlog (kern s) i) < 1024) \<and>
    (is_open (kern s') i \<longrightarrow> interest (kern s') i = Some EPOLLOUT \<and>
       inlog (kern s') i = inlog (kern s) i @ take (1024 - length (inlog (kern s) i)) bs)"
proof -
  let ?c = "connlist s i" and ?in = "inlog (kern s) i"
  let ?got = "take (1024 - length ?in) bs"
  from ws_conn [OF inv i(2,1)] have o: "is_open (kern s) i" "ws_conn_at i s = Inr ?c" "ws_conn_ok i s" by auto
  then have c: "recv_t ?c = WsRecv" "send_callback ?c = WsSend" "length (rbuffer ?c) = 1024" "length (wbuffer ?c) = 1024"
    "rlen ?c = int (length ?in)" "length ?in \<le> 1024" "take (length ?in) (rbuffer ?c) = ?in" "0 \<le> i" "i < ws_connlist_size"
    by (auto simp: ws_conn_ok_def)
  obtain n where n: "outlog (kern s) i = concat (replicate n response)" using o(3) by (auto simp: ws_conn_ok_def)
  have kr: "k_recv i (ws_BUFFER_LENGTH - rlen ?c) bs (kern s) =
      (?got, (kern s)\<lparr>inlog := (inlog (kern s))(i := ?in @ ?got)\<rparr>)"
    using c(5,6) by (simp add: k_recv_def ws_BUFFER_LENGTH_def nat_diff_distrib Let_def)
  show ?thesis
  proof (cases "?got = []")
    case True
    let ?k = "snd (k_recv i (ws_BUFFER_LENGTH - rlen ?c) bs (kern s))"
    let ?s = "s\<lparr>kern := k_close i (ep_del i ?k)\<rparr>"
    have "fst (k_recv i (ws_BUFFER_LENGTH - rlen ?c) bs (kern s)) = []" using kr True by simp
    then have "ws_recv_cb i (Some bs) s = Inr (-1, ?s)"
      using o(2) by (simp add: ws_recv_cb_def Let_def case_prod_beta)
    moreover have "ws_inv l ?s"
      by (rule ws_inv_update [OF inv i(1)]) (simp_all add: kr k_close_def ep_del_def)
    moreover have "\<not> is_open (kern ?s) i" by (simp add: k_close_def)
    moreover have "\<not> (bs \<noteq> [] \<and> length ?in < 1024)" using True by auto
    ultimately show ?thesis by blast
  next
    case False
    let ?c1 = "?c\<lparr>rbuffer := overwrite (length ?in) ?got (rbuffer ?c), rlen := int (length ?in) + int (length ?got)\<rparr>"
    from http_response_ok [of ?c1] c(4) obtain w where
      w: "http_response ?c1 = Inr (205, ?c1\<lparr>wbuffer := w, wlen := 205\<rparr>)" "length w = 1024" "take 205 w = response"
      by auto
    let ?s = "ws_set_event i EPOLLOUT False (ws_set_conn i (?c1\<lparr>wbuffer := w, wlen := 205\<rparr>)
        (s\<lparr>kern := (kern s)\<lparr>inlog := (inlog (kern s))(i := ?in @ ?got)\<rparr>\<rparr>))"
    have len: "length ?in + length ?got \<le> 1024" using c(6) by simp
    have "ws_recv_cb i (Some bs) s = Inr (int (length ?got), ?s)"
      using o(2) kr False w(1) c(5) by (simp add: ws_recv_cb_def Let_def)
    moreover have "ws_inv l ?s"
    proof (rule ws_inv_update [OF inv i(1)])
      have t: "take (length ?in + length ?got) (overwrite (length ?in) ?got (rbuffer ?c)) = ?in @ ?got"
        using take_append_overwrite [OF c(3) len] c(7) by simp
      have "ws_conn_ok i ?s"
        using c n i(2) w len t unfolding ws_conn_ok_def
        by (simp add: ws_set_event_def ws_set_conn_def ep_mod_def) (auto simp: n)
      moreover have "is_open (kern ?s) i" using o(1) by (simp add: ws_set_event_def ws_set_conn_def ep_mod_def)
      ultimately show "if is_open (kern ?s) i then ws_conn_ok i ?s else interest (kern ?s) i = None" by simp
    qed (use i(2) in \<open>simp add: ws_set_event_def ws_set_conn_def ep_mod_def\<close>)
    moreover have "is_open (kern ?s) i" "interest (kern ?s) i = Some EPOLLOUT" "inlog (kern ?s) i = ?in @ ?got"
      using o(1) i(2) by (simp_all add: ws_set_event_def ws_set_conn_def ep_mod_def)
    moreover have "bs \<noteq> [] \<and> length ?in < 1024" using False by auto
    ultimately show ?thesis by blast
  qed
qed

lemma ws_send_inv:
  assumes inv: "ws_inv l s" and i: "i \<noteq> l" "interest (kern s) i = Some ev" "wants ev EPOLLOUT"
  shows "\<exists>r s'. ws_send_cb i (wlen (connlist s i)) s = Inr (r, s') \<and> ws_inv l s'"
proof -
  from ws_conn [OF inv i(2,1)] have o: "is_open (kern s) i" "ws_conn_at i s = Inr (connlist s i)" "ws_conn_ok i s" by auto
  with i have w: "interest (kern s) i = Some EPOLLOUT" "wlen (connlist s i) = 205"
    "take 205 (wbuffer (connlist s i)) = response" by (auto simp: ws_conn_ok_def)
  obtain n where n: "outlog (kern s) i = concat (replicate n response)" using o(3) by (auto simp: ws_conn_ok_def)
  let ?s = "ws_set_event i EPOLLIN False (s\<lparr>kern := k_send i response 205 (kern s)\<rparr>)"
  have send: "ws_send_cb i (wlen (connlist s i)) s = Inr (205, ?s)" using o(2) w by (simp add: ws_send_cb_def)
  have "ws_inv l ?s"
  proof (rule ws_inv_update [OF inv i(1)])
    have "concat (replicate n response) @ response = concat (replicate (Suc n) response)"
      by (induction n) simp_all
    then have "\<exists>m. outlog (kern s) i @ response = concat (replicate m response)" unfolding n by blast
    with o(3) w have "ws_conn_ok i ?s"
      by (simp add: ws_conn_ok_def ws_set_event_def ep_mod_def k_send_def)
    moreover have "is_open (kern ?s) i" using o(1) by (simp add: ws_set_event_def ep_mod_def k_send_def)
    ultimately show "if is_open (kern ?s) i then ws_conn_ok i ?s else interest (kern ?s) i = None" by simp
  qed (use i(2) in \<open>simp add: ws_set_event_def ep_mod_def k_send_def\<close>)
  with send show ?thesis by blast
qed

interpretation web: event_loop "ws_inv l" "ws_may l" ws_handle
proof unfold_locales
  fix s e
  assume inv: "ws_inv l s" and may: "ws_may l e s"
  obtain i evs io where e: "e = (i, evs, io)" by (cases e) auto
  from may e obtain ev where ev: "interest (kern s) i = Some ev" "wants evs EPOLLIN \<longrightarrow> wants ev EPOLLIN"
    "wants evs EPOLLOUT \<longrightarrow> wants ev EPOLLOUT" by (auto simp: ws_may_def)
  have at: "ws_conn_at i s = Inr (connlist s i)"
    using inv ws_conn [OF inv ev(1)] by (cases "i = l") (auto simp: ws_inv_def ws_at_ok)
  show "\<exists>s'. ws_handle e s = Inr s' \<and> ws_inv l s'"
  proof (cases "i = l")
    case True
    then have l: "recv_t (connlist s i) = WsAccept" "interest (kern s) i = Some EPOLLIN"
      using inv by (auto simp: ws_inv_def)
    show ?thesis
    proof (cases "wants evs EPOLLIN")
      case inp: True
      with may e True obtain n where n: "io = Accepted n" "n < 0 \<or> n < ws_connlist_size \<and> \<not> is_open (kern s) n"
        by (auto simp: ws_may_def)
      from ws_accept_inv [OF inv n(2)] True obtain r s' where "ws_accept_cb i n s = Inr (r, s')" "ws_inv l s'" by blast
      with inp at l n e show ?thesis by (simp add: ws_handle_def)
    next
      case False
      moreover have "\<not> wants evs EPOLLOUT" using ev l by auto
      ultimately show ?thesis using at inv e by (simp add: ws_handle_def)
    qed
  next
    case False
    then have c: "recv_t (connlist s i) = WsRecv" "send_callback (connlist s i) = WsSend"
      using ws_conn [OF inv ev(1)] by (auto simp: ws_conn_ok_def)
    consider "wants evs EPOLLIN" | "\<not> wants evs EPOLLIN" "wants evs EPOLLOUT" | "\<not> wants evs EPOLLIN" "\<not> wants evs EPOLLOUT"
      by blast
    then show ?thesis
    proof cases
      case 1
      with may e False obtain bs where io: "io = Received (Some bs)" by (auto simp: ws_may_def)
      from ws_recv_inv [OF inv False ev(1)] 1 ev(2) obtain r s' where
        "ws_recv_cb i (Some bs) s = Inr (r, s')" "ws_inv l s'" by blast
      with 1 at c io e show ?thesis by (simp add: ws_handle_def)
    next
      case 2
      with may e have io: "io = Sent (wlen (connlist s i))" by (auto simp: ws_may_def)
      from ws_send_inv [OF inv False ev(1)] 2 ev(3) obtain r s' where
        "ws_send_cb i (wlen (connlist s i)) s = Inr (r, s')" "ws_inv l s'" by blast
      with 2 at c io e show ?thesis by (simp add: ws_handle_def)
    next
      case 3
      with at inv e show ?thesis by (simp add: ws_handle_def)
    qed
  qed
qed


subsection \<open>Properties\<close>

definition ws_boot :: "int \<Rightarrow> ws_server" where
  "ws_boot l = \<lparr>kern = \<lparr>is_open = (\<lambda>i. i = l), interest = (\<lambda>_. None), inlog = (\<lambda>_. []), outlog = (\<lambda>_. [])\<rparr>,
     connlist = (\<lambda>_. \<lparr>fd = 0, rbuffer = ws_zeroed, rlen = 0, wbuffer = ws_zeroed, wlen = 0, resource = ws_zeroed,
       recv_t = WsNone, send_callback = WsNone\<rparr>)\<rparr>"

lemma ws_boot_inv:
  assumes "0 \<le> l" "l < ws_connlist_size"
  shows "\<exists>s. ws_start l (ws_boot l) = Inr s \<and> ws_inv l s"
  using assms by (simp add: ws_start_def ws_at_ok ws_inv_def ws_set_event_def ws_set_conn_def ep_add_def ws_boot_def)


text \<open>
  Because \<open>rlen\<close> is never set back, a connection is good for 1024 bytes in all: after a
  readable event it is still open exactly when there was data and fewer than 1024 bytes had come in
  before. The next \<open>recv\<close> after that asks for zero bytes, gets zero, and the server takes the
  answer for the end of the stream although data is waiting.
\<close>

theorem ws_connection_byte_limit:
  assumes "ws_inv l s" "i \<noteq> l" "interest (kern s) i = Some EPOLLIN"
  shows "\<exists>s'. ws_handle (i, EPOLLIN, Received (Some bs)) s = Inr s' \<and>
    (is_open (kern s') i \<longleftrightarrow> bs \<noteq> [] \<and> length (inlog (kern s) i) < 1024)"
proof -
  from ws_conn [OF assms(1,3,2)] have "ws_conn_at i s = Inr (connlist s i)" "recv_t (connlist s i) = WsRecv"
    by (auto simp: ws_conn_ok_def)
  with ws_recv_inv [OF assms, of bs] show ?thesis by (auto simp: ws_handle_def)
qed

text \<open>
  The response is well formed: \<open>http_response\<close> fits the output buffer, and what it stores is a
  header that announces 82 bytes and ends in an empty line, followed by a body of just 82 bytes.
\<close>

theorem http_response_well_formed:
  assumes "length (wbuffer c) = 1024"
  shows "\<exists>n c' before. http_response c = Inr (n, c') \<and> wlen c' = n \<and> length (wbuffer c') = 1024 \<and>
    take (nat n) (wbuffer c') = bytes_of response_head @ bytes_of response_body \<and>
    length (bytes_of response_body) = 82 \<and>
    response_head = before @ crlf @ ''Content-Length: 82'' @ crlf @ ''Content-Type: text/html'' @ crlf @
      ''Date: Sat, 06 Aug 2023 13:16:46 GMT'' @ crlf @ crlf"
proof -
  obtain w where "http_response c = Inr (205, c\<lparr>wbuffer := w, wlen := 205\<rparr>)" "length w = 1024" "take 205 w = response"
    using http_response_ok [OF assms] by blast
  moreover have "length (bytes_of response_body) = 82"
    by (simp add: bytes_of_def response_body_def crlf_def)
  ultimately show ?thesis
    by (intro exI [of _ 205] exI [of _ "c\<lparr>wbuffer := w, wlen := 205\<rparr>"]
        exI [of _ "''HTTP/1.1 200 OK'' @ crlf @ ''Accept-Ranges: bytes''"])
      (simp add: response_def bytes_of_def response_head_def)
qed

text \<open>
  An error of \<open>recv\<close> is counted as \<open>-1\<close> bytes and answered with a response. On a connection on
  which nothing has come in yet it leaves \<open>rlen\<close> at \<open>-1\<close>, and the next data is stored in front of
  the buffer.
\<close>

theorem ws_recv_error_underflows:
  assumes "ws_inv l s" "i \<noteq> l" "interest (kern s) i = Some EPOLLIN" "inlog (kern s) i = []" "bs \<noteq> []"
  shows "\<exists>s'. run_events ws_handle [(i, EPOLLIN, Received None), (i, EPOLLOUT, Sent 205)] s = Inr s' \<and>
    outlog (kern s') i = outlog (kern s) i @ response \<and> rlen (connlist s' i) = -1 \<and>
    ws_handle (i, EPOLLIN, Received (Some bs)) s' = Inl (BadIndex (-1))"
proof -
  let ?c = "connlist s i"
  from ws_conn [OF assms(1,3,2)] have o: "ws_conn_ok i s" by simp
  then have c: "recv_t ?c = WsRecv" "send_callback ?c = WsSend" "rlen ?c = 0" "length (wbuffer ?c) = 1024"
    "0 \<le> i" "i < ws_connlist_size" using assms(4) by (auto simp: ws_conn_ok_def)
  let ?c1 = "?c\<lparr>rlen := -1\<rparr>"
  from http_response_ok [of ?c1] c(4) obtain w where
    w: "http_response ?c1 = Inr (205, ?c1\<lparr>wbuffer := w, wlen := 205\<rparr>)" "length w = 1024" "take 205 w = response" by auto
  let ?c2 = "?c1\<lparr>wbuffer := w, wlen := 205\<rparr>"
  let ?s1 = "ws_set_event i EPOLLOUT False (ws_set_conn i ?c2 s)"
  have h1: "ws_handle (i, EPOLLIN, Received None) s = Inr ?s1"
    using c w(1) by (simp add: ws_handle_def ws_at_ok ws_recv_cb_def)
  have k1: "connlist ?s1 i = ?c2" "interest (kern ?s1) i = Some EPOLLOUT" "outlog (kern ?s1) i = outlog (kern s) i"
    using assms(3) by (simp_all add: ws_set_event_def ws_set_conn_def ep_mod_def)
  let ?s2 = "ws_set_event i EPOLLIN False (?s1\<lparr>kern := k_send i response 205 (kern ?s1)\<rparr>)"
  have h2: "ws_handle (i, EPOLLOUT, Sent 205) ?s1 = Inr ?s2"
    using c k1(1) w(3) by (simp add: ws_handle_def ws_at_ok ws_send_cb_def)
  have k2: "connlist ?s2 i = ?c2" "outlog (kern ?s2) i = outlog (kern s) i @ response"
    using k1 by (simp_all add: ws_set_event_def ep_mod_def k_send_def)
  have "take 1025 bs \<noteq> []" using assms(5) by simp
  then have h3: "ws_handle (i, EPOLLIN, Received (Some bs)) ?s2 = Inl (BadIndex (-1))"
    using c k2(1) by (simp add: ws_handle_def ws_at_ok ws_recv_cb_def k_recv_def ws_BUFFER_LENGTH_def assertE_def Let_def)
  from h1 h2 h3 k2 show ?thesis by (intro exI [of _ ?s2]) simp
qed

text \<open>For the witnesses: one client on descriptor 5 of a server that listens on descriptor 3.\<close>

lemma ws_one_client:
  "\<exists>s. ws_inv 3 s \<and> interest (kern s) 5 = Some EPOLLIN \<and> inlog (kern s) 5 = [] \<and> outlog (kern s) 5 = []"
proof -
  obtain s where s: "ws_start 3 (ws_boot 3) = Inr s" "ws_inv 3 s"
    using ws_boot_inv [of 3] by (auto simp: ws_connlist_size_def)
  have no: "\<not> is_open (kern s) 5"
    using s(1) by (auto simp: ws_start_def ws_at_ok ws_connlist_size_def ws_set_event_def ws_set_conn_def ws_boot_def ep_add_def)
  let ?c = "(connlist s 5)\<lparr>fd := 5, rbuffer := ws_zeroed, rlen := 0, wbuffer := ws_zeroed, wlen := 0,
    recv_t := WsRecv, send_callback := WsSend\<rparr>"
  let ?s = "ws_set_conn 5 ?c (ws_set_event 5 EPOLLIN True (s\<lparr>kern := k_accept 5 (kern s)\<rparr>))"
  have "ws_accept_cb 3 5 s = Inr (5, ?s)"
    by (simp add: ws_accept_cb_def ws_at_ok ws_connlist_size_def Let_def ws_set_event_def)
  with ws_accept_inv [OF s(2), of 5] no have "ws_inv 3 ?s" by (auto simp: ws_connlist_size_def)
  then show ?thesis
    by (rule exI [of _ ?s, OF conjI]) (simp add: ws_set_conn_def ws_set_event_def k_accept_def ep_add_def)
qed


text \<open>The client sends 1024 bytes in one go and is cut off when it sends one more.\<close>

theorem ws_connection_byte_limit_witness:
  "\<exists>s s'. ws_inv 3 s \<and> inlog (kern s) 5 = replicate 1024 7 \<and>
     ws_handle (5, EPOLLIN, Received (Some [8])) s = Inr s' \<and> \<not> is_open (kern s') 5"
proof -
  obtain s where s: "ws_inv 3 s" "interest (kern s) 5 = Some EPOLLIN" "inlog (kern s) 5 = []"
    using ws_one_client by blast
  have "(5 :: int) \<noteq> 3" by simp
  from ws_recv_inv [OF s(1) this s(2), of "replicate 1024 7"] s(3) obtain r s1 where
    s1: "ws_inv 3 s1" "interest (kern s1) 5 = Some EPOLLOUT" "inlog (kern s1) 5 = replicate 1024 7" by auto
  let ?s2 = "ws_set_event 5 EPOLLIN False (s1\<lparr>kern := k_send 5 (take (nat (wlen (connlist s1 5))) (wbuffer (connlist s1 5)))
    (wlen (connlist s1 5)) (kern s1)\<rparr>)"
  have "ws_send_cb 5 (wlen (connlist s1 5)) s1 = Inr (wlen (connlist s1 5), ?s2)"
    using ws_conn [OF s1(1,2)] by (simp add: ws_send_cb_def)
  with ws_send_inv [OF s1(1) _ s1(2)] have s2: "ws_inv 3 ?s2" by simp
  have k: "interest (kern ?s2) 5 = Some EPOLLIN" "inlog (kern ?s2) 5 = replicate 1024 7"
    using s1 by (simp_all add: ws_set_event_def ep_mod_def k_send_def)
  from ws_connection_byte_limit [OF s2 _ k(1), of "[8]"] k(2) s2 show ?thesis by fastforce
qed

theorem http_response_well_formed_witness:
  "\<exists>c'. http_response (connlist (ws_boot 3) 5) = Inr (205, c') \<and> wlen c' = 205 \<and>
     length (bytes_of response_body) = 82"
proof -
  have "length (wbuffer (connlist (ws_boot 3) 5)) = 1024"
    by (simp add: ws_boot_def ws_zeroed_def ws_BUFFER_LENGTH_def)
  from http_response_well_formed [OF this] http_response_ok [OF this] show ?thesis by auto
qed

theorem ws_recv_error_underflows_witness:
  "\<exists>s s'. run_events ws_handle [(5, EPOLLIN, Received None), (5, EPOLLOUT, Sent 205)] s = Inr s' \<and>
     ws_handle (5, EPOLLIN, Received (Some [1])) s' = Inl (BadIndex (-1))"
proof -
  obtain s where s: "ws_inv 3 s" "interest (kern s) 5 = Some EPOLLIN" "inlog (kern s) 5 = []"
    using ws_one_client by blast
  from ws_recv_error_underflows [OF s(1) _ s(2,3), of "[1]"] show ?thesis by auto
qed

end
