(* ===== verification/Multi_IO_Schemes.thy ===== *)
theory Multi_IO_Schemes
  imports Sockets
begin

text \<open>
  The other servers of \<^verbatim>\<open>2_Net/2.1-epoll/multi-io.c\<close>, the branches 1 to 4 that the preprocessor
  leaves out: one blocking thread, a thread for each client, \<open>select\<close> and \<open>poll\<close>. The answers of
  \<open>accept\<close>, \<open>recv\<close>, \<open>select\<close> and \<open>poll\<close> are inputs; the sockets are blocking, so that \<open>send\<close>
  takes the whole buffer. Printing the buffer with \<open>%s\<close> runs past its end if it has no zero byte.
\<close>

subsection \<open>Opening the server, and the buffer of 128 bytes\<close>

record listening =
  port :: nat
  backlog :: nat

text \<open>\<open>None\<close>: \<open>main\<close> returns \<open>-1\<close>. The result of \<open>listen\<close> is not looked at.\<close>

definition open_server :: "int \<Rightarrow> int \<Rightarrow> (int \<times> listening) option" where
  "open_server sockfd bound = (if bound = -1 then None else Some (sockfd, \<lparr>port = 2048, backlog = 10\<rparr>))"

definition chat_buffer :: nat where
  "chat_buffer = 128"

text \<open>\<open>accept\<close>: a negative answer is an error and opens nothing.\<close>

definition accept_client :: "int \<Rightarrow> kernel \<Rightarrow> kernel" where
  "accept_client clientfd k = (if clientfd < 0 then k else k_accept clientfd k)"

text \<open>\<open>recv\<close> into the buffer that was cleared just before: the count, the buffer and the kernel.\<close>

definition chat_recv :: "int \<Rightarrow> bytes option \<Rightarrow> kernel \<Rightarrow> int \<times> bytes \<times> kernel" where
  "chat_recv fd answer k =
     (case answer of
        None \<Rightarrow> (-1, replicate chat_buffer 0, k)
      | Some bs \<Rightarrow>
          (let (got, k') = k_recv fd (int chat_buffer) bs k
           in (int (length got), overwrite 0 got (replicate chat_buffer 0), k')))"

definition chat_print :: "bytes \<Rightarrow> fault + unit" where
  "chat_print buf = assertE (BadLength (int chat_buffer)) (0 \<in> set buf)"

text \<open>\<open>send\<close> takes its count as a \<open>size_t\<close>, so that \<open>-1\<close> is far more than the buffer has.\<close>

definition chat_send :: "int \<Rightarrow> bytes \<Rightarrow> int \<Rightarrow> kernel \<Rightarrow> fault + kernel" where
  "chat_send fd buf count k =
     (if size_t_of_int count \<le> length buf then Inr (k_send fd buf count k) else Inl (BadLength count))"

text \<open>An answer of \<open>recv\<close> after which the buffer can be sent and printed.\<close>

definition printable :: "bytes \<Rightarrow> bool" where
  "printable bs \<longleftrightarrow> length bs < chat_buffer \<or> 0 \<in> set (take chat_buffer bs)"

lemma zero_in_overwrite:
  "printable bs \<Longrightarrow> 0 \<in> set (overwrite 0 (take chat_buffer bs) (replicate chat_buffer 0))"
  by (auto simp: printable_def overwrite_def)

lemma chat_recv_some:
  "chat_recv fd (Some bs) k =
     (int (length (take chat_buffer bs)), overwrite 0 (take chat_buffer bs) (replicate chat_buffer 0),
      k\<lparr>inlog := (inlog k)(fd := inlog k fd @ take chat_buffer bs)\<rparr>)"
  by (simp add: chat_recv_def k_recv_def Let_def)

lemma chat_print_ok: "printable bs \<Longrightarrow>
   chat_print (overwrite 0 (take chat_buffer bs) (replicate chat_buffer 0)) = Inr ()"
  by (simp add: chat_print_def zero_in_overwrite)

lemma chat_send_ok:
  "chat_send fd (overwrite 0 (take chat_buffer bs) (replicate chat_buffer 0)) (int (length (take chat_buffer bs))) k =
     Inr (k\<lparr>outlog := (outlog k)(fd := outlog k fd @ take chat_buffer bs)\<rparr>)"
proof -
  have "size_t_of_int (int (length (take chat_buffer bs))) = length (take chat_buffer bs)"
    by (simp add: size_t_of_int_nonneg int32_def chat_buffer_def)
  moreover have "length (take chat_buffer bs) \<le> length (overwrite 0 (take chat_buffer bs) (replicate chat_buffer 0))"
    by (simp add: overwrite_def)
  moreover have "take (length (take chat_buffer bs)) (overwrite 0 (take chat_buffer bs) (replicate chat_buffer 0)) = take chat_buffer bs"
    by (simp add: overwrite_def min_def)
  ultimately show ?thesis by (simp add: chat_send_def k_send_def)
qed

lemma chat_send_negative: "chat_send fd buf (-1) k = Inl (BadLength (-1))" if "length buf < 2 ^ 63"
  using that size_t_of_int_neg_large [of "-1"] by (simp add: chat_send_def int32_def)

subsection \<open>Scheme 1: one client at a time\<close>

text \<open>The inner loop: it ends (\<open>True\<close>) or, its answers used up, waits in \<open>recv\<close> (\<open>False\<close>).\<close>

fun blocking_client :: "int \<Rightarrow> bytes option list \<Rightarrow> kernel \<Rightarrow> fault + (bool \<times> kernel)" where
  "blocking_client clientfd [] k = Inr (False, k)"
| "blocking_client clientfd (answer # answers) k =
     (let (count, buf, k1) = chat_recv clientfd answer k
      in if count > 0 then
           bindE (chat_print buf) (\<lambda>_. bindE (chat_send clientfd buf count k1) (blocking_client clientfd answers))
         else Inr (True, k1))"

fun blocking_server :: "(int \<times> bytes option list) list \<Rightarrow> kernel \<Rightarrow> fault + kernel" where
  "blocking_server [] k = Inr k"
| "blocking_server ((clientfd, answers) # clients) k =
     bindE (blocking_client clientfd answers (accept_client clientfd k))
       (\<lambda>(ended, k1). if ended then blocking_server clients (k_close clientfd k1) else Inr k1)"

definition conversation_ends :: "bytes option list \<Rightarrow> bool" where
  "conversation_ends answers \<longleftrightarrow> (\<exists>a \<in> set answers. a = None \<or> a = Some [])"

definition echoed_so_far :: "kernel \<Rightarrow> bool" where
  "echoed_so_far k \<longleftrightarrow> outlog k = inlog k"

lemma blocking_client_run:
  assumes "\<forall>bs. Some bs \<in> set answers \<longrightarrow> printable bs" "echoed_so_far k"
  shows "\<exists>k'. blocking_client clientfd answers k = Inr (conversation_ends answers, k') \<and> echoed_so_far k' \<and>
    is_open k' = is_open k \<and> (\<forall>fd. fd \<noteq> clientfd \<longrightarrow> inlog k' fd = inlog k fd) \<and>
    (\<not> conversation_ends answers \<longrightarrow>
      inlog k' clientfd = inlog k clientfd @ concat (map (\<lambda>a. take chat_buffer (the a)) answers))"
  using assms
proof (induction answers arbitrary: k)
  case Nil
  then show ?case by (simp add: conversation_ends_def)
next
  case (Cons a answers)
  show ?case
  proof (cases "a = None \<or> a = Some []")
    case True
    with Cons.prems show ?thesis
      by (auto simp: conversation_ends_def chat_recv_some chat_recv_def [of _ None] fun_upd_idem)
  next
    case False
    then obtain bs where a: "a = Some bs" "bs \<noteq> []" by (cases a) auto
    let ?k = "k\<lparr>inlog := (inlog k)(clientfd := inlog k clientfd @ take chat_buffer bs),
                outlog := (outlog k)(clientfd := outlog k clientfd @ take chat_buffer bs)\<rparr>"
    have "printable bs" "\<forall>bs. Some bs \<in> set answers \<longrightarrow> printable bs" "echoed_so_far ?k"
      using Cons.prems a by (auto simp: echoed_so_far_def)
    moreover have "0 < length (take chat_buffer bs)" using a by (simp add: chat_buffer_def)
    ultimately have run: "blocking_client clientfd (a # answers) k = blocking_client clientfd answers ?k"
      by (simp add: a chat_recv_some chat_print_ok chat_send_ok del: length_take)
    have "conversation_ends (a # answers) = conversation_ends answers"
      using a by (auto simp: conversation_ends_def)
    then show ?thesis
      unfolding run using Cons.IH [of ?k] \<open>echoed_so_far ?k\<close> \<open>\<forall>bs. Some bs \<in> set answers \<longrightarrow> printable bs\<close> a
      by (auto simp: fun_eq_iff)
  qed
qed

lemma blocking_server_run:
  assumes "\<forall>(fd, answers) \<in> set clients. \<forall>bs. Some bs \<in> set answers \<longrightarrow> printable bs" "echoed_so_far k"
  shows "\<exists>k'. blocking_server clients k = Inr k' \<and> echoed_so_far k'"
  using assms
proof (induction clients arbitrary: k)
  case (Cons c clients)
  obtain fd answers where c: "c = (fd, answers)" by (cases c)
  have "echoed_so_far (accept_client fd k)" using Cons.prems(2) by (simp add: echoed_so_far_def accept_client_def k_accept_def)
  moreover have "\<forall>bs. Some bs \<in> set answers \<longrightarrow> printable bs" using Cons.prems(1) c by auto
  ultimately obtain k1 where run: "blocking_client fd answers (accept_client fd k) = Inr (conversation_ends answers, k1)"
    and k1: "echoed_so_far k1"
    using blocking_client_run by blast
  from k1 have "echoed_so_far (k_close fd k1)" by (simp add: echoed_so_far_def k_close_def)
  with Cons.IH [of "k_close fd k1"] Cons.prems(1) run k1 show ?case by (auto simp: c)
qed simp

lemma blocking_server_stuck:
  assumes "\<not> conversation_ends answers" "\<forall>(fd, answers) \<in> set (pre @ [(fd, answers)]). \<forall>bs. Some bs \<in> set answers \<longrightarrow> printable bs"
    "echoed_so_far k"
  shows "blocking_server (pre @ (fd, answers) # rest) k = blocking_server (pre @ [(fd, answers)]) k"
  using assms
proof (induction pre arbitrary: k)
  case Nil
  then have "echoed_so_far (accept_client fd k)" "\<forall>bs. Some bs \<in> set answers \<longrightarrow> printable bs"
    by (auto simp: echoed_so_far_def accept_client_def k_accept_def)
  from blocking_client_run [OF this(2,1), of fd] Nil(1) show ?case by auto
next
  case (Cons c pre)
  obtain fd' answers' where c: "c = (fd', answers')" by (cases c)
  have "echoed_so_far (accept_client fd' k)" "\<forall>bs. Some bs \<in> set answers' \<longrightarrow> printable bs"
    using Cons.prems by (auto simp: echoed_so_far_def accept_client_def k_accept_def c)
  from blocking_client_run [OF this(2,1), of fd'] obtain k1
    where run: "blocking_client fd' answers' (accept_client fd' k) = Inr (conversation_ends answers', k1)" "echoed_so_far k1" by blast
  from this(2) have "echoed_so_far (k_close fd' k1)" by (simp add: echoed_so_far_def k_close_def)
  with Cons.IH [of "k_close fd' k1"] Cons.prems run show ?case by (auto simp: c)
qed

subsection \<open>Scheme 2: a thread for each client\<close>

text \<open>
  \<open>slot\<close> is the variable \<open>clientfd\<close> of \<open>main\<close>, the same stack cell in every turn of the loop; each
  thread is given its address.
\<close>

datatype server_thread =
    Unstarted
  | Serving int     \<comment> \<open>with its own \<open>clientfd\<close>\<close>
  | Finished int

record tpc =
  slot :: int
  threads :: "server_thread list"
  tnet :: kernel

definition tpc_start :: "int \<Rightarrow> tpc" where
  "tpc_start sockfd = \<lparr>slot = 0, threads = [],
     tnet = \<lparr>is_open = (\<lambda>fd. fd = sockfd), interest = (\<lambda>_. None), inlog = (\<lambda>_. []), outlog = (\<lambda>_. [])\<rparr>\<rparr>"

text \<open>One turn of the loop of \<open>main\<close>; \<open>created\<close> says whether \<open>pthread_create\<close> made the thread.\<close>

definition tpc_accept :: "int \<Rightarrow> bool \<Rightarrow> tpc \<Rightarrow> tpc" where
  "tpc_accept clientfd created s =
     s\<lparr>slot := clientfd,
       tnet := accept_client clientfd (tnet s),
       threads := (if created then threads s @ [Unstarted] else threads s)\<rparr>"

text \<open>\<open>client_thread\<close>: first it reads its argument, then it serves.\<close>

definition client_thread_start :: "nat \<Rightarrow> tpc \<Rightarrow> tpc" where
  "client_thread_start t s = s\<lparr>threads := (threads s)[t := Serving (slot s)]\<rparr>"

definition client_thread_turn :: "nat \<Rightarrow> int \<Rightarrow> bytes option \<Rightarrow> tpc \<Rightarrow> fault + tpc" where
  "client_thread_turn t clientfd answer s =
     (let (count, buf, k) = chat_recv clientfd answer (tnet s)
      in if count = 0 then Inr (s\<lparr>tnet := k_close clientfd k, threads := (threads s)[t := Finished clientfd]\<rparr>)
         else bindE (chat_send clientfd buf count k) (\<lambda>k1. bindE (chat_print buf) (\<lambda>_. Inr (s\<lparr>tnet := k1\<rparr>))))"

inductive tpc_step :: "tpc \<Rightarrow> fault + tpc \<Rightarrow> bool" where
  accept: "clientfd < 0 \<or> \<not> is_open (tnet s) clientfd \<Longrightarrow> tpc_step s (Inr (tpc_accept clientfd created s))"
| start: "t < length (threads s) \<Longrightarrow> threads s ! t = Unstarted \<Longrightarrow> tpc_step s (Inr (client_thread_start t s))"
| turn: "t < length (threads s) \<Longrightarrow> threads s ! t = Serving fd \<Longrightarrow> (\<not> is_open (tnet s) fd \<longrightarrow> answer = None) \<Longrightarrow>
    tpc_step s (client_thread_turn t fd answer s)"

inductive tpc_reach :: "tpc \<Rightarrow> tpc \<Rightarrow> bool" for s0 where
  here: "tpc_reach s0 s0"
| step: "tpc_reach s0 s \<Longrightarrow> tpc_step s (Inr s') \<Longrightarrow> tpc_reach s0 s'"

text \<open>Runs in which \<open>main\<close> accepts only when every thread has read its argument, and no call fails.\<close>

inductive tpc_calm :: "int \<Rightarrow> tpc \<Rightarrow> bool" for sockfd where
  nobody: "tpc_calm sockfd (tpc_start sockfd)"
| accept: "tpc_calm sockfd s \<Longrightarrow> Unstarted \<notin> set (threads s) \<Longrightarrow> 0 \<le> clientfd \<Longrightarrow> \<not> is_open (tnet s) clientfd \<Longrightarrow>
    tpc_calm sockfd (tpc_accept clientfd True s)"
| start: "tpc_calm sockfd s \<Longrightarrow> t < length (threads s) \<Longrightarrow> threads s ! t = Unstarted \<Longrightarrow>
    tpc_calm sockfd (client_thread_start t s)"
| turn: "tpc_calm sockfd s \<Longrightarrow> t < length (threads s) \<Longrightarrow> threads s ! t = Serving fd \<Longrightarrow> printable bs \<Longrightarrow>
    client_thread_turn t fd (Some bs) s = Inr s' \<Longrightarrow> tpc_calm sockfd s'"

text \<open>Thread \<open>t\<close> has connection \<open>fd\<close>, or is about to read it.\<close>

definition attends :: "tpc \<Rightarrow> nat \<Rightarrow> int \<Rightarrow> bool" where
  "attends s t fd \<longleftrightarrow> t < length (threads s) \<and> (threads s ! t = Serving fd \<or> threads s ! t = Unstarted \<and> slot s = fd)"

lemma client_thread_turn_some:
  assumes "printable bs"
  shows "client_thread_turn t fd (Some bs) s =
    (if bs = [] then Inr (s\<lparr>tnet := k_close fd (tnet s), threads := (threads s)[t := Finished fd]\<rparr>)
     else Inr (s\<lparr>tnet := (tnet s)\<lparr>inlog := (inlog (tnet s))(fd := inlog (tnet s) fd @ take chat_buffer bs),
                               outlog := (outlog (tnet s))(fd := outlog (tnet s) fd @ take chat_buffer bs)\<rparr>\<rparr>))"
proof -
  have z: "chat_buffer \<noteq> 0" by (simp add: chat_buffer_def)
  with assms show ?thesis
    by (simp add: client_thread_turn_def chat_recv_some chat_send_ok chat_print_ok fun_upd_idem del: length_take)
qed

definition tpc_inv :: "int \<Rightarrow> tpc \<Rightarrow> bool" where
  "tpc_inv sockfd s \<longleftrightarrow> is_open (tnet s) sockfd \<and>
     (\<forall>t fd. attends s t fd \<longrightarrow> is_open (tnet s) fd \<and> fd \<noteq> sockfd) \<and>
     (\<forall>fd. is_open (tnet s) fd \<longrightarrow> fd \<noteq> sockfd \<longrightarrow> (\<exists>t. attends s t fd)) \<and>
     (\<forall>t u fd. attends s t fd \<longrightarrow> attends s u fd \<longrightarrow> t = u) \<and> echoed_so_far (tnet s)"

lemma tpc_invI:
  assumes "is_open (tnet s) sockfd" "\<And>t fd. attends s t fd \<Longrightarrow> is_open (tnet s) fd \<and> fd \<noteq> sockfd"
    "\<And>fd. is_open (tnet s) fd \<Longrightarrow> fd \<noteq> sockfd \<Longrightarrow> \<exists>t. attends s t fd"
    "\<And>t u fd. attends s t fd \<Longrightarrow> attends s u fd \<Longrightarrow> t = u" "echoed_so_far (tnet s)"
  shows "tpc_inv sockfd s"
  unfolding tpc_inv_def using assms by (intro conjI allI impI) metis+

lemma tpc_invD:
  assumes "tpc_inv sockfd s"
  shows "is_open (tnet s) sockfd" "attends s t fd \<Longrightarrow> is_open (tnet s) fd \<and> fd \<noteq> sockfd"
    "is_open (tnet s) fd \<Longrightarrow> fd \<noteq> sockfd \<Longrightarrow> \<exists>t. attends s t fd"
    "attends s t fd \<Longrightarrow> attends s u fd \<Longrightarrow> t = u" "echoed_so_far (tnet s)"
  using assms by (simp_all add: tpc_inv_def)

lemma attends_accept:
  assumes "Unstarted \<notin> set (threads s)"
  shows "attends (tpc_accept clientfd True s) t fd \<longleftrightarrow> attends s t fd \<or> t = length (threads s) \<and> fd = clientfd"
proof (cases "t < length (threads s)")
  case True
  then have "threads s ! t \<noteq> Unstarted" using assms nth_mem by metis
  with True show ?thesis by (auto simp: attends_def tpc_accept_def nth_append)
next
  case False
  then show ?thesis by (auto simp: attends_def tpc_accept_def nth_append less_Suc_eq)
qed

lemma attends_start: "threads s ! t = Unstarted \<Longrightarrow> t < length (threads s) \<Longrightarrow>
   attends (client_thread_start t s) u fd \<longleftrightarrow> attends s u fd"
  by (auto simp: attends_def client_thread_start_def nth_list_update)

lemma attends_finish: "t < length (threads s) \<Longrightarrow>
   attends (s\<lparr>tnet := k, threads := (threads s)[t := Finished fd']\<rparr>) u fd \<longleftrightarrow> attends s u fd \<and> u \<noteq> t"
  by (auto simp: attends_def nth_list_update)

lemma tpc_calm_inv: "tpc_calm sockfd s \<Longrightarrow> tpc_inv sockfd s"
proof (induction rule: tpc_calm.induct)
  case nobody
  show ?case by (simp add: tpc_inv_def tpc_start_def attends_def echoed_so_far_def)
next
  case (accept s clientfd)
  let ?s = "tpc_accept clientfd True s"
  note inv = tpc_invD [OF accept.IH]
  have op: "is_open (tnet ?s) fd \<longleftrightarrow> fd = clientfd \<or> is_open (tnet s) fd" for fd
    using accept by (simp add: tpc_accept_def accept_client_def k_accept_def)
  have short: "attends s t fd \<Longrightarrow> t < length (threads s)" for t fd by (simp add: attends_def)
  have h5: "echoed_so_far (tnet ?s)" using inv(5) accept by (simp add: tpc_accept_def accept_client_def k_accept_def echoed_so_far_def)
  have h1: "is_open (tnet ?s) sockfd" using inv(1) by (simp add: op)
  have h2: "is_open (tnet ?s) t' \<and> t' \<noteq> sockfd" if "attends ?s t t'" for t t'
    using that inv(1,2) accept(4) by (auto simp: attends_accept [OF accept(2)] op)
  have h3: "\<exists>t. attends ?s t fd" if "is_open (tnet ?s) fd" "fd \<noteq> sockfd" for fd
    using that inv(3) by (auto simp: attends_accept [OF accept(2)] op)
  have h4: "t = u" if "attends ?s t fd" "attends ?s u fd" for t u fd
  proof (cases "fd = clientfd")
    case True
    with inv(2) accept(4) have "\<not> attends s v fd" for v by blast
    with that show ?thesis by (simp add: attends_accept [OF accept(2)])
  next
    case False
    with that inv(4) show ?thesis by (simp add: attends_accept [OF accept(2)])
  qed
  show ?case by (rule tpc_invI [OF h1 h2 h3 h4 h5])
next
  case (start s t)
  then show ?case
    unfolding tpc_inv_def attends_start [OF start(3,2)] by (simp add: client_thread_start_def)
next
  case (turn s t fd bs s')
  have at: "attends s t fd" using turn by (simp add: attends_def)
  show ?case
  proof (cases "bs = []")
    case True
    with turn have s': "s' = s\<lparr>tnet := k_close fd (tnet s), threads := (threads s)[t := Finished fd]\<rparr>"
      by (simp add: client_thread_turn_some)
    have op: "is_open (tnet s') fd' \<longleftrightarrow> fd' \<noteq> fd \<and> is_open (tnet s) fd'" for fd'
      by (simp add: s' k_close_def)
    have h5: "echoed_so_far (tnet s')" using turn.IH by (simp add: s' k_close_def echoed_so_far_def tpc_inv_def)
    have att: "attends s' u fd' \<longleftrightarrow> attends s u fd' \<and> u \<noteq> t" for u fd'
      using attends_finish [OF turn(2)] s' by simp
    have t: "attends s t fd' \<Longrightarrow> fd' = fd" for fd' using turn(3) by (simp add: attends_def)
    note inv = tpc_invD [OF turn.IH]
    have h1: "is_open (tnet s') sockfd" using op [of sockfd] inv(1) inv(2) [OF at] by simp
    have h2: "is_open (tnet s') fd' \<and> fd' \<noteq> sockfd" if "attends s' u fd'" for u fd'
      using that att [of u fd'] op [of fd'] inv(2) [of u fd'] inv(4) [OF at, of u] by auto
    have h3: "\<exists>u. attends s' u fd'" if "is_open (tnet s') fd'" "fd' \<noteq> sockfd" for fd'
      using that att op [of fd'] inv(3) [of fd'] t by auto
    have h4: "u = v" if "attends s' u fd'" "attends s' v fd'" for u v fd'
      using that att [of u fd'] att [of v fd'] inv(4) [of u fd' v] by simp
    show ?thesis by (rule tpc_invI [OF h1 h2 h3 h4 h5])
  next
    case False
    with turn have "s' = s\<lparr>tnet := (tnet s)\<lparr>inlog := (inlog (tnet s))(fd := inlog (tnet s) fd @ take chat_buffer bs),
        outlog := (outlog (tnet s))(fd := outlog (tnet s) fd @ take chat_buffer bs)\<rparr>\<rparr>"
      by (simp add: client_thread_turn_some)
    then have "attends s' = attends s" "is_open (tnet s') = is_open (tnet s)" "echoed_so_far (tnet s) \<Longrightarrow> echoed_so_far (tnet s')"
      by (auto simp: attends_def echoed_so_far_def fun_eq_iff)
    with turn.IH show ?thesis by (simp add: tpc_inv_def)
  qed
qed

subsection \<open>A connection whose number is overwritten\<close>

text \<open>\<open>a\<close> is open, and neither the variable of \<open>main\<close> nor any thread has its number.\<close>

definition forsaken :: "int \<Rightarrow> tpc \<Rightarrow> bool" where
  "forsaken a s \<longleftrightarrow> 0 \<le> a \<and> is_open (tnet s) a \<and> slot s \<noteq> a \<and> Serving a \<notin> set (threads s)"

lemma chat_recv_other: "chat_recv fd answer k = (count, buf, k') \<Longrightarrow> is_open k' = is_open k \<and> (fd' \<noteq> fd \<longrightarrow> inlog k' fd' = inlog k fd')"
  by (auto simp: chat_recv_def k_recv_def Let_def split: option.splits)

lemma client_thread_turn_other:
  assumes "client_thread_turn t fd answer s = Inr s'" "fd' \<noteq> fd"
  shows "slot s' = slot s \<and> set (threads s') \<subseteq> insert (Finished fd) (set (threads s)) \<and>
    is_open (tnet s') fd' = is_open (tnet s) fd' \<and> inlog (tnet s') fd' = inlog (tnet s) fd'"
proof -
  obtain count buf k where r: "chat_recv fd answer (tnet s) = (count, buf, k)" by (metis prod_cases3)
  from chat_recv_other [OF r, of fd'] assms r show ?thesis
    by (auto simp: client_thread_turn_def k_close_def chat_send_def k_send_def bindE_eq_Inr
        split: if_splits dest!: set_update_subset_insert [THEN subsetD])
qed

lemma forsaken_step:
  assumes "tpc_step s (Inr s')" "forsaken a s"
  shows "forsaken a s' \<and> inlog (tnet s') a = inlog (tnet s) a"
  using assms(1)
proof (cases rule: tpc_step.cases)
  case (accept clientfd created)
  with assms(2) show ?thesis by (auto simp: forsaken_def tpc_accept_def accept_client_def k_accept_def)
next
  case (start t)
  have "set ((threads s)[t := Serving (slot s)]) \<subseteq> insert (Serving (slot s)) (set (threads s))"
    by (rule set_update_subset_insert)
  with start assms(2) show ?thesis by (auto simp: forsaken_def client_thread_start_def)
next
  case (turn t fd answer)
  then have "Serving fd \<in> set (threads s)" by (metis nth_mem)
  with assms(2) have "a \<noteq> fd" by (auto simp: forsaken_def)
  with turn client_thread_turn_other [of t fd answer s s' a] assms(2) show ?thesis
    unfolding forsaken_def by auto
qed

lemma forsaken_reach: "tpc_reach s s' \<Longrightarrow> forsaken a s \<Longrightarrow> forsaken a s' \<and> inlog (tnet s') a = inlog (tnet s) a"
  by (induction rule: tpc_reach.induct) (use forsaken_step in \<open>simp, metis\<close>)

subsection \<open>Properties\<close>

text \<open>
  The blocking server answers everything it reads, but one client at a time: if the conversation
  with a client does not end, the outcome does not depend on the clients behind it. None of them is
  accepted, however long the server runs.
\<close>

theorem blocking_head_of_line:
  assumes "\<forall>(fd, answers) \<in> set (pre @ [(fd, answers)]). \<forall>bs. Some bs \<in> set answers \<longrightarrow> printable bs"
    "echoed_so_far k" "\<not> conversation_ends answers"
  shows "\<exists>k'. blocking_server (pre @ [(fd, answers)]) k = Inr k' \<and> outlog k' = inlog k' \<and>
    (\<forall>rest. blocking_server (pre @ (fd, answers) # rest) k = Inr k')"
  using blocking_server_run [OF assms(1,2)] blocking_server_stuck [OF assms(3,1,2)]
  by (auto simp: echoed_so_far_def)

text \<open>
  A thread for each client, as meant: as long as the loop of \<open>main\<close> accepts only after the
  last thread has read its argument and no call fails, every open connection has exactly one thread,
  everything read has been sent back, and no turn of a thread faults.
\<close>

theorem thread_per_client:
  assumes "tpc_calm sockfd s"
  shows "(\<forall>fd. is_open (tnet s) fd \<and> fd \<noteq> sockfd \<longleftrightarrow> (\<exists>!t. attends s t fd)) \<and> outlog (tnet s) = inlog (tnet s) \<and>
    (\<forall>t fd bs. printable bs \<longrightarrow> (\<exists>s'. client_thread_turn t fd (Some bs) s = Inr s'))"
proof -
  note inv = tpc_invD [OF tpc_calm_inv [OF assms]]
  have "is_open (tnet s) fd \<and> fd \<noteq> sockfd \<longleftrightarrow> (\<exists>!t. attends s t fd)" for fd
    using inv(2) [of _ fd] inv(3) [of fd] inv(4) [of _ fd] by metis
  moreover have "\<exists>s'. client_thread_turn t fd (Some bs) s = Inr s'" if "printable bs" for t fd bs
    using client_thread_turn_some [OF that, of t fd s] by simp
  ultimately show ?thesis using inv(5) by (simp add: echoed_so_far_def)
qed

text \<open>
  C21: nothing makes \<open>main\<close> wait for the thread: if it accepts the next connection before a thread
  has read \<open>clientfd\<close>, the number of the earlier one is gone. From then on, in every run, that
  connection stays open, no thread ever serves it and nothing its client sends is read.
\<close>

theorem thread_argument_race:
  assumes "0 \<le> slot s" "is_open (tnet s) (slot s)" "Serving (slot s) \<notin> set (threads s)"
    and "\<not> is_open (tnet s) b" "tpc_reach (tpc_accept b created s) s'"
  shows "is_open (tnet s') (slot s) \<and> Serving (slot s) \<notin> set (threads s') \<and>
    inlog (tnet s') (slot s) = inlog (tnet s) (slot s)"
proof -
  have "forsaken (slot s) (tpc_accept b created s)" "slot s \<noteq> b"
    using assms by (auto simp: forsaken_def tpc_accept_def accept_client_def k_accept_def)
  with forsaken_reach [OF assms(5)] show ?thesis
    by (auto simp: forsaken_def tpc_accept_def accept_client_def k_accept_def)
qed

text \<open>An error of \<open>recv\<close> is taken for data: the count \<open>-1\<close> goes to \<open>send\<close> as a \<open>size_t\<close>.\<close>

lemma client_thread_recv_error: "client_thread_turn t fd None s = Inl (BadLength (-1))"
  using chat_send_negative [of "replicate chat_buffer 0"]
  by (simp add: client_thread_turn_def chat_recv_def chat_buffer_def)

theorem blocking_head_of_line_witness:
  "\<exists>k'. \<forall>rest. blocking_server ((5, [Some [1, 2]]) # rest) (tnet (tpc_start 3)) = Inr k'"
  using blocking_head_of_line [of "[]" 5 "[Some [1, 2]]" "tnet (tpc_start 3)"]
  by (auto simp: printable_def chat_buffer_def echoed_so_far_def tpc_start_def conversation_ends_def)

theorem thread_per_client_witness:
  "\<exists>s. tpc_calm 3 s \<and> outlog (tnet s) 5 = [1, 2] \<and> (\<exists>!t. attends s t 5)"
proof -
  let ?a = "tpc_accept 5 True (tpc_start 3)" let ?b = "client_thread_start 0 ?a"
  have a: "tpc_calm 3 ?a" by (rule tpc_calm.accept [OF tpc_calm.nobody]) (simp_all add: tpc_start_def)
  have b: "tpc_calm 3 ?b" by (rule tpc_calm.start [OF a]) (simp_all add: tpc_start_def tpc_accept_def)
  have p: "printable [1, 2]" by (simp add: printable_def chat_buffer_def)
  have t: "0 < length (threads ?b)" "threads ?b ! 0 = Serving 5" "inlog (tnet ?b) 5 = []" "outlog (tnet ?b) 5 = []"
    "is_open (tnet ?b) 5"
    by (simp_all add: tpc_start_def tpc_accept_def client_thread_start_def accept_client_def k_accept_def)
  from client_thread_turn_some [OF p, of 0 5 ?b] obtain s where s: "client_thread_turn 0 5 (Some [1, 2]) ?b = Inr s"
    "outlog (tnet s) 5 = [1, 2]" "is_open (tnet s) 5"
    using t by (auto simp: chat_buffer_def)
  from tpc_calm.turn [OF b t(1,2) p s(1)] have c: "tpc_calm 3 s" .
  from thread_per_client [OF c, THEN conjunct1, THEN spec, of 5] s(3) have "\<exists>!t. attends s t 5" by simp
  with c s(2) show ?thesis by blast
qed

theorem thread_argument_race_witness:
  "\<exists>s'. tpc_reach (tpc_accept 6 True (tpc_accept 5 True (tpc_start 3))) s' \<and> threads s' = [Serving 6, Unstarted] \<and>
     is_open (tnet s') 5 \<and> Serving 5 \<notin> set (threads s')"
proof -
  let ?s = "tpc_accept 5 True (tpc_start 3)"
  let ?r = "client_thread_start 0 (tpc_accept 6 True ?s)"
  have "tpc_step (tpc_accept 6 True ?s) (Inr ?r)"
    by (rule tpc_step.start) (simp_all add: tpc_accept_def tpc_start_def)
  then have r: "tpc_reach (tpc_accept 6 True ?s) ?r" by (rule tpc_reach.step [OF tpc_reach.here])
  have "slot ?s = 5" "is_open (tnet ?s) 5" "threads ?s = [Unstarted]" "\<not> is_open (tnet ?s) 6"
    by (simp_all add: tpc_accept_def tpc_start_def accept_client_def k_accept_def)
  with thread_argument_race [of ?s 6 True ?r] r show ?thesis
    by (intro exI [of _ ?r]) (simp add: client_thread_start_def, simp add: tpc_accept_def tpc_start_def)
qed

end
