(* ===== verification/Server_Setup.thy ===== *)
theory Server_Setup
  imports Reactor Webserver Multi_IO_Schemes
begin

text \<open>
  How \<^verbatim>\<open>reactor.c\<close> and \<^verbatim>\<open>webserver.c\<close> open their sockets. The answers of \<open>socket\<close> and \<open>bind\<close> are inputs; neither program looks at what \<open>socket\<close>
  and \<open>listen\<close> answer, and \<open>main\<close> of the reactor does not look at what \<open>init_server\<close> answers either.
\<close>

subsection \<open>The reactor\<close>

text \<open>\<open>init_server\<close>: the descriptor, or \<open>-1\<close>, and where it listens.\<close>

definition init_server :: "nat \<Rightarrow> int \<times> int \<Rightarrow> int \<times> listening option" where
  "init_server p answers =
     (let (sockfd, bound) = answers
      in if bound = -1 then (-1, None) else (sockfd, Some \<lparr>port = p, backlog = 10\<rparr>))"

definition port_count :: nat where
  "port_count = 20"

definition first_port :: nat where
  "first_port = 2048"

text \<open>The loop over the ports, from port number \<open>i\<close> on; the second component are the sockets that listen.\<close>

primrec open_ports :: "nat \<Rightarrow> (int \<times> int) list \<Rightarrow> server \<times> (int \<times> listening) list \<Rightarrow> fault + (server \<times> (int \<times> listening) list)" where
  "open_ports i [] s = Inr s"
| "open_ports i (a # as) s =
     (case init_server (first_port + i) a of (sockfd, l) \<Rightarrow>
        bindE (add_listener sockfd (fst s)) (\<lambda>s'.
        open_ports (Suc i) as (s', snd s @ (case l of None \<Rightarrow> [] | Some x \<Rightarrow> [(sockfd, x)]))))"

definition reactor_main :: "(int \<times> int) list \<Rightarrow> (int \<times> events \<times> io) list \<Rightarrow> fault + server" where
  "reactor_main answers es =
     bindE (open_ports 0 answers (boot (map fst answers), [])) (\<lambda>(s, _). run_events handle_event es s)"

text \<open>The answers of \<open>port_count\<close> calls of \<open>socket\<close> and \<open>bind\<close>.\<close>

definition socket_answers :: "(int \<times> int) list \<Rightarrow> bool" where
  "socket_answers answers \<longleftrightarrow> length answers = port_count \<and> (\<forall>a \<in> set answers. 0 \<le> fst a \<and> fst a < connlist_size)"

lemma open_ports_bound:
  assumes "\<forall>a \<in> set as. snd a \<noteq> -1"
  shows "open_ports i as s = bindE (start_server (map fst as) (fst s)) (\<lambda>s'.
    Inr (s', snd s @ map (\<lambda>(j, a). (fst a, \<lparr>port = first_port + j, backlog = 10\<rparr>)) (zip [i..<i + length as] as)))"
  using assms
proof (induction as arbitrary: i s)
  case (Cons a as)
  obtain sockfd bound where a: "a = (sockfd, bound)" by (cases a)
  have "init_server (first_port + i) a = (sockfd, Some \<lparr>port = first_port + i, backlog = 10\<rparr>)"
    using Cons.prems by (simp add: init_server_def a)
  moreover have "[i..<i + length (a # as)] = i # [Suc i..<Suc i + length as]" by (simp add: upt_conv_Cons del: upt_Suc)
  ultimately show ?case using Cons.IH [where i = "Suc i"] Cons.prems
    by (cases "add_listener sockfd (fst s)") (simp_all add: a bindE_assoc del: upt_Suc)
qed simp

lemma open_ports_fails:
  assumes "\<exists>a \<in> set as. snd a = -1" "\<forall>a \<in> set as. 0 \<le> fst a \<and> fst a < connlist_size"
  shows "open_ports i as s = Inl (BadIndex (-1))"
  using assms
proof (induction as arbitrary: i s)
  case (Cons a as)
  obtain sockfd bound where a: "a = (sockfd, bound)" by (cases a)
  show ?case
  proof (cases "bound = -1")
    case True
    then show ?thesis by (simp add: a init_server_def add_listener_def conn_at_def assertE_def)
  next
    case False
    then have "\<exists>b \<in> set as. snd b = -1" using Cons.prems(1) a by auto
    moreover obtain s' where "add_listener sockfd (fst s) = Inr s'" using Cons.prems(2) a by (simp add: add_listener_def conn_at_ok)
    ultimately show ?thesis using Cons False a by (simp add: init_server_def)
  qed
qed simp

text \<open>
  C40: if every \<open>bind\<close> succeeds, \<open>main\<close> of the reactor listens on the ports 2048 to 2067 and goes into its loop with all sockets registered;
  if one of them fails, as it does when a port is in use, the loop over the ports writes to \<open>connlist[-1]\<close>.
\<close>

theorem reactor_set_up:
  assumes "socket_answers answers"
  shows "if \<exists>a \<in> set answers. snd a = -1 then reactor_main answers es = Inl (BadIndex (-1))
    else \<exists>s. open_ports 0 answers (boot (map fst answers), []) =
        Inr (s, map (\<lambda>(j, a). (fst a, \<lparr>port = j, backlog = 10\<rparr>)) (zip [2048..<2068] answers)) \<and>
      echo_inv (set (map fst answers)) s \<and> reactor_main answers es = run_events handle_event es s"
proof (cases "\<exists>a \<in> set answers. snd a = -1")
  case True
  with open_ports_fails [of answers] assms show ?thesis by (simp add: reactor_main_def socket_answers_def)
next
  case False
  have "\<forall>l \<in> set (map fst answers). 0 \<le> l \<and> l < connlist_size" using assms by (auto simp: socket_answers_def)
  from boot_echo_inv [OF this] obtain s where
    s: "start_server (map fst answers) (boot (map fst answers)) = Inr s" "echo_inv (set (map fst answers)) s" by blast
  have len: "length answers = 20" using assms by (simp add: socket_answers_def port_count_def)
  have "map (\<lambda>(j, a). (fst a, \<lparr>port = first_port + j, backlog = 10\<rparr>)) (zip [0..<0 + length answers] answers) =
      map (\<lambda>(j, a). (fst a, \<lparr>port = j, backlog = 10\<rparr>)) (zip [2048..<2068] answers)"
    by (rule nth_equalityI) (simp_all add: len first_port_def del: upt_rec_numeral)
  with open_ports_bound [of answers 0 "(boot (map fst answers), [])"] False s show ?thesis
    by (intro if_not_P [THEN iffD2]) (auto simp: reactor_main_def)
qed

theorem reactor_set_up_witness:
  "reactor_main ((7, -1) # map (\<lambda>i. (int i, 0)) [8..<27]) [] = Inl (BadIndex (-1))"
proof -
  have "socket_answers ((7, -1) # map (\<lambda>i. (int i, 0)) [8..<27])"
    by (auto simp: socket_answers_def port_count_def connlist_size_def)
  from reactor_set_up [OF this, of "[]"] show ?thesis by simp
qed

subsection \<open>The web server\<close>

text \<open>\<open>None\<close>: \<open>main\<close> answers \<open>-1\<close> when \<open>bind\<close> fails.\<close>

definition ws_main :: "int \<Rightarrow> int \<Rightarrow> (int \<times> events \<times> io) list \<Rightarrow> (listening \<times> (fault + ws_server)) option" where
  "ws_main sockfd bound es =
     (if bound = -1 then None
      else Some (\<lparr>port = 2048, backlog = 10\<rparr>, bindE (ws_start sockfd (ws_boot sockfd)) (run_events ws_handle es)))"

text \<open>A failing \<open>socket\<close> is noticed by \<open>bind\<close>; if it were not, the server would write in front of \<open>connlist\<close>.\<close>

lemma ws_set_up: "ws_main sockfd (-1) es = None"
  "0 \<le> sockfd \<Longrightarrow> sockfd < ws_connlist_size \<Longrightarrow> \<exists>s. ws_main sockfd 0 [] = Some (\<lparr>port = 2048, backlog = 10\<rparr>, Inr s) \<and> ws_inv sockfd s"
  "ws_main (-1) 0 es = Some (\<lparr>port = 2048, backlog = 10\<rparr>, Inl (BadIndex (-1)))"
  using ws_boot_inv [of sockfd] by (auto simp: ws_main_def ws_start_def ws_conn_at_def)

end
