(* ===== verification/Multi_IO.thy ===== *)
theory Multi_IO
  imports Sockets
begin

text \<open>
  The edge-triggered epoll server (\<^verbatim>\<open>2_Net/2.1-epoll/multi-io.c\<close>, the branch that is compiled).
  Here the kernel's receive queues are part of the model, because the question is when a readable
  event is reported: an edge-triggered descriptor becomes ready when something arrives and is
  reported once. The sockets are blocking, so \<open>send\<close> takes the whole buffer.
\<close>

subsection \<open>The descriptors and one round of the loop\<close>

definition mio_buffer :: nat where
  "mio_buffer = 5"

record mio =
  opened :: "int \<Rightarrow> bool"
  watched :: "int \<Rightarrow> bool"
  ready :: "int \<Rightarrow> bool"       \<comment> \<open>a readable event is still to be reported\<close>
  pending :: "int \<Rightarrow> bytes"    \<comment> \<open>received by the kernel, not read yet\<close>
  at_end :: "int \<Rightarrow> bool"      \<comment> \<open>the peer has closed its side\<close>
  arrived :: "int \<Rightarrow> bytes"
  echoed :: "int \<Rightarrow> bytes"
  bursts :: "int \<Rightarrow> nat"       \<comment> \<open>how often something arrived\<close>
  overread :: bool            \<comment> \<open>a \<open>printf\<close> of the buffer has run past its end\<close>

definition mio_close :: "int \<Rightarrow> mio \<Rightarrow> mio" where
  "mio_close fd s = s\<lparr>opened := (opened s)(fd := False), watched := (watched s)(fd := False)\<rparr>"

definition mio_accept :: "int \<Rightarrow> mio \<Rightarrow> mio" where
  "mio_accept clientfd s =
     (if clientfd < 0 then s
      else s\<lparr>opened := (opened s)(clientfd := True), watched := (watched s)(clientfd := True),
             ready := (ready s)(clientfd := False), pending := (pending s)(clientfd := []),
             at_end := (at_end s)(clientfd := False), arrived := (arrived s)(clientfd := []),
             echoed := (echoed s)(clientfd := []), bursts := (bursts s)(clientfd := 0)\<rparr>)"

text \<open>
  One event: \<open>i\<close> is the index of the event in the array, \<open>connfd\<close> its descriptor, and \<open>answer\<close>
  what \<open>accept\<close> returns if it is the listening one; on another one a negative \<open>answer\<close> stands for a
  failing \<open>recv\<close> (it answers \<open>-1\<close>), after which \<open>send\<close> is given the count \<open>-1\<close> as a \<open>size_t\<close>. With nothing to read
  and the peer still there \<open>recv\<close> would block.
\<close>

definition mio_event :: "int \<Rightarrow> nat \<Rightarrow> int \<Rightarrow> int \<Rightarrow> mio \<Rightarrow> fault + mio" where
  "mio_event sockfd i connfd answer s =
     (if connfd = sockfd then Inr (mio_accept answer s)
      else if answer < 0 then Inl (BadLength answer)
      else
        let got = take mio_buffer (pending s connfd);
            buffer = overwrite 0 got (replicate mio_buffer 0);
            s1 = s\<lparr>pending := (pending s)(connfd := drop mio_buffer (pending s connfd))\<rparr>
        in if got = [] then
             if at_end s connfd then Inr (mio_close (int i) (s1\<lparr>watched := (watched s1)(connfd := False)\<rparr>))
             else Inl Diverges
           else Inr (s1\<lparr>echoed := (echoed s1)(connfd := echoed s1 connfd @ take (length got) buffer),
                       overread := (overread s1 \<or> 0 \<notin> set buffer)\<rparr>))"

fun mio_batch :: "int \<Rightarrow> nat \<Rightarrow> (int \<times> int) list \<Rightarrow> mio \<Rightarrow> fault + mio" where
  "mio_batch sockfd i [] s = Inr s"
| "mio_batch sockfd i ((connfd, answer) # es) s =
     bindE (mio_event sockfd i connfd answer s) (mio_batch sockfd (Suc i) es)"

text \<open>\<open>accept\<close> answers an error or a descriptor that is not open at that moment.\<close>

fun accepts_ok :: "int \<Rightarrow> nat \<Rightarrow> (int \<times> int) list \<Rightarrow> mio \<Rightarrow> bool" where
  "accepts_ok sockfd i [] s \<longleftrightarrow> True"
| "accepts_ok sockfd i ((connfd, answer) # es) s \<longleftrightarrow>
     (connfd = sockfd \<longrightarrow> answer < 0 \<or> \<not> opened s answer \<and> answer \<noteq> sockfd) \<and>
     (case mio_event sockfd i connfd answer s of Inl f \<Rightarrow> True | Inr s' \<Rightarrow> accepts_ok sockfd (Suc i) es s')"

text \<open>\<open>epoll_wait\<close> reports some of the ready descriptors, each once, and forgets their readiness.\<close>

definition report :: "int list \<Rightarrow> mio \<Rightarrow> mio" where
  "report fds s = s\<lparr>ready := (\<lambda>fd. ready s fd \<and> fd \<notin> set fds)\<rparr>"

inductive mio_step :: "int \<Rightarrow> mio \<Rightarrow> mio \<Rightarrow> bool" for sockfd where
  arrive: "opened s fd \<Longrightarrow> fd \<noteq> sockfd \<Longrightarrow> bs \<noteq> [] \<Longrightarrow> \<not> at_end s fd \<Longrightarrow>
    mio_step sockfd s (s\<lparr>pending := (pending s)(fd := pending s fd @ bs), arrived := (arrived s)(fd := arrived s fd @ bs),
      ready := (ready s)(fd := watched s fd), bursts := (bursts s)(fd := bursts s fd + 1)\<rparr>)"
| hang_up: "opened s fd \<Longrightarrow> fd \<noteq> sockfd \<Longrightarrow> \<not> at_end s fd \<Longrightarrow>
    mio_step sockfd s (s\<lparr>at_end := (at_end s)(fd := True), ready := (ready s)(fd := watched s fd),
      bursts := (bursts s)(fd := bursts s fd + 1)\<rparr>)"
| wait_round: "distinct (map fst es) \<Longrightarrow> \<forall>fd \<in> fst ` set es. fd = sockfd \<or> ready s fd \<and> watched s fd \<Longrightarrow>
    accepts_ok sockfd 0 es (report (map fst es) s) \<Longrightarrow>
    mio_batch sockfd 0 es (report (map fst es) s) = Inr s' \<Longrightarrow>
    mio_step sockfd s s'"

definition mio_start :: "int \<Rightarrow> mio" where
  "mio_start sockfd = \<lparr>opened = (\<lambda>fd. fd = sockfd), watched = (\<lambda>fd. fd = sockfd), ready = (\<lambda>_. False),
     pending = (\<lambda>_. []), at_end = (\<lambda>_. False), arrived = (\<lambda>_. []), echoed = (\<lambda>_. []), bursts = (\<lambda>_. 0),
     overread = False\<rparr>"

definition mio_reach :: "int \<Rightarrow> mio \<Rightarrow> bool" where
  "mio_reach sockfd s \<longleftrightarrow> (mio_step sockfd)\<^sup>*\<^sup>* (mio_start sockfd) s"

subsection \<open>Echoed in order, and at most five bytes for each arrival\<close>

text \<open>
  \<open>D\<close> are the descriptors whose readiness has been reported in the current round and whose event
  is still to be handled. Each arrival is worth one read.
\<close>

definition mio_due :: "int set \<Rightarrow> mio \<Rightarrow> bool" where
  "mio_due D s \<longleftrightarrow> (\<forall>fd. echoed s fd @ pending s fd = arrived s fd \<and>
     length (echoed s fd) + (if (ready s fd \<or> fd \<in> D) \<and> pending s fd \<noteq> [] then mio_buffer else 0) \<le> mio_buffer * bursts s fd)"

lemma mio_due_mono: "mio_due D s \<Longrightarrow> D' \<subseteq> D \<Longrightarrow> mio_due D' s"
  unfolding mio_due_def by (intro allI) (drule spec, auto split: if_splits)

lemma mio_event_due:
  assumes due: "mio_due (D \<union> ({connfd} - {sockfd})) s" and notin: "connfd \<notin> D" and rdy: "\<not> ready s connfd \<or> connfd = sockfd"
    and run: "mio_event sockfd i connfd answer s = Inr s'"
  shows "mio_due D s' \<and> (\<forall>fd. \<not> ready s fd \<longrightarrow> \<not> ready s' fd)"
proof (cases "connfd = sockfd")
  case True
  with run have "s' = mio_accept answer s" by (simp add: mio_event_def)
  moreover have "mio_due D s" using due by (rule mio_due_mono) auto
  ultimately show ?thesis by (auto simp: mio_accept_def mio_due_def)
next
  case False
  let ?got = "take mio_buffer (pending s connfd)"
  have d: "echoed s fd @ pending s fd = arrived s fd"
    "length (echoed s fd) + (if (ready s fd \<or> fd = connfd \<or> fd \<in> D) \<and> pending s fd \<noteq> [] then mio_buffer else 0)
      \<le> mio_buffer * bursts s fd" for fd
    using due False by (simp_all add: mio_due_def)
  show ?thesis
  proof (cases "?got = []")
    case True
    then have p: "pending s connfd = []" by (simp add: mio_buffer_def)
    with run False have s': "s' = mio_close (int i) (s\<lparr>pending := (pending s)(connfd := []), watched := (watched s)(connfd := False)\<rparr>)"
      by (simp add: mio_event_def Let_def split: if_splits)
    have "mio_due D s" using due by (rule mio_due_mono) auto
    with s' p show ?thesis by (simp add: mio_due_def mio_close_def fun_upd_idem)
  next
    case got: False
    have len: "length ?got \<le> mio_buffer" by simp
    have e: "take (length ?got) (overwrite 0 ?got (replicate mio_buffer 0)) = ?got" by (simp add: overwrite_def min_def)
    have s': "echoed s' = (echoed s)(connfd := echoed s connfd @ ?got)"
      "pending s' = (pending s)(connfd := drop mio_buffer (pending s connfd))"
      "arrived s' = arrived s" "ready s' = ready s" "bursts s' = bursts s"
      using run False got e by (auto simp: mio_event_def Let_def split: if_splits)
    have "mio_due D s'" unfolding mio_due_def
    proof (intro allI)
      fix fd
      show "echoed s' fd @ pending s' fd = arrived s' fd \<and>
        length (echoed s' fd) + (if (ready s' fd \<or> fd \<in> D) \<and> pending s' fd \<noteq> [] then mio_buffer else 0) \<le> mio_buffer * bursts s' fd"
      proof (cases "fd = connfd")
        case True
        have "echoed s connfd @ ?got @ drop mio_buffer (pending s connfd) = arrived s connfd"
          using d(1) [of connfd] by simp
        moreover have "pending s connfd \<noteq> []" using got by auto
        then have "length (echoed s connfd) + length ?got \<le> mio_buffer * bursts s connfd"
          using d(2) [of connfd] len by simp
        ultimately show ?thesis using True s' rdy False notin by simp
      next
        case other: False
        with d(1) [of fd] d(2) [of fd] s' show ?thesis by simp
      qed
    qed
    with s' show ?thesis by simp
  qed
qed

lemma mio_batch_due:
  "mio_due (D \<union> (fst ` set es - {sockfd})) s \<Longrightarrow> distinct (map fst es) \<Longrightarrow> D \<inter> fst ` set es = {} \<Longrightarrow>
     \<forall>fd \<in> fst ` set es. \<not> ready s fd \<or> fd = sockfd \<Longrightarrow> mio_batch sockfd i es s = Inr s' \<Longrightarrow> mio_due D s'"
proof (induction es arbitrary: i s)
  case Nil
  then show ?case by simp
next
  case (Cons e es)
  obtain connfd answer where e: "e = (connfd, answer)" by (cases e)
  from Cons.prems(5) e obtain s1 where ev: "mio_event sockfd i connfd answer s = Inr s1"
    and rest: "mio_batch sockfd (Suc i) es s1 = Inr s'" by (auto simp: bindE_eq_Inr)
  have "(D \<union> (fst ` set es - {sockfd})) \<union> ({connfd} - {sockfd}) = D \<union> (fst ` set (e # es) - {sockfd})" using e by auto
  then have "mio_due ((D \<union> (fst ` set es - {sockfd})) \<union> ({connfd} - {sockfd})) s" using Cons.prems(1) by simp
  moreover have "connfd \<notin> D \<union> (fst ` set es - {sockfd})" using Cons.prems(2,3) e by auto
  moreover have "\<not> ready s connfd \<or> connfd = sockfd" using Cons.prems(4) e by simp
  ultimately have s1: "mio_due (D \<union> (fst ` set es - {sockfd})) s1" "\<forall>fd. \<not> ready s fd \<longrightarrow> \<not> ready s1 fd"
    using mio_event_due [OF _ _ _ ev] by blast+
  show ?case
    using Cons.IH [OF s1(1) _ _ _ rest] Cons.prems s1(2) by auto
qed

lemma mio_step_due: "mio_step sockfd s s' \<Longrightarrow> mio_due {} s \<Longrightarrow> mio_due {} s'"
proof (induction rule: mio_step.induct)
  case (arrive s fd bs)
  then have "length (echoed s fd) \<le> mio_buffer * bursts s fd" 
    using arrive(5) [unfolded mio_due_def, THEN spec, of fd] by (auto split: if_splits)
  with arrive show ?case by (auto simp: mio_due_def)
next
  case (hang_up s fd)
  then have "length (echoed s fd) \<le> mio_buffer * bursts s fd" 
    using hang_up(4) [unfolded mio_due_def, THEN spec, of fd] by (auto split: if_splits)
  with hang_up show ?case by (auto simp: mio_due_def)
next
  case (wait_round es s s')
  have "mio_due ({} \<union> (fst ` set es - {sockfd})) (report (map fst es) s)"
    unfolding mio_due_def
  proof (intro allI)
    fix fd
    have "(ready (report (map fst es) s) fd \<or> fd \<in> {} \<union> (fst ` set es - {sockfd})) \<longrightarrow> ready s fd"
      using wait_round(2) by (auto simp: report_def)
    with wait_round(5) [unfolded mio_due_def, THEN spec, of fd]
    show "echoed (report (map fst es) s) fd @ pending (report (map fst es) s) fd = arrived (report (map fst es) s) fd \<and>
      length (echoed (report (map fst es) s) fd) +
        (if (ready (report (map fst es) s) fd \<or> fd \<in> {} \<union> (fst ` set es - {sockfd})) \<and>
            pending (report (map fst es) s) fd \<noteq> [] then mio_buffer else 0)
      \<le> mio_buffer * bursts (report (map fst es) s) fd"
      by (auto simp: report_def split: if_splits)
  qed
  from mio_batch_due [OF this wait_round(1) _ _ wait_round(4)] show ?case by (simp add: report_def)
qed


lemma mio_reach_due: "mio_reach sockfd s \<Longrightarrow> mio_due {} s"
  unfolding mio_reach_def
proof (induction rule: rtranclp_induct)
  case base
  show ?case by (simp add: mio_due_def mio_start_def)
qed (rule mio_step_due)

subsection \<open>Properties\<close>

text \<open>
  C31: the server echoes in order, but at most five bytes for each arrival: on every connection what
  was echoed followed by what the kernel still holds is what arrived, and a message that arrives in
  one piece is not echoed beyond its fifth byte until something else arrives, however long the
  server runs. Edge-triggered mode asks for reading until the queue is empty; one \<open>recv\<close> of five
  bytes for each event does not do that.
\<close>

theorem mio_five_bytes_per_arrival:
  assumes "mio_reach sockfd s"
  shows "echoed s fd @ pending s fd = arrived s fd \<and> length (echoed s fd) \<le> 5 * bursts s fd \<and>
    (5 * bursts s fd < length (arrived s fd) \<longrightarrow> pending s fd \<noteq> [])"
proof -
  have d: "echoed s fd @ pending s fd = arrived s fd" "length (echoed s fd) \<le> mio_buffer * bursts s fd"
    using mio_reach_due [OF assms, unfolded mio_due_def, THEN spec, of fd] by (auto split: if_splits)
  moreover have "pending s fd \<noteq> []" if "5 * bursts s fd < length (arrived s fd)"
    using d that arg_cong [OF d(1), of length] by (auto simp: mio_buffer_def)
  ultimately show ?thesis by (simp add: mio_buffer_def)
qed

text \<open>
  When a client hangs up, the wrong descriptor is closed: \<open>close(i)\<close> closes the descriptor
  whose number is the event's index in the array, whatever that is, and the client's descriptor
  stays open for ever, no longer watched.
\<close>

theorem mio_hang_up_closes_index:
  assumes "connfd \<noteq> sockfd" "0 \<le> answer" "pending s connfd = []" "at_end s connfd" "connfd \<noteq> int i"
  shows "\<exists>s'. mio_event sockfd i connfd answer s = Inr s' \<and> \<not> opened s' (int i) \<and>
    opened s' connfd = opened s connfd \<and> \<not> watched s' connfd \<and>
    (\<forall>fd. fd \<noteq> int i \<longrightarrow> fd \<noteq> connfd \<longrightarrow> opened s' fd = opened s fd \<and> watched s' fd = watched s fd)"
  using assms by (simp add: mio_event_def mio_close_def)

text \<open>
  A read that fills the buffer leaves no room for a terminating zero, and the \<open>printf\<close> that follows
  runs past the end of the array unless the data has a zero byte of its own.
\<close>

lemma mio_full_read_overreads:
  assumes "connfd \<noteq> sockfd" "0 \<le> answer" "5 \<le> length (pending s connfd)" "0 \<notin> set (take 5 (pending s connfd))"
  shows "\<exists>s'. mio_event sockfd i connfd answer s = Inr s' \<and> overread s'"
proof -
  have "take 5 (pending s connfd) \<noteq> []" using assms(3) by auto
  moreover have "overwrite 0 (take 5 (pending s connfd)) (replicate 5 0) = take 5 (pending s connfd)"
    using assms(3) by (simp add: overwrite_def)
  ultimately show ?thesis using assms by (simp add: mio_event_def mio_buffer_def Let_def)
qed

text \<open>For the witnesses: a client on descriptor 5 sends nine bytes at once.\<close>

lemma mio_read_five:
  assumes "pending r fd = a # b # c # d # e # bs" "fd \<noteq> sockfd" "0 \<le> x"
  shows "\<exists>s. mio_event sockfd i fd x r = Inr s \<and> echoed s fd = echoed r fd @ [a, b, c, d, e] \<and> pending s fd = bs \<and>
    arrived s = arrived r \<and> bursts s = bursts r \<and> ready s = ready r \<and> opened s = opened r"
  using assms by (simp add: mio_event_def mio_buffer_def overwrite_def Let_def eval_nat_numeral)

lemma mio_nine_bytes:
  "\<exists>s. mio_reach 3 s \<and> arrived s 5 = [1, 2, 3, 4, 5, 6, 7, 8, 9] \<and> echoed s 5 = [1, 2, 3, 4, 5] \<and>
     bursts s 5 = 1 \<and> \<not> ready s 5 \<and> opened s 5"
proof -
  let ?m = "[1, 2, 3, 4, 5, 6, 7, 8, 9] :: bytes"
  define s1 where "s1 = mio_accept 5 (report [3] (mio_start 3))"
  have 1: "mio_step 3 (mio_start 3) s1"
    using mio_step.wait_round [of "[(3, 5)]" 3 "mio_start 3" s1]
    by (simp add: s1_def mio_event_def report_def mio_start_def)
  have f: "opened s1 5" "watched s1 5" "\<not> at_end s1 5" "pending s1 5 = []" "echoed s1 5 = []"
    "arrived s1 5 = []" "bursts s1 5 = 0"
    by (simp_all add: s1_def mio_accept_def)
  define s2 where "s2 = s1\<lparr>pending := (pending s1)(5 := ?m), arrived := (arrived s1)(5 := ?m),
      ready := (ready s1)(5 := True), bursts := (bursts s1)(5 := 1)\<rparr>"
  have 2: "mio_step 3 s1 s2" using mio_step.arrive [of s1 5 3 ?m] f by (simp add: s2_def)
  have g: "pending s2 5 = ?m" "echoed s2 5 = []" "arrived s2 5 = ?m" "bursts s2 5 = 1" "opened s2 5" "ready s2 5" "watched s2 5"
    using f by (simp_all add: s2_def)
  define r where "r = report [5] s2"
  have p: "pending r 5 = ?m" "echoed r 5 = []" "arrived r 5 = ?m" "bursts r 5 = 1" "\<not> ready r 5" "opened r 5"
    using g by (simp_all add: r_def report_def)
  from mio_read_five [OF p(1), of 3 0 0] obtain s3 where s3: "mio_event 3 0 5 0 r = Inr s3"
    "echoed s3 5 = [1, 2, 3, 4, 5]" "arrived s3 = arrived r" "bursts s3 = bursts r" "ready s3 = ready r" "opened s3 = opened r"
    unfolding p(2) by auto
  have bt: "mio_batch 3 0 [(5, 0)] (report (map fst [(5 :: int, 0 :: int)]) s2) = Inr s3"
    using s3(1) by (simp add: r_def)
  have ac: "accepts_ok 3 0 [(5, 0)] (report (map fst [(5 :: int, 0 :: int)]) s2)"
    using s3(1) by (simp add: r_def)
  have rd: "\<forall>fd \<in> fst ` set [(5 :: int, 0 :: int)]. fd = 3 \<or> ready s2 fd \<and> watched s2 fd"
    using g by simp
  have "distinct (map fst [(5 :: int, 0 :: int)])" by simp
  from mio_step.wait_round [OF this rd ac bt] have "mio_step 3 s2 s3" .
  from r_into_rtranclp [of "mio_step 3", OF 1] 2 have "(mio_step 3)\<^sup>*\<^sup>* (mio_start 3) s2" by (rule rtranclp.rtrancl_into_rtrancl)
  from this \<open>mio_step 3 s2 s3\<close> have "(mio_step 3)\<^sup>*\<^sup>* (mio_start 3) s3" by (rule rtranclp.rtrancl_into_rtrancl)
  then have "mio_reach 3 s3" by (simp add: mio_reach_def)
  with s3 p show ?thesis by (intro exI [of _ s3]) simp
qed

theorem mio_five_bytes_per_arrival_witness:
  "\<exists>s. mio_reach 3 s \<and> arrived s 5 = [1, 2, 3, 4, 5, 6, 7, 8, 9] \<and> pending s 5 \<noteq> [] \<and> \<not> ready s 5"
proof -
  obtain s where s: "mio_reach 3 s" "arrived s 5 = [1, 2, 3, 4, 5, 6, 7, 8, 9]" "bursts s 5 = 1" "\<not> ready s 5"
    using mio_nine_bytes by blast
  with mio_five_bytes_per_arrival [OF s(1), of 5] show ?thesis by auto
qed

theorem mio_hang_up_closes_index_witness:
  "\<exists>s'. mio_event 3 0 5 0 ((mio_accept 5 (mio_start 3))\<lparr>at_end := (\<lambda>fd. fd = 5)\<rparr>) = Inr s' \<and>
     \<not> opened s' 0 \<and> opened s' 5"
  using mio_hang_up_closes_index [of 5 3 0 "(mio_accept 5 (mio_start 3))\<lparr>at_end := (\<lambda>fd. fd = 5)\<rparr>" 0]
  by (auto simp: mio_accept_def)

end
