(* ===== verification/Multi_IO_Select.thy ===== *)
theory Multi_IO_Select
  imports Multi_IO_Schemes
begin

text \<open>
  The schemes 3 and 4 of \<^verbatim>\<open>2_Net/2.1-epoll/multi-io.c\<close>: the loops around \<open>select\<close> and \<open>poll\<close>. Both
  keep the descriptor accepted last in \<open>maxfd\<close> and look no further than that. One turn of a loop
  is a function of what the calls answered in it.
\<close>

subsection \<open>Scheme 3: select\<close>

text \<open>What the calls of one turn answer: \<open>told\<close> is the answer of \<open>select\<close> or \<open>poll\<close>.\<close>

record 'r answers =
  told :: 'r
  accepted :: int
  received :: "int \<Rightarrow> bytes option"

record select_loop =
  rfds :: "int set"
  maxfd :: int
  net :: kernel

text \<open>An \<open>fd_set\<close> has room for 1024 descriptors, and so has the array of scheme 4.\<close>

definition fd_setsize :: int where
  "fd_setsize = 1024"

definition fd_ok :: "int \<Rightarrow> bool" where
  "fd_ok fd \<longleftrightarrow> 0 \<le> fd \<and> fd < fd_setsize"

definition select_start :: "int \<Rightarrow> kernel \<Rightarrow> fault + select_loop" where
  "select_start sockfd k =
     (if fd_ok sockfd then Inr \<lparr>rfds = {sockfd}, maxfd = sockfd, net = k\<rparr> else Inl (BadIndex sockfd))"

definition select_accept :: "int \<Rightarrow> int set \<Rightarrow> int \<Rightarrow> select_loop \<Rightarrow> fault + select_loop" where
  "select_accept sockfd rset clientfd s =
     (if sockfd \<in> rset then
        if fd_ok clientfd then
          Inr (s\<lparr>rfds := insert clientfd (rfds s), maxfd := clientfd, net := k_accept clientfd (net s)\<rparr>)
        else Inl (BadIndex clientfd)
      else Inr s)"

definition select_serve :: "int set \<Rightarrow> (int \<Rightarrow> bytes option) \<Rightarrow> int \<Rightarrow> select_loop \<Rightarrow> fault + select_loop" where
  "select_serve rset recvs i s =
     (if i \<in> rset then
        let (count, buf, k) = chat_recv i (recvs i) (net s)
        in if count = 0 then Inr (s\<lparr>rfds := rfds s - {i}, net := k_close i k\<rparr>)
           else bindE (chat_send i buf count k) (\<lambda>k1. bindE (chat_print buf) (\<lambda>_. Inr (s\<lparr>net := k1\<rparr>)))
      else Inr s)"

definition select_turn :: "int \<Rightarrow> int set answers \<Rightarrow> select_loop \<Rightarrow> fault + select_loop" where
  "select_turn sockfd a s =
     bindE (select_accept sockfd (told a) (accepted a) s)
       (\<lambda>s1. run_events (select_serve (told a) (received a)) [sockfd + 1..maxfd s1] s1)"

subsection \<open>Scheme 4: poll\<close>

record pollfd =
  poll_fd :: int
  poll_events :: events
  poll_revents :: events

record poll_loop =
  fds :: "pollfd list"
  pmax :: int
  pnet :: kernel

definition POLLIN :: events where
  "POLLIN = 1"

text \<open>The array is not initialised: \<open>stack\<close> is what was there.\<close>

definition poll_start :: "int \<Rightarrow> pollfd list \<Rightarrow> kernel \<Rightarrow> fault + poll_loop" where
  "poll_start sockfd stack k =
     (if 0 \<le> sockfd \<and> sockfd < int (length stack) then
        Inr \<lparr>fds = stack[nat sockfd := (stack ! nat sockfd)\<lparr>poll_fd := sockfd, poll_events := POLLIN\<rparr>],
             pmax = sockfd, pnet = k\<rparr>
      else Inl (BadIndex sockfd))"

text \<open>\<open>poll\<close> writes the \<open>revents\<close> of the entries up to \<open>maxfd\<close>, zero for a negative descriptor.\<close>

definition poll_call :: "(nat \<Rightarrow> events) \<Rightarrow> poll_loop \<Rightarrow> poll_loop" where
  "poll_call revs p =
     p\<lparr>fds := map (\<lambda>(i, e). if int i \<le> pmax p then e\<lparr>poll_revents := if poll_fd e < 0 then 0 else revs i\<rparr> else e)
                (zip [0..<length (fds p)] (fds p))\<rparr>"

definition poll_marked :: "poll_loop \<Rightarrow> int \<Rightarrow> bool" where
  "poll_marked p i \<longleftrightarrow> wants (poll_revents (fds p ! nat i)) POLLIN"

definition poll_accept :: "int \<Rightarrow> int \<Rightarrow> poll_loop \<Rightarrow> fault + poll_loop" where
  "poll_accept sockfd clientfd p =
     (if poll_marked p sockfd then
        if 0 \<le> clientfd \<and> clientfd < int (length (fds p)) then
          Inr (p\<lparr>fds := (fds p)[nat clientfd := (fds p ! nat clientfd)\<lparr>poll_fd := clientfd, poll_events := POLLIN\<rparr>],
                 pmax := clientfd, pnet := k_accept clientfd (pnet p)\<rparr>)
        else Inl (BadIndex clientfd)
      else Inr p)"

definition poll_serve :: "(int \<Rightarrow> bytes option) \<Rightarrow> int \<Rightarrow> poll_loop \<Rightarrow> fault + poll_loop" where
  "poll_serve recvs i p =
     (if poll_marked p i then
        let (count, buf, k) = chat_recv i (recvs i) (pnet p)
        in if count = 0 then
             Inr (p\<lparr>fds := (fds p)[nat i := (fds p ! nat i)\<lparr>poll_fd := -1\<rparr>], pnet := k_close i k\<rparr>)
           else bindE (chat_send i buf count k) (\<lambda>k1. bindE (chat_print buf) (\<lambda>_. Inr (p\<lparr>pnet := k1\<rparr>)))
      else Inr p)"

definition poll_turn :: "int \<Rightarrow> (nat \<Rightarrow> events) answers \<Rightarrow> poll_loop \<Rightarrow> fault + poll_loop" where
  "poll_turn sockfd a p =
     bindE (poll_accept sockfd (accepted a) (poll_call (told a) p))
       (\<lambda>p1. run_events (poll_serve (received a)) [sockfd + 1..pmax p1] p1)"

subsection \<open>The select loop: what is kept, and what one turn does\<close>

definition select_inv :: "int \<Rightarrow> select_loop \<Rightarrow> bool" where
  "select_inv sockfd s \<longleftrightarrow> sockfd \<in> rfds s \<and> (\<forall>fd \<in> rfds s. fd_ok fd \<and> is_open (net s) fd) \<and> fd_ok (maxfd s) \<and>
     echoed_so_far (net s)"

text \<open>
  What the calls can answer in state \<open>s\<close>, if none fails and no data fills the buffer without a zero
  byte: \<open>select\<close> reports watched descriptors up to \<open>maxfd\<close>.
\<close>

definition select_may :: "int \<Rightarrow> int set answers \<Rightarrow> select_loop \<Rightarrow> bool" where
  "select_may sockfd a s \<longleftrightarrow> told a \<subseteq> rfds s \<inter> {..maxfd s} \<and>
     (sockfd \<in> told a \<longrightarrow> fd_ok (accepted a) \<and> \<not> is_open (net s) (accepted a)) \<and>
     (\<forall>i \<in> told a. case received a i of None \<Rightarrow> i = sockfd | Some bs \<Rightarrow> printable bs)"

definition turn_log :: "int set \<Rightarrow> (int \<Rightarrow> bytes option) \<Rightarrow> int list \<Rightarrow> (int \<Rightarrow> bytes) \<Rightarrow> int \<Rightarrow> bytes" where
  "turn_log rset recvs is l i = (if i \<in> rset \<and> i \<in> set is then l i @ take chat_buffer (the (recvs i)) else l i)"

lemma select_serve_some:
  assumes "i \<in> rset" "recvs i = Some bs" "printable bs"
  shows "select_serve rset recvs i s =
    (if bs = [] then Inr (s\<lparr>rfds := rfds s - {i}, net := k_close i (net s)\<rparr>)
     else Inr (s\<lparr>net := (net s)\<lparr>inlog := (inlog (net s))(i := inlog (net s) i @ take chat_buffer bs),
                               outlog := (outlog (net s))(i := outlog (net s) i @ take chat_buffer bs)\<rparr>\<rparr>))"
proof -
  have z: "chat_buffer \<noteq> 0" by (simp add: chat_buffer_def)
  with assms show ?thesis
    by (simp add: select_serve_def chat_recv_some chat_send_ok chat_print_ok fun_upd_idem del: length_take)
qed

lemma select_serve_run:
  assumes "\<forall>i \<in> set is. i \<in> rset \<longrightarrow> (\<exists>bs. recvs i = Some bs \<and> printable bs)" "distinct is" "sockfd \<notin> set is"
    "select_inv sockfd s"
  shows "\<exists>s'. run_events (select_serve rset recvs) is s = Inr s' \<and> select_inv sockfd s' \<and> maxfd s' = maxfd s \<and>
    rfds s' = rfds s - {i \<in> rset \<inter> set is. recvs i = Some []} \<and>
    (\<forall>i. i \<notin> set is \<longrightarrow> is_open (net s') i = is_open (net s) i) \<and>
    inlog (net s') = turn_log rset recvs is (inlog (net s))"
  using assms
proof (induction "is" arbitrary: s)
  case Nil
  then show ?case by (simp add: turn_log_def)
next
  case (Cons i "is")
  obtain s1 where s1: "select_serve rset recvs i s = Inr s1" "select_inv sockfd s1" "maxfd s1 = maxfd s"
    "rfds s1 = rfds s - {j \<in> rset \<inter> {i}. recvs j = Some []}" "\<forall>j. j \<noteq> i \<longrightarrow> is_open (net s1) j = is_open (net s) j"
    "inlog (net s1) = turn_log rset recvs [i] (inlog (net s))"
  proof (cases "i \<in> rset")
    case False
    with Cons.prems show ?thesis by (intro that [of s]) (auto simp: select_serve_def turn_log_def)
  next
    case True
    with Cons.prems(1) obtain bs where bs: "recvs i = Some bs" "printable bs" by auto
    show ?thesis
    proof (cases "bs = []")
      case e: True
      have "select_serve rset recvs i s = Inr (s\<lparr>rfds := rfds s - {i}, net := k_close i (net s)\<rparr>)"
        using select_serve_some [of i rset recvs bs s] True bs e by simp
      with Cons.prems(3,4) True bs e show ?thesis
        by (intro that [of "s\<lparr>rfds := rfds s - {i}, net := k_close i (net s)\<rparr>"])
          (auto simp: turn_log_def select_inv_def k_close_def echoed_so_far_def fun_eq_iff)
    next
      case e: False
      let ?s = "s\<lparr>net := (net s)\<lparr>inlog := (inlog (net s))(i := inlog (net s) i @ take chat_buffer bs),
        outlog := (outlog (net s))(i := outlog (net s) i @ take chat_buffer bs)\<rparr>\<rparr>"
      have "select_serve rset recvs i s = Inr ?s"
        using select_serve_some [of i rset recvs bs s] True bs e by simp
      with Cons.prems(3,4) True bs e show ?thesis
        by (intro that [of ?s]) (auto simp: turn_log_def select_inv_def echoed_so_far_def fun_eq_iff)
    qed
  qed
  have "\<exists>s'. run_events (select_serve rset recvs) is s1 = Inr s' \<and> select_inv sockfd s' \<and> maxfd s' = maxfd s1 \<and>
    rfds s' = rfds s1 - {i \<in> rset \<inter> set is. recvs i = Some []} \<and>
    (\<forall>i. i \<notin> set is \<longrightarrow> is_open (net s') i = is_open (net s1) i) \<and>
    inlog (net s') = turn_log rset recvs is (inlog (net s1))"
    using Cons.prems by (intro Cons.IH) (use s1(2) in auto)
  then obtain s' where s': "run_events (select_serve rset recvs) is s1 = Inr s'" "select_inv sockfd s'" "maxfd s' = maxfd s1"
    "rfds s' = rfds s1 - {i \<in> rset \<inter> set is. recvs i = Some []}"
    "\<forall>i. i \<notin> set is \<longrightarrow> is_open (net s') i = is_open (net s1) i"
    "inlog (net s') = turn_log rset recvs is (inlog (net s1))" by blast
  have "inlog (net s') = turn_log rset recvs (i # is) (inlog (net s))"
    using Cons.prems(2) by (auto simp: s'(6) s1(6) turn_log_def fun_eq_iff)
  moreover have "rfds s' = rfds s - {j \<in> rset \<inter> set (i # is). recvs j = Some []}" using s'(4) s1(4) by auto
  ultimately show ?case using s1 s' by auto
qed

lemma select_turn_effect:
  assumes inv: "select_inv sockfd s" and may: "select_may sockfd a s"
  shows "\<exists>s'. select_turn sockfd a s = Inr s' \<and> select_inv sockfd s' \<and>
    maxfd s' = (if sockfd \<in> told a then accepted a else maxfd s) \<and>
    rfds s' = (if sockfd \<in> told a then insert (accepted a) (rfds s) else rfds s) -
      {i \<in> told a. sockfd < i \<and> i \<le> maxfd s' \<and> received a i = Some []} \<and>
    inlog (net s') = turn_log (told a) (received a) [sockfd + 1..maxfd s']
      (if sockfd \<in> told a then (inlog (net s))(accepted a := []) else inlog (net s))"
proof -
  let ?s1 = "if sockfd \<in> told a then
      s\<lparr>rfds := insert (accepted a) (rfds s), maxfd := accepted a, net := k_accept (accepted a) (net s)\<rparr> else s"
  have acc: "select_accept sockfd (told a) (accepted a) s = Inr ?s1"
    using may by (simp add: select_accept_def select_may_def)
  have "select_inv sockfd ?s1"
    using inv may by (auto simp: select_inv_def select_may_def k_accept_def echoed_so_far_def)
  moreover have "\<forall>i \<in> set [sockfd + 1..maxfd ?s1]. i \<in> told a \<longrightarrow> (\<exists>bs. received a i = Some bs \<and> printable bs)"
    using may by (force simp: select_may_def split: option.splits)
  ultimately obtain s' where s': "run_events (select_serve (told a) (received a)) [sockfd + 1..maxfd ?s1] ?s1 = Inr s'"
    "select_inv sockfd s'" "maxfd s' = maxfd ?s1"
    "rfds s' = rfds ?s1 - {i \<in> told a \<inter> set [sockfd + 1..maxfd ?s1]. received a i = Some []}"
    "inlog (net s') = turn_log (told a) (received a) [sockfd + 1..maxfd ?s1] (inlog (net ?s1))"
    using select_serve_run [of "[sockfd + 1..maxfd ?s1]" "told a" "received a" sockfd ?s1] by auto
  moreover have "select_turn sockfd a s = Inr s'" by (simp only: select_turn_def acc bindE_Inr s'(1))
  moreover have "maxfd ?s1 = (if sockfd \<in> told a then accepted a else maxfd s)" by simp
  moreover have "inlog (net ?s1) = (if sockfd \<in> told a then (inlog (net s))(accepted a := []) else inlog (net s))"
    by (simp add: k_accept_def)
  moreover have "rfds ?s1 = (if sockfd \<in> told a then insert (accepted a) (rfds s) else rfds s)" by simp
  moreover have "{i \<in> told a \<inter> set [sockfd + 1..maxfd ?s1]. received a i = Some []} =
      {i \<in> told a. sockfd < i \<and> i \<le> maxfd s' \<and> received a i = Some []}"
    unfolding s'(3) by auto
  ultimately show ?thesis by (intro exI [of _ s']) (simp only: simp_thms)
qed

interpretation select_server: event_loop "select_inv sockfd" "select_may sockfd" "select_turn sockfd" for sockfd
  by unfold_locales (use select_turn_effect in blast)

text \<open>A watched connection above \<open>maxfd\<close>, with what has been read of it so far.\<close>

definition starving :: "int \<Rightarrow> bytes \<Rightarrow> select_loop \<Rightarrow> bool" where
  "starving fd log s \<longleftrightarrow> fd \<in> rfds s \<and> maxfd s < fd \<and> inlog (net s) fd = log"

definition select_low :: "int \<Rightarrow> int \<Rightarrow> int set answers \<Rightarrow> select_loop \<Rightarrow> bool" where
  "select_low sockfd fd a s \<longleftrightarrow> select_may sockfd a s \<and> (sockfd \<in> told a \<longrightarrow> accepted a < fd)"

lemma starving_turn:
  assumes "select_inv sockfd s" "starving fd log s" "select_low sockfd fd a s"
  shows "\<exists>s'. select_turn sockfd a s = Inr s' \<and> select_inv sockfd s' \<and> starving fd log s'"
proof -
  from assms select_turn_effect [of sockfd s a] obtain s' where s': "select_turn sockfd a s = Inr s'" "select_inv sockfd s'"
    "maxfd s' = (if sockfd \<in> told a then accepted a else maxfd s)"
    "rfds s' = (if sockfd \<in> told a then insert (accepted a) (rfds s) else rfds s) -
      {i \<in> told a. sockfd < i \<and> i \<le> maxfd s' \<and> received a i = Some []}"
    "inlog (net s') = turn_log (told a) (received a) [sockfd + 1..maxfd s']
      (if sockfd \<in> told a then (inlog (net s))(accepted a := []) else inlog (net s))"
    unfolding select_low_def by blast
  have "maxfd s' < fd" using assms s'(3) by (auto simp: starving_def select_low_def)
  moreover from this have "inlog (net s') fd = log"
    using assms unfolding s'(5) by (auto simp: turn_log_def starving_def select_low_def)
  moreover have "fd \<in> rfds s'" using assms \<open>maxfd s' < fd\<close> unfolding s'(4) by (auto simp: starving_def)
  ultimately show ?thesis using s'(1,2) by (auto simp: starving_def)
qed

interpretation starved: event_loop "\<lambda>s. select_inv sockfd s \<and> starving fd log s" "select_low sockfd fd" "select_turn sockfd"
  for sockfd fd log
  by unfold_locales (use starving_turn in blast)

subsection \<open>The poll loop does what the select loop does\<close>

definition poll_marks :: "poll_loop \<Rightarrow> int set" where
  "poll_marks p = {i. 0 \<le> i \<and> i < fd_setsize \<and> poll_marked p i}"

definition poll_watched :: "poll_loop \<Rightarrow> int set" where
  "poll_watched p = {i. 0 \<le> i \<and> i < fd_setsize \<and> poll_fd (fds p ! nat i) = i}"

definition as_select :: "poll_loop \<Rightarrow> select_loop" where
  "as_select p = \<lparr>rfds = poll_watched p, maxfd = pmax p, net = pnet p\<rparr>"

definition poll_wf :: "poll_loop \<Rightarrow> bool" where
  "poll_wf p \<longleftrightarrow> int (length (fds p)) = fd_setsize \<and> pmax p < fd_setsize"

text \<open>The same run, seen as answers to the select loop: what is marked after \<open>poll\<close> is the read set.\<close>

fun poll_view :: "int \<Rightarrow> (nat \<Rightarrow> events) answers list \<Rightarrow> poll_loop \<Rightarrow> int set answers list" where
  "poll_view sockfd [] p = []"
| "poll_view sockfd (a # as) p =
     \<lparr>told = poll_marks (poll_call (told a) p), accepted = accepted a, received = received a\<rparr> #
       (case poll_turn sockfd a p of Inl e \<Rightarrow> [] | Inr p' \<Rightarrow> poll_view sockfd as p')"

lemma poll_call_keeps:
  "poll_wf p \<Longrightarrow> poll_wf (poll_call revs p)" "poll_watched (poll_call revs p) = poll_watched p"
  if "int (length (fds p)) = fd_setsize"
  using that by (auto simp: poll_call_def poll_wf_def poll_watched_def split: if_splits)

lemma poll_marked_update:
  assumes "0 \<le> i" "i < int (length (fds p))" "poll_revents e = poll_revents (fds p ! nat i)"
  shows "poll_marked (p\<lparr>fds := (fds p)[nat i := e], pmax := m, pnet := k\<rparr>) j = poll_marked p j"
    "poll_marked (p\<lparr>fds := (fds p)[nat i := e], pnet := k\<rparr>) j = poll_marked p j"
  using assms by (auto simp: poll_marked_def nth_list_update)

lemma poll_accept_refines:
  assumes "poll_wf p" "fd_ok sockfd"
  shows "map_sum id as_select (poll_accept sockfd c p) = select_accept sockfd (poll_marks p) c (as_select p) \<and>
    (\<forall>p'. poll_accept sockfd c p = Inr p' \<longrightarrow> poll_wf p' \<and> poll_marks p' = poll_marks p)"
proof (cases "poll_marked p sockfd \<and> fd_ok c")
  case True
  let ?p = "p\<lparr>fds := (fds p)[nat c := (fds p ! nat c)\<lparr>poll_fd := c, poll_events := POLLIN\<rparr>],
                 pmax := c, pnet := k_accept c (pnet p)\<rparr>"
  have "poll_accept sockfd c p = Inr ?p"
    using True assms(1) by (simp add: poll_accept_def fd_ok_def poll_wf_def)
  moreover have "poll_wf ?p" using True assms(1) by (simp add: poll_wf_def fd_ok_def)
  moreover have "poll_marks ?p = poll_marks p"
    using True assms(1) poll_marked_update(1) [of c p] by (simp add: poll_marks_def poll_wf_def fd_ok_def)
  moreover have "poll_watched ?p = insert c (poll_watched p)"
    using True assms(1) by (auto simp: poll_watched_def poll_wf_def fd_ok_def nth_list_update nat_eq_iff)
  ultimately show ?thesis
    using True assms(2) by (simp add: select_accept_def as_select_def poll_marks_def fd_ok_def)
next
  case False
  then show ?thesis
    using assms by (auto simp: poll_accept_def select_accept_def as_select_def poll_marks_def fd_ok_def poll_wf_def)
qed

lemma poll_serve_refines:
  assumes "poll_wf p" "fd_ok i"
  shows "map_sum id as_select (poll_serve recvs i p) = select_serve (poll_marks p) recvs i (as_select p) \<and>
    (\<forall>p'. poll_serve recvs i p = Inr p' \<longrightarrow> poll_wf p' \<and> poll_marks p' = poll_marks p)"
proof (cases "poll_marked p i")
  case False
  with assms show ?thesis
    by (simp add: poll_serve_def select_serve_def poll_marks_def)
next
  case True
  obtain count buf k where r: "chat_recv i (recvs i) (pnet p) = (count, buf, k)" by (metis prod_cases3)
  have m: "i \<in> poll_marks p" using True assms(2) by (simp add: poll_marks_def fd_ok_def)
  show ?thesis
  proof (cases "count = 0")
    case z: True
    let ?p = "p\<lparr>fds := (fds p)[nat i := (fds p ! nat i)\<lparr>poll_fd := -1\<rparr>], pnet := k_close i k\<rparr>"
    have "poll_wf ?p" using assms(1) by (simp add: poll_wf_def)
    moreover have "poll_marks ?p = poll_marks p"
      using assms poll_marked_update(2) [of i p] by (simp add: poll_marks_def poll_wf_def fd_ok_def)
    moreover have "poll_watched ?p = poll_watched p - {i}"
      using assms by (auto simp: poll_watched_def poll_wf_def fd_ok_def nth_list_update nat_eq_iff split: if_splits)
    ultimately show ?thesis
      using True m r z by (simp add: poll_serve_def select_serve_def as_select_def)
  next
    case False
    have up: "poll_watched (p\<lparr>pnet := k1\<rparr>) = poll_watched p" "poll_marks (p\<lparr>pnet := k1\<rparr>) = poll_marks p"
      "poll_wf (p\<lparr>pnet := k1\<rparr>) = poll_wf p" for k1
      by (simp_all add: poll_watched_def poll_marks_def poll_marked_def poll_wf_def)
    show ?thesis
    proof (cases "chat_send i buf count k")
      case (Inl e)
      with True False m r show ?thesis by (simp add: poll_serve_def select_serve_def as_select_def)
    next
      case (Inr k1)
      with True False m r assms(1) show ?thesis
        by (cases "chat_print buf") (simp_all add: poll_serve_def select_serve_def as_select_def up)
    qed
  qed
qed

lemma poll_serve_run_refines:
  "poll_wf p \<Longrightarrow> \<forall>i \<in> set is. fd_ok i \<Longrightarrow>
     map_sum id as_select (run_events (poll_serve recvs) is p) =
       run_events (select_serve (poll_marks p) recvs) is (as_select p) \<and>
     (\<forall>p'. run_events (poll_serve recvs) is p = Inr p' \<longrightarrow> poll_wf p')"
proof (induction "is" arbitrary: p)
  case Nil
  then show ?case by simp
next
  case (Cons i "is")
  from poll_serve_refines [of p i recvs] Cons.prems
  have step: "map_sum id as_select (poll_serve recvs i p) = select_serve (poll_marks p) recvs i (as_select p)"
    "\<And>p'. poll_serve recvs i p = Inr p' \<Longrightarrow> poll_wf p' \<and> poll_marks p' = poll_marks p" by auto
  show ?case
  proof (cases "poll_serve recvs i p")
    case (Inl e)
    with step(1) show ?thesis by (simp flip: step(1))
  next
    case (Inr p')
    with step(2) [OF Inr] Cons.IH [of p'] Cons.prems(2) show ?thesis by (simp flip: step(1))
  qed
qed

lemma poll_turn_refines_select:
  assumes "poll_wf p" "fd_ok sockfd"
  shows "map_sum id as_select (poll_turn sockfd a p) =
      select_turn sockfd \<lparr>told = poll_marks (poll_call (told a) p), accepted = accepted a, received = received a\<rparr> (as_select p) \<and>
    (\<forall>p'. poll_turn sockfd a p = Inr p' \<longrightarrow> poll_wf p')"
proof -
  let ?p = "poll_call (told a) p"
  have wf: "poll_wf ?p" and w: "poll_watched ?p = poll_watched p"
    using poll_call_keeps [of p "told a"] assms(1) by (simp_all add: poll_wf_def)
  then have as: "as_select ?p = as_select p" by (simp add: as_select_def poll_call_def)
  note acc = poll_accept_refines [OF wf assms(2), of "accepted a"]
  have acc1: "select_accept sockfd (poll_marks ?p) (accepted a) (as_select p) =
      map_sum id as_select (poll_accept sockfd (accepted a) ?p)"
    using acc as by simp
  show ?thesis
  proof (cases "poll_accept sockfd (accepted a) ?p")
    case (Inl e)
    then show ?thesis by (simp add: poll_turn_def select_turn_def acc1)
  next
    case (Inr p1)
    with acc have p1: "poll_wf p1" "poll_marks p1 = poll_marks ?p" by blast+
    have "\<forall>i \<in> set [sockfd + 1..pmax p1]. fd_ok i"
      using p1(1) assms(2) by (auto simp: poll_wf_def fd_ok_def)
    from poll_serve_run_refines [OF p1(1) this, of "received a"] p1(2) Inr show ?thesis
      by (simp add: poll_turn_def select_turn_def acc1) (simp add: as_select_def)
  qed
qed

lemma poll_run_refines_select:
  "poll_wf p \<Longrightarrow> fd_ok sockfd \<Longrightarrow>
     map_sum id as_select (run_events (poll_turn sockfd) as p) =
       run_events (select_turn sockfd) (poll_view sockfd as p) (as_select p)"
proof (induction as arbitrary: p)
  case (Cons a as)
  note turn = poll_turn_refines_select [OF Cons.prems, of a]
  show ?case
  proof (cases "poll_turn sockfd a p")
    case (Inl e)
    with turn show ?thesis by (simp flip: turn [THEN conjunct1])
  next
    case (Inr p')
    with turn have "poll_wf p'" by blast
    with Cons.IH [of p'] Cons.prems(2) Inr show ?thesis by (simp flip: turn [THEN conjunct1])
  qed
qed simp

subsection \<open>Properties\<close>

text \<open>
  One turn of the select loop serves what is ready and within reach: every reported connection
  up to \<open>maxfd\<close> gets one \<open>recv\<close> of at most 128 bytes and all of it back, one at its end is closed and
  watched no more, a new client is watched, and nothing else changes. A whole run keeps the invariant
  and faults nowhere.
\<close>

theorem select_serves:
  assumes "select_inv sockfd s" "possible (select_turn sockfd) (select_may sockfd) (as @ [a]) s"
  shows "\<exists>s1 s'. run_events (select_turn sockfd) as s = Inr s1 \<and> select_turn sockfd a s1 = Inr s' \<and>
    select_inv sockfd s' \<and> outlog (net s') = inlog (net s') \<and>
    (\<forall>i. sockfd < i \<longrightarrow> i \<noteq> accepted a \<longrightarrow>
      inlog (net s') i = inlog (net s1) i @ (if i \<in> told a \<and> i \<le> maxfd s' then take 128 (the (received a i)) else []) \<and>
      (i \<in> rfds s' \<longleftrightarrow> i \<in> rfds s1 \<and> \<not> (i \<in> told a \<and> i \<le> maxfd s' \<and> received a i = Some [])))"
proof -
  have app: "possible (select_turn sockfd) (select_may sockfd) (as @ [a]) s \<Longrightarrow> select_inv sockfd s \<Longrightarrow>
      \<exists>s1. run_events (select_turn sockfd) as s = Inr s1 \<and> select_inv sockfd s1 \<and> select_may sockfd a s1"
  proof (induction as arbitrary: s)
    case (Cons b as)
    then obtain s1 where "select_turn sockfd b s = Inr s1" "select_inv sockfd s1"
      using select_server.handle_inv [of sockfd s b] by auto
    with Cons show ?case by simp
  qed simp
  from app assms obtain s1 where s1: "run_events (select_turn sockfd) as s = Inr s1" "select_inv sockfd s1" "select_may sockfd a s1"
    by blast
  from select_turn_effect [OF this(2,3)] obtain s' where s': "select_turn sockfd a s1 = Inr s'" "select_inv sockfd s'"
    "rfds s' = (if sockfd \<in> told a then insert (accepted a) (rfds s1) else rfds s1) -
      {i \<in> told a. sockfd < i \<and> i \<le> maxfd s' \<and> received a i = Some []}"
    "inlog (net s') = turn_log (told a) (received a) [sockfd + 1..maxfd s']
      (if sockfd \<in> told a then (inlog (net s1))(accepted a := []) else inlog (net s1))" by blast
  have "inlog (net s') i = inlog (net s1) i @ (if i \<in> told a \<and> i \<le> maxfd s' then take 128 (the (received a i)) else []) \<and>
      (i \<in> rfds s' \<longleftrightarrow> i \<in> rfds s1 \<and> \<not> (i \<in> told a \<and> i \<le> maxfd s' \<and> received a i = Some []))"
    if "sockfd < i" "i \<noteq> accepted a" for i
    unfolding s'(3,4) using that by (auto simp: turn_log_def chat_buffer_def)
  with s1(1) s'(1,2) show ?thesis by (intro exI [of _ s1] exI [of _ s']) (simp add: select_inv_def echoed_so_far_def)
qed

text \<open>
  \<open>maxfd\<close> is the descriptor accepted last, not the largest. When a client is given a smaller
  number, which the system does as soon as one has been closed, the connections above it are not
  served any more: they stay watched and open, but nothing is read from them until some client is
  given a number as large as theirs.
\<close>

theorem select_starves:
  assumes "select_inv sockfd s" "fd \<in> rfds s" "maxfd s < fd"
    and "possible (select_turn sockfd) (select_low sockfd fd) as s"
  shows "\<exists>s'. run_events (select_turn sockfd) as s = Inr s' \<and> fd \<in> rfds s' \<and> is_open (net s') fd \<and> maxfd s' < fd \<and>
    inlog (net s') fd = inlog (net s) fd"
proof -
  from assms have "select_inv sockfd s \<and> starving fd (inlog (net s) fd) s" by (simp add: starving_def)
  from starved.run_inv [OF this assms(4)] show ?thesis by (auto simp: starving_def select_inv_def)
qed


text \<open>
  The marks of entries that \<open>poll\<close> has not been given are those of the uninitialised array: a new
  client above \<open>maxfd\<close> is read at once if the memory happens to say so.
\<close>

lemma poll_reads_stack:
  assumes "poll_wf p" "pmax p < c" "fd_ok c"
  shows "poll_marked (poll_call revs p) c = poll_marked p c"
proof -
  have "nat c < length (fds p)" using assms by (simp add: poll_wf_def fd_ok_def nat_less_iff)
  with assms show ?thesis by (simp add: poll_marked_def poll_call_def fd_ok_def)
qed

text \<open>For the witnesses: a listening socket 3, and after a turn in which a client is given 5.\<close>

definition quiet :: kernel where
  "quiet = \<lparr>is_open = (\<lambda>fd. fd = 3), interest = (\<lambda>_. None), inlog = (\<lambda>_. []), outlog = (\<lambda>_. [])\<rparr>"

definition one_client :: "int set answers" where
  "one_client = \<lparr>told = {3}, accepted = 5, received = (\<lambda>_. None)\<rparr>"

definition one_message :: "int set answers" where
  "one_message = \<lparr>told = {5}, accepted = -1, received = (\<lambda>_. Some [1, 2])\<rparr>"

lemma select_serve_elsewhere: "i \<notin> rset \<Longrightarrow> select_serve rset recvs i s = Inr s"
  by (simp add: select_serve_def)

lemma select_one_client:
  "select_turn 3 one_client \<lparr>rfds = {3}, maxfd = 3, net = quiet\<rparr> = Inr \<lparr>rfds = {5, 3}, maxfd = 5, net = k_accept 5 quiet\<rparr>"
  by (simp add: select_turn_def select_accept_def one_client_def fd_ok_def fd_setsize_def select_serve_elsewhere)

theorem select_serves_witness:
  "\<exists>s'. run_events (select_turn 3) [one_client, one_message] \<lparr>rfds = {3}, maxfd = 3, net = quiet\<rparr> = Inr s' \<and>
     outlog (net s') 5 = [1, 2]"
proof -
  let ?s = "\<lparr>rfds = {3}, maxfd = 3, net = quiet\<rparr>"
  have "select_inv 3 ?s" by (simp add: select_inv_def fd_ok_def fd_setsize_def quiet_def echoed_so_far_def)
  moreover have "possible (select_turn 3) (select_may 3) ([one_client] @ [one_message]) ?s"
  proof -
    have "select_may 3 one_client ?s" by (simp add: select_may_def one_client_def fd_ok_def fd_setsize_def quiet_def)
    moreover have "select_may 3 one_message \<lparr>rfds = {5, 3}, maxfd = 5, net = k_accept 5 quiet\<rparr>"
      by (simp add: select_may_def one_message_def printable_def chat_buffer_def)
    ultimately show ?thesis by (simp add: select_one_client split: sum.splits)
  qed
  ultimately obtain s1 s' where r: "run_events (select_turn 3) [one_client] ?s = Inr s1" "select_turn 3 one_message s1 = Inr s'"
    "outlog (net s') = inlog (net s')"
    "\<forall>i. 3 < i \<longrightarrow> i \<noteq> accepted one_message \<longrightarrow>
      inlog (net s') i = inlog (net s1) i @ (if i \<in> told one_message \<and> i \<le> maxfd s' then take 128 (the (received one_message i)) else []) \<and>
      (i \<in> rfds s' \<longleftrightarrow> i \<in> rfds s1 \<and> \<not> (i \<in> told one_message \<and> i \<le> maxfd s' \<and> received one_message i = Some []))"
    using select_serves [of 3 ?s "[one_client]" one_message] by blast
  from r(1) have s1: "s1 = \<lparr>rfds = {5, 3}, maxfd = 5, net = k_accept 5 quiet\<rparr>" by (simp add: select_one_client)
  have "maxfd s' = 5" using r(2)
    by (simp add: s1 select_turn_def select_accept_def one_message_def select_serve_elsewhere select_serve_some
        printable_def chat_buffer_def) auto
  with r(4) [THEN spec, of 5] r(3) have "outlog (net s') 5 = [1, 2]"
    by (simp add: s1 one_message_def k_accept_def)
  with r(2) show ?thesis by (intro exI [of _ s']) (simp add: select_one_client s1)
qed

theorem select_starves_witness:
  "\<exists>s'. run_events (select_turn 3) [one_message] \<lparr>rfds = {3, 5, 7}, maxfd = 5, net = k_accept 7 (k_accept 5 quiet)\<rparr> = Inr s' \<and>
     7 \<in> rfds s' \<and> inlog (net s') 7 = []"
proof -
  let ?s = "\<lparr>rfds = {3, 5, 7}, maxfd = 5, net = k_accept 7 (k_accept 5 quiet)\<rparr>"
  have "select_inv 3 ?s"
    by (simp add: select_inv_def fd_ok_def fd_setsize_def quiet_def echoed_so_far_def k_accept_def)
  moreover have "possible (select_turn 3) (select_low 3 7) [one_message] ?s"
    by (simp add: select_low_def select_may_def one_message_def printable_def chat_buffer_def split: sum.splits)
  ultimately obtain s' where "run_events (select_turn 3) [one_message] ?s = Inr s'" "7 \<in> rfds s'"
    "inlog (net s') 7 = inlog (net ?s) 7"
    using select_starves [of 3 ?s 7 "[one_message]"] by auto
  then show ?thesis by (intro exI [of _ s']) (simp add: k_accept_def)
qed


end
