(* ===== verification/Loops.thy ===== *)
theory Loops
  imports Prelude
begin

text \<open>
  Loops that the shape of the data does not bound. \<open>run_loop body x\<close> iterates a loop body: the
  body faults, goes on with a new state of the loop's variables (\<open>Inl\<close>), or leaves the loop with
  a result (\<open>Inr\<close>). A loop that never ends is \<open>None\<close>; that a loop ends is proved with
  \<open>run_loop_total\<close>, whose invariant carries a number that falls with every turn.
\<close>

partial_function (option) run_loop :: "('a \<Rightarrow> fault + ('a + 'b)) \<Rightarrow> 'a \<Rightarrow> (fault + 'b) option" where
  "run_loop body x =
     (case body x of
        Inl e \<Rightarrow> Some (Inl e)
      | Inr y \<Rightarrow> (case y of Inl x' \<Rightarrow> run_loop body x' | Inr r \<Rightarrow> Some (Inr r)))"

lemma run_loop_fault: "body x = Inl e \<Longrightarrow> run_loop body x = Some (Inl e)"
  by (subst run_loop.simps) simp

lemma run_loop_again: "body x = Inr (Inl x') \<Longrightarrow> run_loop body x = run_loop body x'"
  by (subst run_loop.simps) simp

lemma run_loop_leave: "body x = Inr (Inr r) \<Longrightarrow> run_loop body x = Some (Inr r)"
  by (subst run_loop.simps) simp

lemmas run_loop_simps = run_loop_fault run_loop_again run_loop_leave

lemma run_loop_total:
  fixes n :: nat
  assumes inv: "I n x"
    and turn: "\<And>n x. I n x \<Longrightarrow> (\<exists>x' m :: nat. body x = Inr (Inl x') \<and> m < n \<and> I m x') \<or> (\<exists>r. body x = Inr (Inr r) \<and> P r)"
  shows "\<exists>r. run_loop body x = Some (Inr r) \<and> P r"
  using inv
proof (induction n arbitrary: x rule: less_induct)
  case (less n)
  from turn [OF less.prems] show ?case
  proof
    assume "\<exists>x' m. body x = Inr (Inl x') \<and> m < n \<and> I m x'"
    then show ?thesis using less.IH by (auto simp: run_loop_again)
  next
    assume "\<exists>r. body x = Inr (Inr r) \<and> P r"
    then show ?thesis by (auto simp: run_loop_leave)
  qed
qed

text \<open>A counting loop that stores one value in \<open>xs[i]\<close>, \<open>\<dots>\<close>, \<open>xs[j - 1]\<close>.\<close>

function fill :: "nat \<Rightarrow> nat \<Rightarrow> 'a \<Rightarrow> 'a list \<Rightarrow> fault + 'a list" where
  "fill i j x xs =
     (if i < j then if i < length xs then fill (Suc i) j x (xs[i := x]) else Inl (BadIndex (int i)) else Inr xs)"
  by auto
termination by (relation "measure (\<lambda>(i, j, x, xs). j - i)") auto

declare fill.simps [simp del]

lemma fill_ok:
  "j \<le> length xs \<Longrightarrow> \<exists>ys. fill i j x xs = Inr ys \<and> length ys = length xs \<and>
     (\<forall>k < length xs. ys ! k = (if i \<le> k \<and> k < j then x else xs ! k))"
proof (induction i j x xs rule: fill.induct)
  case (1 i j x xs)
  show ?case
  proof (cases "i < j")
    case True
    with 1(2) have "i < length xs" by simp
    with 1(1) [OF True] 1(2) obtain ys where ys: "fill (Suc i) j x (xs[i := x]) = Inr ys" "length ys = length xs"
      "\<forall>k < length xs. ys ! k = (if Suc i \<le> k \<and> k < j then x else xs[i := x] ! k)" by auto
    have "ys ! k = (if i \<le> k \<and> k < j then x else xs ! k)" if "k < length xs" for k
      using ys(3) that True by (cases "k = i") auto
    with ys True \<open>i < length xs\<close> show ?thesis by (subst fill.simps) simp
  next
    case False
    then show ?thesis by (subst fill.simps) auto
  qed
qed

end
