(* ===== verification/Skiplist.thy ===== *)
theory Skiplist
  imports Loops
begin

text \<open>
  The skip list (\<^verbatim>\<open>atomic_and_lock-master/skiplist.h\<close>): its nodes, its searches, \<open>Insert\<close>,
  \<open>Contains\<close>, \<open>EstimateCount\<close> and the iterator. The template's comparator is the argument \<open>cmp\<close>
  of every operation that compares, the random numbers \<open>Insert\<close> draws and the addresses \<open>malloc\<close>
  answers are arguments as well. Every \<open>assert\<close> of the source is checked, and so is every access
  to the arrays \<open>next_\<close> and \<open>prev_\<close>.
\<close>

subsection \<open>Nodes\<close>

text \<open>A node's array \<open>next_\<close> comes from \<open>malloc\<close>: its slots hold no pointer until one is stored.\<close>

type_synonym link = "nat option"

datatype slot = Unset | Link link

record 'k node =
  key :: 'k
  nexts :: "slot list"

type_synonym 'k nodes = "nat \<Rightarrow> 'k node option"

definition node_at :: "link \<Rightarrow> 'k nodes \<Rightarrow> fault + 'k node" where
  "node_at n st =
     (case n of
        None \<Rightarrow> Inl NullUse
      | Some r \<Rightarrow> (case st r of None \<Rightarrow> Inl NotInitialised | Some nd \<Rightarrow> Inr nd))"

definition key_at :: "link \<Rightarrow> 'k nodes \<Rightarrow> fault + 'k" where
  "key_at n st = bindE (node_at n st) (\<lambda>nd. Inr (key nd))"

definition Next :: "link \<Rightarrow> nat \<Rightarrow> 'k nodes \<Rightarrow> fault + link" where
  "Next x n st =
     bindE (node_at x st) (\<lambda>nd.
       if n < length (nexts nd)
       then (case nexts nd ! n of Unset \<Rightarrow> Inl NotInitialised | Link l \<Rightarrow> Inr l)
       else Inl (BadIndex (int n)))"

definition SetNext :: "link \<Rightarrow> nat \<Rightarrow> link \<Rightarrow> 'k nodes \<Rightarrow> fault + 'k nodes" where
  "SetNext y n x st =
     bindE (node_at y st) (\<lambda>nd.
       if n < length (nexts nd)
       then Inr (st(the y \<mapsto> nd\<lparr>nexts := (nexts nd)[n := Link x]\<rparr>))
       else Inl (BadIndex (int n)))"

text \<open>The variants without a barrier load and store the same slots.\<close>

definition NoBarrier_Next :: "link \<Rightarrow> nat \<Rightarrow> 'k nodes \<Rightarrow> fault + link" where
  "NoBarrier_Next x n st = Next x n st"

definition NoBarrier_SetNext :: "link \<Rightarrow> nat \<Rightarrow> link \<Rightarrow> 'k nodes \<Rightarrow> fault + 'k nodes" where
  "NoBarrier_SetNext y n x st = SetNext y n x st"

text \<open>\<open>p\<close> is what \<open>malloc\<close> answers; the constructor stores the key there.\<close>

definition NewNode :: "link \<Rightarrow> 'k \<Rightarrow> nat \<Rightarrow> 'k nodes \<Rightarrow> fault + 'k nodes" where
  "NewNode p k height st =
     (case p of
        None \<Rightarrow> Inl NullUse
      | Some r \<Rightarrow> Inr (st(r \<mapsto> \<lparr>key = k, nexts = replicate height Unset\<rparr>)))"

subsection \<open>The list object and its constructor\<close>

record 'k skiplist =
  kMaxHeight :: nat
  kBranching :: nat
  kScaledInverseBranching :: nat
  head :: nat
  max_height :: nat
  prev :: "link list"
  prev_height :: nat
  nodes :: "'k nodes"

definition uint16 :: "int \<Rightarrow> nat" where
  "uint16 i = nat (i mod 2 ^ 16)"

definition uint32 :: "int \<Rightarrow> nat" where
  "uint32 i = nat (i mod 2 ^ 32)"

function init_links :: "nat \<Rightarrow> nat \<Rightarrow> link \<Rightarrow> link list \<Rightarrow> 'k nodes \<Rightarrow> fault + (link list \<times> 'k nodes)" where
  "init_links i n h pv st =
     (if i < n then
        bindE (SetNext h i None st) (\<lambda>st1.
        if i < length pv then init_links (Suc i) n h (pv[i := h]) st1 else Inl (BadIndex (int i)))
      else Inr (pv, st))"
  by auto
termination by (relation "measure (\<lambda>(i, n, h, pv, st). n - i)") auto

declare init_links.simps [simp del]

definition SkipList :: "link \<Rightarrow> bool \<Rightarrow> 'k \<Rightarrow> int \<Rightarrow> int \<Rightarrow> 'k nodes \<Rightarrow> fault + 'k skiplist" where
  "SkipList p prev_ok zero max_ht branching st =
     (let km = uint16 max_ht; kb = uint16 branching in
      if kb = 0 then Inl DivideByZero
      else
        let scaled = 4294967295 div kb in
        bindE (NewNode p zero (nat max_ht) st) (\<lambda>st1.
        bindE (assertE AssertFailed (0 < max_ht \<and> km = uint32 max_ht)) (\<lambda>_.
        bindE (assertE AssertFailed (0 < branching \<and> kb = uint32 branching)) (\<lambda>_.
        bindE (assertE AssertFailed (0 < scaled)) (\<lambda>_.
        if \<not> prev_ok then Inl NullUse
        else
          bindE (init_links 0 km p (replicate km None) st1) (\<lambda>(pv, st2).
          Inr \<lparr>kMaxHeight = km, kBranching = kb, kScaledInverseBranching = scaled, head = the p,
               max_height = 1, prev = pv, prev_height = 1, nodes = st2\<rparr>))))))"

definition GetMaxHeight :: "'k skiplist \<Rightarrow> nat" where
  "GetMaxHeight s = max_height s"

text \<open>
  \<open>draws h\<close> is the number that \<open>RANDOM->Next()\<close> answers when the height has reached \<open>h\<close>; each is
  asked for at most once.
\<close>

function grow_height :: "(nat \<Rightarrow> 32 word) \<Rightarrow> nat \<Rightarrow> nat \<Rightarrow> nat \<Rightarrow> nat" where
  "grow_height draws km scaled h =
     (if h < km \<and> unat (draws h) < scaled then grow_height draws km scaled (Suc h) else h)"
  by auto
termination by (relation "measure (\<lambda>(draws, km, scaled, h). km - h)") auto

declare grow_height.simps [simp del]

definition RandomHeight :: "(nat \<Rightarrow> 32 word) \<Rightarrow> 'k skiplist \<Rightarrow> fault + nat" where
  "RandomHeight draws s =
     (let height = grow_height draws (kMaxHeight s) (kScaledInverseBranching s) 1 in
      bindE (assertE AssertFailed (0 < height)) (\<lambda>_.
      bindE (assertE AssertFailed (height \<le> kMaxHeight s)) (\<lambda>_. Inr height)))"

subsection \<open>Comparisons\<close>

definition Equal :: "('k \<Rightarrow> 'k \<Rightarrow> int) \<Rightarrow> 'k \<Rightarrow> 'k \<Rightarrow> bool" where
  "Equal cmp a b \<longleftrightarrow> cmp a b = 0"

definition LessThan :: "('k \<Rightarrow> 'k \<Rightarrow> int) \<Rightarrow> 'k \<Rightarrow> 'k \<Rightarrow> bool" where
  "LessThan cmp a b \<longleftrightarrow> cmp a b < 0"

definition KeyIsAfterNode :: "('k \<Rightarrow> 'k \<Rightarrow> int) \<Rightarrow> 'k \<Rightarrow> link \<Rightarrow> 'k nodes \<Rightarrow> fault + bool" where
  "KeyIsAfterNode cmp k n st =
     (if n = None then Inr False else bindE (key_at n st) (\<lambda>nk. Inr (cmp nk k < 0)))"

text \<open>The two assertions both searches make: the list is sorted at \<open>x\<close>, and \<open>x\<close> is before the key.\<close>

definition assert_sorted :: "('k \<Rightarrow> 'k \<Rightarrow> int) \<Rightarrow> link \<Rightarrow> link \<Rightarrow> 'k skiplist \<Rightarrow> fault + unit" where
  "assert_sorted cmp x nxt s =
     (if x = Some (head s) \<or> nxt = None then Inr ()
      else bindE (key_at nxt (nodes s)) (\<lambda>nk.
           bindE (KeyIsAfterNode cmp nk x (nodes s)) (assertE AssertFailed)))"

definition assert_before :: "('k \<Rightarrow> 'k \<Rightarrow> int) \<Rightarrow> 'k \<Rightarrow> link \<Rightarrow> 'k skiplist \<Rightarrow> fault + unit" where
  "assert_before cmp k x s =
     (if x = Some (head s) then Inr ()
      else bindE (KeyIsAfterNode cmp k x (nodes s)) (assertE AssertFailed))"

subsection \<open>Searches\<close>

definition greater_or_equal_turn ::
    "('k \<Rightarrow> 'k \<Rightarrow> int) \<Rightarrow> 'k \<Rightarrow> 'k skiplist \<Rightarrow> link \<times> nat \<times> link \<Rightarrow> fault + (link \<times> nat \<times> link + link)" where
  "greater_or_equal_turn cmp k s = (\<lambda>(x, level, last_bigger).
     bindE (assertE AssertFailed (x \<noteq> None)) (\<lambda>_.
     bindE (Next x level (nodes s)) (\<lambda>nxt.
     bindE (assert_sorted cmp x nxt s) (\<lambda>_.
     bindE (assert_before cmp k x s) (\<lambda>_.
     bindE (if nxt = None \<or> nxt = last_bigger then Inr 1
            else bindE (key_at nxt (nodes s)) (\<lambda>nk. Inr (cmp nk k))) (\<lambda>c.
     if c = 0 \<or> (c > 0 \<and> level = 0) then Inr (Inr nxt)
     else if c < 0 then Inr (Inl (nxt, level, last_bigger))
     else Inr (Inl (x, level - 1, nxt))))))))"

definition FindGreaterOrEqual :: "('k \<Rightarrow> 'k \<Rightarrow> int) \<Rightarrow> 'k \<Rightarrow> 'k skiplist \<Rightarrow> (fault + link) option" where
  "FindGreaterOrEqual cmp k s =
     run_loop (greater_or_equal_turn cmp k s) (Some (head s), GetMaxHeight s - 1, None)"

text \<open>\<open>pv\<close> is the array the predecessors are stored in, if the caller passes one.\<close>

definition less_than_turn ::
    "('k \<Rightarrow> 'k \<Rightarrow> int) \<Rightarrow> 'k \<Rightarrow> 'k skiplist \<Rightarrow> link \<times> nat \<times> link \<times> link list option \<Rightarrow>
      fault + (link \<times> nat \<times> link \<times> link list option + link \<times> link list option)" where
  "less_than_turn cmp k s = (\<lambda>(x, level, last_not_after, pv).
     bindE (assertE AssertFailed (x \<noteq> None)) (\<lambda>_.
     bindE (Next x level (nodes s)) (\<lambda>nxt.
     bindE (assert_sorted cmp x nxt s) (\<lambda>_.
     bindE (assert_before cmp k x s) (\<lambda>_.
     bindE (if nxt \<noteq> last_not_after then KeyIsAfterNode cmp k nxt (nodes s) else Inr False) (\<lambda>after.
     if after then Inr (Inl (nxt, level, last_not_after, pv))
     else
       bindE (case pv of
                None \<Rightarrow> Inr None
              | Some ps \<Rightarrow> if level < length ps then Inr (Some (ps[level := x])) else Inl (BadIndex (int level))) (\<lambda>pv'.
       if level = 0 then Inr (Inr (x, pv')) else Inr (Inl (x, level - 1, nxt, pv')))))))))"

definition FindLessThan ::
    "('k \<Rightarrow> 'k \<Rightarrow> int) \<Rightarrow> 'k \<Rightarrow> link list option \<Rightarrow> 'k skiplist \<Rightarrow> (fault + (link \<times> link list option)) option" where
  "FindLessThan cmp k pv s =
     run_loop (less_than_turn cmp k s) (Some (head s), GetMaxHeight s - 1, None, pv)"

definition last_turn :: "'k skiplist \<Rightarrow> link \<times> nat \<Rightarrow> fault + (link \<times> nat + link)" where
  "last_turn s = (\<lambda>(x, level).
     bindE (Next x level (nodes s)) (\<lambda>nxt.
     if nxt = None then (if level = 0 then Inr (Inr x) else Inr (Inl (x, level - 1)))
     else Inr (Inl (nxt, level))))"

definition FindLast :: "'k skiplist \<Rightarrow> (fault + link) option" where
  "FindLast s = run_loop (last_turn s) (Some (head s), GetMaxHeight s - 1)"

definition estimate_turn ::
    "('k \<Rightarrow> 'k \<Rightarrow> int) \<Rightarrow> 'k \<Rightarrow> 'k skiplist \<Rightarrow> link \<times> nat \<times> 64 word \<Rightarrow> fault + (link \<times> nat \<times> 64 word + 64 word)" where
  "estimate_turn cmp k s = (\<lambda>(x, level, count).
     bindE (if x = Some (head s) then Inr ()
            else bindE (key_at x (nodes s)) (\<lambda>xk. assertE AssertFailed (cmp xk k < 0))) (\<lambda>_.
     bindE (Next x level (nodes s)) (\<lambda>nxt.
     bindE (if nxt = None then Inr True else bindE (key_at nxt (nodes s)) (\<lambda>nk. Inr (cmp nk k \<ge> 0))) (\<lambda>stop.
     if stop then
       if level = 0 then Inr (Inr count)
       else Inr (Inl (x, level - 1, count * of_nat (kBranching s)))
     else Inr (Inl (nxt, level, count + 1))))))"

definition EstimateCount :: "('k \<Rightarrow> 'k \<Rightarrow> int) \<Rightarrow> 'k \<Rightarrow> 'k skiplist \<Rightarrow> (fault + 64 word) option" where
  "EstimateCount cmp k s =
     run_loop (estimate_turn cmp k s) (Some (head s), GetMaxHeight s - 1, 0)"

text \<open>Sequencing of code that may not return.\<close>

definition bindL :: "(fault + 'a) option \<Rightarrow> ('a \<Rightarrow> (fault + 'b) option) \<Rightarrow> (fault + 'b) option" where
  "bindL r f = (case r of None \<Rightarrow> None | Some (Inl e) \<Rightarrow> Some (Inl e) | Some (Inr x) \<Rightarrow> f x)"

lemma bindL_simps [simp, result_simps]:
  "bindL None f = None" "bindL (Some (Inl e)) f = Some (Inl e)" "bindL (Some (Inr x)) f = f x"
  by (simp_all add: bindL_def)

definition Contains :: "('k \<Rightarrow> 'k \<Rightarrow> int) \<Rightarrow> 'k \<Rightarrow> 'k skiplist \<Rightarrow> (fault + bool) option" where
  "Contains cmp k s =
     bindL (FindGreaterOrEqual cmp k s) (\<lambda>x. Some (
       if x = None then Inr False
       else bindE (key_at x (nodes s)) (\<lambda>xk. Inr (Equal cmp k xk))))"

subsection \<open>Insertion\<close>

definition prev_at :: "nat \<Rightarrow> link list \<Rightarrow> fault + link" where
  "prev_at i pv = (if i < length pv then Inr (pv ! i) else Inl (BadIndex (int i)))"

text \<open>Whether the new key belongs right after the one inserted last.\<close>

definition fast_path :: "('k \<Rightarrow> 'k \<Rightarrow> int) \<Rightarrow> 'k \<Rightarrow> 'k skiplist \<Rightarrow> fault + bool" where
  "fast_path cmp k s =
     bindE (prev_at 0 (prev s)) (\<lambda>p0.
     bindE (NoBarrier_Next p0 0 (nodes s)) (\<lambda>n0.
     bindE (KeyIsAfterNode cmp k n0 (nodes s)) (\<lambda>beyond.
     if beyond then Inr False
     else if p0 = Some (head s) then Inr True
     else KeyIsAfterNode cmp k p0 (nodes s))))"

definition sequential_prev :: "'k skiplist \<Rightarrow> fault + link list" where
  "sequential_prev s =
     bindE (prev_at 0 (prev s)) (\<lambda>p0.
     bindE (assertE AssertFailed (p0 \<noteq> Some (head s) \<or> (prev_height s = 1 \<and> GetMaxHeight s = 1))) (\<lambda>_.
     fill 1 (prev_height s) p0 (prev s)))"

definition assert_no_duplicate :: "('k \<Rightarrow> 'k \<Rightarrow> int) \<Rightarrow> 'k \<Rightarrow> link list \<Rightarrow> 'k skiplist \<Rightarrow> fault + unit" where
  "assert_no_duplicate cmp k pv s =
     bindE (prev_at 0 pv) (\<lambda>p0.
     bindE (Next p0 0 (nodes s)) (\<lambda>n0.
     if n0 = None then Inr ()
     else bindE (key_at n0 (nodes s)) (\<lambda>nk. assertE AssertFailed (\<not> Equal cmp k nk))))"

text \<open>One turn of the linking loop: the new node's own slot, then the slot that publishes it.\<close>

definition link_own :: "nat \<Rightarrow> link \<Rightarrow> link list \<Rightarrow> 'k nodes \<Rightarrow> fault + 'k nodes" where
  "link_own i x pv st =
     bindE (prev_at i pv) (\<lambda>p. bindE (NoBarrier_Next p i st) (\<lambda>n. NoBarrier_SetNext x i n st))"

definition link_publish :: "nat \<Rightarrow> link \<Rightarrow> link list \<Rightarrow> 'k nodes \<Rightarrow> fault + 'k nodes" where
  "link_publish i x pv st = bindE (prev_at i pv) (\<lambda>p. SetNext p i x st)"

function link_levels :: "nat \<Rightarrow> nat \<Rightarrow> link \<Rightarrow> link list \<Rightarrow> 'k nodes \<Rightarrow> fault + 'k nodes" where
  "link_levels i height x pv st =
     (if i < height then
        bindE (link_own i x pv st) (\<lambda>st1.
        bindE (link_publish i x pv st1) (\<lambda>st2.
        link_levels (Suc i) height x pv st2))
      else Inr st)"
  by auto
termination by (relation "measure (\<lambda>(i, height, x, pv, st). height - i)") auto

declare link_levels.simps [simp del]

text \<open>
  \<open>Insert\<close> in three parts: the predecessors, then everything up to the creation of the node, then
  linking it.
\<close>

definition find_prev :: "('k \<Rightarrow> 'k \<Rightarrow> int) \<Rightarrow> 'k \<Rightarrow> 'k skiplist \<Rightarrow> (fault + link list) option" where
  "find_prev cmp k s =
     bindL (Some (fast_path cmp k s)) (\<lambda>fast.
     if fast then Some (sequential_prev s)
     else bindL (FindLessThan cmp k (Some (prev s)) s) (\<lambda>(x, pv). Some (Inr (the pv))))"

definition prepare_insert ::
    "('k \<Rightarrow> 'k \<Rightarrow> int) \<Rightarrow> (nat \<Rightarrow> 32 word) \<Rightarrow> link \<Rightarrow> 'k \<Rightarrow> link list \<Rightarrow> 'k skiplist \<Rightarrow> fault + (nat \<times> 'k skiplist)" where
  "prepare_insert cmp draws p k pv s =
     bindE (assert_no_duplicate cmp k pv s) (\<lambda>_.
     bindE (RandomHeight draws s) (\<lambda>height.
     bindE (if height > GetMaxHeight s then fill (GetMaxHeight s) height (Some (head s)) pv else Inr pv) (\<lambda>pv1.
     bindE (NewNode p k height (nodes s)) (\<lambda>st1.
     Inr (height, s\<lparr>max_height := (if height > GetMaxHeight s then height else GetMaxHeight s), prev := pv1, nodes := st1\<rparr>)))))"

definition finish_insert :: "link \<Rightarrow> nat \<Rightarrow> 'k skiplist \<Rightarrow> fault + 'k skiplist" where
  "finish_insert x height s =
     (if 0 < length (prev s) then Inr (s\<lparr>prev := (prev s)[0 := x], prev_height := height\<rparr>) else Inl (BadIndex 0))"

definition insert_after :: "('k \<Rightarrow> 'k \<Rightarrow> int) \<Rightarrow> (nat \<Rightarrow> 32 word) \<Rightarrow> link \<Rightarrow> 'k \<Rightarrow> link list \<Rightarrow> 'k skiplist \<Rightarrow> fault + 'k skiplist" where
  "insert_after cmp draws p k pv s =
     bindE (prepare_insert cmp draws p k pv s) (\<lambda>(height, s1).
     bindE (link_levels 0 height p (prev s1) (nodes s1)) (\<lambda>st2.
     finish_insert p height (s1\<lparr>nodes := st2\<rparr>)))"

definition Insert :: "('k \<Rightarrow> 'k \<Rightarrow> int) \<Rightarrow> (nat \<Rightarrow> 32 word) \<Rightarrow> link \<Rightarrow> 'k \<Rightarrow> 'k skiplist \<Rightarrow> (fault + 'k skiplist) option" where
  "Insert cmp draws p k s =
     bindL (find_prev cmp k s) (\<lambda>pv. Some (insert_after cmp draws p k pv s))"

subsection \<open>The iterator\<close>

text \<open>An iterator is the node it stands on; \<open>None\<close> is the position that is not valid.\<close>

definition SetList :: link where
  "SetList = None"

definition Valid :: "link \<Rightarrow> bool" where
  "Valid it \<longleftrightarrow> it \<noteq> None"

definition iter_key :: "link \<Rightarrow> 'k skiplist \<Rightarrow> fault + 'k" where
  "iter_key it s = bindE (assertE AssertFailed (Valid it)) (\<lambda>_. key_at it (nodes s))"

definition iter_Next :: "link \<Rightarrow> 'k skiplist \<Rightarrow> fault + link" where
  "iter_Next it s = bindE (assertE AssertFailed (Valid it)) (\<lambda>_. Next it 0 (nodes s))"

definition not_head :: "'k skiplist \<Rightarrow> link \<Rightarrow> link" where
  "not_head s n = (if n = Some (head s) then None else n)"

definition iter_Prev :: "('k \<Rightarrow> 'k \<Rightarrow> int) \<Rightarrow> link \<Rightarrow> 'k skiplist \<Rightarrow> (fault + link) option" where
  "iter_Prev cmp it s =
     bindL (Some (iter_key it s)) (\<lambda>k.
     bindL (FindLessThan cmp k None s) (\<lambda>(x, _). Some (Inr (not_head s x))))"

definition Seek :: "('k \<Rightarrow> 'k \<Rightarrow> int) \<Rightarrow> 'k \<Rightarrow> 'k skiplist \<Rightarrow> (fault + link) option" where
  "Seek cmp target s = FindGreaterOrEqual cmp target s"

definition SeekToFirst :: "'k skiplist \<Rightarrow> fault + link" where
  "SeekToFirst s = Next (Some (head s)) 0 (nodes s)"

definition SeekToLast :: "'k skiplist \<Rightarrow> (fault + link) option" where
  "SeekToLast s = bindL (FindLast s) (\<lambda>x. Some (Inr (not_head s x)))"

partial_function (option) retreat :: "('k \<Rightarrow> 'k \<Rightarrow> int) \<Rightarrow> 'k \<Rightarrow> 'k skiplist \<Rightarrow> link \<Rightarrow> (fault + link) option" where
  "retreat cmp target s it =
     (if Valid it then
        (case iter_key it s of
           Inl e \<Rightarrow> Some (Inl e)
         | Inr k \<Rightarrow>
             if LessThan cmp target k then
               Option.bind (iter_Prev cmp it s) (\<lambda>r. case r of Inl e \<Rightarrow> Some (Inl e) | Inr it' \<Rightarrow> retreat cmp target s it')
             else Some (Inr it))
      else Some (Inr it))"

definition SeekForPrev :: "('k \<Rightarrow> 'k \<Rightarrow> int) \<Rightarrow> 'k \<Rightarrow> 'k skiplist \<Rightarrow> (fault + link) option" where
  "SeekForPrev cmp target s =
     bindL (Seek cmp target s) (\<lambda>it.
     bindL (if Valid it then Some (Inr it) else SeekToLast s) (\<lambda>it'.
     retreat cmp target s it'))"

text \<open>The comparator of \<^verbatim>\<open>test_skiplist.cc\<close>: a difference of two \<open>int\<close>s, wrapped to 32 bits.\<close>

definition int_compare :: "int \<Rightarrow> int \<Rightarrow> int" where
  "int_compare a b = (a - b + 2 ^ 31) mod 2 ^ 32 - 2 ^ 31"

end
