(* ===== verification/Skiplist_Search.thy ===== *)
theory Skiplist_Search
  imports Skiplist
begin

text \<open>
  When the links of a skip list are sound, and that its searches then return, fault nowhere and
  answer what a search of the sorted list of nodes answers. The nodes \<open>ns\<close> are those of the lowest
  level, in order; \<open>Q i x\<close> says that node \<open>x\<close> is linked at level \<open>i\<close>. Between two insertions that is
  every level below the node's height; in the middle of one the new node is linked at some of its
  levels only, and the searches do not mind.
\<close>

subsection \<open>Chains of nodes\<close>

definition first :: "nat list \<Rightarrow> link" where
  "first l = (case l of [] \<Rightarrow> None | y # ys \<Rightarrow> Some y)"

lemma first_simps [simp]: "first [] = None" "first (y # ys) = Some y"
  by (simp_all add: first_def)

lemma first_append: "first (xs @ ys) = (if xs = [] then first ys else first xs)"
  by (cases xs) simp_all

lemma first_None [simp]: "first l = None \<longleftrightarrow> l = []"
  by (cases l) simp_all

primrec links :: "'k nodes \<Rightarrow> nat \<Rightarrow> nat list \<Rightarrow> bool" where
  "links st i [] = True"
| "links st i (x # l) = (Next (Some x) i st = Inr (first l) \<and> links st i l)"

lemma links_mid: "links st i (l1 @ x # l2) \<Longrightarrow> Next (Some x) i st = Inr (first l2)"
  by (induction l1) simp_all

lemma links_cong: "\<forall>x \<in> set l. Next (Some x) i st' = Next (Some x) i st \<Longrightarrow> links st' i l = links st i l"
  by (induction l) simp_all

lemma links_insert:
  assumes "links st i (l1 @ y # l2)" "distinct (l1 @ y # l2)" "x \<notin> set (l1 @ y # l2)"
    and "Next (Some x) i st' = Inr (first l2)" "Next (Some y) i st' = Inr (Some x)"
    and "\<forall>z \<in> set (l1 @ l2). Next (Some z) i st' = Next (Some z) i st"
  shows "links st' i (l1 @ y # x # l2)"
  using assms
proof (induction l1)
  case Nil
  moreover from this have "links st' i l2 = links st i l2" by (intro links_cong) auto
  ultimately show ?case by simp
next
  case (Cons z l1)
  then show ?case by (auto simp: first_append)
qed

lemma next_unlinked:
  "filter P w = [] \<or> (\<exists>w1 y w2. w = w1 @ y # w2 \<and> filter P w1 = [] \<and> P y \<and> filter P w = y # filter P w2)"
proof (cases "filter P w")
  case (Cons y ys)
  then obtain w1 w2 where "w = w1 @ y # w2" "\<forall>u\<in>set w1. \<not> P u" "P y" "ys = filter P w2"
    by (auto dest: filter_eq_ConsD)
  with Cons show ?thesis by (auto simp: filter_empty_conv)
qed simp

subsection \<open>Keys in order\<close>

definition keyr :: "'k nodes \<Rightarrow> nat \<Rightarrow> 'k" where
  "keyr st x = key (the (st x))"

lemma key_at_keyr: "st x = Some nd \<Longrightarrow> key_at (Some x) st = Inr (keyr st x)"
  by (simp add: key_at_def node_at_def keyr_def)

lemma KeyIsAfterNode_keyr [simp]:
  "st x = Some nd \<Longrightarrow> KeyIsAfterNode cmp k (Some x) st = Inr (cmp (keyr st x) k < 0)"
  by (simp add: KeyIsAfterNode_def key_at_keyr)

lemma KeyIsAfterNode_None [simp]: "KeyIsAfterNode cmp k None st = Inr False"
  by (simp add: KeyIsAfterNode_def)

text \<open>What a comparator has to do for keys of \<open>K\<close>: its sign is that of a linear preorder.\<close>

locale key_order =
  fixes cmp :: "'k \<Rightarrow> 'k \<Rightarrow> int" and K :: "'k set"
  assumes cmp_flip: "a \<in> K \<Longrightarrow> b \<in> K \<Longrightarrow> cmp a b < 0 \<longleftrightarrow> 0 < cmp b a"
    and cmp_trans: "a \<in> K \<Longrightarrow> b \<in> K \<Longrightarrow> c \<in> K \<Longrightarrow> cmp a b \<le> 0 \<Longrightarrow> cmp b c \<le> 0 \<Longrightarrow> cmp a c \<le> 0"
begin

lemma cmp_refl: "a \<in> K \<Longrightarrow> cmp a a = 0"
  using cmp_flip [of a a] by linarith

lemma cmp_le_less: "a \<in> K \<Longrightarrow> b \<in> K \<Longrightarrow> c \<in> K \<Longrightarrow> cmp a b \<le> 0 \<Longrightarrow> cmp b c < 0 \<Longrightarrow> cmp a c < 0"
  using cmp_flip [of b c] cmp_flip [of a c] cmp_flip [of c a] cmp_flip [of c b] cmp_trans [of c a b] by linarith

lemma cmp_less_le: "a \<in> K \<Longrightarrow> b \<in> K \<Longrightarrow> c \<in> K \<Longrightarrow> cmp a b < 0 \<Longrightarrow> cmp b c \<le> 0 \<Longrightarrow> cmp a c < 0"
  using cmp_flip [of a b] cmp_flip [of a c] cmp_flip [of b a] cmp_flip [of c a] cmp_trans [of b c a] by linarith

end

text \<open>\<open>a - b\<close> is one as long as it does not overflow.\<close>

definition half_ints :: "int set" where
  "half_ints = {- (2 ^ 30) ..< 2 ^ 30}"

lemma int_compare_half: "a \<in> half_ints \<Longrightarrow> b \<in> half_ints \<Longrightarrow> int_compare a b = a - b"
  by (simp add: half_ints_def int_compare_def)

interpretation ints: key_order int_compare half_ints
  by unfold_locales (simp_all add: int_compare_half)

subsection \<open>Sound links\<close>

definition all_below :: "('k \<Rightarrow> 'k \<Rightarrow> int) \<Rightarrow> 'k nodes \<Rightarrow> nat list \<Rightarrow> 'k \<Rightarrow> bool" where
  "all_below cmp st l k \<longleftrightarrow> (\<forall>x \<in> set l. cmp (keyr st x) k < 0)"

definition none_below :: "('k \<Rightarrow> 'k \<Rightarrow> int) \<Rightarrow> 'k nodes \<Rightarrow> nat list \<Rightarrow> 'k \<Rightarrow> bool" where
  "none_below cmp st l k \<longleftrightarrow> (\<forall>x \<in> set l. 0 \<le> cmp (keyr st x) k)"

definition links_ok ::
    "('k \<Rightarrow> 'k \<Rightarrow> int) \<Rightarrow> 'k set \<Rightarrow> 'k skiplist \<Rightarrow> nat list \<Rightarrow> (nat \<Rightarrow> nat \<Rightarrow> bool) \<Rightarrow> bool" where
  "links_ok cmp K s ns Q \<longleftrightarrow>
     distinct (head s # ns) \<and> 1 \<le> max_height s \<and>
     (\<forall>x \<in> set ns. nodes s x \<noteq> None \<and> keyr (nodes s) x \<in> K \<and> Q 0 x) \<and>
     sorted_wrt (\<lambda>x y. cmp (keyr (nodes s) x) (keyr (nodes s) y) < 0) ns \<and>
     (\<forall>i < max_height s. Q i (head s)) \<and> (\<forall>i x. Q (Suc i) x \<longrightarrow> Q i x) \<and>
     (\<forall>i < max_height s. links (nodes s) i (filter (Q i) (head s # ns)))"

lemma links_ok_keys:
  assumes "links_ok cmp K s ns Q" "x \<in> set ns"
  shows "\<exists>nd. nodes s x = Some nd" "keyr (nodes s) x \<in> K" "x \<noteq> head s"
    "key_at (Some x) (nodes s) = Inr (keyr (nodes s) x)"
    "KeyIsAfterNode cmp k (Some x) (nodes s) = Inr (cmp (keyr (nodes s) x) k < 0)"
  using assms by (auto simp: links_ok_def key_at_keyr)

text \<open>
  Where a search for \<open>k\<close> stands: at a node \<open>x\<close> that is linked at \<open>level\<close> and is the head or among
  the nodes \<open>as\<close> below \<open>k\<close>; \<open>v\<close> are the nodes of \<open>as\<close> behind it.
\<close>

definition stands_at :: "'k skiplist \<Rightarrow> (nat \<Rightarrow> nat \<Rightarrow> bool) \<Rightarrow> nat list \<Rightarrow> nat \<Rightarrow> nat \<Rightarrow> nat list \<Rightarrow> bool" where
  "stands_at s Q as level x v \<longleftrightarrow>
     (\<exists>u. head s # as = u @ x # v) \<and> Q level x \<and> level < max_height s"

lemma stands_at_start:
  "links_ok cmp K s ns Q \<Longrightarrow> stands_at s Q as (max_height s - 1) (head s) as"
  by (auto simp: stands_at_def links_ok_def)

lemma stands_at_down:
  "links_ok cmp K s ns Q \<Longrightarrow> stands_at s Q as level x v \<Longrightarrow> 0 < level \<Longrightarrow> stands_at s Q as (level - 1) x v"
  by (cases level) (auto simp: stands_at_def links_ok_def)

lemma stands_at_forward:
  assumes "stands_at s Q as level x (v1 @ y # v2)" "Q level y"
  shows "stands_at s Q as level y v2"
proof -
  from assms obtain u where "head s # as = u @ x # v1 @ y # v2" by (auto simp: stands_at_def)
  then have "head s # as = (u @ x # v1) @ y # v2" by simp
  with assms show ?thesis unfolding stands_at_def by blast
qed

lemma stands_at_cases: "stands_at s Q as level x v \<Longrightarrow> x = head s \<or> x \<in> set as"
  unfolding stands_at_def by (metis in_set_conv_decomp list.inject append_eq_Cons_conv set_ConsD)

lemma stands_at_next:
  assumes "links_ok cmp K s (as @ bs) Q" "stands_at s Q as level x v"
  shows "Next (Some x) level (nodes s) = Inr (first (filter (Q level) (v @ bs)))"
proof -
  from assms(2) obtain u where u: "head s # as = u @ x # v" "Q level x" "level < max_height s"
    by (auto simp: stands_at_def)
  have "head s # as @ bs = (u @ x # v) @ bs" using u(1) by simp
  moreover have "links (nodes s) level (filter (Q level) (head s # as @ bs))"
    using assms(1) u(3) unfolding links_ok_def by blast
  ultimately have "links (nodes s) level (filter (Q level) ((u @ x # v) @ bs))" by (simp only:)
  then have "links (nodes s) level (filter (Q level) u @ x # filter (Q level) (v @ bs))" using u(2) by simp
  then show ?thesis by (rule links_mid)
qed

text \<open>The predecessor at a level, once nothing of \<open>as\<close> is linked there behind \<open>x\<close>.\<close>

definition pred :: "'k skiplist \<Rightarrow> (nat \<Rightarrow> nat \<Rightarrow> bool) \<Rightarrow> nat list \<Rightarrow> nat \<Rightarrow> nat" where
  "pred s Q as i = last (filter (Q i) (head s # as))"

lemma stands_at_pred:
  assumes "stands_at s Q as level x v" "filter (Q level) v = []"
  shows "pred s Q as level = x"
proof -
  from assms(1) obtain u where "head s # as = u @ x # v" "Q level x" by (auto simp: stands_at_def)
  with assms(2) show ?thesis by (simp add: pred_def)
qed

lemma stands_at_step:
  assumes "links_ok cmp K s (as @ bs) Q" "stands_at s Q as level x v"
  obtains (stop) nxt where "filter (Q level) v = []" "Next (Some x) level (nodes s) = Inr nxt"
      "nxt = first (filter (Q level) bs)" "pred s Q as level = x"
  | (forward) y v' where "Next (Some x) level (nodes s) = Inr (Some y)" "y \<in> set as" "y \<in> set v"
      "stands_at s Q as level y v'" "length v' < length v"
      "\<exists>v1. v = v1 @ y # v' \<and> filter (Q level) v1 = [] \<and> Q level y"
proof (cases "filter (Q level) v")
  case Nil
  with stands_at_next [OF assms] stands_at_pred [OF assms(2)] show ?thesis by (auto intro: stop)
next
  case (Cons z zs)
  with next_unlinked [of "Q level" v] obtain v1 y v2 where
    v: "v = v1 @ y # v2" "filter (Q level) v = y # filter (Q level) v2" "Q level y" "filter (Q level) v1 = []" by auto
  have "Next (Some x) level (nodes s) = Inr (Some y)" using stands_at_next [OF assms] v by simp
  moreover have "y \<in> set as" using assms(2) v(1) by (auto simp: stands_at_def Cons_eq_append_conv)
  moreover have "stands_at s Q as level y v2" using stands_at_forward [OF assms(2) [unfolded v(1)] v(3)] .
  ultimately show ?thesis using v by (intro forward [of y v2]) auto
qed

lemma first_in: "nxt = first (filter P bs) \<Longrightarrow> nxt = Some y \<Longrightarrow> y \<in> set bs"
  by (cases "filter P bs") (auto dest: filter_eq_ConsD)

lemma stands_at_sorted:
  assumes "links_ok cmp K s (as @ bs) Q" "stands_at s Q as level x v" "Next (Some x) level (nodes s) = Inr nxt"
  shows "assert_sorted cmp (Some x) nxt s = Inr ()"
proof (cases "x = head s \<or> nxt = None")
  case False
  then obtain y where y: "nxt = Some y" by auto
  from assms(2) obtain u where u: "head s # as = u @ x # v" by (auto simp: stands_at_def)
  with False obtain u' where u': "as = u' @ x # v" by (cases u) auto
  have "Some y = first (filter (Q level) (v @ bs))" using stands_at_next [OF assms(1,2)] assms(3) y by simp
  then have yv: "y \<in> set (v @ bs)" using first_in [OF _ refl, of y "Q level" "v @ bs"] by auto
  have "sorted_wrt (\<lambda>x y. cmp (keyr (nodes s) x) (keyr (nodes s) y) < 0) (as @ bs)"
    using assms(1) unfolding links_ok_def by blast
  with yv have "cmp (keyr (nodes s) x) (keyr (nodes s) y) < 0"
    unfolding u' sorted_wrt_append by auto
  moreover have "x \<in> set (as @ bs)" "y \<in> set (as @ bs)" using yv u' by auto
  ultimately show ?thesis
    using y links_ok_keys [OF assms(1)] by (simp add: assert_sorted_def)
qed (auto simp: assert_sorted_def)

lemma stands_at_before:
  assumes "links_ok cmp K s (as @ bs) Q" "stands_at s Q as level x v" "all_below cmp (nodes s) as k"
  shows "assert_before cmp k (Some x) s = Inr ()"
  using stands_at_cases [OF assms(2)] links_ok_keys(5) [OF assms(1), of x k] assms(3)
  by (auto simp: assert_before_def all_below_def)

lemma none_below_next:
  assumes "links_ok cmp K s (as @ bs) Q" "none_below cmp (nodes s) bs k" "nxt = first (filter P bs)"
  shows "KeyIsAfterNode cmp k nxt (nodes s) = Inr False"
proof (cases nxt)
  case (Some y)
  then have "y \<in> set bs" using first_in [OF assms(3)] by simp
  with Some assms(2) links_ok_keys(5) [OF assms(1), of y k] show ?thesis by (simp add: none_below_def not_less)
qed simp

subsection \<open>The searches\<close>

text \<open>\<open>FindLessThan\<close> stores the predecessor of every level below the list's height.\<close>

definition preds_from :: "nat \<Rightarrow> 'k skiplist \<Rightarrow> (nat \<Rightarrow> nat \<Rightarrow> bool) \<Rightarrow> nat list \<Rightarrow> link list option \<Rightarrow> link list option \<Rightarrow> bool" where
  "preds_from l s Q as pv0 pv \<longleftrightarrow>
     (case pv0 of
        None \<Rightarrow> pv = None
      | Some ps0 \<Rightarrow> max_height s \<le> length ps0 \<and>
          (\<exists>ps. pv = Some ps \<and> length ps = length ps0 \<and>
            (\<forall>i < length ps0. ps ! i = (if l \<le> i \<and> i < max_height s then Some (pred s Q as i) else ps0 ! i))))"

lemma preds_from_store:
  assumes "preds_from (Suc level) s Q as pv0 pv" "level < max_height s" "pred s Q as level = x"
  shows "\<exists>pv'. (case pv of None \<Rightarrow> Inr None
      | Some ps \<Rightarrow> if level < length ps then Inr (Some (ps[level := Some x])) else Inl (BadIndex (int level))) = Inr pv' \<and>
    preds_from level s Q as pv0 pv'"
proof (cases pv0)
  case None
  with assms show ?thesis by (simp add: preds_from_def)
next
  case (Some ps0)
  with assms obtain ps where ps: "pv = Some ps" "length ps = length ps0" "max_height s \<le> length ps0"
    "\<forall>i < length ps0. ps ! i = (if Suc level \<le> i \<and> i < max_height s then Some (pred s Q as i) else ps0 ! i)"
    by (auto simp: preds_from_def)
  have "ps[level := Some x] ! i = (if level \<le> i \<and> i < max_height s then Some (pred s Q as i) else ps0 ! i)"
    if "i < length ps0" for i
    using ps(2,4) that assms(2,3) by (cases "i = level") auto
  with ps Some assms(2) show ?thesis by (simp add: preds_from_def)
qed

lemma find_less_than_total:
  assumes ok: "links_ok cmp K s (as @ bs) Q" and low: "all_below cmp (nodes s) as k" and high: "none_below cmp (nodes s) bs k"
    and room: "\<forall>ps. pv = Some ps \<longrightarrow> max_height s \<le> length ps"
  shows "\<exists>pv'. FindLessThan cmp k pv s = Some (Inr (Some (pred s Q as 0), pv')) \<and> preds_from 0 s Q as pv pv'"
proof -
  let ?I = "\<lambda>n (x, level, nope, pv'). \<exists>y v. x = Some y \<and> stands_at s Q as level y v \<and> n = length v + level \<and>
     (\<forall>z. nope = Some z \<longrightarrow> z \<in> set bs) \<and> preds_from (Suc level) s Q as pv pv'"
  let ?P = "\<lambda>(x, pv'). x = Some (pred s Q as 0) \<and> preds_from 0 s Q as pv pv'"
  have m: "1 \<le> max_height s" using ok by (simp add: links_ok_def)
  have "preds_from (Suc (max_height s - 1)) s Q as pv pv"
    using m room by (auto simp: preds_from_def split: option.split)
  then have start: "?I (length as + (max_height s - 1)) (Some (head s), max_height s - 1, None, pv)"
    using stands_at_start [OF ok, of as] by (auto intro!: exI [of _ as])
  have "\<exists>r. run_loop (less_than_turn cmp k s) (Some (head s), max_height s - 1, None, pv) = Some (Inr r) \<and> ?P r"
  proof (rule run_loop_total [where I = ?I, OF start])
    fix n st assume "?I n st"
    then obtain x level nope pv' v where st: "st = (Some x, level, nope, pv')" and at: "stands_at s Q as level x v"
      and n: "n = length v + level" and nope: "\<And>z. nope = Some z \<Longrightarrow> z \<in> set bs"
      and pv': "preds_from (Suc level) s Q as pv pv'" by auto
    note checks = stands_at_sorted [OF ok at] stands_at_before [OF ok at low]
    from ok at show "(\<exists>x' m. less_than_turn cmp k s st = Inr (Inl x') \<and> m < n \<and> ?I m x') \<or>
      (\<exists>r. less_than_turn cmp k s st = Inr (Inr r) \<and> ?P r)"
    proof (cases rule: stands_at_step)
      case (stop nxt)
      have "KeyIsAfterNode cmp k nxt (nodes s) = Inr False"
        using none_below_next [OF ok high stop(3)] by simp
      then have "(if nxt \<noteq> nope then KeyIsAfterNode cmp k nxt (nodes s) else Inr False) = Inr False" by simp
      moreover from preds_from_store [OF pv' _ stop(4)] at obtain pv2 where
        "(case pv' of None \<Rightarrow> Inr None | Some ps \<Rightarrow> if level < length ps then Inr (Some (ps[level := Some x]))
            else Inl (BadIndex (int level))) = Inr pv2" "preds_from level s Q as pv pv2" by (auto simp: stands_at_def)
      ultimately have turn: "less_than_turn cmp k s st =
          (if level = 0 then Inr (Inr (Some x, pv2)) else Inr (Inl (Some x, level - 1, nxt, pv2)))"
        and p2: "preds_from level s Q as pv pv2"
        using st checks(1) [OF stop(2)] checks(2) stop(2) by (simp_all add: less_than_turn_def)
      show ?thesis
      proof (cases "level = 0")
        case True
        with turn p2 stop(4) show ?thesis by simp
      next
        case False
        with turn p2 stands_at_down [OF ok at] first_in [OF stop(3)] n show ?thesis
          by (intro disjI1 exI [of _ "(Some x, level - 1, nxt, pv2)"] exI [of _ "length v + (level - 1)"]) auto
      qed
    next
      case (forward y v')
      have "Some y \<noteq> nope" using nope forward(2) ok by (auto simp: links_ok_def)
      moreover have "KeyIsAfterNode cmp k (Some y) (nodes s) = Inr True"
        using forward(2) low links_ok_keys(5) [OF ok, of y k] by (simp add: all_below_def)
      ultimately have "less_than_turn cmp k s st = Inr (Inl (Some y, level, nope, pv'))"
        using st checks(1) [OF forward(1)] checks(2) forward(1) by (simp add: less_than_turn_def)
      with forward(4,5) nope pv' n show ?thesis
        by (intro disjI1 exI [of _ "(Some y, level, nope, pv')"] exI [of _ "length v' + level"]) auto
    qed
  qed
  then show ?thesis by (auto simp: FindLessThan_def GetMaxHeight_def)
qed

text \<open>\<open>FindGreaterOrEqual\<close> answers the first node that is not below the key.\<close>

context key_order
begin

lemma equal_is_first:
  assumes ok: "links_ok cmp K s (as @ bs) Q" and high: "none_below cmp (nodes s) bs k" and k: "k \<in> K"
    and y: "y \<in> set bs" "cmp (keyr (nodes s) y) k = 0"
  shows "first bs = Some y"
proof (rule ccontr)
  assume n: "first bs \<noteq> Some y"
  from y obtain b0 bs' where bs: "bs = b0 # bs'" by (cases bs) auto
  with n y have "y \<in> set bs'" by auto
  moreover have "sorted_wrt (\<lambda>x y. cmp (keyr (nodes s) x) (keyr (nodes s) y) < 0) (as @ bs)"
    using ok unfolding links_ok_def by blast
  ultimately have "cmp (keyr (nodes s) b0) (keyr (nodes s) y) < 0" by (simp add: bs sorted_wrt_append)
  moreover have "keyr (nodes s) b0 \<in> K" "keyr (nodes s) y \<in> K" using links_ok_keys(2) [OF ok] bs y(1) by auto
  ultimately have "cmp (keyr (nodes s) b0) k < 0" using cmp_less_le k y(2) by (metis order_refl)
  with high bs show False by (simp add: none_below_def)
qed

lemma greater_or_equal_turn_step:
  assumes ok: "links_ok cmp K s (as @ bs) Q" and low: "all_below cmp (nodes s) as k" and high: "none_below cmp (nodes s) bs k"
    and k: "k \<in> K" and at: "stands_at s Q as level x v"
    and big: "\<And>z. big = Some z \<Longrightarrow> z \<in> set bs \<and> 0 < cmp (keyr (nodes s) z) k"
  shows "(\<exists>y level' big' v'. greater_or_equal_turn cmp k s (Some x, level, big) = Inr (Inl (Some y, level', big')) \<and>
      stands_at s Q as level' y v' \<and> length v' + level' < length v + level \<and>
      (\<forall>z. big' = Some z \<longrightarrow> z \<in> set bs \<and> 0 < cmp (keyr (nodes s) z) k)) \<or>
    greater_or_equal_turn cmp k s (Some x, level, big) = Inr (Inr (first bs))"
proof -
  note checks = stands_at_sorted [OF ok at] stands_at_before [OF ok at low]
  from ok at show ?thesis
  proof (cases rule: stands_at_step)
    case (stop nxt)
    define c where "c = (if nxt = None \<or> nxt = big then 1 else cmp (keyr (nodes s) (the nxt)) k)"
    have cv: "(if nxt = None \<or> nxt = big then Inr 1 else bindE (key_at nxt (nodes s)) (\<lambda>nk. Inr (cmp nk k))) = Inr c"
      using first_in [OF stop(3)] links_ok_keys(4) [OF ok] by (cases nxt) (auto simp: c_def)
    have pos: "0 \<le> c" "nxt = Some y \<Longrightarrow> c \<noteq> 0 \<Longrightarrow> 0 < cmp (keyr (nodes s) y) k"
      "c = 0 \<Longrightarrow> nxt = first bs" for y
    proof -
      have b: "0 \<le> cmp (keyr (nodes s) y) k" if "nxt = Some y" for y
        using first_in [OF stop(3) that] high by (simp add: none_below_def)
      then show "0 \<le> c" by (cases nxt) (auto simp: c_def)
      show "0 < cmp (keyr (nodes s) y) k" if "nxt = Some y" "c \<noteq> 0"
        using b [OF that(1)] that big [of y] by (auto simp: c_def split: if_splits)
      assume z: "c = 0"
      then obtain y where y: "nxt = Some y" "cmp (keyr (nodes s) y) k = 0" by (cases nxt) (auto simp: c_def split: if_splits)
      with equal_is_first [OF ok high k, of y] first_in [OF stop(3) y(1)] show "nxt = first bs" by simp
    qed
    have turn: "greater_or_equal_turn cmp k s (Some x, level, big) =
        (if c = 0 \<or> (c > 0 \<and> level = 0) then Inr (Inr nxt)
         else if c < 0 then Inr (Inl (nxt, level, big)) else Inr (Inl (Some x, level - 1, nxt)))"
      using checks(1) [OF stop(2)] checks(2) stop(2) cv by (simp add: greater_or_equal_turn_def)
    have l0: "nxt = first bs" if "level = 0"
      using stop(3) that ok by (simp add: links_ok_def filter_id_conv)
    show ?thesis
    proof (cases "c = 0 \<or> level = 0")
      case True
      with turn pos l0 show ?thesis by auto
    next
      case False
      with pos(1) have "c > 0" by simp
      with turn False have "greater_or_equal_turn cmp k s (Some x, level, big) = Inr (Inl (Some x, level - 1, nxt))" by simp
      moreover have "\<forall>z. nxt = Some z \<longrightarrow> z \<in> set bs \<and> 0 < cmp (keyr (nodes s) z) k"
        using first_in [OF stop(3)] pos(2) False by auto
      moreover have "stands_at s Q as (level - 1) x v" "length v + (level - 1) < length v + level"
        using False stands_at_down [OF ok at] by auto
      ultimately show ?thesis by blast
    qed
  next
    case (forward y v')
    have "y \<notin> set bs" using forward(2) ok by (auto simp: links_ok_def)
    then have "Some y \<noteq> big" using big by auto
    moreover have "cmp (keyr (nodes s) y) k < 0" using forward(2) low by (simp add: all_below_def)
    moreover have "key_at (Some y) (nodes s) = Inr (keyr (nodes s) y)" using forward(2) by (intro links_ok_keys(4) [OF ok]) simp
    ultimately have "greater_or_equal_turn cmp k s (Some x, level, big) = Inr (Inl (Some y, level, big))"
      using checks(1) [OF forward(1)] checks(2) forward(1) by (simp add: greater_or_equal_turn_def)
    moreover have "length v' + level < length v + level" using forward(5) by simp
    ultimately show ?thesis using forward(4) big by blast
  qed
qed

lemma find_greater_or_equal_total:
  assumes ok: "links_ok cmp K s (as @ bs) Q" and low: "all_below cmp (nodes s) as k" and high: "none_below cmp (nodes s) bs k"
    and k: "k \<in> K"
  shows "FindGreaterOrEqual cmp k s = Some (Inr (first bs))"
proof -
  let ?I = "\<lambda>n (x, level, big). \<exists>y v. x = Some y \<and> stands_at s Q as level y v \<and> n = length v + level \<and>
     (\<forall>z. big = Some z \<longrightarrow> z \<in> set bs \<and> 0 < cmp (keyr (nodes s) z) k)"
  have start: "?I (length as + (max_height s - 1)) (Some (head s), max_height s - 1, None)"
    using stands_at_start [OF ok, of as] by (auto intro!: exI [of _ as])
  have "\<exists>r. run_loop (greater_or_equal_turn cmp k s) (Some (head s), max_height s - 1, None) = Some (Inr r) \<and> r = first bs"
  proof (rule run_loop_total [where I = ?I, OF start])
    fix n st assume "?I n st"
    then obtain x level big v where st: "st = (Some x, level, big)" and at: "stands_at s Q as level x v"
      and n: "n = length v + level" and big: "\<And>z. big = Some z \<Longrightarrow> z \<in> set bs \<and> 0 < cmp (keyr (nodes s) z) k" by auto
    from greater_or_equal_turn_step [OF ok low high k at big]
    show "(\<exists>x' m. greater_or_equal_turn cmp k s st = Inr (Inl x') \<and> m < n \<and> ?I m x') \<or>
      (\<exists>r. greater_or_equal_turn cmp k s st = Inr (Inr r) \<and> r = first bs)" unfolding st n by fastforce
  qed
  then show ?thesis by (auto simp: FindGreaterOrEqual_def GetMaxHeight_def)
qed

end

lemma find_last_total:
  assumes ok: "links_ok cmp K s ns Q"
  shows "FindLast s = Some (Inr (Some (last (head s # ns))))"
proof -
  let ?I = "\<lambda>n (x, level). \<exists>y v. x = Some y \<and> stands_at s Q ns level y v \<and> n = length v + level"
  have ok': "links_ok cmp K s (ns @ []) Q" using ok by simp
  have start: "?I (length ns + (max_height s - 1)) (Some (head s), max_height s - 1)"
    using stands_at_start [OF ok, of ns] by (auto intro!: exI [of _ ns])
  have l0: "pred s Q ns 0 = last (head s # ns)"
    using ok by (simp add: links_ok_def pred_def filter_id_conv)
  have "\<exists>r. run_loop (last_turn s) (Some (head s), max_height s - 1) = Some (Inr r) \<and> r = Some (last (head s # ns))"
  proof (rule run_loop_total [where I = ?I, OF start])
    fix n st assume "?I n st"
    then obtain x level v where st: "st = (Some x, level)" and at: "stands_at s Q ns level x v"
      and n: "n = length v + level" by auto
    from ok' at show "(\<exists>x' m. last_turn s st = Inr (Inl x') \<and> m < n \<and> ?I m x') \<or>
      (\<exists>r. last_turn s st = Inr (Inr r) \<and> r = Some (last (head s # ns)))"
    proof (cases rule: stands_at_step)
      case (stop nxt)
      then have turn: "last_turn s st = (if level = 0 then Inr (Inr (Some x)) else Inr (Inl (Some x, level - 1)))"
        using st by (simp add: last_turn_def)
      show ?thesis
      proof (cases "level = 0")
        case True
        with turn stop(4) l0 show ?thesis by simp
      next
        case False
        with turn stands_at_down [OF ok at] n show ?thesis
          by (intro disjI1 exI [of _ "(Some x, level - 1)"] exI [of _ "length v + (level - 1)"]) auto
      qed
    next
      case (forward y v')
      then show ?thesis using st n
        by (intro disjI1 exI [of _ "(Some y, level)"] exI [of _ "length v' + level"]) (auto simp: last_turn_def)
    qed
  qed
  then show ?thesis by (simp add: FindLast_def GetMaxHeight_def)
qed

text \<open>
  What \<open>EstimateCount\<close> counts: each step on a level weighs the branching factor to the power of
  the level.
\<close>

definition behind :: "(nat \<Rightarrow> bool) \<Rightarrow> nat list \<Rightarrow> nat list" where
  "behind P v = rev (takeWhile (\<lambda>x. \<not> P x) (rev v))"

primrec weighed :: "nat \<Rightarrow> (nat \<Rightarrow> nat \<Rightarrow> bool) \<Rightarrow> nat \<Rightarrow> nat list \<Rightarrow> nat" where
  "weighed b Q 0 v = length (filter (Q 0) v)"
| "weighed b Q (Suc l) v = length (filter (Q (Suc l)) v) * b ^ Suc l + weighed b Q l (behind (Q (Suc l)) v)"

lemma behind_none: "filter P v = [] \<Longrightarrow> behind P v = v"
  by (simp add: behind_def filter_empty_conv takeWhile_eq_all_conv [THEN iffD2])

lemma behind_step: "P y \<Longrightarrow> behind P (v1 @ y # v2) = behind P v2"
  by (auto simp: behind_def takeWhile_append takeWhile_eq_all_conv [THEN iffD2])

lemma weighed_step:
  "filter (Q level) v1 = [] \<Longrightarrow> Q level y \<Longrightarrow> weighed b Q level (v1 @ y # v2) = b ^ level + weighed b Q level v2"
  by (cases level) (simp_all add: behind_step algebra_simps)

lemma estimate_total:
  assumes ok: "links_ok cmp K s (as @ bs) Q" and low: "all_below cmp (nodes s) as k" and high: "none_below cmp (nodes s) bs k"
  shows "EstimateCount cmp k s = Some (Inr (of_nat (weighed (kBranching s) Q (max_height s - 1) as)))"
proof -
  let ?b = "kBranching s" and ?W = "of_nat (weighed (kBranching s) Q (max_height s - 1) as) :: 64 word"
  let ?I = "\<lambda>n (x, level, count :: 64 word). \<exists>y v. x = Some y \<and> stands_at s Q as level y v \<and> n = length v + level \<and>
     count * of_nat ?b ^ level + of_nat (weighed ?b Q level v) = ?W"
  have start: "?I (length as + (max_height s - 1)) (Some (head s), max_height s - 1, 0)"
    using stands_at_start [OF ok, of as] by (auto intro!: exI [of _ as])
  have "\<exists>r. run_loop (estimate_turn cmp k s) (Some (head s), max_height s - 1, 0) = Some (Inr r) \<and> r = ?W"
  proof (rule run_loop_total [where I = ?I, OF start])
    fix n st assume "?I n st"
    then obtain x level count v where st: "st = (Some x, level, count)" and at: "stands_at s Q as level x v"
      and n: "n = length v + level" and w: "count * of_nat ?b ^ level + of_nat (weighed ?b Q level v) = ?W" by auto
    have check: "(if Some x = Some (head s) then Inr ()
        else bindE (key_at (Some x) (nodes s)) (\<lambda>xk. assertE AssertFailed (cmp xk k < 0))) = Inr ()"
      using stands_at_cases [OF at] links_ok_keys(4) [OF ok, of x] low by (auto simp: all_below_def)
    from ok at show "(\<exists>x' m. estimate_turn cmp k s st = Inr (Inl x') \<and> m < n \<and> ?I m x') \<or>
      (\<exists>r. estimate_turn cmp k s st = Inr (Inr r) \<and> r = ?W)"
    proof (cases rule: stands_at_step)
      case (stop nxt)
      have "(if nxt = None then Inr True else bindE (key_at nxt (nodes s)) (\<lambda>nk. Inr (cmp nk k \<ge> 0))) = Inr True"
        using first_in [OF stop(3)] links_ok_keys(4) [OF ok] high by (cases nxt) (auto simp: none_below_def)
      then have turn: "estimate_turn cmp k s st =
          (if level = 0 then Inr (Inr count) else Inr (Inl (Some x, level - 1, count * of_nat ?b)))"
        using st check stop(2) by (simp add: estimate_turn_def)
      show ?thesis
      proof (cases level)
        case 0
        with turn w stop(1) show ?thesis by simp
      next
        case (Suc l)
        then have "count * of_nat ?b * of_nat ?b ^ l + of_nat (weighed ?b Q l v) = ?W"
          using w stop(1) by (simp add: behind_none mult.assoc)
        with turn stands_at_down [OF ok at] n Suc show ?thesis
          by (intro disjI1 exI [of _ "(Some x, level - 1, count * of_nat ?b)"] exI [of _ "length v + (level - 1)"]) auto
      qed
    next
      case (forward y v')
      then obtain v1 where v: "v = v1 @ y # v'" "filter (Q level) v1 = []" "Q level y" by blast
      have "key_at (Some y) (nodes s) = Inr (keyr (nodes s) y)" using forward(2) by (intro links_ok_keys(4) [OF ok]) simp
      moreover have "cmp (keyr (nodes s) y) k < 0" using forward(2) low by (simp add: all_below_def)
      ultimately have turn: "estimate_turn cmp k s st = Inr (Inl (Some y, level, count + 1))"
        using st check forward(1) by (simp add: estimate_turn_def)
      have "(count + 1) * of_nat ?b ^ level + of_nat (weighed ?b Q level v') = ?W"
        using w v(1) weighed_step [of Q level v1 y ?b v'] v(2,3) by (simp add: algebra_simps)
      with turn forward(4,5) n show ?thesis
        by (intro disjI1 exI [of _ "(Some y, level, count + 1)"] exI [of _ "length v' + level"]) auto
    qed
  qed
  then show ?thesis by (simp add: EstimateCount_def GetMaxHeight_def)
qed

end
