(* ===== verification/Skiplist_Insert.thy ===== *)
theory Skiplist_Insert
  imports Skiplist_Search
begin

text \<open>
  \<open>Insert\<close> and the constructor keep the invariant of the skip list, and the list of its nodes grows
  by the new one at its place in the order. The invariant also says what the array \<open>prev_\<close> holds
  between two insertions, on which the fast path for ascending keys relies.
\<close>

subsection \<open>Stores and what they keep\<close>

definition hgt :: "'k nodes \<Rightarrow> nat \<Rightarrow> nat" where
  "hgt st x = length (nexts (the (st x)))"

definition shape :: "'k nodes \<Rightarrow> nat \<Rightarrow> ('k \<times> nat) option" where
  "shape st x = map_option (\<lambda>nd. (key nd, length (nexts nd))) (st x)"

lemma shape_eqD:
  assumes "shape st' x = shape st x"
  shows "st' x = None \<longleftrightarrow> st x = None" "keyr st' x = keyr st x \<or> st x = None" "hgt st' x = hgt st x \<or> st x = None"
  using assms by (auto simp: shape_def keyr_def hgt_def map_option_case split: option.splits)

lemma SetNext_total:
  assumes "st y \<noteq> None" "n < hgt st y"
  shows "\<exists>st'. SetNext (Some y) n l st = Inr st' \<and> Next (Some y) n st' = Inr l \<and>
    (\<forall>x m. x \<noteq> y \<or> m \<noteq> n \<longrightarrow> Next (Some x) m st' = Next (Some x) m st) \<and> (\<forall>x. shape st' x = shape st x)"
  using assms by (auto simp: SetNext_def Next_def node_at_def hgt_def shape_def nth_list_update)

lemma Next_bound: "Next (Some y) n st = Inr l \<Longrightarrow> st y \<noteq> None \<and> n < hgt st y"
  by (auto simp: Next_def node_at_def hgt_def split: option.splits if_splits)

subsection \<open>The invariant\<close>

definition linked :: "'k nodes \<Rightarrow> nat \<Rightarrow> nat \<Rightarrow> bool" where
  "linked st i x \<longleftrightarrow> i < hgt st x"

definition prev_ok :: "'k skiplist \<Rightarrow> nat list \<Rightarrow> bool" where
  "prev_ok s ns \<longleftrightarrow> length (prev s) = kMaxHeight s \<and>
     (ns = [] \<and> prev s ! 0 = Some (head s) \<and> prev_height s = 1 \<and> max_height s = 1 \<or>
      (\<exists>a q b. ns = a @ q # b \<and> prev s ! 0 = Some q \<and> prev_height s = hgt (nodes s) q \<and>
        (\<forall>i. 1 \<le> i \<and> i < max_height s \<longrightarrow> prev s ! i = Some (pred s (linked (nodes s)) a i))))"

definition sl_ok :: "('k \<Rightarrow> 'k \<Rightarrow> int) \<Rightarrow> 'k set \<Rightarrow> 'k skiplist \<Rightarrow> nat list \<Rightarrow> bool" where
  "sl_ok cmp K s ns \<longleftrightarrow>
     distinct (head s # ns) \<and> 1 \<le> max_height s \<and> max_height s \<le> kMaxHeight s \<and>
     nodes s (head s) \<noteq> None \<and> hgt (nodes s) (head s) = kMaxHeight s \<and>
     (\<forall>x \<in> set ns. nodes s x \<noteq> None \<and> keyr (nodes s) x \<in> K \<and> 1 \<le> hgt (nodes s) x \<and> hgt (nodes s) x \<le> max_height s) \<and>
     sorted_wrt (\<lambda>x y. cmp (keyr (nodes s) x) (keyr (nodes s) y) < 0) ns \<and>
     (\<forall>l < kMaxHeight s. links (nodes s) l (filter (linked (nodes s) l) (head s # ns))) \<and>
     prev_ok s ns"

lemma sl_ok_links: "sl_ok cmp K s ns \<Longrightarrow> links_ok cmp K s ns (linked (nodes s))"
  by (auto simp: sl_ok_def links_ok_def linked_def)

lemma sl_ok_node: "sl_ok cmp K s ns \<Longrightarrow> x \<in> set (head s # ns) \<Longrightarrow> nodes s x \<noteq> None"
  unfolding sl_ok_def by auto

lemma sl_ok_fresh: "sl_ok cmp K s ns \<Longrightarrow> nodes s p = None \<Longrightarrow> p \<notin> set (head s # ns)"
  using sl_ok_node by blast

subsection \<open>Linking a new node level by level\<close>

text \<open>
  After \<open>i\<close> turns of the linking loop the new node \<open>p\<close> is linked at the levels below \<open>i\<close>, each time
  behind \<open>P l\<close>, and everything else is as it was in \<open>st0\<close>.
\<close>

definition linking :: "nat \<Rightarrow> (nat \<Rightarrow> nat) \<Rightarrow> nat \<Rightarrow> 'k \<Rightarrow> nat \<Rightarrow> 'k nodes \<Rightarrow> 'k nodes \<Rightarrow> bool" where
  "linking i P p k h st0 st \<longleftrightarrow>
     (\<forall>x. x \<noteq> p \<longrightarrow> shape st x = shape st0 x) \<and> shape st p = Some (k, h) \<and>
     (\<forall>x l. x \<noteq> p \<longrightarrow> Next (Some x) l st = (if l < i \<and> x = P l then Inr (Some p) else Next (Some x) l st0)) \<and>
     (\<forall>l < i. Next (Some p) l st = Next (Some (P l)) l st0)"

lemma linking_start:
  "st0 p = None \<Longrightarrow> linking 0 P p k h st0 (st0(p \<mapsto> \<lparr>key = k, nexts = replicate h Unset\<rparr>))"
  by (auto simp: linking_def shape_def Next_def node_at_def)

lemma linking_own:
  assumes lk: "linking i P p k h st0 st" and i: "i < h" and P: "P i \<noteq> p" and nx: "Next (Some (P i)) i st0 = Inr n"
    and pv: "i < length pv" "pv ! i = Some (P i)"
  shows "\<exists>st1. link_own i (Some p) pv st = Inr st1 \<and> linking i P p k h st0 st1 \<and> Next (Some p) i st1 = Inr n"
proof -
  have n: "Next (Some (P i)) i st = Inr n" using lk P nx by (simp add: linking_def)
  have sp: "st p \<noteq> None" "i < hgt st p" using lk i by (auto simp: linking_def shape_def hgt_def)
  from SetNext_total [OF sp, of n] obtain st1 where st1: "SetNext (Some p) i n st = Inr st1" "Next (Some p) i st1 = Inr n"
    "\<And>x m. x \<noteq> p \<or> m \<noteq> i \<Longrightarrow> Next (Some x) m st1 = Next (Some x) m st" "\<And>x. shape st1 x = shape st x" by blast
  have "linking i P p k h st0 st1" using lk st1 by (simp add: linking_def)
  with st1(1,2) n pv show ?thesis by (simp add: link_own_def prev_at_def NoBarrier_Next_def NoBarrier_SetNext_def)
qed

lemma linking_publish:
  assumes lk: "linking i P p k h st0 st1" and own: "Next (Some p) i st1 = Inr n" and P: "P i \<noteq> p"
    and nx: "Next (Some (P i)) i st0 = Inr n" and pv: "i < length pv" "pv ! i = Some (P i)"
  shows "\<exists>st2. link_publish i (Some p) pv st1 = Inr st2 \<and> linking (Suc i) P p k h st0 st2"
proof -
  have "Next (Some (P i)) i st1 = Inr n" using lk P nx by (simp add: linking_def)
  then have sq: "st1 (P i) \<noteq> None" "i < hgt st1 (P i)" by (auto dest: Next_bound)
  from SetNext_total [OF sq, of "Some p"] obtain st2 where st2: "SetNext (Some (P i)) i (Some p) st1 = Inr st2"
    "Next (Some (P i)) i st2 = Inr (Some p)"
    "\<And>x m. x \<noteq> P i \<or> m \<noteq> i \<Longrightarrow> Next (Some x) m st2 = Next (Some x) m st1" "\<And>x. shape st2 x = shape st1 x" by blast
  have "linking (Suc i) P p k h st0 st2"
    unfolding linking_def
  proof (intro conjI allI impI)
    fix x l assume x: "x \<noteq> p"
    with lk st2(2) st2(3) [of x l]
    show "Next (Some x) l st2 = (if l < Suc i \<and> x = P l then Inr (Some p) else Next (Some x) l st0)"
      by (cases "x = P i \<and> l = i") (auto simp: linking_def less_Suc_eq)
  next
    fix l assume l: "l < Suc i"
    have "Next (Some p) l st2 = Next (Some p) l st1" using st2(3) P by simp
    also have "\<dots> = Next (Some (P l)) l st0"
      using l own lk nx by (cases "l = i") (auto simp: linking_def)
    finally show "Next (Some p) l st2 = Next (Some (P l)) l st0" .
  qed (use lk st2(4) in \<open>simp_all add: linking_def\<close>)
  with st2(1) pv show ?thesis by (simp add: link_publish_def prev_at_def)
qed

text \<open>What the linking loop needs of the array \<open>prev_\<close>.\<close>

definition links_behind :: "(nat \<Rightarrow> nat) \<Rightarrow> nat \<Rightarrow> nat \<Rightarrow> link list \<Rightarrow> 'k nodes \<Rightarrow> bool" where
  "links_behind P p h pv st0 \<longleftrightarrow>
     (\<forall>l < h. P l \<noteq> p \<and> (\<exists>n. Next (Some (P l)) l st0 = Inr n) \<and> l < length pv \<and> pv ! l = Some (P l))"

lemma link_levels_total:
  assumes "linking i P p k h st0 st" "links_behind P p h pv st0" "i \<le> h"
  shows "\<exists>st'. link_levels i h (Some p) pv st = Inr st' \<and> linking h P p k h st0 st'"
  using assms
proof (induction i h "Some p" pv st rule: link_levels.induct)
  case (1 i h pv st)
  show ?case
  proof (cases "i < h")
    case True
    with 1(3) obtain n where n: "P i \<noteq> p" "Next (Some (P i)) i st0 = Inr n" "i < length pv" "pv ! i = Some (P i)"
      by (auto simp: links_behind_def)
    from linking_own [OF 1(2) True n] obtain st1 where st1: "link_own i (Some p) pv st = Inr st1"
      "linking i P p k h st0 st1" "Next (Some p) i st1 = Inr n" by blast
    from linking_publish [OF st1(2,3) n] obtain st2 where st2: "link_publish i (Some p) pv st1 = Inr st2"
      "linking (Suc i) P p k h st0 st2" by blast
    have "\<exists>st'. link_levels (Suc i) h (Some p) pv st2 = Inr st' \<and> linking h P p k h st0 st'"
      using True st1(1) st2 1(3) by (intro 1(1) [of st1 st2]) simp_all
    with True st1(1) st2(1) show ?thesis by (subst link_levels.simps) simp
  next
    case False
    with 1 show ?thesis by (subst link_levels.simps) simp
  qed
qed

text \<open>What is linked in the middle of an insertion, and that the chains are sound there.\<close>

definition mid_linked :: "nat \<Rightarrow> nat \<Rightarrow> 'k nodes \<Rightarrow> nat \<Rightarrow> nat \<Rightarrow> bool" where
  "mid_linked i p st0 l x \<longleftrightarrow> (if x = p then l < i else l < hgt st0 x)"

definition mid_nodes :: "nat \<Rightarrow> nat \<Rightarrow> nat list \<Rightarrow> nat list \<Rightarrow> nat list" where
  "mid_nodes i p as bs = (if i = 0 then as @ bs else as @ p # bs)"

lemma linking_links:
  assumes ok: "sl_ok cmp K s (as @ bs)" and new: "nodes s p = None" and lk: "linking i P p k h (nodes s) st"
    and P: "\<forall>l < kMaxHeight s. P l = pred s (linked (nodes s)) as l" and l: "l < kMaxHeight s"
  shows "links st l (filter (mid_linked i p (nodes s) l) (head s # mid_nodes i p as bs))"
proof -
  let ?Q = "linked (nodes s) l"
  have np: "p \<notin> set (head s # as @ bs)" using sl_ok_fresh [OF ok new] by simp
  then have "\<forall>x \<in> set (head s # as @ bs). mid_linked i p (nodes s) l x = linked (nodes s) l x"
    by (auto simp: mid_linked_def linked_def)
  then have same: "filter (mid_linked i p (nodes s) l) (head s # as) = filter ?Q (head s # as)"
    "filter (mid_linked i p (nodes s) l) bs = filter ?Q bs"
    by (auto intro!: filter_cong)
  have old: "links (nodes s) l (filter ?Q (head s # as) @ filter ?Q bs)"
    using ok l unfolding sl_ok_def by (metis append_Cons filter_append)
  have "filter ?Q (head s # as) \<noteq> []" using ok l by (simp add: sl_ok_def linked_def)
  then obtain l1 where l1: "filter ?Q (head s # as) = l1 @ [P l]"
    using P l by (metis append_butlast_last_id pred_def)
  have sub: "set (l1 @ [P l] @ filter ?Q bs) \<subseteq> set (head s # as @ bs)"
    using arg_cong [OF l1, of set] by (auto split: if_splits)
  have dist: "distinct (l1 @ [P l] @ filter ?Q bs)"
  proof -
    have "distinct (filter ?Q ((head s # as) @ bs))"
      using ok unfolding sl_ok_def by (metis append_Cons distinct_filter)
    then show ?thesis by (simp only: filter_append l1) simp
  qed
  have keep: "Next (Some z) l st = (if l < i \<and> z = P l then Inr (Some p) else Next (Some z) l (nodes s))"
    if "z \<in> set (head s # as @ bs)" for z
  proof -
    from np that have "z \<noteq> p" by metis
    with lk show ?thesis by (simp add: linking_def)
  qed
  show ?thesis
  proof (cases "l < i")
    case True
    then have f: "filter (mid_linked i p (nodes s) l) (head s # mid_nodes i p as bs) = l1 @ P l # p # filter ?Q bs"
      using same l1 by (simp add: mid_nodes_def mid_linked_def split: if_splits)
    have "links st l (l1 @ P l # p # filter ?Q bs)"
    proof (rule links_insert)
      show "links (nodes s) l (l1 @ P l # filter ?Q bs)" using old l1 by simp
      then have "Next (Some (P l)) l (nodes s) = Inr (first (filter ?Q bs))" by (rule links_mid)
      then show "Next (Some p) l st = Inr (first (filter ?Q bs))" using lk True by (simp add: linking_def)
      show "Next (Some (P l)) l st = Inr (Some p)" using keep [of "P l"] sub True by auto
      show "\<forall>z \<in> set (l1 @ filter ?Q bs). Next (Some z) l st = Next (Some z) l (nodes s)"
      proof
        fix z assume z: "z \<in> set (l1 @ filter ?Q bs)"
        then have "z \<noteq> P l" using dist by auto
        with keep [of z] sub z show "Next (Some z) l st = Next (Some z) l (nodes s)" by auto
      qed
    qed (use dist sub np in auto)
    with f show ?thesis by simp
  next
    case False
    then have f: "filter (mid_linked i p (nodes s) l) (head s # mid_nodes i p as bs) = filter ?Q (head s # as) @ filter ?Q bs"
      using same by (auto simp: mid_nodes_def mid_linked_def split: if_splits)
    have "links st l (filter ?Q (head s # as) @ filter ?Q bs) = links (nodes s) l (filter ?Q (head s # as) @ filter ?Q bs)"
      using keep False by (intro links_cong) (auto split: if_splits)
    with f old show ?thesis by simp
  qed
qed

subsection \<open>The predecessors\<close>

definition preds_of :: "'k skiplist \<Rightarrow> nat list \<Rightarrow> link list \<Rightarrow> bool" where
  "preds_of s as pv \<longleftrightarrow> length pv = length (prev s) \<and>
     (\<forall>i < length pv. pv ! i = (if i < max_height s then Some (pred s (linked (nodes s)) as i) else prev s ! i))"

lemma preds_of_unique: "preds_of s as pv \<Longrightarrow> preds_of s as pv' \<Longrightarrow> pv = pv'"
  unfolding preds_of_def by (intro nth_equalityI) auto

lemma search_preds:
  assumes ok: "sl_ok cmp K s (as @ bs)" and low: "all_below cmp (nodes s) as k" and high: "none_below cmp (nodes s) bs k"
  shows "\<exists>x pv. FindLessThan cmp k (Some (prev s)) s = Some (Inr (x, Some pv)) \<and> preds_of s as pv"
proof -
  have len: "\<forall>ps. Some (prev s) = Some ps \<longrightarrow> max_height s \<le> length ps"
    using ok by (simp add: sl_ok_def prev_ok_def)
  from find_less_than_total [OF sl_ok_links [OF ok] low high len] obtain pv' where
    "FindLessThan cmp k (Some (prev s)) s = Some (Inr (Some (pred s (linked (nodes s)) as 0), pv'))"
    "preds_from 0 s (linked (nodes s)) as (Some (prev s)) pv'" by blast
  then show ?thesis by (auto simp: preds_from_def preds_of_def)
qed

lemma pred_lowest: "sl_ok cmp K s (as @ bs) \<Longrightarrow> pred s (linked (nodes s)) as 0 = last (head s # as)"
proof -
  assume "sl_ok cmp K s (as @ bs)"
  then have "\<forall>x \<in> set (head s # as). linked (nodes s) 0 x" by (auto simp: sl_ok_def linked_def Suc_le_eq)
  then have "filter (linked (nodes s) 0) (head s # as) = head s # as" by (simp add: filter_id_conv)
  then show ?thesis by (simp only: pred_def)
qed

lemma links_last: "links st i (l1 @ l2) \<Longrightarrow> l1 \<noteq> [] \<Longrightarrow> Next (Some (last l1)) i st = Inr (first l2)"
  by (cases l1 rule: rev_cases) (simp_all add: links_mid)

lemma pred_next:
  assumes ok: "sl_ok cmp K s (as @ bs)" and l: "l < kMaxHeight s"
  shows "Next (Some (pred s (linked (nodes s)) as l)) l (nodes s) = Inr (first (filter (linked (nodes s) l) bs))"
    "pred s (linked (nodes s)) as l \<in> set (head s # as)"
proof -
  let ?F = "filter (linked (nodes s) l) (head s # as)"
  have ne: "?F \<noteq> []" using ok l by (simp add: sl_ok_def linked_def)
  have "links (nodes s) l (?F @ filter (linked (nodes s) l) bs)"
    using ok l unfolding sl_ok_def by (metis append_Cons filter_append)
  from links_last [OF this ne]
  show "Next (Some (pred s (linked (nodes s)) as l)) l (nodes s) = Inr (first (filter (linked (nodes s) l) bs))"
    unfolding pred_def .
  show "pred s (linked (nodes s)) as l \<in> set (head s # as)"
    using last_in_set [OF ne] by (auto simp: pred_def split: if_splits)
qed

lemma first_lowest: "sl_ok cmp K s (as @ bs) \<Longrightarrow> filter (linked (nodes s) 0) bs = bs"
  by (auto simp: sl_ok_def linked_def filter_id_conv Suc_le_eq)

context key_order
begin

lemma split_at_key:
  assumes ok: "sl_ok cmp K s (as @ bs)" and low: "all_below cmp (nodes s) as k" and high: "none_below cmp (nodes s) bs k"
    and eq: "as @ bs = a @ q # b" and q: "cmp (keyr (nodes s) q) k < 0" and k: "k \<in> K"
    and b: "KeyIsAfterNode cmp k (first b) (nodes s) = Inr False"
  shows "as = a @ [q]"
proof -
  let ?B = "\<lambda>x. cmp (keyr (nodes s) x) k < 0"
  have w: "takeWhile ?B (as @ bs) = as"
    using low high by (cases bs) (auto simp: all_below_def none_below_def takeWhile_append)
  have "sorted_wrt (\<lambda>x y. cmp (keyr (nodes s) x) (keyr (nodes s) y) < 0) (a @ q # b)"
    using ok eq unfolding sl_ok_def by metis
  moreover have keys: "keyr (nodes s) x \<in> K" if "x \<in> set (a @ q # b)" for x
    using ok that unfolding sl_ok_def eq by auto
  ultimately have "\<forall>x \<in> set (a @ [q]). ?B x"
    using q k cmp_less_le [of _ "keyr (nodes s) q" k] by (fastforce simp: sorted_wrt_append)
  moreover have "takeWhile ?B b = []"
  proof (cases b)
    case (Cons y ys)
    then have "y \<in> set (as @ bs)" using eq by simp
    with Cons b links_ok_keys(5) [OF sl_ok_links [OF ok], of y k] show ?thesis by simp
  qed simp
  ultimately have "takeWhile ?B ((a @ [q]) @ b) = a @ [q]" by (subst takeWhile_append2) auto
  with w eq show ?thesis by simp
qed

lemma fast_path_total:
  assumes ok: "sl_ok cmp K s (as @ bs)" and low: "all_below cmp (nodes s) as k" and high: "none_below cmp (nodes s) bs k"
    and k: "k \<in> K"
  shows "\<exists>f. fast_path cmp k s = Inr f \<and> (f \<longrightarrow> (\<exists>pv. sequential_prev s = Inr pv \<and> preds_of s as pv))"
proof -
  have len: "length (prev s) = kMaxHeight s" "1 \<le> max_height s" "max_height s \<le> kMaxHeight s"
    using ok by (simp_all add: sl_ok_def prev_ok_def)
  then have at0: "prev_at 0 (prev s) = Inr (prev s ! 0)" by (simp add: prev_at_def)
  from ok have "prev_ok s (as @ bs)" by (simp add: sl_ok_def)
  then consider (empty) "as = []" "bs = []" "prev s ! 0 = Some (head s)" "prev_height s = 1" "max_height s = 1"
    | (last) a q b where "as @ bs = a @ q # b" "prev s ! 0 = Some q" "prev_height s = hgt (nodes s) q"
        "\<forall>i. 1 \<le> i \<and> i < max_height s \<longrightarrow> prev s ! i = Some (pred s (linked (nodes s)) a i)"
    by (auto simp: prev_ok_def)
  then show ?thesis
  proof cases
    case empty
    have p: "pred s (linked (nodes s)) [] 0 = head s" using pred_lowest [of cmp K s "[]" "[]"] ok empty by simp
    have "Next (Some (head s)) 0 (nodes s) = Inr None"
      using pred_next(1) [of cmp K s "[]" "[]" 0] ok empty p len by simp
    then have "fast_path cmp k s = Inr True"
      using at0 empty by (simp add: fast_path_def NoBarrier_Next_def)
    moreover have "sequential_prev s = Inr (prev s)"
      using at0 empty by (simp add: sequential_prev_def GetMaxHeight_def fill.simps)
    moreover have "preds_of s as (prev s)" using empty p by (simp add: preds_of_def)
    ultimately show ?thesis by blast
  next
    case last
    have okq: "sl_ok cmp K s ((a @ [q]) @ b)" using ok last(1) by simp
    have q: "q \<in> set (as @ bs)" "q \<noteq> head s" using last(1) okq by (auto simp: sl_ok_def)
    have "Next (Some q) 0 (nodes s) = Inr (first b)"
      using pred_next(1) [OF okq, of 0] pred_lowest [OF okq] first_lowest [OF okq] len by simp
    moreover obtain beyond where bey: "KeyIsAfterNode cmp k (first b) (nodes s) = Inr beyond"
    proof (cases b)
      case (Cons y ys)
      then have "y \<in> set (as @ bs)" using last(1) by simp
      with Cons that links_ok_keys(5) [OF sl_ok_links [OF ok], of y k] show ?thesis by simp
    qed (use that [of False] in simp)
    moreover have kq: "KeyIsAfterNode cmp k (Some q) (nodes s) = Inr (cmp (keyr (nodes s) q) k < 0)"
      by (rule links_ok_keys(5) [OF sl_ok_links [OF ok] q(1)])
    ultimately have f: "fast_path cmp k s = Inr (\<not> beyond \<and> cmp (keyr (nodes s) q) k < 0)"
      using at0 last(2) q(2) by (simp add: fast_path_def NoBarrier_Next_def)
    have "\<exists>pv. sequential_prev s = Inr pv \<and> preds_of s as pv" if t: "\<not> beyond \<and> cmp (keyr (nodes s) q) k < 0"
    proof -
      have as: "as = a @ [q]" using split_at_key [OF ok low high last(1) _ k] t bey by simp
      have hq: "1 \<le> hgt (nodes s) q" "hgt (nodes s) q \<le> max_height s" using okq by (simp_all add: sl_ok_def)
      with len have "prev_height s \<le> length (prev s)" using last(3) by simp
      from fill_ok [OF this, of 1 "Some q"] obtain pv where pv: "fill 1 (prev_height s) (Some q) (prev s) = Inr pv"
        "length pv = length (prev s)"
        "\<And>i. i < length (prev s) \<Longrightarrow> pv ! i = (if 1 \<le> i \<and> i < prev_height s then Some q else prev s ! i)" by blast
      have "pred s (linked (nodes s)) as i = (if i < hgt (nodes s) q then q else pred s (linked (nodes s)) a i)" for i
        by (simp add: as pred_def linked_def)
      then have "preds_of s as pv"
        using pv(2,3) last(2,3,4) hq by (auto simp: preds_of_def Suc_le_eq)
      with pv(1) at0 last(2) q(2) show ?thesis by (auto simp: sequential_prev_def)
    qed
    with f show ?thesis by blast
  qed
qed

end

text \<open>\<open>Insert\<close> without its fast path: always a search.\<close>

definition Insert_by_search :: "('k \<Rightarrow> 'k \<Rightarrow> int) \<Rightarrow> (nat \<Rightarrow> 32 word) \<Rightarrow> link \<Rightarrow> 'k \<Rightarrow> 'k skiplist \<Rightarrow> (fault + 'k skiplist) option" where
  "Insert_by_search cmp draws p k s =
     bindL (FindLessThan cmp k (Some (prev s)) s) (\<lambda>(x, pv). Some (insert_after cmp draws p k (the pv) s))"

context key_order
begin

lemma insert_preds:
  assumes "sl_ok cmp K s (as @ bs)" "all_below cmp (nodes s) as k" "none_below cmp (nodes s) bs k" "k \<in> K"
  shows "\<exists>pv. preds_of s as pv \<and> find_prev cmp k s = Some (Inr pv) \<and> Insert cmp draws p k s = Some (insert_after cmp draws p k pv s) \<and>
    Insert_by_search cmp draws p k s = Some (insert_after cmp draws p k pv s)"
proof -
  from search_preds [OF assms(1-3)] obtain x pv where s: "FindLessThan cmp k (Some (prev s)) s = Some (Inr (x, Some pv))"
    "preds_of s as pv" by blast
  from fast_path_total [OF assms] obtain f where f: "fast_path cmp k s = Inr f"
    "f \<longrightarrow> (\<exists>pv. sequential_prev s = Inr pv \<and> preds_of s as pv)" by blast
  have "find_prev cmp k s = Some (Inr pv)"
  proof (cases f)
    case True
    with f(2) preds_of_unique [OF s(2)] have "sequential_prev s = Inr pv" by blast
    with True f(1) show ?thesis by (simp add: find_prev_def)
  next
    case False
    with f(1) s(1) show ?thesis by (simp add: find_prev_def)
  qed
  with s show ?thesis by (auto simp: Insert_by_search_def Insert_def)
qed

end

subsection \<open>Insertion keeps the invariant\<close>

lemma grow_height_bounds: "h \<le> km \<Longrightarrow> h \<le> grow_height draws km sc h \<and> grow_height draws km sc h \<le> km"
proof (induction draws km sc h rule: grow_height.induct)
  case (1 draws km sc h)
  then show ?case by (subst (1 2) grow_height.simps) (auto dest: Suc_leD)
qed

lemma RandomHeight_total:
  assumes "1 \<le> kMaxHeight s"
  shows "\<exists>h. RandomHeight draws s = Inr h \<and> 1 \<le> h \<and> h \<le> kMaxHeight s"
  using grow_height_bounds [OF assms, of draws "kScaledInverseBranching s"] by (simp add: RandomHeight_def Let_def)

lemma raise_prev:
  assumes ok: "sl_ok cmp K s (as @ bs)" and pv: "preds_of s as pv" and h: "h \<le> kMaxHeight s"
  shows "\<exists>pv1. (if h > GetMaxHeight s then fill (GetMaxHeight s) h (Some (head s)) pv else Inr pv) = Inr pv1 \<and>
    length pv1 = kMaxHeight s \<and>
    (\<forall>l. l < max (max_height s) h \<longrightarrow> pv1 ! l = Some (pred s (linked (nodes s)) as l))"
proof -
  have len: "length pv = kMaxHeight s" "max_height s \<le> kMaxHeight s"
    using ok pv by (simp_all add: preds_of_def sl_ok_def prev_ok_def)
  have low: "pv ! l = Some (pred s (linked (nodes s)) as l)" if "l < max_height s" for l
    using pv len that by (simp add: preds_of_def)
  have high: "pred s (linked (nodes s)) as l = head s" if "max_height s \<le> l" "l < kMaxHeight s" for l
  proof -
    have "\<forall>x \<in> set as. hgt (nodes s) x \<le> max_height s" using ok unfolding sl_ok_def by auto
    with that(1) have "filter (linked (nodes s) l) as = []" by (fastforce simp: linked_def filter_empty_conv)
    moreover have "linked (nodes s) l (head s)" using ok that(2) by (simp add: linked_def sl_ok_def)
    ultimately show ?thesis by (simp add: pred_def)
  qed
  show ?thesis
  proof (cases "h > max_height s")
    case True
    from fill_ok [of h pv "max_height s" "Some (head s)"] h len obtain ys where
      "fill (max_height s) h (Some (head s)) pv = Inr ys" "length ys = kMaxHeight s"
      "\<And>k. k < length pv \<Longrightarrow> ys ! k = (if max_height s \<le> k \<and> k < h then Some (head s) else pv ! k)" by auto
    with True low high len h show ?thesis by (auto simp: GetMaxHeight_def)
  next
    case False
    with low len show ?thesis by (simp add: GetMaxHeight_def)
  qed
qed

text \<open>The state after \<open>i\<close> turns of the linking loop: sound links, whatever \<open>i\<close> is.\<close>

definition mid_state :: "'k skiplist \<Rightarrow> nat \<Rightarrow> 'k nodes \<Rightarrow> 'k skiplist" where
  "mid_state s h st = s\<lparr>max_height := max (max_height s) h, nodes := st\<rparr>"

context key_order
begin

lemma no_duplicate:
  assumes ok: "sl_ok cmp K s (as @ bs)" and pv: "preds_of s as pv" and k: "k \<in> K"
    and above: "\<forall>x \<in> set bs. 0 < cmp (keyr (nodes s) x) k"
  shows "assert_no_duplicate cmp k pv s = Inr ()"
proof -
  have len: "0 < length pv" "0 < max_height s" "0 < kMaxHeight s"
    using ok pv by (auto simp: preds_of_def sl_ok_def prev_ok_def)
  then have p0: "prev_at 0 pv = Inr (Some (pred s (linked (nodes s)) as 0))" using pv by (auto simp: prev_at_def preds_of_def)
  have "Next (Some (pred s (linked (nodes s)) as 0)) 0 (nodes s) = Inr (first bs)"
    using pred_next(1) [OF ok len(3)] first_lowest [OF ok] by simp
  moreover have "bindE (key_at (first bs) (nodes s)) (\<lambda>nk. assertE AssertFailed (\<not> Equal cmp k nk)) = Inr ()" if "bs = y # ys" for y ys
  proof -
    have "y \<in> set (as @ bs)" using that by simp
    from links_ok_keys(2,4) [OF sl_ok_links [OF ok] this] above that cmp_flip [OF k, of "keyr (nodes s) y"]
    show ?thesis by (simp add: Equal_def)
  qed
  ultimately show ?thesis using p0 by (cases bs) (simp_all add: assert_no_duplicate_def)
qed

lemma linking_sorted:
  assumes ok: "sl_ok cmp K s (as @ bs)" and new: "nodes s p = None" and low: "all_below cmp (nodes s) as k"
    and above: "\<forall>x \<in> set bs. 0 < cmp (keyr (nodes s) x) k" and k: "k \<in> K"
    and lk: "linking i P p k h (nodes s) st"
  shows "sorted_wrt (\<lambda>x y. cmp (keyr st x) (keyr st y) < 0) (as @ p # bs)"
    "\<forall>x \<in> set (as @ bs). keyr st x = keyr (nodes s) x \<and> hgt st x = hgt (nodes s) x \<and> st x \<noteq> None"
    "keyr st p = k" "hgt st p = h" "st p \<noteq> None" "keyr st p \<in> K"
    "hgt st (head s) = hgt (nodes s) (head s)" "st (head s) \<noteq> None"
proof -
  have np: "p \<notin> set (head s # as @ bs)" by (rule sl_ok_fresh [OF ok new])
  have sh: "shape st x = shape (nodes s) x" "nodes s x \<noteq> None" if "x \<in> set (head s # as @ bs)" for x
    using that np lk sl_ok_node [OF ok that] by (metis linking_def)+
  show same: "\<forall>x \<in> set (as @ bs). keyr st x = keyr (nodes s) x \<and> hgt st x = hgt (nodes s) x \<and> st x \<noteq> None"
  proof
    fix x assume "x \<in> set (as @ bs)"
    with sh [of x] shape_eqD [of st x "nodes s"]
    show "keyr st x = keyr (nodes s) x \<and> hgt st x = hgt (nodes s) x \<and> st x \<noteq> None" by auto
  qed
  show "hgt st (head s) = hgt (nodes s) (head s)" "st (head s) \<noteq> None"
    using sh [of "head s"] shape_eqD [of st "head s" "nodes s"] by auto
  have "shape st p = Some (k, h)" using lk by (simp add: linking_def)
  then show p: "keyr st p = k" "hgt st p = h" "st p \<noteq> None" by (auto simp: shape_def keyr_def hgt_def)
  then show "keyr st p \<in> K" using k by simp
  have "sorted_wrt (\<lambda>x y. cmp (keyr (nodes s) x) (keyr (nodes s) y) < 0) (as @ bs)" using ok by (simp add: sl_ok_def)
  then have "sorted_wrt (\<lambda>x y. cmp (keyr st x) (keyr st y) < 0) (as @ bs)"
    using same by (elim sorted_wrt_mono_rel [rotated]) auto
  moreover have "\<forall>x \<in> set as. cmp (keyr st x) (keyr st p) < 0" using low same p by (auto simp: all_below_def)
  moreover have "\<forall>y \<in> set bs. cmp (keyr st p) (keyr st y) < 0"
  proof
    fix y assume y: "y \<in> set bs"
    then have "keyr (nodes s) y \<in> K" using ok by (simp add: sl_ok_def)
    with y above same p k cmp_flip [of k "keyr (nodes s) y"] show "cmp (keyr st p) (keyr st y) < 0" by simp
  qed
  ultimately show "sorted_wrt (\<lambda>x y. cmp (keyr st x) (keyr st y) < 0) (as @ p # bs)" by (simp add: sorted_wrt_append)
qed

lemma linking_links_ok:
  assumes ok: "sl_ok cmp K s (as @ bs)" and new: "nodes s p = None" and low: "all_below cmp (nodes s) as k"
    and above: "\<forall>x \<in> set bs. 0 < cmp (keyr (nodes s) x) k" and k: "k \<in> K"
    and lk: "linking i P p k h (nodes s) st" and h: "i \<le> h" "h \<le> kMaxHeight s"
    and P: "\<forall>l < kMaxHeight s. P l = pred s (linked (nodes s)) as l"
  shows "links_ok cmp K (mid_state s h st) (mid_nodes i p as bs) (mid_linked i p (nodes s))"
proof -
  note so = linking_sorted [OF ok new low above k lk]
  have np: "p \<notin> set (head s # as @ bs)" by (rule sl_ok_fresh [OF ok new])
  have sub: "sorted_wrt (\<lambda>x y. cmp (keyr st x) (keyr st y) < 0) (mid_nodes i p as bs)"
    using so(1) by (simp add: mid_nodes_def sorted_wrt_append)
  have "distinct (head s # mid_nodes i p as bs)" using ok np by (auto simp: sl_ok_def mid_nodes_def)
  moreover have "\<forall>x \<in> set (mid_nodes i p as bs). st x \<noteq> None \<and> keyr st x \<in> K \<and> mid_linked i p (nodes s) 0 x"
  proof
    fix x assume "x \<in> set (mid_nodes i p as bs)"
    then consider "x \<in> set (as @ bs)" | "x = p" "0 < i" by (auto simp: mid_nodes_def split: if_splits)
    then show "st x \<noteq> None \<and> keyr st x \<in> K \<and> mid_linked i p (nodes s) 0 x"
    proof cases
      case 1
      moreover have "keyr (nodes s) x \<in> K" "1 \<le> hgt (nodes s) x" using 1 ok unfolding sl_ok_def by blast+
      moreover have "x \<noteq> p" using 1 np by auto
      ultimately show ?thesis using so(2) by (simp add: mid_linked_def)
    qed (use so in \<open>simp_all add: mid_linked_def\<close>)
  qed
  moreover have "\<forall>l < kMaxHeight s. mid_linked i p (nodes s) l (head s)"
    using ok np by (simp add: mid_linked_def sl_ok_def)
  moreover have "\<forall>l < kMaxHeight s. links st l (filter (mid_linked i p (nodes s) l) (head s # mid_nodes i p as bs))"
    using linking_links [OF ok new lk P] by blast
  moreover have "max (max_height s) h \<le> kMaxHeight s" "1 \<le> max (max_height s) h" using ok h by (auto simp: sl_ok_def)
  ultimately show ?thesis
    using sub by (auto simp: links_ok_def mid_state_def mid_linked_def)
qed

text \<open>The state once the node is made, and once it is linked at every level.\<close>

lemma prepare_total:
  assumes ok: "sl_ok cmp K s (as @ bs)" and new: "nodes s p = None" and low: "all_below cmp (nodes s) as k"
    and above: "\<forall>x \<in> set bs. 0 < cmp (keyr (nodes s) x) k" and k: "k \<in> K" and pv: "preds_of s as pv"
  shows "\<exists>h pv1 st1. prepare_insert cmp draws (Some p) k pv s = Inr (h, (mid_state s h st1)\<lparr>prev := pv1\<rparr>) \<and>
    1 \<le> h \<and> h \<le> kMaxHeight s \<and> linking 0 (pred s (linked (nodes s)) as) p k h (nodes s) st1 \<and>
    links_behind (pred s (linked (nodes s)) as) p h pv1 (nodes s) \<and> length pv1 = kMaxHeight s \<and>
    (\<forall>l < max (max_height s) h. pv1 ! l = Some (pred s (linked (nodes s)) as l))"
proof -
  let ?P = "pred s (linked (nodes s)) as"
  have np: "p \<notin> set (head s # as @ bs)" by (rule sl_ok_fresh [OF ok new])
  have "1 \<le> kMaxHeight s" using ok by (simp add: sl_ok_def)
  from RandomHeight_total [OF this] obtain h where h: "RandomHeight draws s = Inr h" "1 \<le> h" "h \<le> kMaxHeight s" by blast
  from raise_prev [OF ok pv h(3)] obtain pv1 where
    pv1: "(if h > GetMaxHeight s then fill (GetMaxHeight s) h (Some (head s)) pv else Inr pv) = Inr pv1"
    "length pv1 = kMaxHeight s" "\<And>l. l < max (max_height s) h \<Longrightarrow> pv1 ! l = Some (?P l)" by blast
  let ?st1 = "(nodes s)(p \<mapsto> \<lparr>key = k, nexts = replicate h Unset\<rparr>)"
  have "prepare_insert cmp draws (Some p) k pv s = Inr (h, (mid_state s h ?st1)\<lparr>prev := pv1\<rparr>)"
    using no_duplicate [OF ok pv k above] h(1) pv1(1)
    by (simp add: prepare_insert_def NewNode_def mid_state_def GetMaxHeight_def max_def)
  moreover have "links_behind ?P p h pv1 (nodes s)"
    unfolding links_behind_def
  proof (intro allI impI)
    fix l assume l: "l < h"
    with h(3) have "l < kMaxHeight s" by simp
    from pred_next [OF ok this] np pv1(2) pv1(3) [of l] l h(3)
    show "?P l \<noteq> p \<and> (\<exists>n. Next (Some (?P l)) l (nodes s) = Inr n) \<and> l < length pv1 \<and> pv1 ! l = Some (?P l)" by auto
  qed
  ultimately show ?thesis using h(2,3) pv1(2,3) linking_start [where ?st0.0 = "nodes s", OF new] by blast
qed

lemma finish_ok:
  assumes ok: "sl_ok cmp K s (as @ bs)" and new: "nodes s p = None" and low: "all_below cmp (nodes s) as k"
    and above: "\<forall>x \<in> set bs. 0 < cmp (keyr (nodes s) x) k" and k: "k \<in> K"
    and lk: "linking h (pred s (linked (nodes s)) as) p k h (nodes s) st2" and h: "1 \<le> h" "h \<le> kMaxHeight s"
    and pv1: "length pv1 = kMaxHeight s" "\<forall>l < max (max_height s) h. pv1 ! l = Some (pred s (linked (nodes s)) as l)"
  shows "\<exists>s'. finish_insert (Some p) h ((mid_state s h st2)\<lparr>prev := pv1\<rparr>) = Inr s' \<and> sl_ok cmp K s' (as @ p # bs) \<and>
    nodes s' = st2 \<and> head s' = head s \<and> kBranching s' = kBranching s"
proof -
  let ?P = "pred s (linked (nodes s)) as"
  have np: "p \<notin> set (head s # as @ bs)" by (rule sl_ok_fresh [OF ok new])
  define s' where "s' = s\<lparr>max_height := max (max_height s) h, prev := pv1[0 := Some p], prev_height := h, nodes := st2\<rparr>"
  have run: "finish_insert (Some p) h ((mid_state s h st2)\<lparr>prev := pv1\<rparr>) = Inr s'"
    using pv1(1) h by (auto simp: finish_insert_def mid_state_def s'_def)
  note so = linking_sorted [OF ok new low above k lk]
  have mid: "links st2 l (filter (mid_linked h p (nodes s) l) (head s # as @ p # bs))" if "l < kMaxHeight s" for l
    using linking_links [OF ok new lk _ that] h(1) by (simp add: mid_nodes_def)
  have eqQ: "\<forall>x \<in> set (head s # as @ p # bs). mid_linked h p (nodes s) l x = linked st2 l x" for l
    using so(2,4,7) np by (auto simp: mid_linked_def linked_def)
  have chains: "\<forall>l < kMaxHeight s. links st2 l (filter (linked st2 l) (head s # as @ p # bs))"
    using mid filter_cong [OF refl, of "head s # as @ p # bs"] eqQ by metis
  have "pred s' (linked st2) as l = ?P l" for l
  proof -
    have "filter (linked st2 l) (head s # as) = filter (linked (nodes s) l) (head s # as)"
      using so(2,7) by (intro filter_cong refl) (auto simp: linked_def)
    then show ?thesis by (simp add: pred_def s'_def)
  qed
  then have "prev_ok s' (as @ p # bs)"
    using pv1 so(4) h by (auto simp: prev_ok_def s'_def)
  moreover have "\<forall>x \<in> set (as @ p # bs). st2 x \<noteq> None \<and> keyr st2 x \<in> K \<and> 1 \<le> hgt st2 x \<and> hgt st2 x \<le> max (max_height s) h"
  proof
    fix x assume "x \<in> set (as @ p # bs)"
    then consider "x \<in> set (as @ bs)" | "x = p" by auto
    then show "st2 x \<noteq> None \<and> keyr st2 x \<in> K \<and> 1 \<le> hgt st2 x \<and> hgt st2 x \<le> max (max_height s) h"
    proof cases
      case 1
      then have "keyr (nodes s) x \<in> K \<and> 1 \<le> hgt (nodes s) x \<and> hgt (nodes s) x \<le> max_height s"
        using ok unfolding sl_ok_def by blast
      with so(2) 1 show ?thesis by (simp add: le_max_iff_disj)
    qed (use so h(1) in simp)
  qed
  moreover have "distinct (head s # as @ p # bs)" using ok np by (auto simp: sl_ok_def)
  ultimately have "sl_ok cmp K s' (as @ p # bs)"
    using ok so(1,7,8) chains h(2) unfolding sl_ok_def by (simp add: s'_def)
  with run show ?thesis by (auto simp: s'_def)
qed

lemma insert_after_total:
  assumes ok: "sl_ok cmp K s (as @ bs)" and new: "nodes s p = None" and low: "all_below cmp (nodes s) as k"
    and above: "\<forall>x \<in> set bs. 0 < cmp (keyr (nodes s) x) k" and k: "k \<in> K" and pv: "preds_of s as pv"
  shows "\<exists>s'. insert_after cmp draws (Some p) k pv s = Inr s' \<and> sl_ok cmp K s' (as @ p # bs) \<and>
    keyr (nodes s') p = k \<and> (\<forall>x. x \<noteq> p \<longrightarrow> shape (nodes s') x = shape (nodes s) x) \<and> head s' = head s \<and>
    kBranching s' = kBranching s"
proof -
  let ?P = "pred s (linked (nodes s)) as"
  from prepare_total [OF assms, of draws] obtain h pv1 st1 where
    pr: "prepare_insert cmp draws (Some p) k pv s = Inr (h, (mid_state s h st1)\<lparr>prev := pv1\<rparr>)" and h: "1 \<le> h" "h \<le> kMaxHeight s"
    and l0: "linking 0 ?P p k h (nodes s) st1" and lb: "links_behind ?P p h pv1 (nodes s)"
    and pv1: "length pv1 = kMaxHeight s" "\<forall>l < max (max_height s) h. pv1 ! l = Some (?P l)" by blast
  from link_levels_total [OF l0 lb] obtain st2 where st2: "link_levels 0 h (Some p) pv1 st1 = Inr st2"
    and lk: "linking h ?P p k h (nodes s) st2" by auto
  from finish_ok [OF ok new low above k lk h pv1] obtain s' where
    s': "finish_insert (Some p) h ((mid_state s h st2)\<lparr>prev := pv1\<rparr>) = Inr s'" "sl_ok cmp K s' (as @ p # bs)"
    "nodes s' = st2" "head s' = head s" "kBranching s' = kBranching s" by blast
  have "(mid_state s h st1)\<lparr>prev := pv1, nodes := st2\<rparr> = (mid_state s h st2)\<lparr>prev := pv1\<rparr>"
    "nodes (mid_state s h st1) = st1" by (simp_all add: mid_state_def)
  then have "insert_after cmp draws (Some p) k pv s = Inr s'"
    using pr st2 s'(1) by (simp add: insert_after_def)
  with s' linking_sorted(3) [OF ok new low above k lk] lk show ?thesis by (simp add: linking_def)
qed

end

end
