(* ===== verification/Skiplist_Ops.thy ===== *)
theory Skiplist_Ops
  imports Skiplist_Insert
begin

text \<open>
  What a client of the skip list sees: an ordered set of keys. The constructor makes an empty one,
  \<open>Insert\<close> adds a key at its place, \<open>Contains\<close> finds it, the iterator visits the keys in order,
  whatever the random heights are.
\<close>

subsection \<open>The constructor\<close>

lemma init_links_total:
  assumes "st h \<noteq> None" "hgt st h = n" "length pv = n" "i \<le> n"
  shows "\<exists>pv' st'. init_links i n (Some h) pv st = Inr (pv', st') \<and> length pv' = n \<and>
    (\<forall>l < n. pv' ! l = (if i \<le> l then Some h else pv ! l)) \<and> st' h \<noteq> None \<and> hgt st' h = n \<and>
    (\<forall>l < n. Next (Some h) l st' = (if i \<le> l then Inr None else Next (Some h) l st)) \<and>
    (\<forall>x. shape st' x = shape st x)"
  using assms
proof (induction i n "Some h" pv st rule: init_links.induct)
  case (1 i n pv st)
  show ?case
  proof (cases "i < n")
    case True
    with 1 SetNext_total [of st h i None] obtain st1 where st1: "SetNext (Some h) i None st = Inr st1"
      "Next (Some h) i st1 = Inr None" "\<And>x m. x \<noteq> h \<or> m \<noteq> i \<Longrightarrow> Next (Some x) m st1 = Next (Some x) m st"
      "\<And>x. shape st1 x = shape st x" by blast
    have k: "st1 h \<noteq> None" "hgt st1 h = n" using shape_eqD [OF st1(4) [of h]] 1(2,3) by auto
    from True st1(1) k 1(4) 1(1) [OF True, of st1] obtain pv' st' where
      r: "init_links (Suc i) n (Some h) (pv[i := Some h]) st1 = Inr (pv', st')" "length pv' = n"
      "\<And>l. l < n \<Longrightarrow> pv' ! l = (if Suc i \<le> l then Some h else pv[i := Some h] ! l)" "st' h \<noteq> None" "hgt st' h = n"
      "\<And>l. l < n \<Longrightarrow> Next (Some h) l st' = (if Suc i \<le> l then Inr None else Next (Some h) l st1)"
      "\<And>x. shape st' x = shape st1 x" by auto
    have "pv' ! l = (if i \<le> l then Some h else pv ! l)" if "l < n" for l
      using r(3) [OF that] 1(4) True by (cases "l = i") auto
    moreover have "Next (Some h) l st' = (if i \<le> l then Inr None else Next (Some h) l st)" if "l < n" for l
      using r(6) [OF that] st1(2) st1(3) [of h l] by (cases "l = i") auto
    moreover have "init_links i n (Some h) pv st = Inr (pv', st')"
      using True st1(1) r(1) 1(4) by (subst init_links.simps) simp
    ultimately show ?thesis using r(2,4,5,7) st1(4) by simp
  next
    case False
    with 1 show ?thesis by (subst init_links.simps) auto
  qed
qed

lemma SkipList_total:
  assumes "0 < mh" "mh < 2 ^ 16" "0 < br" "br < 2 ^ 16"
  shows "\<exists>s. SkipList (Some p) True zero mh br st = Inr s \<and> sl_ok cmp K s [] \<and> head s = p \<and>
    kMaxHeight s = nat mh \<and> kBranching s = nat br \<and> (\<forall>x. x \<noteq> p \<longrightarrow> shape (nodes s) x = shape st x)"
proof -
  have u: "uint16 mh = nat mh" "uint16 br = nat br" "uint32 mh = nat mh" "uint32 br = nat br"
    using assms by (simp_all add: uint16_def uint32_def)
  have sc: "0 < 4294967295 div nat br" "nat br \<noteq> 0" using assms by (simp_all add: div_greater_zero_iff)
  let ?st1 = "st(p \<mapsto> \<lparr>key = zero, nexts = replicate (nat mh) Unset\<rparr>)"
  have "?st1 p \<noteq> None" "hgt ?st1 p = nat mh" by (simp_all add: hgt_def)
  from init_links_total [OF this, of "replicate (nat mh) None" 0] obtain pv st2 where
    r: "init_links 0 (nat mh) (Some p) (replicate (nat mh) None) ?st1 = Inr (pv, st2)" "length pv = nat mh"
    "\<forall>l < nat mh. pv ! l = Some p" "st2 p \<noteq> None" "hgt st2 p = nat mh" "\<forall>l < nat mh. Next (Some p) l st2 = Inr None"
    "\<forall>x. shape st2 x = shape ?st1 x" by auto
  define s where "s = \<lparr>kMaxHeight = nat mh, kBranching = nat br, kScaledInverseBranching = 4294967295 div nat br,
    head = p, max_height = 1, prev = pv, prev_height = 1, nodes = st2\<rparr>"
  have "SkipList (Some p) True zero mh br st = Inr s"
    using u sc assms r(1) by (simp add: SkipList_def NewNode_def Let_def s_def)
  moreover have "sl_ok cmp K s []"
    using r assms by (auto simp: sl_ok_def s_def prev_ok_def linked_def)
  moreover have "\<forall>x. x \<noteq> p \<longrightarrow> shape st2 x = shape st x" using r(7) by (simp add: shape_def)
  ultimately show ?thesis by (simp add: s_def)
qed

subsection \<open>Keys of the list and the split at a key\<close>

definition keys_of :: "'k skiplist \<Rightarrow> nat list \<Rightarrow> 'k list" where
  "keys_of s ns = map (keyr (nodes s)) ns"

definition sl_rep :: "('k \<Rightarrow> 'k \<Rightarrow> int) \<Rightarrow> 'k set \<Rightarrow> 'k skiplist \<Rightarrow> 'k list \<Rightarrow> bool" where
  "sl_rep cmp K s ks \<longleftrightarrow> (\<exists>ns. sl_ok cmp K s ns \<and> ks = keys_of s ns)"

definition sorted_insert :: "('k \<Rightarrow> 'k \<Rightarrow> int) \<Rightarrow> 'k \<Rightarrow> 'k list \<Rightarrow> 'k list" where
  "sorted_insert cmp k ks = takeWhile (\<lambda>x. cmp x k < 0) ks @ k # dropWhile (\<lambda>x. cmp x k < 0) ks"

lemma sl_rep_sorted: "sl_rep cmp K s ks \<Longrightarrow> sorted_wrt (\<lambda>x y. cmp x y < 0) ks \<and> set ks \<subseteq> K"
  by (auto simp: sl_rep_def sl_ok_def keys_of_def sorted_wrt_map)

lemma set_sorted_insert: "set (sorted_insert cmp k ks) = insert k (set ks)"
proof -
  have "set ks = set (takeWhile (\<lambda>x. cmp x k < 0) ks) \<union> set (dropWhile (\<lambda>x. cmp x k < 0) ks)"
    by (metis set_append takeWhile_dropWhile_id)
  then show ?thesis by (simp add: sorted_insert_def)
qed

text \<open>The last node of a list, or the position that is not valid.\<close>

definition final :: "nat list \<Rightarrow> link" where
  "final l = (if l = [] then None else Some (last l))"

lemma not_head_last: "head s \<notin> set l \<Longrightarrow> not_head s (Some (last (head s # l))) = final l"
  by (cases l rule: rev_cases) (auto simp: not_head_def final_def)

context key_order
begin

lemma split_links:
  assumes ok: "links_ok cmp K s ns Q" and k: "k \<in> K"
  obtains as bs where "ns = as @ bs" "all_below cmp (nodes s) as k" "none_below cmp (nodes s) bs k"
    "as = takeWhile (\<lambda>x. cmp (keyr (nodes s) x) k < 0) ns" "bs = dropWhile (\<lambda>x. cmp (keyr (nodes s) x) k < 0) ns"
proof -
  let ?B = "\<lambda>x. cmp (keyr (nodes s) x) k < 0"
  define as bs where "as = takeWhile ?B ns" and "bs = dropWhile ?B ns"
  have ns: "ns = as @ bs" by (simp add: as_def bs_def)
  have "none_below cmp (nodes s) bs k"
  proof (cases bs)
    case (Cons y ys)
    then have y: "\<not> ?B y" using hd_dropWhile [of ?B ns] by (simp add: bs_def)
    have "sorted_wrt (\<lambda>x y. cmp (keyr (nodes s) x) (keyr (nodes s) y) < 0) (as @ y # ys)"
      and keys: "\<forall>x \<in> set (as @ y # ys). keyr (nodes s) x \<in> K"
      using ok ns Cons unfolding links_ok_def by auto
    then have "\<not> ?B z" if "z \<in> set ys" for z
      using that y k cmp_less_le [of "keyr (nodes s) y" "keyr (nodes s) z" k] by (auto simp: sorted_wrt_append)
    with y Cons show ?thesis by (auto simp: none_below_def not_less)
  qed (simp add: none_below_def)
  moreover have "all_below cmp (nodes s) as k" by (auto simp: all_below_def as_def dest: set_takeWhileD)
  ultimately show ?thesis using that ns as_def bs_def by blast
qed

lemma split_keys:
  assumes ok: "sl_ok cmp K s ns" and k: "k \<in> K"
  obtains as bs where "ns = as @ bs" "all_below cmp (nodes s) as k" "none_below cmp (nodes s) bs k"
    "as = takeWhile (\<lambda>x. cmp (keyr (nodes s) x) k < 0) ns" "bs = dropWhile (\<lambda>x. cmp (keyr (nodes s) x) k < 0) ns"
  using split_links [OF sl_ok_links [OF ok] k] .

lemma insert_rep:
  assumes rep: "sl_rep cmp K s ks" and k: "k \<in> K" and fresh: "\<forall>x \<in> set ks. cmp x k \<noteq> 0" and p: "nodes s p = None"
  shows "\<exists>s'. Insert cmp draws (Some p) k s = Some (Inr s') \<and> sl_rep cmp K s' (sorted_insert cmp k ks) \<and>
    (\<forall>x. x \<noteq> p \<longrightarrow> (nodes s' x = None \<longleftrightarrow> nodes s x = None))"
proof -
  from rep obtain ns where ok: "sl_ok cmp K s ns" and ks: "ks = keys_of s ns" by (auto simp: sl_rep_def)
  from split_keys [OF ok k] obtain as bs where ns: "ns = as @ bs" and low: "all_below cmp (nodes s) as k"
    and high: "none_below cmp (nodes s) bs k" and tw: "as = takeWhile (\<lambda>x. cmp (keyr (nodes s) x) k < 0) ns"
    "bs = dropWhile (\<lambda>x. cmp (keyr (nodes s) x) k < 0) ns" by blast
  have ok': "sl_ok cmp K s (as @ bs)" using ok ns by simp
  have above: "\<forall>x \<in> set bs. 0 < cmp (keyr (nodes s) x) k"
    using high fresh by (auto simp: none_below_def ks ns keys_of_def order_le_less)
  from insert_preds [OF ok' low high k, of draws "Some p"] obtain pv where pv: "preds_of s as pv"
    "Insert cmp draws (Some p) k s = Some (insert_after cmp draws (Some p) k pv s)" by blast
  from insert_after_total [OF ok' p low above k pv(1), of draws] obtain s' where
    s': "insert_after cmp draws (Some p) k pv s = Inr s'" "sl_ok cmp K s' (as @ p # bs)" "keyr (nodes s') p = k"
    "\<And>x. x \<noteq> p \<Longrightarrow> shape (nodes s') x = shape (nodes s) x" by blast
  have same: "keyr (nodes s') x = keyr (nodes s) x" if "x \<in> set (as @ bs)" for x
  proof -
    have "x \<noteq> p" using that sl_ok_fresh [OF ok' p] by auto
    then have "shape (nodes s') x = shape (nodes s) x" by (rule s'(4))
    moreover have "nodes s x \<noteq> None" using that by (intro sl_ok_node [OF ok']) simp
    ultimately show ?thesis using shape_eqD(2) [of "nodes s'" x "nodes s"] by auto
  qed
  have "keys_of s' (as @ p # bs) = map (keyr (nodes s)) as @ k # map (keyr (nodes s)) bs"
    using same s'(3) by (auto simp: keys_of_def)
  also have "\<dots> = sorted_insert cmp k ks"
    by (simp add: sorted_insert_def ks keys_of_def tw takeWhile_map dropWhile_map comp_def)
  finally have "sl_rep cmp K s' (sorted_insert cmp k ks)" using s'(2) unfolding sl_rep_def by metis
  moreover have "\<forall>x. x \<noteq> p \<longrightarrow> (nodes s' x = None \<longleftrightarrow> nodes s x = None)"
    by (intro allI impI shape_eqD(1) s'(4))
  ultimately show ?thesis using pv(2) s'(1) by simp
qed

lemma contains_rep:
  assumes rep: "sl_rep cmp K s ks" and k: "k \<in> K"
  shows "Contains cmp k s = Some (Inr (\<exists>x \<in> set ks. cmp x k = 0))"
proof -
  from rep obtain ns where ok: "sl_ok cmp K s ns" and ks: "ks = keys_of s ns" by (auto simp: sl_rep_def)
  from split_keys [OF ok k] obtain as bs where ns: "ns = as @ bs" and low: "all_below cmp (nodes s) as k"
    and high: "none_below cmp (nodes s) bs k" by blast
  have lk: "links_ok cmp K s (as @ bs) (linked (nodes s))" using sl_ok_links [OF ok] ns by simp
  have find: "FindGreaterOrEqual cmp k s = Some (Inr (first bs))"
    by (rule find_greater_or_equal_total [OF lk low high k])
  have ex: "(\<exists>x \<in> set ks. cmp x k = 0) \<longleftrightarrow> (\<exists>y \<in> set bs. cmp (keyr (nodes s) y) k = 0)"
    using low by (auto simp: ks ns keys_of_def all_below_def)
  show ?thesis
  proof (cases bs)
    case Nil
    with find ex show ?thesis by (simp add: Contains_def)
  next
    case (Cons y ys)
    have y: "keyr (nodes s) y \<in> K" "key_at (Some y) (nodes s) = Inr (keyr (nodes s) y)"
      using links_ok_keys(2,4) [OF lk, of y] Cons by simp_all
    have "Equal cmp k (keyr (nodes s) y) \<longleftrightarrow> cmp (keyr (nodes s) y) k = 0"
      using cmp_flip [OF k y(1)] cmp_flip [OF y(1) k] by (auto simp: Equal_def)
    moreover have "cmp (keyr (nodes s) y) k = 0" if "z \<in> set bs" "cmp (keyr (nodes s) z) k = 0" for z
      using equal_is_first [OF lk high k that] that(2) Cons by simp
    ultimately have "Equal cmp k (keyr (nodes s) y) = (\<exists>x \<in> set ks. cmp x k = 0)"
      using ex Cons by auto
    with find Cons y show ?thesis by (simp add: Contains_def)
  qed
qed

end

subsection \<open>The iterator\<close>

text \<open>\<open>dump\<close> of \<^verbatim>\<open>test_skiplist.cc\<close>: the loop that visits every key.\<close>

definition dump_turn :: "'k skiplist \<Rightarrow> link \<times> 'k list \<Rightarrow> fault + (link \<times> 'k list + 'k list)" where
  "dump_turn s = (\<lambda>(it, out).
     if Valid it then
       bindE (iter_key it s) (\<lambda>k.
       bindE (iter_Next it s) (\<lambda>it'.
       Inr (Inl (it', out @ [k]))))
     else Inr (Inr out))"

definition dump :: "'k skiplist \<Rightarrow> (fault + 'k list) option" where
  "dump s = bindL (Some (SeekToFirst s)) (\<lambda>it. run_loop (dump_turn s) (it, []))"

lemma iter_lookup:
  assumes ok: "sl_ok cmp K s (a @ x # b)"
  shows "iter_key (Some x) s = Inr (keyr (nodes s) x)" "iter_Next (Some x) s = Inr (first b)"
proof -
  have ok': "sl_ok cmp K s ((a @ [x]) @ b)" using ok by simp
  have "0 < kMaxHeight s" using ok by (simp add: sl_ok_def)
  then show "iter_Next (Some x) s = Inr (first b)"
    using pred_next(1) [OF ok', of 0] pred_lowest [OF ok'] first_lowest [OF ok'] by (simp add: iter_Next_def Valid_def)
  show "iter_key (Some x) s = Inr (keyr (nodes s) x)"
    using links_ok_keys(4) [OF sl_ok_links [OF ok], of x] by (simp add: iter_key_def Valid_def)
qed

lemma seek_first: "sl_ok cmp K s ns \<Longrightarrow> SeekToFirst s = Inr (first ns)"
  using pred_next(1) [of cmp K s "[]" ns 0] pred_lowest [of cmp K s "[]" ns] first_lowest [of cmp K s "[]" ns]
  by (auto simp: SeekToFirst_def sl_ok_def)

lemma dump_from:
  "sl_ok cmp K s (a @ b) \<Longrightarrow> run_loop (dump_turn s) (first b, out) = Some (Inr (out @ map (keyr (nodes s)) b))"
proof (induction b arbitrary: a out)
  case Nil
  then show ?case by (simp add: run_loop_leave dump_turn_def Valid_def)
next
  case (Cons x b)
  have "dump_turn s (Some x, out) = Inr (Inl (first b, out @ [keyr (nodes s) x]))"
    using iter_lookup [OF Cons.prems] by (simp add: dump_turn_def Valid_def)
  with Cons.IH [of "a @ [x]"] Cons.prems show ?case by (simp add: run_loop_again)
qed

lemma dump_rep: "sl_ok cmp K s ns \<Longrightarrow> dump s = Some (Inr (keys_of s ns))"
  using dump_from [of cmp K s "[]" ns "[]"] by (simp add: dump_def seek_first keys_of_def)

lemma seek_last: "sl_ok cmp K s ns \<Longrightarrow> SeekToLast s = Some (Inr (final ns))"
proof -
  assume ok: "sl_ok cmp K s ns"
  then have "head s \<notin> set ns" by (simp add: sl_ok_def)
  with find_last_total [OF sl_ok_links [OF ok]] not_head_last [OF this] show ?thesis
    by (simp only: SeekToLast_def bindL_simps)
qed

lemma retreat_stay:
  "iter_key it s = Inr k' \<Longrightarrow> \<not> cmp k k' < 0 \<Longrightarrow> retreat cmp k s it = Some (Inr it)"
  by (subst retreat.simps) (simp add: LessThan_def)

lemma retreat_end: "retreat cmp k s None = Some (Inr None)"
  by (subst retreat.simps) (simp add: Valid_def)

context key_order
begin

lemma seek_total:
  assumes "sl_ok cmp K s (as @ bs)" "all_below cmp (nodes s) as k" "none_below cmp (nodes s) bs k" "k \<in> K"
  shows "Seek cmp k s = Some (Inr (first bs))"
  unfolding Seek_def using find_greater_or_equal_total [OF sl_ok_links [OF assms(1)] assms(2-4)] .

lemma prev_total:
  assumes ok: "sl_ok cmp K s (a @ x # b)"
  shows "iter_Prev cmp (Some x) s = Some (Inr (final a))"
proof -
  let ?k = "keyr (nodes s) x"
  have st: "sorted_wrt (\<lambda>x y. cmp (keyr (nodes s) x) (keyr (nodes s) y) < 0) (a @ x # b)"
    and keys: "\<And>y. y \<in> set (a @ x # b) \<Longrightarrow> keyr (nodes s) y \<in> K" and hd: "head s \<notin> set a"
    using ok unfolding sl_ok_def by auto
  have low: "all_below cmp (nodes s) a ?k" using st by (simp add: all_below_def sorted_wrt_append)
  have "0 \<le> cmp (keyr (nodes s) y) ?k" if "y \<in> set (x # b)" for y
  proof (cases "y = x")
    case True
    with cmp_refl keys [of x] show ?thesis by simp
  next
    case False
    with that st have "cmp ?k (keyr (nodes s) y) < 0" by (simp add: sorted_wrt_append)
    moreover have "?k \<in> K" "keyr (nodes s) y \<in> K" using keys that by auto
    ultimately show ?thesis using cmp_flip [of ?k "keyr (nodes s) y"] by simp
  qed
  then have high: "none_below cmp (nodes s) (x # b) ?k" by (simp add: none_below_def)
  have "FindLessThan cmp ?k None s = Some (Inr (Some (pred s (linked (nodes s)) a 0), None))"
    using find_less_than_total [OF sl_ok_links [OF ok] low high, of None] by (simp add: preds_from_def)
  with iter_lookup(1) [OF ok] pred_lowest [OF ok] not_head_last [OF hd] show ?thesis
    by (simp add: iter_Prev_def)
qed

lemma final_not_greater:
  assumes ok: "sl_ok cmp K s (as @ bs)" and low: "all_below cmp (nodes s) as k" and k: "k \<in> K"
  shows "retreat cmp k s (final as) = Some (Inr (final as))"
proof (cases as rule: rev_cases)
  case (snoc a x)
  then have f: "final as = Some x" by (simp add: final_def)
  have okx: "sl_ok cmp K s (a @ x # bs)" using ok snoc by simp
  then have "keyr (nodes s) x \<in> K" by (simp add: sl_ok_def)
  moreover have "cmp (keyr (nodes s) x) k < 0" using low snoc by (simp add: all_below_def)
  ultimately have "\<not> cmp k (keyr (nodes s) x) < 0" using cmp_flip k by fastforce
  with f retreat_stay [OF iter_lookup(1) [OF okx]] show ?thesis by simp
qed (simp add: final_def retreat_end)

lemma seek_for_prev_total:
  assumes ok: "sl_ok cmp K s (as @ bs)" and low: "all_below cmp (nodes s) as k" and high: "none_below cmp (nodes s) bs k"
    and k: "k \<in> K"
  shows "SeekForPrev cmp k s = Some (Inr (final (filter (\<lambda>x. cmp (keyr (nodes s) x) k \<le> 0) (as @ bs))))"
proof -
  let ?L = "\<lambda>x. cmp (keyr (nodes s) x) k \<le> 0"
  have fa: "filter ?L as = as" using low by (auto simp: all_below_def filter_id_conv)
  note sk = seek_total [OF assms] and stay = final_not_greater [OF ok low k]
  show ?thesis
  proof (cases bs)
    case Nil
    with sk seek_last [OF ok] stay fa show ?thesis by (simp add: SeekForPrev_def Valid_def)
  next
    case (Cons y ys)
    have oky: "sl_ok cmp K s (as @ y # ys)" using ok Cons by simp
    have st: "\<forall>z \<in> set ys. cmp (keyr (nodes s) y) (keyr (nodes s) z) < 0"
      and keys: "keyr (nodes s) y \<in> K" "\<And>z. z \<in> set ys \<Longrightarrow> keyr (nodes s) z \<in> K"
      using oky by (auto simp: sl_ok_def sorted_wrt_append)
    have y0: "0 \<le> cmp (keyr (nodes s) y) k" using high Cons by (simp add: none_below_def)
    have "filter ?L ys = []"
    proof -
      have "\<not> ?L z" if "z \<in> set ys" for z
        using cmp_less_le [OF keys(1) keys(2) [OF that] k] st that y0 by fastforce
      then show ?thesis by (simp add: filter_empty_conv)
    qed
    then have f: "filter ?L (as @ bs) = (if cmp (keyr (nodes s) y) k = 0 then as @ [y] else as)"
      using fa Cons y0 by auto
    have start: "SeekForPrev cmp k s = retreat cmp k s (Some y)"
      using sk Cons by (simp add: SeekForPrev_def Valid_def)
    show ?thesis
    proof (cases "cmp (keyr (nodes s) y) k = 0")
      case True
      then have "\<not> cmp k (keyr (nodes s) y) < 0" using cmp_flip [OF k keys(1)] by simp
      with start retreat_stay [OF iter_lookup(1) [OF oky]] f True show ?thesis by (simp add: final_def)
    next
      case False
      then have "cmp k (keyr (nodes s) y) < 0" using cmp_flip [OF k keys(1)] y0 by simp
      then have "retreat cmp k s (Some y) = retreat cmp k s (final as)"
        using iter_lookup(1) [OF oky] prev_total [OF oky]
        by (subst retreat.simps) (simp add: Valid_def LessThan_def)
      with start stay f False show ?thesis by simp
    qed
  qed
qed

text \<open>A duplicate stops the program at an assertion.\<close>

lemma insert_duplicate:
  assumes rep: "sl_rep cmp K s ks" and k: "k \<in> K" and dup: "x \<in> set ks" "cmp x k = 0"
  shows "Insert cmp draws p k s = Some (Inl AssertFailed)"
proof -
  from rep obtain ns where ok: "sl_ok cmp K s ns" and ks: "ks = keys_of s ns" by (auto simp: sl_rep_def)
  from split_keys [OF ok k] obtain as bs where ns: "ns = as @ bs" and low: "all_below cmp (nodes s) as k"
    and high: "none_below cmp (nodes s) bs k" by blast
  have ok': "sl_ok cmp K s (as @ bs)" using ok ns by simp
  from insert_preds [OF ok' low high k, of draws p] obtain pv where pv: "preds_of s as pv"
    "Insert cmp draws p k s = Some (insert_after cmp draws p k pv s)" by blast
  from dup low obtain y where y: "y \<in> set bs" "cmp (keyr (nodes s) y) k = 0"
    by (auto simp: ks ns keys_of_def all_below_def)
  then obtain ys where bs: "bs = y # ys" using equal_is_first [OF sl_ok_links [OF ok'] high k y] by (cases bs) auto
  have len: "0 < length pv" "0 < max_height s" "0 < kMaxHeight s"
    using ok pv(1) by (auto simp: preds_of_def sl_ok_def prev_ok_def)
  then have p0: "prev_at 0 pv = Inr (Some (pred s (linked (nodes s)) as 0))"
    using pv(1) by (auto simp: prev_at_def preds_of_def)
  have nx: "Next (Some (pred s (linked (nodes s)) as 0)) 0 (nodes s) = Inr (Some y)"
    using pred_next(1) [OF ok' len(3)] first_lowest [OF ok'] bs by simp
  have "y \<in> set (as @ bs)" using y by simp
  from links_ok_keys(2,4) [OF sl_ok_links [OF ok'] this]
  have ky: "keyr (nodes s) y \<in> K" "key_at (Some y) (nodes s) = Inr (keyr (nodes s) y)" by simp_all
  then have "Equal cmp k (keyr (nodes s) y)"
    using y(2) cmp_flip [OF k ky(1)] cmp_flip [OF ky(1) k] by (auto simp: Equal_def)
  then have "assert_no_duplicate cmp k pv s = Inl AssertFailed"
    using p0 nx ky(2) by (simp add: assert_no_duplicate_def)
  with pv(2) show ?thesis by (simp add: insert_after_def prepare_insert_def)
qed

end

text \<open>Any number of insertions, each with its own random numbers and its own piece of memory.\<close>

fun insert_all ::
    "('k \<Rightarrow> 'k \<Rightarrow> int) \<Rightarrow> ((nat \<Rightarrow> 32 word) \<times> nat \<times> 'k) list \<Rightarrow> 'k skiplist \<Rightarrow> (fault + 'k skiplist) option" where
  "insert_all cmp [] s = Some (Inr s)"
| "insert_all cmp ((draws, p, k) # ins) s = bindL (Insert cmp draws (Some p) k s) (insert_all cmp ins)"

abbreviation new_keys :: "((nat \<Rightarrow> 32 word) \<times> nat \<times> 'k) list \<Rightarrow> 'k list" where
  "new_keys ins \<equiv> map (\<lambda>(draws, p, k). k) ins"

abbreviation new_addrs :: "((nat \<Rightarrow> 32 word) \<times> nat \<times> 'k) list \<Rightarrow> nat list" where
  "new_addrs ins \<equiv> map (\<lambda>(draws, p, k). p) ins"

context key_order
begin

lemma insert_all_rep:
  assumes "sl_rep cmp K s ks" "set (new_keys ins) \<subseteq> K" "sorted_wrt (\<lambda>a b. cmp a b \<noteq> 0) (ks @ new_keys ins)"
    and "distinct (new_addrs ins)" "\<forall>p \<in> set (new_addrs ins). nodes s p = None"
  shows "\<exists>s' ks'. insert_all cmp ins s = Some (Inr s') \<and> sl_rep cmp K s' ks' \<and> set ks' = set ks \<union> set (new_keys ins)"
  using assms
proof (induction ins arbitrary: s ks)
  case Nil
  then show ?case by auto
next
  case (Cons d ins)
  obtain draws p k where d: "d = (draws, p, k)" by (cases d)
  have k: "k \<in> K" "nodes s p = None" "\<forall>x \<in> set ks. cmp x k \<noteq> 0" using Cons.prems(2-5) d by (auto simp: sorted_wrt_append)
  from insert_rep [OF Cons.prems(1) k(1,3,2), of draws] obtain s1 where s1: "Insert cmp draws (Some p) k s = Some (Inr s1)"
    "sl_rep cmp K s1 (sorted_insert cmp k ks)" "\<forall>x. x \<noteq> p \<longrightarrow> (nodes s1 x = None \<longleftrightarrow> nodes s x = None)" by blast
  have sub: "set ks \<subseteq> K" using sl_rep_sorted [OF Cons.prems(1)] by simp
  have st: "sorted_wrt (\<lambda>a b. cmp a b < 0) (sorted_insert cmp k ks)" using sl_rep_sorted [OF s1(2)] by simp
  have "sorted_wrt (\<lambda>a b. cmp a b \<noteq> 0) (sorted_insert cmp k ks @ new_keys ins)"
    using Cons.prems(3) d sorted_wrt_mono_rel [OF _ st, of "\<lambda>a b. cmp a b \<noteq> 0"]
    by (auto simp: sorted_wrt_append set_sorted_insert)
  moreover have "\<forall>q \<in> set (new_addrs ins). nodes s1 q = None"
  proof
    fix q assume q: "q \<in> set (new_addrs ins)"
    have "new_addrs (d # ins) = p # new_addrs ins" using d by simp
    with Cons.prems(4,5) q s1(3) show "nodes s1 q = None" by (metis distinct.simps(2) list.set_intros(2))
  qed
  ultimately obtain s' ks' where "insert_all cmp ins s1 = Some (Inr s')" "sl_rep cmp K s' ks'"
    "set ks' = set (sorted_insert cmp k ks) \<union> set (new_keys ins)"
    using Cons.IH [OF s1(2)] Cons.prems(2,4) d by auto
  with s1(1) d show ?case by (auto simp: set_sorted_insert)
qed

end

subsection \<open>Properties\<close>

text \<open>
  C1: \<open>Insert\<close>, for any comparator whose sign is a linear preorder on the keys, any random numbers
  and any list that satisfies the invariant: it returns; if a key that compares equal is in the
  list the assertion against duplicates fails; if not, no assertion fails, no pointer or slot is
  used that was not set, the invariant holds again (\<open>prev_\<close> and \<open>prev_height_\<close> included) and the
  keys are the old ones with the new one at its place.
\<close>

theorem skiplist_insert_correct:
  assumes "key_order cmp K" "sl_rep cmp K s ks" "k \<in> K" "nodes s p = None"
  shows "if \<exists>x \<in> set ks. cmp x k = 0
    then Insert cmp draws (Some p) k s = Some (Inl AssertFailed)
    else \<exists>s'. Insert cmp draws (Some p) k s = Some (Inr s') \<and> sl_rep cmp K s' (sorted_insert cmp k ks) \<and>
      sorted_wrt (\<lambda>x y. cmp x y < 0) (sorted_insert cmp k ks)"
proof (cases "\<exists>x \<in> set ks. cmp x k = 0")
  case True
  then obtain x where "x \<in> set ks" "cmp x k = 0" by blast
  from key_order.insert_duplicate [OF assms(1-3) this] True show ?thesis by simp
next
  case False
  then have "\<forall>x \<in> set ks. cmp x k \<noteq> 0" by blast
  from key_order.insert_rep [OF assms(1-3) this assms(4), of draws] False sl_rep_sorted show ?thesis by fastforce
qed

text \<open>
  C32: the fast path for keys in ascending order changes nothing but the time: \<open>Insert\<close> ends in the
  same state, pointer for pointer, as an insertion that always searches for the predecessors.
\<close>

theorem skiplist_fast_path_equiv:
  assumes "key_order cmp K" "sl_rep cmp K s ks" "k \<in> K"
  shows "Insert cmp draws p k s = Insert_by_search cmp draws p k s"
proof -
  from assms(2) obtain ns where ok: "sl_ok cmp K s ns" by (auto simp: sl_rep_def)
  from key_order.split_keys [OF assms(1) ok assms(3)] obtain as bs where "ns = as @ bs"
    "all_below cmp (nodes s) as k" "none_below cmp (nodes s) bs k" by blast
  with ok key_order.insert_preds [OF assms(1), of s as bs k] assms(3) show ?thesis by metis
qed

text \<open>
  \<open>Contains\<close> returns, faults nowhere and answers whether a key that compares equal is in the list.
\<close>

theorem skiplist_contains_correct:
  assumes "key_order cmp K" "sl_rep cmp K s ks" "k \<in> K"
  shows "Contains cmp k s = Some (Inr (\<exists>x \<in> set ks. cmp x k = 0))"
  by (rule key_order.contains_rep [OF assms])

text \<open>
  C17: from the constructor, for every height and branching factor that fits 16 bits, through any
  insertions of keys that are pairwise different: the program returns without a fault, and the loop
  over the iterator then visits each inserted key once, in ascending order.
\<close>

theorem skiplist_inserts_then_dump:
  assumes "key_order cmp K" "0 < mh" "mh < 2 ^ 16" "0 < br" "br < 2 ^ 16"
    and "set (new_keys ins) \<subseteq> K" "sorted_wrt (\<lambda>a b. cmp a b \<noteq> 0) (new_keys ins)"
    and "distinct (h # new_addrs ins)" "\<forall>p \<in> set (new_addrs ins). st p = None"
  shows "\<exists>s s' ks. SkipList (Some h) True zero mh br st = Inr s \<and> insert_all cmp ins s = Some (Inr s') \<and>
    dump s' = Some (Inr ks) \<and> sorted_wrt (\<lambda>x y. cmp x y < 0) ks \<and> set ks = set (new_keys ins)"
proof -
  from SkipList_total [OF assms(2-5), where st = st and cmp = cmp and K = K and p = h and zero = zero] obtain s where
    s: "SkipList (Some h) True zero mh br st = Inr s" "sl_ok cmp K s []" "\<forall>x. x \<noteq> h \<longrightarrow> shape (nodes s) x = shape st x" by blast
  have rep: "sl_rep cmp K s []" using s(2) by (auto simp: sl_rep_def keys_of_def)
  have new: "\<forall>p \<in> set (new_addrs ins). nodes s p = None"
  proof
    fix p assume p: "p \<in> set (new_addrs ins)"
    with assms(8) have "p \<noteq> h" by (metis distinct.simps(2))
    with s(3) have "shape (nodes s) p = shape st p" by simp
    with assms(9) p show "nodes s p = None" by (auto dest: shape_eqD(1))
  qed
  from key_order.insert_all_rep [OF assms(1) rep assms(6) _ _ new] assms(7,8) obtain s' ks where
    s': "insert_all cmp ins s = Some (Inr s')" "sl_rep cmp K s' ks" "set ks = set (new_keys ins)" by auto
  then obtain ns where "sl_ok cmp K s' ns" "ks = keys_of s' ns" by (auto simp: sl_rep_def)
  with dump_rep have "dump s' = Some (Inr ks)" by metis
  with s(1) s' sl_rep_sorted [OF s'(2)] show ?thesis by blast
qed

text \<open>
  The positions of the iterator: \<open>SeekToFirst\<close>, \<open>SeekToLast\<close>, \<open>Seek\<close> (the first key that is not
  smaller) and \<open>SeekForPrev\<close> (the last one that is not greater) return and end where they should,
  on the position that is not valid when there is no such key.
\<close>

theorem skiplist_seeks_correct:
  assumes "key_order cmp K" "sl_ok cmp K s ns" "k \<in> K"
  shows "SeekToFirst s = Inr (first ns) \<and> SeekToLast s = Some (Inr (final ns)) \<and>
    Seek cmp k s = Some (Inr (first (filter (\<lambda>x. 0 \<le> cmp (keyr (nodes s) x) k) ns))) \<and>
    SeekForPrev cmp k s = Some (Inr (final (filter (\<lambda>x. cmp (keyr (nodes s) x) k \<le> 0) ns)))"
proof -
  from key_order.split_keys [OF assms] obtain as bs where ns: "ns = as @ bs"
    and low: "all_below cmp (nodes s) as k" and high: "none_below cmp (nodes s) bs k" by blast
  have ok: "sl_ok cmp K s (as @ bs)" using assms(2) ns by simp
  have "filter (\<lambda>x. 0 \<le> cmp (keyr (nodes s) x) k) ns = bs"
    using low high by (auto simp: ns all_below_def none_below_def filter_empty_conv filter_id_conv not_le)
  then show ?thesis
    using seek_first [OF assms(2)] seek_last [OF assms(2)] key_order.seek_total [OF assms(1) ok low high assms(3)]
      key_order.seek_for_prev_total [OF assms(1) ok low high assms(3)] ns by simp
qed

text \<open>
  \<open>Next\<close> and \<open>Prev\<close> move by one node and undo each other.
\<close>

lemma iterator_next_prev:
  assumes "key_order cmp K" "sl_ok cmp K s (a @ x # y # b)"
  shows "iter_Next (Some x) s = Inr (Some y)" "iter_Prev cmp (Some y) s = Some (Inr (Some x))"
  using iter_lookup(2) [OF assms(2)] key_order.prev_total [OF assms(1), of s "a @ [x]" y b] assms(2)
  by (simp_all add: final_def)

text \<open>
  \<open>EstimateCount\<close> returns, and is exact (modulo \<open>2 ^ 64\<close>) as long as all nodes have height one; in
  general every step on level \<open>l\<close> counts for \<open>kBranching_ ^ l\<close> keys.
\<close>

lemma skiplist_estimate:
  assumes "key_order cmp K" "sl_ok cmp K s ns" "k \<in> K"
  shows "EstimateCount cmp k s = Some (Inr (of_nat (weighed (kBranching s) (linked (nodes s)) (max_height s - 1)
      (takeWhile (\<lambda>x. cmp (keyr (nodes s) x) k < 0) ns))))"
    and "max_height s = 1 \<Longrightarrow> EstimateCount cmp k s =
      Some (Inr (of_nat (length (filter (\<lambda>x. cmp x k < 0) (keys_of s ns)))))"
proof -
  from key_order.split_keys [OF assms] obtain as bs where ns: "ns = as @ bs"
    and low: "all_below cmp (nodes s) as k" and high: "none_below cmp (nodes s) bs k"
    and tw: "as = takeWhile (\<lambda>x. cmp (keyr (nodes s) x) k < 0) ns" by blast
  have ok: "sl_ok cmp K s (as @ bs)" using assms(2) ns by simp
  note est = estimate_total [OF sl_ok_links [OF ok] low high]
  with tw show "EstimateCount cmp k s = Some (Inr (of_nat (weighed (kBranching s) (linked (nodes s)) (max_height s - 1)
      (takeWhile (\<lambda>x. cmp (keyr (nodes s) x) k < 0) ns))))" by simp
  assume "max_height s = 1"
  moreover have "filter (linked (nodes s) 0) as = as"
    using ok by (auto simp: sl_ok_def linked_def filter_id_conv Suc_le_eq)
  moreover have "filter (\<lambda>x. cmp x k < 0) (keys_of s ns) = map (keyr (nodes s)) as"
    using low high by (auto simp: ns keys_of_def all_below_def none_below_def filter_map filter_empty_conv filter_id_conv not_less)
  ultimately show "EstimateCount cmp k s = Some (Inr (of_nat (length (filter (\<lambda>x. cmp x k < 0) (keys_of s ns)))))"
    using est by simp
qed

text \<open>
  The constructor's checks come late: the branching factor is divided by before the assertion that
  it is positive.
\<close>

lemma skiplist_branching_zero: "SkipList p ok zero mh 0 st = Inl DivideByZero"
  by (simp add: SkipList_def uint16_def)

lemma skiplist_constructor_asserts:
  assumes "uint16 br \<noteq> 0" "mh \<le> 0 \<or> 2 ^ 16 \<le> mh" "int32 mh"
  shows "SkipList (Some p) ok zero mh br st = Inl AssertFailed"
proof -
  have "uint16 mh \<noteq> uint32 mh" if "0 < mh"
  proof -
    have "mh mod 2 ^ 16 < 2 ^ 16" "mh mod 2 ^ 32 = mh" using assms(3) that by (simp_all add: int32_def)
    with assms(2) that show ?thesis by (simp add: uint16_def uint32_def)
  qed
  with assms show ?thesis by (auto simp: SkipList_def NewNode_def Let_def assertE_def)
qed

text \<open>The comparator of the test program is no order for keys that are far apart.\<close>

lemma int_compare_overflow:
  "int_compare (- (2 ^ 31)) 0 < 0 \<and> int_compare 0 1 < 0 \<and> 0 < int_compare (- (2 ^ 31)) 1"
  by (simp add: int_compare_def)

text \<open>For the witnesses: the list of \<^verbatim>\<open>test_skiplist.cc\<close> after some insertions, one of them of great height.\<close>

lemma sample_list: "\<exists>s. sl_rep int_compare half_ints s [2, 9, 30] \<and> nodes s 7 = None"
proof -
  let ?none = "(\<lambda>_. None) :: int nodes"
  from SkipList_total [of 12 4 1 0 ?none int_compare half_ints] obtain s0 where s0: "sl_ok int_compare half_ints s0 []"
    "\<forall>x. x \<noteq> 1 \<longrightarrow> shape (nodes s0) x = shape ?none x" by auto
  have r0: "sl_rep int_compare half_ints s0 []" using s0(1) by (auto simp: sl_rep_def keys_of_def)
  have n0: "nodes s0 x = None" if "x \<noteq> 1" for x using s0(2) that by (simp add: shape_def)
  have "nodes s0 2 = None" by (rule n0) simp
  from ints.insert_rep [OF r0 _ _ this, of 30 "\<lambda>_. 0"] obtain s1 where s1: "sl_rep int_compare half_ints s1 [30]"
    "\<forall>x. x \<noteq> 2 \<longrightarrow> (nodes s1 x = None \<longleftrightarrow> nodes s0 x = None)" by (auto simp: half_ints_def sorted_insert_def)
  have "nodes s1 3 = None" using s1(2) n0 by simp
  from ints.insert_rep [OF s1(1) _ _ this, of 9 "\<lambda>_. -1"] obtain s2 where s2: "sl_rep int_compare half_ints s2 [9, 30]"
    "\<forall>x. x \<noteq> 3 \<longrightarrow> (nodes s2 x = None \<longleftrightarrow> nodes s1 x = None)"
    by (auto simp: half_ints_def sorted_insert_def int_compare_def)
  have "nodes s2 4 = None" using s2(2) s1(2) n0 by simp
  from ints.insert_rep [OF s2(1) _ _ this, of 2 "\<lambda>_. -1"] obtain s3 where s3: "sl_rep int_compare half_ints s3 [2, 9, 30]"
    "\<forall>x. x \<noteq> 4 \<longrightarrow> (nodes s3 x = None \<longleftrightarrow> nodes s2 x = None)"
    by (auto simp: half_ints_def sorted_insert_def int_compare_def)
  have "nodes s3 7 = None" using s3(2) s2(2) s1(2) n0 by simp
  with s3(1) show ?thesis by blast
qed

theorem skiplist_insert_correct_witness:
  "\<exists>s s'. sl_rep int_compare half_ints s [2, 9, 30] \<and> Insert int_compare (\<lambda>_. 5) (Some 7) 9 s = Some (Inl AssertFailed) \<and>
     Insert int_compare (\<lambda>_. 5) (Some 7) 10 s = Some (Inr s') \<and> sl_rep int_compare half_ints s' [2, 9, 10, 30]"
proof -
  obtain s where s: "sl_rep int_compare half_ints s [2, 9, 30]" "nodes s 7 = None" using sample_list by blast
  note ins = skiplist_insert_correct [OF ints.key_order_axioms s(1) _ s(2), where draws = "\<lambda>_. 5"]
  have "Insert int_compare (\<lambda>_. 5) (Some 7) 9 s = Some (Inl AssertFailed)"
    using ins [of 9] by (simp add: half_ints_def int_compare_def)
  moreover obtain s' where "Insert int_compare (\<lambda>_. 5) (Some 7) 10 s = Some (Inr s')"
    "sl_rep int_compare half_ints s' (sorted_insert int_compare 10 [2, 9, 30])"
    using ins [of 10] by (auto simp: half_ints_def int_compare_def)
  moreover have "sorted_insert int_compare 10 [2, 9, 30] = [2, 9, 10, 30]" by (simp add: sorted_insert_def int_compare_def)
  ultimately show ?thesis using s(1) by metis
qed

theorem skiplist_fast_path_equiv_witness:
  "\<exists>s. sl_rep int_compare half_ints s [2, 9, 30] \<and>
     Insert int_compare (\<lambda>_. 5) (Some 7) 10 s = Insert_by_search int_compare (\<lambda>_. 5) (Some 7) 10 s"
  using sample_list skiplist_fast_path_equiv [OF ints.key_order_axioms, of _ "[2, 9, 30]" 10]
  by (auto simp: half_ints_def)

theorem skiplist_contains_correct_witness:
  "\<exists>s. Contains int_compare 9 s = Some (Inr True) \<and> Contains int_compare 10 s = Some (Inr False)"
proof -
  obtain s where s: "sl_rep int_compare half_ints s [2, 9, 30]" using sample_list by blast
  note c = skiplist_contains_correct [OF ints.key_order_axioms s]
  have "Contains int_compare 9 s = Some (Inr True)" "Contains int_compare 10 s = Some (Inr False)"
    using c [of 9] c [of 10] by (simp_all add: half_ints_def int_compare_def)
  then show ?thesis by blast
qed

theorem skiplist_inserts_then_dump_witness:
  "\<exists>s s' ks. SkipList (Some 1) True 0 12 4 (\<lambda>_. None) = Inr s \<and>
     insert_all int_compare [(\<lambda>_. 0, 2, 30), (\<lambda>_. -1, 3, 9), (\<lambda>h. of_nat h, 4, 2)] s = Some (Inr s') \<and>
     dump s' = Some (Inr ks) \<and> set ks = {30, 9, 2}"
proof -
  let ?ins = "[(\<lambda>_. 0, 2, 30), (\<lambda>_. -1, 3, 9), (\<lambda>h. of_nat h, 4, 2)] :: ((nat \<Rightarrow> 32 word) \<times> nat \<times> int) list"
  have "set (new_keys ?ins) \<subseteq> half_ints" by (simp add: half_ints_def)
  moreover have "sorted_wrt (\<lambda>a b. int_compare a b \<noteq> 0) (new_keys ?ins)" by (simp add: int_compare_def)
  moreover have "distinct (1 # new_addrs ?ins)" by simp
  ultimately show ?thesis
    using skiplist_inserts_then_dump [OF ints.key_order_axioms, of 12 4 ?ins 1 "\<lambda>_. None" 0] by auto
qed

theorem skiplist_seeks_correct_witness:
  "\<exists>s it. SeekForPrev int_compare 10 s = Some (Inr it) \<and> iter_key it s = Inr 9"
proof -
  obtain s ns where s: "sl_ok int_compare half_ints s ns" "keys_of s ns = [2, 9, 30]"
    using sample_list by (auto simp: sl_rep_def)
  then obtain x y z where ns: "ns = [x, y, z]" "keyr (nodes s) x = 2" "keyr (nodes s) y = 9" "keyr (nodes s) z = 30"
    by (auto simp: keys_of_def map_eq_Cons_conv)
  have "SeekForPrev int_compare 10 s = Some (Inr (Some y))"
    using skiplist_seeks_correct [OF ints.key_order_axioms s(1), of 10] ns
    by (simp add: half_ints_def int_compare_def final_def)
  moreover have "iter_key (Some y) s = Inr 9"
    using iter_lookup(1) [of int_compare half_ints s "[x]" y "[z]"] s(1) ns by simp
  ultimately show ?thesis by blast
qed

end
