(* ===== verification/Skiplist_Conc.thy ===== *)
theory Skiplist_Conc
  imports Skiplist_Ops
begin

text \<open>
  One writer and any number of readers on a skip list, as \<^verbatim>\<open>test_skiplist.cc\<close> uses it: writers
  hold a mutex, readers hold nothing. \<open>Insert\<close> is cut at every store that a reader can see, a
  search at every load of a link. The loads and stores are taken to be sequentially consistent.
\<close>

subsection \<open>Writer, readers and their steps\<close>

datatype 'k writer =
    Quiet
  | Linking nat nat nat 'k      \<comment> \<open>level reached, height, node and key; at the node's own slot\<close>
  | Publishing nat nat nat 'k   \<comment> \<open>the own slot is stored; at the slot of the predecessor\<close>

datatype 'k reader =
    Idle
  | Searching 'k "link \<times> nat \<times> link" "'k set"   \<comment> \<open>with the keys published when it was called\<close>
  | Found 'k link "'k set" "'k set"               \<comment> \<open>and those published at its last load\<close>

record 'k shared =
  lst :: "'k skiplist"
  wrt :: "'k writer"
  rds :: "nat \<Rightarrow> 'k reader"
  published :: "'k set"
  failed :: bool

definition fail_or :: "'k shared \<Rightarrow> fault + 'a \<Rightarrow> ('a \<Rightarrow> 'k shared) \<Rightarrow> 'k shared" where
  "fail_or s r f = (case r of Inl e \<Rightarrow> s\<lparr>failed := True\<rparr> | Inr x \<Rightarrow> f x)"

inductive rw_step :: "('k \<Rightarrow> 'k \<Rightarrow> int) \<Rightarrow> 'k set \<Rightarrow> 'k shared \<Rightarrow> 'k shared \<Rightarrow> bool" for cmp K where
  insert_begins: "wrt s = Quiet \<Longrightarrow> k \<in> K \<Longrightarrow> nodes (lst s) p = None \<Longrightarrow> \<forall>a \<in> published s. cmp a k \<noteq> 0 \<Longrightarrow>
    find_prev cmp k (lst s) = Some r \<Longrightarrow>
    rw_step cmp K s (fail_or s (bindE r (\<lambda>pv. prepare_insert cmp draws (Some p) k pv (lst s))) (\<lambda>(h, l).
      s\<lparr>lst := l, wrt := Linking 0 h p k\<rparr>))"
| insert_own: "wrt s = Linking i h p k \<Longrightarrow> i < h \<Longrightarrow>
    rw_step cmp K s (fail_or s (link_own i (Some p) (prev (lst s)) (nodes (lst s))) (\<lambda>st.
      s\<lparr>lst := (lst s)\<lparr>nodes := st\<rparr>, wrt := Publishing i h p k\<rparr>))"
| insert_publishes: "wrt s = Publishing i h p k \<Longrightarrow>
    rw_step cmp K s (fail_or s (link_publish i (Some p) (prev (lst s)) (nodes (lst s))) (\<lambda>st.
      s\<lparr>lst := (lst s)\<lparr>nodes := st\<rparr>, wrt := Linking (Suc i) h p k,
        published := (if i = 0 then insert k (published s) else published s)\<rparr>))"
| insert_ends: "wrt s = Linking h h p k \<Longrightarrow>
    rw_step cmp K s (fail_or s (finish_insert (Some p) h (lst s)) (\<lambda>l. s\<lparr>lst := l, wrt := Quiet\<rparr>))"
| search_begins: "k \<in> K \<Longrightarrow>
    rw_step cmp K s (s\<lparr>rds := (rds s)(t := Searching k (Some (head (lst s)), GetMaxHeight (lst s) - 1, None) (published s))\<rparr>)"
| search_turn: "rds s t = Searching k v b \<Longrightarrow>
    rw_step cmp K s (fail_or s (greater_or_equal_turn cmp k (lst s) v) (\<lambda>r.
      s\<lparr>rds := (rds s)(t := (case r of Inl v' \<Rightarrow> Searching k v' b | Inr l \<Rightarrow> Found k l b (published s)))\<rparr>))"

inductive rw_reach :: "('k \<Rightarrow> 'k \<Rightarrow> int) \<Rightarrow> 'k set \<Rightarrow> 'k shared \<Rightarrow> bool" for cmp K where
  start: "SkipList (Some p) True zero mh br st = Inr l \<Longrightarrow> 0 < mh \<Longrightarrow> mh < 2 ^ 16 \<Longrightarrow> 0 < br \<Longrightarrow> br < 2 ^ 16 \<Longrightarrow>
    rw_reach cmp K \<lparr>lst = l, wrt = Quiet, rds = (\<lambda>_. Idle), published = {}, failed = False\<rparr>"
| step: "rw_reach cmp K s \<Longrightarrow> rw_step cmp K s s' \<Longrightarrow> rw_reach cmp K s'"

subsection \<open>The invariant\<close>

definition mid_of ::
    "('k \<Rightarrow> 'k \<Rightarrow> int) \<Rightarrow> 'k set \<Rightarrow> 'k skiplist \<Rightarrow> nat list \<Rightarrow> nat list \<Rightarrow> nat \<Rightarrow> nat \<Rightarrow> nat \<Rightarrow> 'k \<Rightarrow> 'k skiplist \<Rightarrow> bool" where
  "mid_of cmp K s0 as bs i h p k l \<longleftrightarrow>
     sl_ok cmp K s0 (as @ bs) \<and> nodes s0 p = None \<and> all_below cmp (nodes s0) as k \<and>
     (\<forall>x \<in> set bs. 0 < cmp (keyr (nodes s0) x) k) \<and> k \<in> K \<and> i \<le> h \<and> 1 \<le> h \<and> h \<le> kMaxHeight s0 \<and>
     l = (mid_state s0 h (nodes l))\<lparr>prev := prev l\<rparr> \<and>
     linking i (pred s0 (linked (nodes s0)) as) p k h (nodes s0) (nodes l) \<and>
     links_behind (pred s0 (linked (nodes s0)) as) p h (prev l) (nodes s0) \<and> length (prev l) = kMaxHeight s0 \<and>
     (\<forall>j < max (max_height s0) h. prev l ! j = Some (pred s0 (linked (nodes s0)) as j))"

definition writer_ok :: "('k \<Rightarrow> 'k \<Rightarrow> int) \<Rightarrow> 'k set \<Rightarrow> 'k writer \<Rightarrow> 'k skiplist \<Rightarrow> nat list \<Rightarrow> (nat \<Rightarrow> nat \<Rightarrow> bool) \<Rightarrow> bool" where
  "writer_ok cmp K w l ns Q \<longleftrightarrow>
     (case w of
        Quiet \<Rightarrow> sl_ok cmp K l ns \<and> Q = linked (nodes l)
      | Linking i h p k \<Rightarrow> \<exists>s0 as bs. mid_of cmp K s0 as bs i h p k l \<and> ns = mid_nodes i p as bs \<and> Q = mid_linked i p (nodes s0)
      | Publishing i h p k \<Rightarrow> \<exists>s0 as bs. mid_of cmp K s0 as bs i h p k l \<and> ns = mid_nodes i p as bs \<and>
          Q = mid_linked i p (nodes s0) \<and> i < h \<and>
          Next (Some p) i (nodes l) = Next (Some (pred s0 (linked (nodes s0)) as i)) i (nodes s0))"

text \<open>A search that has answered has found the least of the keys that is not below the one sought.\<close>

definition least_from :: "('k \<Rightarrow> 'k \<Rightarrow> int) \<Rightarrow> 'k \<Rightarrow> 'k set \<Rightarrow> 'k nodes \<Rightarrow> link \<Rightarrow> bool" where
  "least_from cmp k a st x \<longleftrightarrow>
     (case x of
        None \<Rightarrow> \<forall>c \<in> a. cmp c k < 0
      | Some n \<Rightarrow> st n \<noteq> None \<and> keyr st n \<in> a \<and> 0 \<le> cmp (keyr st n) k \<and> (\<forall>c \<in> a. cmp c k < 0 \<or> cmp (keyr st n) c \<le> 0))"

definition reader_ok ::
    "('k \<Rightarrow> 'k \<Rightarrow> int) \<Rightarrow> 'k set \<Rightarrow> 'k skiplist \<Rightarrow> nat list \<Rightarrow> (nat \<Rightarrow> nat \<Rightarrow> bool) \<Rightarrow> 'k set \<Rightarrow> 'k reader \<Rightarrow> bool" where
  "reader_ok cmp K l ns Q pub r \<longleftrightarrow>
     (case r of
        Idle \<Rightarrow> True
      | Searching k (x, level, big) b \<Rightarrow> k \<in> K \<and> b \<subseteq> pub \<and>
          (\<exists>y. x = Some y \<and> (y = head l \<or> y \<in> set ns \<and> cmp (keyr (nodes l) y) k < 0) \<and> Q level y) \<and>
          level < max_height l \<and> (\<forall>z. big = Some z \<longrightarrow> z \<in> set ns \<and> 0 < cmp (keyr (nodes l) z) k)
      | Found k x b a \<Rightarrow> k \<in> K \<and> b \<subseteq> a \<and> a \<subseteq> pub \<and> (\<forall>n. x = Some n \<longrightarrow> n \<in> set ns) \<and> least_from cmp k a (nodes l) x)"

definition rw_inv :: "('k \<Rightarrow> 'k \<Rightarrow> int) \<Rightarrow> 'k set \<Rightarrow> 'k shared \<Rightarrow> bool" where
  "rw_inv cmp K s \<longleftrightarrow> \<not> failed s \<and>
     (\<exists>ns Q. links_ok cmp K (lst s) ns Q \<and> published s = keyr (nodes (lst s)) ` set ns \<and>
       writer_ok cmp K (wrt s) (lst s) ns Q \<and> (\<forall>t. reader_ok cmp K (lst s) ns Q (published s) (rds s t)))"

text \<open>Readers are not disturbed when nodes are added and links get more.\<close>

definition grown ::
    "'k skiplist \<Rightarrow> nat list \<Rightarrow> (nat \<Rightarrow> nat \<Rightarrow> bool) \<Rightarrow> 'k skiplist \<Rightarrow> nat list \<Rightarrow> (nat \<Rightarrow> nat \<Rightarrow> bool) \<Rightarrow> bool" where
  "grown l ns Q l' ns' Q' \<longleftrightarrow> head l' = head l \<and> max_height l \<le> max_height l' \<and> set ns \<subseteq> set ns' \<and>
     (\<forall>x \<in> set ns. keyr (nodes l') x = keyr (nodes l) x \<and> nodes l' x \<noteq> None) \<and>
     (\<forall>i. \<forall>x \<in> set (head l # ns). Q i x \<longrightarrow> Q' i x)"

lemma reader_ok_grown:
  assumes g: "grown l ns Q l' ns' Q'" and "pub \<subseteq> pub'" and r: "reader_ok cmp K l ns Q pub r"
  shows "reader_ok cmp K l' ns' Q' pub' r"
proof (cases r)
  case (Searching k v b)
  obtain x level big where v: "v = (x, level, big)" by (cases v)
  from r Searching v obtain y where y: "x = Some y" "y = head l \<or> y \<in> set ns \<and> cmp (keyr (nodes l) y) k < 0" "Q level y"
    "k \<in> K" "b \<subseteq> pub" "level < max_height l" "\<forall>z. big = Some z \<longrightarrow> z \<in> set ns \<and> 0 < cmp (keyr (nodes l) z) k"
    by (auto simp: reader_ok_def)
  then have "Q' level y" "y = head l' \<or> y \<in> set ns' \<and> cmp (keyr (nodes l') y) k < 0"
    "\<forall>z. big = Some z \<longrightarrow> z \<in> set ns' \<and> 0 < cmp (keyr (nodes l') z) k" "level < max_height l'"
    using g by (auto simp: grown_def)
  with y Searching v assms(2) show ?thesis by (auto simp: reader_ok_def)
next
  case (Found k x b a)
  with r have f: "k \<in> K" "b \<subseteq> a" "a \<subseteq> pub" "\<forall>n. x = Some n \<longrightarrow> n \<in> set ns" "least_from cmp k a (nodes l) x"
    by (auto simp: reader_ok_def)
  then have "least_from cmp k a (nodes l') x" "\<forall>n. x = Some n \<longrightarrow> n \<in> set ns'"
    using g by (auto simp: least_from_def grown_def split: option.splits)
  with f Found assms(2) show ?thesis by (auto simp: reader_ok_def)
qed (simp add: reader_ok_def)

lemma mid_of_store:
  assumes m: "mid_of cmp K s0 as bs i h p k l" and lk: "linking j (pred s0 (linked (nodes s0)) as) p k h (nodes s0) st" and j: "j \<le> h"
  shows "mid_of cmp K s0 as bs j h p k (l\<lparr>nodes := st\<rparr>)"
proof -
  have "l = (mid_state s0 h (nodes l))\<lparr>prev := prev l\<rparr>" using m unfolding mid_of_def by blast
  then have "l\<lparr>nodes := st\<rparr> = ((mid_state s0 h (nodes l))\<lparr>prev := prev l\<rparr>)\<lparr>nodes := st\<rparr>" by metis
  then have e: "l\<lparr>nodes := st\<rparr> = (mid_state s0 h st)\<lparr>prev := prev l\<rparr>" by (simp add: mid_state_def)
  show ?thesis unfolding mid_of_def
  proof (intro conjI)
    show "l\<lparr>nodes := st\<rparr> = (mid_state s0 h (nodes (l\<lparr>nodes := st\<rparr>)))\<lparr>prev := prev (l\<lparr>nodes := st\<rparr>)\<rparr>"
      using e by (simp add: mid_state_def)
    show "linking j (pred s0 (linked (nodes s0)) as) p k h (nodes s0) (nodes (l\<lparr>nodes := st\<rparr>))" using lk by simp
    show "j \<le> h" by (rule j)
    have p: "prev (l\<lparr>nodes := st\<rparr>) = prev l" by simp
    show "links_behind (pred s0 (linked (nodes s0)) as) p h (prev (l\<lparr>nodes := st\<rparr>)) (nodes s0)"
      "length (prev (l\<lparr>nodes := st\<rparr>)) = kMaxHeight s0"
      "\<forall>j < max (max_height s0) h. prev (l\<lparr>nodes := st\<rparr>) ! j = Some (pred s0 (linked (nodes s0)) as j)"
      unfolding p using m unfolding mid_of_def by blast+
  qed (use m in \<open>unfold mid_of_def, blast\<close>)+
qed

lemma links_ok_prev: "links_ok cmp K (s\<lparr>prev := pv\<rparr>) ns Q = links_ok cmp K s ns Q"
  by (simp add: links_ok_def)

context key_order
begin

lemma mid_of_facts:
  assumes m: "mid_of cmp K s0 as bs i h p k l"
  shows "links_ok cmp K l (mid_nodes i p as bs) (mid_linked i p (nodes s0))"
    "head l = head s0" "max_height l = max (max_height s0) h" "keyr (nodes l) p = k"
    "\<forall>x \<in> set (as @ bs). keyr (nodes l) x = keyr (nodes s0) x \<and> hgt (nodes l) x = hgt (nodes s0) x \<and> nodes l x \<noteq> None"
    "nodes l p \<noteq> None" "p \<notin> set (head s0 # as @ bs)" "hgt (nodes l) p = h" "hgt (nodes l) (head s0) = hgt (nodes s0) (head s0)"
proof -
  let ?P = "pred s0 (linked (nodes s0)) as"
  from m have ok: "sl_ok cmp K s0 (as @ bs)" and new: "nodes s0 p = None" and low: "all_below cmp (nodes s0) as k"
    and above: "\<forall>x \<in> set bs. 0 < cmp (keyr (nodes s0) x) k" and k: "k \<in> K"
    and lk: "linking i ?P p k h (nodes s0) (nodes l)" and h: "i \<le> h" "h \<le> kMaxHeight s0"
    and l: "l = (mid_state s0 h (nodes l))\<lparr>prev := prev l\<rparr>" by (auto simp: mid_of_def)
  have "links_ok cmp K ((mid_state s0 h (nodes l))\<lparr>prev := prev l\<rparr>) (mid_nodes i p as bs) (mid_linked i p (nodes s0))"
    unfolding links_ok_prev by (rule linking_links_ok [OF ok new low above k lk h]) simp
  with l show "links_ok cmp K l (mid_nodes i p as bs) (mid_linked i p (nodes s0))" by simp
  show "head l = head s0" by (subst l) (simp add: mid_state_def)
  show "max_height l = max (max_height s0) h" by (subst l) (simp add: mid_state_def)
  show "p \<notin> set (head s0 # as @ bs)" by (rule sl_ok_fresh [OF ok new])
  note so = linking_sorted [OF ok new low above k lk]
  show "keyr (nodes l) p = k" "nodes l p \<noteq> None" "hgt (nodes l) p = h"
    "hgt (nodes l) (head s0) = hgt (nodes s0) (head s0)"
    "\<forall>x \<in> set (as @ bs). keyr (nodes l) x = keyr (nodes s0) x \<and> hgt (nodes l) x = hgt (nodes s0) x \<and> nodes l x \<noteq> None"
    by (fact so)+
qed

lemma turn_ok:
  assumes ok: "links_ok cmp K l ns Q" and pub: "pub = keyr (nodes l) ` set ns"
    and r: "reader_ok cmp K l ns Q pub (Searching k v b)"
  shows "\<exists>r. greater_or_equal_turn cmp k l v = Inr r \<and>
    reader_ok cmp K l ns Q pub (case r of Inl v' \<Rightarrow> Searching k v' b | Inr x \<Rightarrow> Found k x b pub)"
proof -
  obtain x0 level big where v: "v = (x0, level, big)" by (cases v)
  with r obtain x where x: "v = (Some x, level, big)" "x = head l \<or> x \<in> set ns \<and> cmp (keyr (nodes l) x) k < 0" "Q level x"
    and k: "k \<in> K" and b: "b \<subseteq> pub" and lv: "level < max_height l"
    and big: "\<And>z. big = Some z \<Longrightarrow> z \<in> set ns \<and> 0 < cmp (keyr (nodes l) z) k" by (auto simp: reader_ok_def)
  from split_links [OF ok k] obtain as bs where ns: "ns = as @ bs" and low: "all_below cmp (nodes l) as k"
    and high: "none_below cmp (nodes l) bs k" by blast
  have ok': "links_ok cmp K l (as @ bs) Q" using ok ns by simp
  have "x \<in> set (head l # as)" using x(2) ns high by (auto simp: none_below_def)
  then obtain u w where "head l # as = u @ x # w" by (meson split_list)
  with x(3) lv have at: "stands_at l Q as level x w" by (auto simp: stands_at_def)
  have big': "z \<in> set bs \<and> 0 < cmp (keyr (nodes l) z) k" if "big = Some z" for z
    using big [OF that] low ns by (auto simp: all_below_def)
  from greater_or_equal_turn_step [OF ok' low high k at big'] show ?thesis
  proof
    assume "\<exists>y level' big' v'. greater_or_equal_turn cmp k l (Some x, level, big) = Inr (Inl (Some y, level', big')) \<and>
      stands_at l Q as level' y v' \<and> length v' + level' < length w + level \<and>
      (\<forall>z. big' = Some z \<longrightarrow> z \<in> set bs \<and> 0 < cmp (keyr (nodes l) z) k)"
    then obtain y level' big' v' where t: "greater_or_equal_turn cmp k l v = Inr (Inl (Some y, level', big'))"
      "stands_at l Q as level' y v'" "\<forall>z. big' = Some z \<longrightarrow> z \<in> set bs \<and> 0 < cmp (keyr (nodes l) z) k"
      using x(1) by blast
    have "y = head l \<or> y \<in> set as" by (rule stands_at_cases [OF t(2)])
    with t k b low ns show ?thesis by (auto simp: reader_ok_def stands_at_def all_below_def)
  next
    assume t: "greater_or_equal_turn cmp k l (Some x, level, big) = Inr (Inr (first bs))"
    have "least_from cmp k pub (nodes l) (first bs)"
    proof (cases bs)
      case Nil
      with low show ?thesis by (auto simp: least_from_def pub ns all_below_def)
    next
      case (Cons y ys)
      have keys: "keyr (nodes l) y \<in> K" "nodes l y \<noteq> None" using links_ok_keys [OF ok', of y] Cons by auto
      have "sorted_wrt (\<lambda>x y. cmp (keyr (nodes l) x) (keyr (nodes l) y) < 0) (as @ bs)"
        using ok' unfolding links_ok_def by blast
      then have "\<forall>z \<in> set ys. cmp (keyr (nodes l) y) (keyr (nodes l) z) < 0" using Cons by (simp add: sorted_wrt_append)
      with Cons keys high low cmp_refl [OF keys(1)] show ?thesis
        by (auto simp: least_from_def pub ns all_below_def none_below_def less_imp_le)
    qed
    moreover have "\<forall>n. first bs = Some n \<longrightarrow> n \<in> set ns" using ns by (cases bs) auto
    ultimately show ?thesis using t x(1) k b by (auto simp: reader_ok_def)
  qed
qed

lemma rw_invI:
  "\<not> failed s \<Longrightarrow> links_ok cmp K (lst s) ns Q \<Longrightarrow> published s = keyr (nodes (lst s)) ` set ns \<Longrightarrow>
     writer_ok cmp K (wrt s) (lst s) ns Q \<Longrightarrow> (\<And>t. reader_ok cmp K (lst s) ns Q (published s) (rds s t)) \<Longrightarrow> rw_inv cmp K s"
  unfolding rw_inv_def by blast

lemma rw_inv_grown:
  assumes "\<not> failed s" "links_ok cmp K l' ns' Q'" "pub' = keyr (nodes l') ` set ns'" "writer_ok cmp K w' l' ns' Q'"
    and "grown (lst s) ns Q l' ns' Q'" "published s \<subseteq> pub'"
    and "\<forall>t. reader_ok cmp K (lst s) ns Q (published s) (rds s t)"
  shows "rw_inv cmp K (s\<lparr>lst := l', wrt := w', published := pub'\<rparr>)"
  by (rule rw_invI [of _ ns' Q']) (use assms reader_ok_grown [OF assms(5,6)] in simp_all)

lemma begin_inv:
  assumes inv: "rw_inv cmp K s" and w: "wrt s = Quiet" and k: "k \<in> K" and new: "nodes (lst s) p = None"
    and fresh: "\<forall>a \<in> published s. cmp a k \<noteq> 0"
  shows "\<exists>pv h l. find_prev cmp k (lst s) = Some (Inr pv) \<and> prepare_insert cmp draws (Some p) k pv (lst s) = Inr (h, l) \<and>
    rw_inv cmp K (s\<lparr>lst := l, wrt := Linking 0 h p k\<rparr>)"
proof -
  let ?s0 = "lst s"
  from inv w obtain ns where ok: "sl_ok cmp K ?s0 ns" and pub: "published s = keyr (nodes ?s0) ` set ns"
    and rd: "\<forall>t. reader_ok cmp K ?s0 ns (linked (nodes ?s0)) (published s) (rds s t)" and nf: "\<not> failed s"
    by (auto simp: rw_inv_def writer_ok_def)
  from split_keys [OF ok k] obtain as bs where ns: "ns = as @ bs" and low: "all_below cmp (nodes ?s0) as k"
    and high: "none_below cmp (nodes ?s0) bs k" by blast
  have ok': "sl_ok cmp K ?s0 (as @ bs)" using ok ns by simp
  have above: "\<forall>x \<in> set bs. 0 < cmp (keyr (nodes ?s0) x) k"
    using high fresh by (auto simp: pub ns none_below_def order_le_less)
  from insert_preds [OF ok' low high k] obtain pv where pv: "preds_of ?s0 as pv" "find_prev cmp k ?s0 = Some (Inr pv)" by blast
  from prepare_total [OF ok' new low above k pv(1), of draws] obtain h pv1 st1 where
    pr: "prepare_insert cmp draws (Some p) k pv ?s0 = Inr (h, (mid_state ?s0 h st1)\<lparr>prev := pv1\<rparr>)"
    and m: "1 \<le> h" "h \<le> kMaxHeight ?s0" "linking 0 (pred ?s0 (linked (nodes ?s0)) as) p k h (nodes ?s0) st1"
      "links_behind (pred ?s0 (linked (nodes ?s0)) as) p h pv1 (nodes ?s0)" "length pv1 = kMaxHeight ?s0"
      "\<forall>l < max (max_height ?s0) h. pv1 ! l = Some (pred ?s0 (linked (nodes ?s0)) as l)" by blast
  define l where "l = (mid_state ?s0 h st1)\<lparr>prev := pv1\<rparr>"
  have l: "nodes l = st1" "prev l = pv1" by (simp_all add: l_def mid_state_def)
  have mid: "mid_of cmp K ?s0 as bs 0 h p k l"
    unfolding mid_of_def using ok' new low above k m l by (simp add: l_def)
  note f = mid_of_facts [OF mid]
  have "rw_inv cmp K (s\<lparr>lst := l, wrt := Linking 0 h p k, published := published s\<rparr>)"
  proof (rule rw_inv_grown [OF nf f(1) _ _ _ subset_refl rd])
    show "published s = keyr (nodes l) ` set (mid_nodes 0 p as bs)"
      using f(5) by (auto simp: pub ns mid_nodes_def)
    show "writer_ok cmp K (Linking 0 h p k) l (mid_nodes 0 p as bs) (mid_linked 0 p (nodes ?s0))"
      unfolding writer_ok_def using mid by auto
    show "grown ?s0 ns (linked (nodes ?s0)) l (mid_nodes 0 p as bs) (mid_linked 0 p (nodes ?s0))"
      using f(2,3,5,7) by (auto simp: grown_def ns mid_nodes_def mid_linked_def linked_def)
  qed
  with pr pv(2) show ?thesis by (auto simp: l_def)
qed

lemma own_inv:
  assumes inv: "rw_inv cmp K s" and w: "wrt s = Linking i h p k" and i: "i < h"
  shows "\<exists>st. link_own i (Some p) (prev (lst s)) (nodes (lst s)) = Inr st \<and>
    rw_inv cmp K (s\<lparr>lst := (lst s)\<lparr>nodes := st\<rparr>, wrt := Publishing i h p k\<rparr>)"
proof -
  let ?l = "lst s"
  from inv w obtain s0 as bs where mid: "mid_of cmp K s0 as bs i h p k ?l"
    and pub: "published s = keyr (nodes ?l) ` set (mid_nodes i p as bs)"
    and rd: "\<forall>t. reader_ok cmp K ?l (mid_nodes i p as bs) (mid_linked i p (nodes s0)) (published s) (rds s t)" and nf: "\<not> failed s"
    by (auto simp: rw_inv_def writer_ok_def)
  let ?P = "pred s0 (linked (nodes s0)) as"
  from mid have lk: "linking i ?P p k h (nodes s0) (nodes ?l)" and lb: "links_behind ?P p h (prev ?l) (nodes s0)"
    by (auto simp: mid_of_def)
  from lb i obtain n where n: "?P i \<noteq> p" "Next (Some (?P i)) i (nodes s0) = Inr n" "i < length (prev ?l)" "prev ?l ! i = Some (?P i)"
    by (auto simp: links_behind_def)
  from linking_own [OF lk i n] obtain st where st: "link_own i (Some p) (prev ?l) (nodes ?l) = Inr st"
    "linking i ?P p k h (nodes s0) st" "Next (Some p) i st = Inr n" by blast
  let ?l' = "?l\<lparr>nodes := st\<rparr>"
  from mid_of_store [OF mid st(2)] i have mid': "mid_of cmp K s0 as bs i h p k ?l'" by simp
  note f = mid_of_facts [OF mid] and f' = mid_of_facts [OF mid']
  have "rw_inv cmp K (s\<lparr>lst := ?l', wrt := Publishing i h p k, published := published s\<rparr>)"
  proof (rule rw_inv_grown [OF nf f'(1) _ _ _ subset_refl rd])
    show "published s = keyr (nodes ?l') ` set (mid_nodes i p as bs)"
      using f(4,5) f'(4,5) by (auto simp: pub mid_nodes_def)
    show "writer_ok cmp K (Publishing i h p k) ?l' (mid_nodes i p as bs) (mid_linked i p (nodes s0))"
      unfolding writer_ok_def writer.case using mid' i st(3) n(2)
      by (intro exI [of _ s0] exI [of _ as] exI [of _ bs]) simp
    show "grown ?l (mid_nodes i p as bs) (mid_linked i p (nodes s0)) ?l' (mid_nodes i p as bs) (mid_linked i p (nodes s0))"
      using f(4,5) f'(4,5,6) by (auto simp: grown_def mid_nodes_def)
  qed
  with st(1) show ?thesis by auto
qed

lemma publish_inv:
  assumes inv: "rw_inv cmp K s" and w: "wrt s = Publishing i h p k"
  shows "\<exists>st. link_publish i (Some p) (prev (lst s)) (nodes (lst s)) = Inr st \<and>
    rw_inv cmp K (s\<lparr>lst := (lst s)\<lparr>nodes := st\<rparr>, wrt := Linking (Suc i) h p k,
      published := (if i = 0 then insert k (published s) else published s)\<rparr>)"
proof -
  let ?l = "lst s"
  from inv w obtain s0 as bs where mid: "mid_of cmp K s0 as bs i h p k ?l" and i: "i < h"
    and pub: "published s = keyr (nodes ?l) ` set (mid_nodes i p as bs)"
    and own: "Next (Some p) i (nodes ?l) = Next (Some (pred s0 (linked (nodes s0)) as i)) i (nodes s0)"
    and rd: "\<forall>t. reader_ok cmp K ?l (mid_nodes i p as bs) (mid_linked i p (nodes s0)) (published s) (rds s t)" and nf: "\<not> failed s"
    by (auto simp: rw_inv_def writer_ok_def)
  let ?P = "pred s0 (linked (nodes s0)) as"
  from mid have lk: "linking i ?P p k h (nodes s0) (nodes ?l)" and lb: "links_behind ?P p h (prev ?l) (nodes s0)"
    by (auto simp: mid_of_def)
  from lb i obtain n where n: "?P i \<noteq> p" "Next (Some (?P i)) i (nodes s0) = Inr n" "i < length (prev ?l)" "prev ?l ! i = Some (?P i)"
    by (auto simp: links_behind_def)
  from linking_publish [OF lk _ n] own n(2) obtain st where st: "link_publish i (Some p) (prev ?l) (nodes ?l) = Inr st"
    "linking (Suc i) ?P p k h (nodes s0) st" by auto
  let ?l' = "?l\<lparr>nodes := st\<rparr>" and ?pub = "if i = 0 then insert k (published s) else published s"
  from mid_of_store [OF mid st(2)] i have mid': "mid_of cmp K s0 as bs (Suc i) h p k ?l'" by simp
  note f = mid_of_facts [OF mid] and f' = mid_of_facts [OF mid']
  have "rw_inv cmp K (s\<lparr>lst := ?l', wrt := Linking (Suc i) h p k, published := ?pub\<rparr>)"
  proof (rule rw_inv_grown [OF nf f'(1) _ _ _ _ rd])
    show "?pub = keyr (nodes ?l') ` set (mid_nodes (Suc i) p as bs)"
      using f(4,5) f'(4,5) by (auto simp: pub mid_nodes_def)
    show "writer_ok cmp K (Linking (Suc i) h p k) ?l' (mid_nodes (Suc i) p as bs) (mid_linked (Suc i) p (nodes s0))"
      unfolding writer_ok_def using mid' by auto
    show "grown ?l (mid_nodes i p as bs) (mid_linked i p (nodes s0)) ?l' (mid_nodes (Suc i) p as bs) (mid_linked (Suc i) p (nodes s0))"
      using f(4,5) f'(4,5,6) by (auto simp: grown_def mid_nodes_def mid_linked_def)
  qed auto
  with st(1) show ?thesis by auto
qed

lemma end_inv:
  assumes inv: "rw_inv cmp K s" and w: "wrt s = Linking h h p k"
  shows "\<exists>l. finish_insert (Some p) h (lst s) = Inr l \<and> rw_inv cmp K (s\<lparr>lst := l, wrt := Quiet\<rparr>)"
proof -
  let ?l = "lst s"
  from inv w obtain s0 as bs where mid: "mid_of cmp K s0 as bs h h p k ?l"
    and pub: "published s = keyr (nodes ?l) ` set (mid_nodes h p as bs)"
    and rd: "\<forall>t. reader_ok cmp K ?l (mid_nodes h p as bs) (mid_linked h p (nodes s0)) (published s) (rds s t)" and nf: "\<not> failed s"
    by (auto simp: rw_inv_def writer_ok_def)
  from mid have ok: "sl_ok cmp K s0 (as @ bs)" and new: "nodes s0 p = None" and low: "all_below cmp (nodes s0) as k"
    and above: "\<forall>x \<in> set bs. 0 < cmp (keyr (nodes s0) x) k" and k: "k \<in> K"
    and lk: "linking h (pred s0 (linked (nodes s0)) as) p k h (nodes s0) (nodes ?l)" and h: "1 \<le> h" "h \<le> kMaxHeight s0"
    and l: "?l = (mid_state s0 h (nodes ?l))\<lparr>prev := prev ?l\<rparr>" and pv: "length (prev ?l) = kMaxHeight s0"
      "\<forall>j < max (max_height s0) h. prev ?l ! j = Some (pred s0 (linked (nodes s0)) as j)"
    unfolding mid_of_def by blast+
  from finish_ok [OF ok new low above k lk h pv] l obtain l' where l': "finish_insert (Some p) h ?l = Inr l'"
    "sl_ok cmp K l' (as @ p # bs)" "nodes l' = nodes ?l" "head l' = head s0" by auto
  have m: "max_height l' = max_height ?l" using l'(1) by (auto simp: finish_insert_def split: if_splits)
  have ns: "mid_nodes h p as bs = as @ p # bs" using h by (simp add: mid_nodes_def)
  note f = mid_of_facts [OF mid]
  have "rw_inv cmp K (s\<lparr>lst := l', wrt := Quiet, published := published s\<rparr>)"
  proof (rule rw_inv_grown [OF nf sl_ok_links [OF l'(2)] _ _ _ subset_refl rd])
    show "published s = keyr (nodes l') ` set (as @ p # bs)" using pub ns l'(3) by simp
    show "writer_ok cmp K Quiet l' (as @ p # bs) (linked (nodes l'))" using l'(2) by (simp add: writer_ok_def)
    show "grown ?l (mid_nodes h p as bs) (mid_linked h p (nodes s0)) l' (as @ p # bs) (linked (nodes l'))"
      using f(2,5,6,7,8,9) l'(3,4) m ns by (auto simp: grown_def mid_linked_def linked_def)
  qed
  with l'(1) show ?thesis by auto
qed

lemma rw_step_inv: "rw_step cmp K s s' \<Longrightarrow> rw_inv cmp K s \<Longrightarrow> rw_inv cmp K s'"
proof (induction rule: rw_step.induct)
  case (insert_begins s k p r draws)
  from begin_inv [OF insert_begins(6,1-4), of draws] insert_begins(5) show ?case by (auto simp: fail_or_def)
next
  case (insert_own s i h p k)
  from own_inv [OF insert_own(3,1,2)] show ?case by (auto simp: fail_or_def)
next
  case (insert_publishes s i h p k)
  from publish_inv [OF insert_publishes(2,1)] show ?case by (auto simp: fail_or_def)
next
  case (insert_ends s h p k)
  from end_inv [OF insert_ends(2,1)] show ?case by (auto simp: fail_or_def)
next
  case (search_begins k s t)
  from search_begins(2) obtain ns Q where i: "\<not> failed s" "links_ok cmp K (lst s) ns Q" "published s = keyr (nodes (lst s)) ` set ns"
    "writer_ok cmp K (wrt s) (lst s) ns Q" "\<forall>t. reader_ok cmp K (lst s) ns Q (published s) (rds s t)"
    unfolding rw_inv_def by blast
  have "Q (max_height (lst s) - 1) (head (lst s))" "max_height (lst s) - 1 < max_height (lst s)"
    using i(2) by (auto simp: links_ok_def)
  then have "reader_ok cmp K (lst s) ns Q (published s)
      (Searching k (Some (head (lst s)), GetMaxHeight (lst s) - 1, None) (published s))"
    using search_begins(1) by (simp add: reader_ok_def GetMaxHeight_def)
  with i show ?case by (intro rw_invI [of _ ns Q]) simp_all
next
  case (search_turn s t k v b)
  from search_turn(2) obtain ns Q where i: "\<not> failed s" "links_ok cmp K (lst s) ns Q" "published s = keyr (nodes (lst s)) ` set ns"
    "writer_ok cmp K (wrt s) (lst s) ns Q" "\<forall>t. reader_ok cmp K (lst s) ns Q (published s) (rds s t)"
    unfolding rw_inv_def by blast
  have "reader_ok cmp K (lst s) ns Q (published s) (Searching k v b)" using i(5) search_turn(1) by metis
  from turn_ok [OF i(2,3) this] obtain r where r: "greater_or_equal_turn cmp k (lst s) v = Inr r"
    "reader_ok cmp K (lst s) ns Q (published s) (case r of Inl v' \<Rightarrow> Searching k v' b | Inr x \<Rightarrow> Found k x b (published s))" by blast
  define r' where "r' = (case r of Inl v' \<Rightarrow> Searching k v' b | Inr x \<Rightarrow> Found k x b (published s))"
  have "rw_inv cmp K (s\<lparr>rds := (rds s)(t := r')\<rparr>)"
    by (rule rw_invI [of _ ns Q]) (use i r(2) in \<open>simp_all add: r'_def\<close>)
  with r(1) show ?case by (simp add: fail_or_def r'_def)
qed

lemma rw_reach_inv: "rw_reach cmp K s \<Longrightarrow> rw_inv cmp K s"
proof (induction rule: rw_reach.induct)
  case (start p zero mh br st l)
  from SkipList_total [OF start(2-5), where p = p and zero = zero and st = st and cmp = cmp and K = K] start(1)
  have "sl_ok cmp K l []" by auto
  then show ?case by (intro rw_invI [of _ "[]" "linked (nodes l)"]) (simp_all add: sl_ok_links writer_ok_def reader_ok_def)
qed (rule rw_step_inv)

text \<open>A search that is left alone ends, wherever the writer has stopped.\<close>

lemma search_alone:
  assumes ok: "links_ok cmp K l (as @ bs) Q" and low: "all_below cmp (nodes l) as k" and high: "none_below cmp (nodes l) bs k"
    and k: "k \<in> K"
  shows "stands_at l Q as level x v \<Longrightarrow> (\<And>z. big = Some z \<Longrightarrow> z \<in> set bs \<and> 0 < cmp (keyr (nodes l) z) k) \<Longrightarrow>
    lst s = l \<Longrightarrow> rds s t = Searching k (Some x, level, big) b \<Longrightarrow>
    \<exists>s' y. (rw_step cmp K)\<^sup>*\<^sup>* s s' \<and> rds s' t = Found k y b (published s) \<and> lst s' = l \<and> published s' = published s"
proof (induction "length v + level" arbitrary: x level big v s rule: less_induct)
  case less
  from greater_or_equal_turn_step [OF ok low high k less.prems(1,2)] show ?case
  proof
    assume "\<exists>y level' big' v'. greater_or_equal_turn cmp k l (Some x, level, big) = Inr (Inl (Some y, level', big')) \<and>
      stands_at l Q as level' y v' \<and> length v' + level' < length v + level \<and>
      (\<forall>z. big' = Some z \<longrightarrow> z \<in> set bs \<and> 0 < cmp (keyr (nodes l) z) k)"
    then obtain y level' big' v' where t: "greater_or_equal_turn cmp k l (Some x, level, big) = Inr (Inl (Some y, level', big'))"
      "stands_at l Q as level' y v'" "length v' + level' < length v + level"
      "\<And>z. big' = Some z \<Longrightarrow> z \<in> set bs \<and> 0 < cmp (keyr (nodes l) z) k" by blast
    define s1 where "s1 = s\<lparr>rds := (rds s)(t := Searching k (Some y, level', big') b)\<rparr>"
    have st: "rw_step cmp K s s1"
      using rw_step.search_turn [OF less.prems(4), of cmp K] less.prems(3) t(1) by (simp add: fail_or_def s1_def)
    have s1: "lst s1 = l" "rds s1 t = Searching k (Some y, level', big') b" "published s1 = published s"
      using less.prems(3) by (simp_all add: s1_def)
    from less.hyps [OF t(3,2,4) s1(1,2)] s1(3) obtain s' z where run: "(rw_step cmp K)\<^sup>*\<^sup>* s1 s'" and "rds s' t = Found k z b (published s)"
      "lst s' = l" "published s' = published s" by auto
    moreover from st run have "(rw_step cmp K)\<^sup>*\<^sup>* s s'" by (rule converse_rtranclp_into_rtranclp)
    ultimately show ?thesis by blast
  next
    assume t: "greater_or_equal_turn cmp k l (Some x, level, big) = Inr (Inr (first bs))"
    define s1 where "s1 = s\<lparr>rds := (rds s)(t := Found k (first bs) b (published s))\<rparr>"
    have "rw_step cmp K s s1"
      using rw_step.search_turn [OF less.prems(4), of cmp K] less.prems(3) t by (simp add: fail_or_def s1_def)
    moreover have "rds s1 t = Found k (first bs) b (published s)" "lst s1 = l" "published s1 = published s"
      using less.prems(3) by (simp_all add: s1_def)
    ultimately show ?thesis by blast
  qed
qed

lemma search_ends:
  assumes inv: "rw_inv cmp K s" and r: "rds s t = Searching k v b"
  shows "\<exists>s' y. (rw_step cmp K)\<^sup>*\<^sup>* s s' \<and> rds s' t = Found k y b (published s) \<and> lst s' = lst s \<and> published s' = published s"
proof -
  obtain x0 level big where v: "v = (x0, level, big)" by (cases v)
  from inv obtain ns Q where ok: "links_ok cmp K (lst s) ns Q" and rd: "reader_ok cmp K (lst s) ns Q (published s) (rds s t)"
    unfolding rw_inv_def by blast
  from rd r v obtain x where x: "v = (Some x, level, big)" "x = head (lst s) \<or> x \<in> set ns \<and> cmp (keyr (nodes (lst s)) x) k < 0" "Q level x"
    and k: "k \<in> K" and lv: "level < max_height (lst s)"
    and big: "\<And>z. big = Some z \<Longrightarrow> z \<in> set ns \<and> 0 < cmp (keyr (nodes (lst s)) z) k" by (auto simp: reader_ok_def)
  from split_links [OF ok k] obtain as bs where ns: "ns = as @ bs" and low: "all_below cmp (nodes (lst s)) as k"
    and high: "none_below cmp (nodes (lst s)) bs k" by blast
  have ok': "links_ok cmp K (lst s) (as @ bs) Q" using ok ns by simp
  have "x \<in> set (head (lst s) # as)" using x(2) ns high by (auto simp: none_below_def)
  then obtain u w where "head (lst s) # as = u @ x # w" by (meson split_list)
  with x(3) lv have at: "stands_at (lst s) Q as level x w" by (auto simp: stands_at_def)
  have big': "z \<in> set bs \<and> 0 < cmp (keyr (nodes (lst s)) z) k" if "big = Some z" for z
    using big [OF that] low ns by (auto simp: all_below_def)
  from search_alone [OF ok' low high k at big' refl] r x(1) show ?thesis by simp
qed

end

lemma rw_reach_steps: "rw_reach cmp K s \<Longrightarrow> (rw_step cmp K)\<^sup>*\<^sup>* s s' \<Longrightarrow> rw_reach cmp K s'"
  by (rotate_tac, induction rule: rtranclp_induct) (auto intro: rw_reach.step)

subsection \<open>Properties\<close>


text \<open>
  Searches do not wait for the writer: wherever it has stopped, in the middle of an insertion or
  not, a search that is running gets to its answer by its own steps alone.
\<close>

theorem skiplist_search_finishes:
  assumes "key_order cmp K" "rw_reach cmp K s" "rds s t = Searching k v b"
  shows "\<exists>s' x. (rw_step cmp K)\<^sup>*\<^sup>* s s' \<and> rds s' t = Found k x b (published s) \<and> lst s' = lst s"
  using key_order.search_ends [OF assms(1) key_order.rw_reach_inv [OF assms(1,2)] assms(3)] by blast

text \<open>For the witnesses: key 9 has just been published, its insertion is not finished, and a search has begun.\<close>

lemma half_inserted:
  "\<exists>s h p v. rw_reach int_compare half_ints s \<and> published s = {9} \<and> wrt s = Linking 1 h p 9 \<and> rds s 2 = Searching 5 v {9}"
proof -
  let ?none = "(\<lambda>_. None) :: int nodes"
  from SkipList_total [of 12 4 1 0 ?none int_compare half_ints] obtain l where l: "SkipList (Some 1) True 0 12 4 ?none = Inr l"
    "sl_ok int_compare half_ints l []" "\<forall>x. x \<noteq> 1 \<longrightarrow> shape (nodes l) x = shape ?none x" by auto
  define s0 :: "int shared" where "s0 = \<lparr>lst = l, wrt = Quiet, rds = (\<lambda>_. Idle), published = {}, failed = False\<rparr>"
  have r0: "rw_reach int_compare half_ints s0" unfolding s0_def by (rule rw_reach.start [OF l(1)]) simp_all
  have "shape (nodes l) 3 = None" using l(3) by (simp add: shape_def)
  then have n: "nodes (lst s0) 3 = None" by (simp add: shape_def s0_def)
  have k: "9 \<in> half_ints" by (simp add: half_ints_def)
  have w0: "wrt s0 = Quiet" "published s0 = {}" by (simp_all add: s0_def)
  from ints.begin_inv [OF ints.rw_reach_inv [OF r0] w0(1) k n, of "\<lambda>_. -1"] w0(2) obtain pv h l1 where
    b: "find_prev int_compare 9 (lst s0) = Some (Inr pv)" "prepare_insert int_compare (\<lambda>_. -1) (Some 3) 9 pv (lst s0) = Inr (h, l1)"
    "rw_inv int_compare half_ints (s0\<lparr>lst := l1, wrt := Linking 0 h 3 9\<rparr>)" by auto
  define s1 where "s1 = s0\<lparr>lst := l1, wrt := Linking 0 h 3 9\<rparr>"
  have w1: "wrt s1 = Linking 0 h 3 9" "published s1 = {}" "rw_inv int_compare half_ints s1" using b(3) by (simp_all add: s1_def s0_def)
  have r1: "rw_reach int_compare half_ints s1"
    using rw_step.insert_begins [OF w0(1) k n _ b(1), where draws = "\<lambda>_. -1"] b(2) w0(2)
    by (intro rw_reach.step [OF r0]) (simp add: fail_or_def s1_def)
  have h: "0 < h" using w1(1,3) by (auto simp: rw_inv_def writer_ok_def mid_of_def)
  from ints.own_inv [OF w1(3,1) h] obtain st where st: "link_own 0 (Some 3) (prev (lst s1)) (nodes (lst s1)) = Inr st"
    "rw_inv int_compare half_ints (s1\<lparr>lst := (lst s1)\<lparr>nodes := st\<rparr>, wrt := Publishing 0 h 3 9\<rparr>)" by blast
  define s2 where "s2 = s1\<lparr>lst := (lst s1)\<lparr>nodes := st\<rparr>, wrt := Publishing 0 h 3 9\<rparr>"
  have w2: "wrt s2 = Publishing 0 h 3 9" "published s2 = {}" "rw_inv int_compare half_ints s2" using st(2) w1(2) by (simp_all add: s2_def)
  have r2: "rw_reach int_compare half_ints s2"
    using rw_step.insert_own [OF w1(1) h] st(1) by (intro rw_reach.step [OF r1]) (simp add: fail_or_def s2_def)
  from ints.publish_inv [OF w2(3,1)] obtain st' where st': "link_publish 0 (Some 3) (prev (lst s2)) (nodes (lst s2)) = Inr st'" by blast
  define s3 where "s3 = s2\<lparr>lst := (lst s2)\<lparr>nodes := st'\<rparr>, wrt := Linking (Suc 0) h 3 9, published := {9}\<rparr>"
  have r3: "rw_reach int_compare half_ints s3"
    using rw_step.insert_publishes [OF w2(1)] st' w2(2) by (intro rw_reach.step [OF r2]) (simp add: fail_or_def s3_def)
  define s4 where "s4 = s3\<lparr>rds := (rds s3)(2 := Searching 5 (Some (head (lst s3)), GetMaxHeight (lst s3) - 1, None) (published s3))\<rparr>"
  have "rw_reach int_compare half_ints s4"
    using rw_step.search_begins [of 5 half_ints int_compare s3 2] by (intro rw_reach.step [OF r3]) (simp add: s4_def half_ints_def)
  moreover have "published s4 = {9}" "wrt s4 = Linking 1 h 3 9" by (simp_all add: s4_def s3_def)
  moreover have "rds s4 2 = Searching 5 (Some (head (lst s3)), GetMaxHeight (lst s3) - 1, None) {9}" by (simp add: s4_def s3_def)
  ultimately show ?thesis by blast
qed

theorem skiplist_search_finishes_witness:
  "\<exists>s s' h p x. rw_reach int_compare half_ints s \<and> wrt s = Linking 1 h p 9 \<and>
     (rw_step int_compare half_ints)\<^sup>*\<^sup>* s s' \<and> rds s' 2 = Found 5 x {9} {9}"
proof -
  obtain s h p v where s: "rw_reach int_compare half_ints s" "published s = {9}" "wrt s = Linking 1 h p 9" "rds s 2 = Searching 5 v {9}"
    using half_inserted by blast
  from skiplist_search_finishes [OF ints.key_order_axioms s(1,4)] s show ?thesis by metis
qed


end
