(* ===== verification/Mpsc.thy ===== *)
theory Mpsc
  imports Loops
begin

text \<open>
  The lock-free queues of \<^verbatim>\<open>queue_design-master/MPSCQueue.h\<close>, for any number of producers and one
  consumer. \<open>Enqueue\<close> takes two steps that others can see: it exchanges the head, and then it
  links the old head to the new node. In between the list is cut in two; the invariant is
  about such lists, whose missing links are those that some producer is still to store. Loads and
  stores are taken to be sequentially consistent. Node 0 is the null pointer.
\<close>

subsection \<open>Lists with missing links\<close>

text \<open>\<open>pend t = Some (x, y)\<close>: thread \<open>t\<close> is about to store \<open>y\<close> into the link of \<open>x\<close>.\<close>

definition link_ok :: "(nat \<Rightarrow> nat) \<Rightarrow> ('t \<Rightarrow> (nat \<times> nat) option) \<Rightarrow> nat \<Rightarrow> nat list \<Rightarrow> bool" where
  "link_ok nx pend x l \<longleftrightarrow>
     (case l of
        [] \<Rightarrow> nx x = 0 \<and> (\<forall>t y. pend t \<noteq> Some (x, y))
      | y # _ \<Rightarrow> nx x = y \<and> (\<forall>t z. pend t \<noteq> Some (x, z)) \<or>
          nx x = 0 \<and> (\<exists>t. pend t = Some (x, y) \<and> (\<forall>u z. pend u = Some (x, z) \<longrightarrow> u = t)))"

primrec chained :: "(nat \<Rightarrow> nat) \<Rightarrow> ('t \<Rightarrow> (nat \<times> nat) option) \<Rightarrow> nat list \<Rightarrow> bool" where
  "chained nx pend [] = True"
| "chained nx pend (x # l) = (link_ok nx pend x l \<and> chained nx pend l)"

definition queue_ok :: "(nat \<Rightarrow> nat) \<Rightarrow> ('t \<Rightarrow> (nat \<times> nat) option) \<Rightarrow> nat list \<Rightarrow> bool" where
  "queue_ok nx pend L \<longleftrightarrow> L \<noteq> [] \<and> distinct L \<and> 0 \<notin> set L \<and> chained nx pend L \<and>
     (\<forall>t x y. pend t = Some (x, y) \<longrightarrow> x \<in> set L)"

lemma link_ok_Nil: "link_ok nx pend x [] \<longleftrightarrow> nx x = 0 \<and> (\<forall>t y. pend t \<noteq> Some (x, y))"
  by (simp add: link_ok_def)

lemma link_ok_Cons: "link_ok nx pend x (y # l) \<longleftrightarrow>
    nx x = y \<and> (\<forall>t z. pend t \<noteq> Some (x, z)) \<or>
    nx x = 0 \<and> (\<exists>t. pend t = Some (x, y) \<and> (\<forall>u z. pend u = Some (x, z) \<longrightarrow> u = t))"
  by (simp add: link_ok_def)

lemma link_ok_append: "l \<noteq> [] \<Longrightarrow> link_ok nx pend x (l @ m) = link_ok nx pend x l"
  by (cases l) (simp_all add: link_ok_def)

lemma link_ok_cong:
  "nx' x = nx x \<Longrightarrow> (\<And>t z. pend' t = Some (x, z) \<longleftrightarrow> pend t = Some (x, z)) \<Longrightarrow> link_ok nx' pend' x l = link_ok nx pend x l"
  by (simp add: link_ok_def split: list.split)

lemma chained_cong:
  "\<forall>x \<in> set L. nx' x = nx x \<and> (\<forall>t z. pend' t = Some (x, z) \<longleftrightarrow> pend t = Some (x, z)) \<Longrightarrow> chained nx' pend' L = chained nx pend L"
proof (induction L)
  case (Cons x l)
  then have "link_ok nx' pend' x l = link_ok nx pend x l" by (intro link_ok_cong) auto
  with Cons show ?case by simp
qed simp

text \<open>A node that is not in the list may be written to.\<close>

lemma queue_ok_other: "queue_ok nx pend L \<Longrightarrow> a \<notin> set L \<Longrightarrow> queue_ok (nx(a := b)) pend L"
proof -
  assume q: "queue_ok nx pend L" and a: "a \<notin> set L"
  have "chained (nx(a := b)) pend L = chained nx pend L" using a by (intro chained_cong) auto
  with q show ?thesis by (simp add: queue_ok_def)
qed

text \<open>Exchanging the head appends a node and owes a link.\<close>

lemma chained_exchange:
  "chained nx pend L \<Longrightarrow> L \<noteq> [] \<Longrightarrow> distinct L \<Longrightarrow> nx a = 0 \<Longrightarrow> a \<notin> set L \<Longrightarrow> pend t = None \<Longrightarrow>
     \<forall>u z. pend u \<noteq> Some (a, z) \<Longrightarrow> chained nx (pend(t := Some (last L, a))) (L @ [a])"
proof (induction L)
  case (Cons x l)
  define pend' where "pend' = pend(t := Some (last (x # l), a))"
  have free: "pend u \<noteq> Some (a, z)" for u z using Cons.prems(7) by simp
  have last: "link_ok nx pend' a []"
    unfolding link_ok_Nil using Cons.prems(4,5) free last_in_set [of "x # l"] by (auto simp: pend'_def)
  show ?case
  proof (cases "l = []")
    case True
    have none: "pend u \<noteq> Some (x, z)" for u z using Cons.prems(1) True by (simp add: link_ok_Nil)
    have "link_ok nx pend' x [a]"
      unfolding link_ok_Cons using Cons.prems(1) True none by (auto simp: pend'_def link_ok_Nil)
    then have "chained nx pend' (x # l @ [a])" using True last by simp
    then show ?thesis unfolding pend'_def append.simps .
  next
    case False
    then have "x \<noteq> last (x # l)" using Cons.prems(3) last_in_set [of l] by auto
    then have "link_ok nx pend' x (l @ [a]) = link_ok nx pend x (l @ [a])"
      using Cons.prems(6) by (intro link_ok_cong) (auto simp: pend'_def)
    with False Cons.prems(1) have "link_ok nx pend' x (l @ [a])" by (simp add: link_ok_append)
    moreover have "chained nx pend' (l @ [a])"
    proof -
      have "chained nx (pend(t := Some (last l, a))) (l @ [a])" by (rule Cons.IH) (use Cons.prems False in simp_all)
      moreover have "pend' = pend(t := Some (last l, a))" using False unfolding pend'_def by simp
      ultimately show ?thesis by (simp only:)
    qed
    ultimately have "chained nx pend' (x # l @ [a])" by simp
    then show ?thesis unfolding pend'_def append.simps .
  qed
qed simp

lemma queue_ok_exchange:
  assumes "queue_ok nx pend L" "nx a = 0" "a \<notin> set L" "a \<noteq> 0" "pend t = None"
  shows "queue_ok nx (pend(t := Some (last L, a))) (L @ [a])"
proof -
  have "\<forall>u z. pend u \<noteq> Some (a, z)" using assms(1,3) unfolding queue_ok_def by blast
  with assms chained_exchange [of nx pend L a t] show ?thesis by (auto simp: queue_ok_def)
qed

text \<open>Storing the link pays it.\<close>

lemma chained_link:
  "chained nx pend L \<Longrightarrow> distinct L \<Longrightarrow> 0 \<notin> set L \<Longrightarrow> pend t = Some (p, a) \<Longrightarrow> chained (nx(p := a)) (pend(t := None)) L"
proof (induction L)
  case (Cons x l)
  have "link_ok (nx(p := a)) (pend(t := None)) x l"
  proof (cases "x = p")
    case True
    from Cons.prems(1,4) True obtain y ys where l: "l = y # ys" by (cases l) (auto simp: link_ok_def)
    have "link_ok nx pend p (y # ys)" using Cons.prems(1) l True by simp
    then obtain u where u: "pend u = Some (p, y)" and only: "\<And>v z. pend v = Some (p, z) \<Longrightarrow> v = u"
      unfolding link_ok_Cons using Cons.prems(4) by blast
    have "u = t" using only Cons.prems(4) by blast
    then have "y = a" using u Cons.prems(4) by simp
    moreover have "(pend(t := None)) v \<noteq> Some (p, z)" for v z using only [of v z] \<open>u = t\<close> by auto
    ultimately show ?thesis unfolding l True link_ok_Cons by simp
  next
    case False
    have "link_ok (nx(p := a)) (pend(t := None)) x l = link_ok nx pend x l"
      by (rule link_ok_cong) (use False Cons.prems(4) in auto)
    with Cons.prems(1) show ?thesis by simp
  qed
  moreover have "chained (nx(p := a)) (pend(t := None)) l"
  proof (rule Cons.IH)
    show "chained nx pend l" "distinct l" "0 \<notin> set l" using Cons.prems(1-3) by simp_all
  qed (rule Cons.prems(4))
  ultimately show ?case unfolding chained.simps ..
qed simp

lemma queue_ok_link: "queue_ok nx pend L \<Longrightarrow> pend t = Some (p, a) \<Longrightarrow> queue_ok (nx(p := a)) (pend(t := None)) L"
  using chained_link [of nx pend L t p a] by (auto simp: queue_ok_def split: if_splits)

text \<open>The consumer moves on over a link that is there.\<close>

lemma queue_ok_advance:
  assumes "queue_ok nx pend (x # l)" "nx x \<noteq> 0"
  shows "\<exists>l'. l = nx x # l' \<and> queue_ok nx pend l"
proof -
  from assms obtain y ys where l: "l = y # ys" by (cases l) (auto simp: queue_ok_def link_ok_def)
  have "link_ok nx pend x (y # ys)" using assms(1) l by (simp add: queue_ok_def)
  then have y: "nx x = y" and none: "\<And>t z. pend t \<noteq> Some (x, z)"
    unfolding link_ok_Cons using assms(2) by blast+
  have "\<forall>t u z. pend t = Some (u, z) \<longrightarrow> u \<in> set l"
    using assms(1) none unfolding queue_ok_def by (metis set_ConsD)
  with assms(1) l y show ?thesis by (simp add: queue_ok_def)
qed

lemma queue_ok_end: "queue_ok nx pend (x # l) \<Longrightarrow> nx x = 0 \<Longrightarrow> l = [] \<or> (\<exists>t y. pend t = Some (x, y))"
  by (cases l) (auto simp: queue_ok_def link_ok_def)

subsection \<open>MPSCQueueNonIntrusive\<close>

datatype producer =
    Away
  | Ready nat        \<comment> \<open>has a node of its own, at the exchange\<close>
  | Link nat nat     \<comment> \<open>at the store that links the old head to the node\<close>

fun pending :: "producer \<Rightarrow> (nat \<times> nat) option" where
  "pending (Link p a) = Some (p, a)"
| "pending _ = None"

record 'd nonintrusive =
  nxt :: "nat \<Rightarrow> nat"
  dat :: "nat \<Rightarrow> 'd option"
  alive :: "nat set"
  head :: nat
  tail :: nat

definition new_node :: "nat \<Rightarrow> 'd option \<Rightarrow> 'd nonintrusive \<Rightarrow> 'd nonintrusive" where
  "new_node a d q = q\<lparr>alive := insert a (alive q), dat := (dat q)(a := d), nxt := (nxt q)(a := 0)\<rparr>"

text \<open>The constructor, with the address \<open>new\<close> answers; the data of this first node stays unset.\<close>

definition mpsc_new :: "nat \<Rightarrow> 'd nonintrusive" where
  "mpsc_new a = \<lparr>nxt = (\<lambda>_. 0)(a := 0), dat = (\<lambda>_. None), alive = {a}, head = a, tail = a\<rparr>"

definition enqueue_exchange :: "nat \<Rightarrow> 'd nonintrusive \<Rightarrow> nat \<times> 'd nonintrusive" where
  "enqueue_exchange a q = (head q, q\<lparr>head := a\<rparr>)"

definition enqueue_link :: "nat \<Rightarrow> nat \<Rightarrow> 'd nonintrusive \<Rightarrow> fault + 'd nonintrusive" where
  "enqueue_link p a q = (if p \<in> alive q then Inr (q\<lparr>nxt := (nxt q)(p := a)\<rparr>) else Inl NullUse)"

definition mpsc_Enqueue :: "nat \<Rightarrow> 'd \<Rightarrow> 'd nonintrusive \<Rightarrow> fault + 'd nonintrusive" where
  "mpsc_Enqueue a d q =
     (let (p, q1) = enqueue_exchange a (new_node a (Some d) q) in enqueue_link p a q1)"

definition dequeue_load :: "'d nonintrusive \<Rightarrow> fault + nat" where
  "dequeue_load q = (if tail q \<in> alive q then Inr (nxt q (tail q)) else Inl NullUse)"

definition dequeue_take :: "nat \<Rightarrow> 'd nonintrusive \<Rightarrow> fault + ('d \<times> 'd nonintrusive)" where
  "dequeue_take n q =
     (if n \<in> alive q \<and> tail q \<in> alive q
      then (case dat q n of
              None \<Rightarrow> Inl NotInitialised
            | Some d \<Rightarrow> Inr (d, q\<lparr>tail := n, alive := alive q - {tail q}\<rparr>))
      else Inl NullUse)"

definition mpsc_Dequeue :: "'d nonintrusive \<Rightarrow> fault + ('d option \<times> 'd nonintrusive)" where
  "mpsc_Dequeue q =
     bindE (dequeue_load q) (\<lambda>n.
     if n = 0 then Inr (None, q)
     else bindE (dequeue_take n q) (\<lambda>(d, q'). Inr (Some d, q')))"

text \<open>The destructor: what is left is dequeued and deleted, then the last node is.\<close>

definition destroy_turn :: "'d nonintrusive \<times> 'd list \<Rightarrow> fault + ('d nonintrusive \<times> 'd list + 'd nonintrusive \<times> 'd list)" where
  "destroy_turn = (\<lambda>(q, gone). bindE (mpsc_Dequeue q) (\<lambda>(r, q').
     case r of None \<Rightarrow> Inr (Inr (q', gone)) | Some d \<Rightarrow> Inr (Inl (q', gone @ [d]))))"

definition mpsc_destroy :: "'d nonintrusive \<Rightarrow> (fault + ('d list \<times> nat set)) option" where
  "mpsc_destroy q =
     map_option (\<lambda>r. bindE r (\<lambda>(q', gone).
       if head q' \<in> alive q' then Inr (gone, alive q' - {head q'}) else Inl NullUse))
     (run_loop destroy_turn (q, []))"

subsection \<open>Producers and the consumer\<close>

record 'd mpsc =
  que :: "'d nonintrusive"
  prod :: "nat \<Rightarrow> producer"
  taking :: "nat option"     \<comment> \<open>the node the consumer has seen and is about to take\<close>
  pushed :: "'d list"        \<comment> \<open>in the order of the exchanges\<close>
  popped :: "'d list"
  broken :: bool

definition or_broken :: "'d mpsc \<Rightarrow> fault + 'a \<Rightarrow> ('a \<Rightarrow> 'd mpsc) \<Rightarrow> 'd mpsc" where
  "or_broken s r f = (case r of Inl e \<Rightarrow> s\<lparr>broken := True\<rparr> | Inr x \<Rightarrow> f x)"

inductive mpsc_step :: "'d mpsc \<Rightarrow> 'd mpsc \<Rightarrow> bool" where
  make: "prod s t = Away \<Longrightarrow> a \<noteq> 0 \<Longrightarrow> a \<notin> alive (que s) \<Longrightarrow>
    mpsc_step s (s\<lparr>que := new_node a (Some d) (que s), prod := (prod s)(t := Ready a)\<rparr>)"
| exchange: "prod s t = Ready a \<Longrightarrow> enqueue_exchange a (que s) = (p, q) \<Longrightarrow>
    mpsc_step s (s\<lparr>que := q, prod := (prod s)(t := Link p a), pushed := pushed s @ [the (dat (que s) a)]\<rparr>)"
| link: "prod s t = Link p a \<Longrightarrow>
    mpsc_step s (or_broken s (enqueue_link p a (que s)) (\<lambda>q. s\<lparr>que := q, prod := (prod s)(t := Away)\<rparr>))"
| look: "taking s = None \<Longrightarrow>
    mpsc_step s (or_broken s (dequeue_load (que s)) (\<lambda>n. s\<lparr>taking := (if n = 0 then None else Some n)\<rparr>))"
| take: "taking s = Some n \<Longrightarrow>
    mpsc_step s (or_broken s (dequeue_take n (que s)) (\<lambda>(d, q). s\<lparr>que := q, taking := None, popped := popped s @ [d]\<rparr>))"

inductive mpsc_reach :: "'d mpsc \<Rightarrow> bool" where
  start: "a \<noteq> 0 \<Longrightarrow> mpsc_reach \<lparr>que = mpsc_new a, prod = (\<lambda>_. Away), taking = None, pushed = [], popped = [], broken = False\<rparr>"
| step: "mpsc_reach s \<Longrightarrow> mpsc_step s s' \<Longrightarrow> mpsc_reach s'"

text \<open>
  The invariant: \<open>L\<close> are the nodes from the tail to the head. The first one's data is spent. Every
  node that is alive is one of them or in the hands of a producer.
\<close>

definition ready :: "(nat \<Rightarrow> producer) \<Rightarrow> nat set" where
  "ready pr = {a. \<exists>t. pr t = Ready a}"

definition ready_once :: "(nat \<Rightarrow> producer) \<Rightarrow> bool" where
  "ready_once pr \<longleftrightarrow> (\<forall>t u a. pr t = Ready a \<longrightarrow> pr u = Ready a \<longrightarrow> t = u)"

definition mpsc_ok :: "'d nonintrusive \<Rightarrow> (nat \<Rightarrow> producer) \<Rightarrow> nat list \<Rightarrow> bool" where
  "mpsc_ok q pr L \<longleftrightarrow> queue_ok (nxt q) (pending \<circ> pr) L \<and> hd L = tail q \<and> last L = head q \<and>
     (\<forall>x \<in> set (tl L). dat q x \<noteq> None) \<and> alive q = set L \<union> ready pr \<and>
     (\<forall>t a. pr t = Ready a \<longrightarrow> a \<notin> set L \<and> a \<noteq> 0 \<and> nxt q a = 0 \<and> dat q a \<noteq> None) \<and>
     ready_once pr"

lemma mpsc_okI:
  "queue_ok (nxt q) (pending \<circ> pr) L \<Longrightarrow> hd L = tail q \<Longrightarrow> last L = head q \<Longrightarrow> \<forall>x \<in> set (tl L). dat q x \<noteq> None \<Longrightarrow>
     alive q = set L \<union> ready pr \<Longrightarrow>
     \<forall>t a. pr t = Ready a \<longrightarrow> a \<notin> set L \<and> a \<noteq> 0 \<and> nxt q a = 0 \<and> dat q a \<noteq> None \<Longrightarrow>
     ready_once pr \<Longrightarrow> mpsc_ok q pr L"
  unfolding mpsc_ok_def by blast

definition data_of :: "'d nonintrusive \<Rightarrow> nat list \<Rightarrow> 'd list" where
  "data_of q L = map (\<lambda>x. the (dat q x)) (tl L)"

lemma ready_upd_Ready: "pr t = Away \<Longrightarrow> ready (pr(t := Ready a)) = insert a (ready pr)"
  unfolding ready_def by (auto split: if_splits) (metis producer.distinct(1))

lemma ready_upd_Link:
  assumes "pr t = Ready a" "\<And>u. pr u = Ready a \<Longrightarrow> u = t"
  shows "ready (pr(t := Link p c)) = ready pr - {a}"
proof (intro set_eqI iffI)
  fix b assume "b \<in> ready (pr(t := Link p c))"
  then obtain u where u: "(pr(t := Link p c)) u = Ready b" unfolding ready_def by blast
  then have "u \<noteq> t" "pr u = Ready b" by (cases "u = t"; simp)+
  then show "b \<in> ready pr - {a}" using assms unfolding ready_def by blast
next
  fix b assume "b \<in> ready pr - {a}"
  then obtain u where "pr u = Ready b" "b \<noteq> a" unfolding ready_def by blast
  moreover have "u \<noteq> t" using assms(1) calculation by auto
  ultimately have "(pr(t := Link p c)) u = Ready b" by simp
  then show "b \<in> ready (pr(t := Link p c))" unfolding ready_def by blast
qed

lemma ready_upd_Away: "pr t = Link p a \<Longrightarrow> ready (pr(t := Away)) = ready pr"
  unfolding ready_def by (auto split: if_splits) (metis producer.distinct(5))

lemma pending_Some: "pending c = Some (p, a) \<longleftrightarrow> c = Link p a"
  by (cases c) auto

lemma pending_upd: "pending \<circ> pr(t := c) = (pending \<circ> pr)(t := pending c)"
  by (rule fun_upd_comp)

lemma mpsc_make:
  assumes ok: "mpsc_ok q pr L" and t: "pr t = Away" and a: "a \<noteq> 0" "a \<notin> alive q"
  shows "mpsc_ok (new_node a (Some d) q) (pr(t := Ready a)) L" "data_of (new_node a (Some d) q) L = data_of q L"
proof -
  have aL: "a \<notin> set L" and other: "\<And>u b. pr u = Ready b \<Longrightarrow> b \<noteq> a" using ok a unfolding mpsc_ok_def ready_def by auto
  have q: "queue_ok ((nxt q)(a := 0)) (pending \<circ> pr) L" using ok aL by (intro queue_ok_other) (simp_all add: mpsc_ok_def)
  have p: "pending \<circ> pr(t := Ready a) = pending \<circ> pr" using t by (auto simp: fun_eq_iff)
  have tl: "a \<notin> set (tl L)" using aL by (cases L) auto
  show "data_of (new_node a (Some d) q) L = data_of q L" using tl by (auto simp: data_of_def new_node_def)
  show "mpsc_ok (new_node a (Some d) q) (pr(t := Ready a)) L"
    unfolding mpsc_ok_def p
  proof (intro conjI)
    show "alive (new_node a (Some d) q) = set L \<union> ready (pr(t := Ready a))"
      using ok ready_upd_Ready [of pr t a, OF t] unfolding mpsc_ok_def new_node_def by simp
    show "\<forall>u b. (pr(t := Ready a)) u = Ready b \<longrightarrow>
        b \<notin> set L \<and> b \<noteq> 0 \<and> nxt (new_node a (Some d) q) b = 0 \<and> dat (new_node a (Some d) q) b \<noteq> None"
      using ok aL a unfolding mpsc_ok_def by (auto simp: new_node_def split: if_splits)
    show "ready_once (pr(t := Ready a))"
      using ok other unfolding mpsc_ok_def ready_once_def by (auto split: if_splits)
  qed (use ok q tl in \<open>auto simp: mpsc_ok_def new_node_def\<close>)
qed

lemma mpsc_exchange:
  assumes ok: "mpsc_ok q pr L" and t: "pr t = Ready a"
  shows "mpsc_ok (q\<lparr>head := a\<rparr>) (pr(t := Link (head q) a)) (L @ [a])"
    "data_of (q\<lparr>head := a\<rparr>) (L @ [a]) = data_of q L @ [the (dat q a)]"
proof -
  have a: "a \<notin> set L" "a \<noteq> 0" "nxt q a = 0" "dat q a \<noteq> None" and L: "L \<noteq> []" "last L = head q"
    using ok t unfolding mpsc_ok_def queue_ok_def by auto
  have "queue_ok (nxt q) ((pending \<circ> pr)(t := Some (last L, a))) (L @ [a])"
    using ok a t by (intro queue_ok_exchange) (simp_all add: mpsc_ok_def)
  then have "queue_ok (nxt q) (pending \<circ> pr(t := Link (head q) a)) (L @ [a])" using L(2) by (simp only: pending_upd pending.simps)
  moreover have "alive q = set (L @ [a]) \<union> ready (pr(t := Link (head q) a))"
  proof -
    have "a \<in> ready pr" using t unfolding ready_def by blast
    moreover have "ready (pr(t := Link (head q) a)) = ready pr - {a}"
      by (rule ready_upd_Link [of pr, OF t]) (use ok t in \<open>unfold mpsc_ok_def ready_once_def, blast\<close>)
    moreover have "alive q = set L \<union> ready pr" using ok by (simp add: mpsc_ok_def)
    ultimately show ?thesis by auto
  qed
  moreover have "\<forall>u b. (pr(t := Link (head q) a)) u = Ready b \<longrightarrow> b \<notin> set (L @ [a]) \<and> b \<noteq> 0 \<and> nxt q b = 0 \<and> dat q b \<noteq> None"
  proof (intro allI impI)
    fix u b assume "(pr(t := Link (head q) a)) u = Ready b"
    then have u: "pr u = Ready b" "u \<noteq> t" by (simp_all split: if_splits)
    then have "b \<noteq> a" using ok t unfolding mpsc_ok_def ready_once_def by blast
    moreover have "b \<notin> set L" "b \<noteq> 0" "nxt q b = 0" "dat q b \<noteq> None" using ok u(1) unfolding mpsc_ok_def by blast+
    ultimately show "b \<notin> set (L @ [a]) \<and> b \<noteq> 0 \<and> nxt q b = 0 \<and> dat q b \<noteq> None" by simp
  qed
  moreover have "ready_once (pr(t := Link (head q) a))"
    unfolding ready_once_def
  proof (intro allI impI)
    fix u v b assume "(pr(t := Link (head q) a)) u = Ready b" "(pr(t := Link (head q) a)) v = Ready b"
    then have "pr u = Ready b" "pr v = Ready b" by (simp_all split: if_splits)
    then show "u = v" using ok unfolding mpsc_ok_def ready_once_def by blast
  qed
  ultimately show "mpsc_ok (q\<lparr>head := a\<rparr>) (pr(t := Link (head q) a)) (L @ [a])"
  proof (intro mpsc_okI)
    show "\<forall>x \<in> set (tl (L @ [a])). dat (q\<lparr>head := a\<rparr>) x \<noteq> None" using ok L(1) a(4) by (simp add: mpsc_ok_def)
  qed (use ok L(1) in \<open>simp_all add: mpsc_ok_def\<close>)
  show "data_of (q\<lparr>head := a\<rparr>) (L @ [a]) = data_of q L @ [the (dat q a)]" using L by (simp add: data_of_def)
qed

lemma mpsc_link:
  assumes ok: "mpsc_ok q pr L" and t: "pr t = Link p a"
  shows "enqueue_link p a q = Inr (q\<lparr>nxt := (nxt q)(p := a)\<rparr>)" "mpsc_ok (q\<lparr>nxt := (nxt q)(p := a)\<rparr>) (pr(t := Away)) L"
proof -
  have qk: "queue_ok (nxt q) (pending \<circ> pr) L" using ok by (simp add: mpsc_ok_def)
  have pt: "(pending \<circ> pr) t = Some (p, a)" using t by simp
  then have pL: "p \<in> set L" using qk unfolding queue_ok_def by blast
  then show "enqueue_link p a q = Inr (q\<lparr>nxt := (nxt q)(p := a)\<rparr>)" using ok by (simp add: enqueue_link_def mpsc_ok_def)
  have "queue_ok ((nxt q)(p := a)) (pending \<circ> pr(t := Away)) L"
    using queue_ok_link [OF qk pt] by (simp only: pending_upd pending.simps)
  moreover have "ready (pr(t := Away)) = ready pr" by (rule ready_upd_Away [of pr, OF t])
  moreover have "(pr(t := Away)) u = Ready b \<longleftrightarrow> pr u = Ready b" for u b using t by simp
  moreover have "pr u \<noteq> Ready p" for u using ok pL unfolding mpsc_ok_def by blast
  ultimately show "mpsc_ok (q\<lparr>nxt := (nxt q)(p := a)\<rparr>) (pr(t := Away)) L"
    using ok unfolding mpsc_ok_def ready_once_def by auto
qed

lemma mpsc_look:
  assumes "mpsc_ok q pr L"
  shows "dequeue_load q = Inr (nxt q (hd L))"
  using assms by (cases L) (auto simp: dequeue_load_def mpsc_ok_def queue_ok_def)

lemma mpsc_take:
  assumes ok: "mpsc_ok q pr L" and n: "nxt q (hd L) = n" "n \<noteq> 0"
  shows "\<exists>d q' x L'. L = x # n # L' \<and> dequeue_take n q = Inr (d, q') \<and> mpsc_ok q' pr (n # L') \<and>
    data_of q L = d # data_of q' (n # L') \<and> nxt q' = nxt q"
proof -
  have qk: "queue_ok (nxt q) (pending \<circ> pr) L" using ok by (simp add: mpsc_ok_def)
  then obtain x l where L: "L = x # l" by (cases L) (auto simp: queue_ok_def)
  with n have "nxt q x \<noteq> 0" by simp
  from queue_ok_advance [OF qk [unfolded L] this] n L obtain L' where l: "l = n # L'" and qk': "queue_ok (nxt q) (pending \<circ> pr) l" by auto
  from ok L l obtain d where d: "dat q n = Some d" by (auto simp: mpsc_ok_def)
  define q' where "q' = q\<lparr>tail := n, alive := alive q - {tail q}\<rparr>"
  have x: "tail q = x" "x \<notin> set l" using ok L by (auto simp: mpsc_ok_def queue_ok_def)
  have take: "dequeue_take n q = Inr (d, q')" using ok L l d by (auto simp: dequeue_take_def q'_def mpsc_ok_def)
  have "x \<notin> ready pr" using ok L unfolding mpsc_ok_def ready_def by auto
  then have "alive q - {x} = set l \<union> ready pr" using ok L x(2) unfolding mpsc_ok_def by auto
  then have "mpsc_ok q' pr (n # L')" using ok L l x qk' unfolding mpsc_ok_def by (auto simp: q'_def)
  moreover have "data_of q L = d # data_of q' (n # L')" using L l d by (simp add: data_of_def q'_def)
  ultimately show ?thesis using take L l by (auto simp: q'_def)
qed

definition mpsc_inv :: "'d mpsc \<Rightarrow> bool" where
  "mpsc_inv s \<longleftrightarrow> \<not> broken s \<and> (\<exists>L. mpsc_ok (que s) (prod s) L \<and> pushed s = popped s @ data_of (que s) L \<and>
     (\<forall>n. taking s = Some n \<longrightarrow> n \<noteq> 0 \<and> nxt (que s) (hd L) = n))"

lemma mpsc_invI:
  "\<not> broken s \<Longrightarrow> mpsc_ok (que s) (prod s) L \<Longrightarrow> pushed s = popped s @ data_of (que s) L \<Longrightarrow>
     (\<And>n. taking s = Some n \<Longrightarrow> n \<noteq> 0 \<and> nxt (que s) (hd L) = n) \<Longrightarrow> mpsc_inv s"
  unfolding mpsc_inv_def by blast

lemma link_keeps_next:
  "queue_ok nx pend L \<Longrightarrow> pend t = Some (p, a) \<Longrightarrow> nx (hd L) = n \<Longrightarrow> n \<noteq> 0 \<Longrightarrow> p \<noteq> hd L"
proof
  assume q: "queue_ok nx pend L" and t: "pend t = Some (p, a)" and n: "nx (hd L) = n" "n \<noteq> 0" "p = hd L"
  obtain x l where L: "L = x # l" using q by (cases L) (simp_all add: queue_ok_def)
  have lk: "link_ok nx pend x l" using q L by (simp add: queue_ok_def)
  show False
  proof (cases l)
    case Nil
    then show False using lk n L by (simp add: link_ok_Nil)
  next
    case (Cons y ys)
    then have "pend t \<noteq> Some (x, a)" using lk n L unfolding Cons link_ok_Cons by auto
    then show False using t n L by simp
  qed
qed

lemma mpsc_step_inv: "mpsc_step s s' \<Longrightarrow> mpsc_inv s \<Longrightarrow> mpsc_inv s'"
proof (induction rule: mpsc_step.induct)
  case (make s t a d)
  from make(4) obtain L where ok: "mpsc_ok (que s) (prod s) L" and l: "pushed s = popped s @ data_of (que s) L"
    "\<forall>n. taking s = Some n \<longrightarrow> n \<noteq> 0 \<and> nxt (que s) (hd L) = n" "\<not> broken s" unfolding mpsc_inv_def by blast
  have "hd L \<noteq> a" using ok make(3) unfolding mpsc_ok_def queue_ok_def by (cases L) auto
  with mpsc_make [OF ok make(1-3), of d] l show ?case
    by (intro mpsc_invI [of _ L]) (simp_all add: new_node_def)
next
  case (exchange s t a p q)
  from exchange(3) obtain L where ok: "mpsc_ok (que s) (prod s) L" and l: "pushed s = popped s @ data_of (que s) L"
    "\<forall>n. taking s = Some n \<longrightarrow> n \<noteq> 0 \<and> nxt (que s) (hd L) = n" "\<not> broken s" unfolding mpsc_inv_def by blast
  have "L \<noteq> []" using ok by (simp add: mpsc_ok_def queue_ok_def)
  with mpsc_exchange [OF ok exchange(1)] l exchange(2) show ?case
    by (intro mpsc_invI [of _ "L @ [a]"]) (auto simp: enqueue_exchange_def)
next
  case (link s t p a)
  from link(2) obtain L where ok: "mpsc_ok (que s) (prod s) L" and l: "pushed s = popped s @ data_of (que s) L"
    "\<And>n. taking s = Some n \<Longrightarrow> n \<noteq> 0 \<and> nxt (que s) (hd L) = n" "\<not> broken s" unfolding mpsc_inv_def by blast
  have "p \<noteq> hd L" if "taking s = Some n" for n
    using link_keeps_next [of "nxt (que s)" "pending \<circ> prod s" L t p a n] ok l(2) [OF that] link(1) by (simp add: mpsc_ok_def)
  with mpsc_link [OF ok link(1)] l show ?case
    by (intro mpsc_invI [of _ L]) (simp_all add: or_broken_def data_of_def)
next
  case (look s)
  from look(2) obtain L where ok: "mpsc_ok (que s) (prod s) L" and l: "pushed s = popped s @ data_of (que s) L"
    "\<not> broken s" unfolding mpsc_inv_def by blast
  with mpsc_look [OF ok] show ?case
    by (intro mpsc_invI [of _ L]) (auto simp: or_broken_def split: if_splits)
next
  case (take s n)
  from take(2) obtain L where ok: "mpsc_ok (que s) (prod s) L" and l: "pushed s = popped s @ data_of (que s) L"
    "\<not> broken s" "n \<noteq> 0" "nxt (que s) (hd L) = n" using take(1) unfolding mpsc_inv_def by blast
  from mpsc_take [OF ok l(4,3)] obtain d q' x L' where d: "dequeue_take n (que s) = Inr (d, q')" "mpsc_ok q' (prod s) (n # L')"
    "data_of (que s) L = d # data_of q' (n # L')" by blast
  with l show ?case by (intro mpsc_invI [of _ "n # L'"]) (simp_all add: or_broken_def)
qed

lemma mpsc_reach_inv: "mpsc_reach s \<Longrightarrow> mpsc_inv s"
proof (induction rule: mpsc_reach.induct)
  case (start a)
  have "mpsc_ok (mpsc_new a) (\<lambda>_. Away) [a]"
    using start by (auto simp: mpsc_ok_def mpsc_new_def queue_ok_def link_ok_def ready_def ready_once_def)
  then show ?case unfolding mpsc_inv_def by (auto simp: data_of_def intro!: exI [of _ "[a]"])
qed (rule mpsc_step_inv)

text \<open>A run: two producers publish 7 and 8, the second links first; then the consumer takes 7.\<close>

definition ex_start :: "nat mpsc" where
  "ex_start = \<lparr>que = mpsc_new 1, prod = (\<lambda>_. Away), taking = None, pushed = [], popped = [], broken = False\<rparr>"

definition ex_cut :: "nat mpsc" where
  "ex_cut = \<lparr>que = \<lparr>nxt = (\<lambda>_. 0)(1 := 0, 3 := 0, 2 := 3), dat = [2 \<mapsto> 7, 3 \<mapsto> 8], alive = {3, 2, 1}, head = 3, tail = 1\<rparr>,
     prod = (\<lambda>_. Away)(0 := Link 1 2, 1 := Away), taking = None, pushed = [7, 8], popped = [], broken = False\<rparr>"

definition ex_end :: "nat mpsc" where
  "ex_end = \<lparr>que = \<lparr>nxt = (\<lambda>_. 0)(3 := 0, 2 := 3, 1 := 2), dat = [2 \<mapsto> 7, 3 \<mapsto> 8], alive = {3, 2, 1} - {1}, head = 3, tail = 2\<rparr>,
     prod = (\<lambda>_. Away)(1 := Away, 0 := Away), taking = None, pushed = [7, 8], popped = [7], broken = False\<rparr>"

lemma ex_cut_reach: "mpsc_reach ex_cut"
proof -
  have 0: "mpsc_reach ex_start" unfolding ex_start_def by (rule mpsc_reach.start) simp
  note defs = ex_start_def ex_cut_def mpsc_new_def new_node_def enqueue_exchange_def enqueue_link_def or_broken_def
  note 1 = mpsc_reach.step [OF 0 mpsc_step.make [of _ 0 2 7]]
  note 2 = mpsc_reach.step [OF 1 mpsc_step.exchange [where t = 0 and a = 2 and p = 1]]
  note 3 = mpsc_reach.step [OF 2 mpsc_step.make [of _ 1 3 8]]
  note 4 = mpsc_reach.step [OF 3 mpsc_step.exchange [where t = 1 and a = 3 and p = 2]]
  note 5 = mpsc_reach.step [OF 4 mpsc_step.link [of _ 1 2 3]]
  show ?thesis using 5 unfolding defs by (simp add: fun_eq_iff)
qed

lemma ex_end_reach: "mpsc_reach ex_end"
proof -
  note defs = ex_cut_def ex_end_def enqueue_link_def or_broken_def dequeue_load_def dequeue_take_def
  note 1 = mpsc_reach.step [OF ex_cut_reach mpsc_step.link [where t = 0 and p = 1 and a = 2]]
  note 2 = mpsc_reach.step [OF 1 mpsc_step.look]
  note 3 = mpsc_reach.step [OF 2 mpsc_step.take [where n = 2]]
  show ?thesis using 3 unfolding defs by (simp add: fun_eq_iff)
qed

text \<open>
  C7: in every state that any number of producers and the consumer can reach, no step has touched
  a node that was freed or read data that was never set; what the consumer got is, in the order of
  the exchanges, a prefix of what was enqueued; and the nodes that are allocated are the list from the tail
  to the head and the nodes that producers have not yet published, so none is lost and none freed
  twice.
\<close>

theorem mpsc_fifo:
  assumes "mpsc_reach s"
  shows "\<not> broken s \<and> (\<exists>L. L \<noteq> [] \<and> distinct L \<and> hd L = tail (que s) \<and> last L = head (que s) \<and>
    pushed s = popped s @ map (\<lambda>x. the (dat (que s) x)) (tl L) \<and>
    alive (que s) = set L \<union> {a. \<exists>t. prod s t = Ready a})"
  using mpsc_reach_inv [OF assms] unfolding mpsc_inv_def mpsc_ok_def queue_ok_def data_of_def ready_def by blast

theorem mpsc_fifo_witness: "\<not> broken ex_cut \<and> (\<exists>L. pushed ex_cut = map (\<lambda>x. the (dat (que ex_cut) x)) (tl L) \<and> hd L = 1 \<and> last L = 3)"
proof -
  have "popped ex_cut = []" "tail (que ex_cut) = 1" "head (que ex_cut) = 3" by (simp_all add: ex_cut_def)
  with mpsc_fifo [OF ex_cut_reach] show ?thesis by (metis append_Nil)
qed

text \<open>
  The consumer's load of the next link sees null, and \<open>Dequeue\<close> returns false, exactly when nothing is
  left or the producer whose node comes next has exchanged the head and not yet stored the link:
  later enqueues that are complete do not help it.
\<close>

theorem mpsc_false_iff:
  assumes "mpsc_reach s"
  shows "dequeue_load (que s) = Inr 0 \<longleftrightarrow> popped s = pushed s \<or> (\<exists>t a. prod s t = Link (tail (que s)) a)"
proof -
  from mpsc_reach_inv [OF assms] obtain L where ok: "mpsc_ok (que s) (prod s) L" and l: "pushed s = popped s @ data_of (que s) L"
    unfolding mpsc_inv_def by blast
  have qk: "queue_ok (nxt (que s)) (pending \<circ> prod s) L" using ok by (simp add: mpsc_ok_def)
  then obtain x l' where L: "L = x # l'" by (cases L) (simp_all add: queue_ok_def)
  have x: "x = tail (que s)" using ok L by (simp add: mpsc_ok_def)
  have lk: "link_ok (nxt (que s)) (pending \<circ> prod s) x l'" using qk L by (simp add: queue_ok_def)
  have pend: "(\<exists>t a. prod s t = Link x a) \<longleftrightarrow> (\<exists>t a. (pending \<circ> prod s) t = Some (x, a))"
    by (simp add: pending_Some)
  have zero: "nxt (que s) x = 0" if "(pending \<circ> prod s) t = Some (x, a)" for t a
    using lk that unfolding link_ok_def by (auto split: list.splits)
  have "nxt (que s) x = 0 \<longleftrightarrow> l' = [] \<or> (\<exists>t a. (pending \<circ> prod s) t = Some (x, a))"
    using queue_ok_end [OF qk [unfolded L]] zero lk by (auto simp: link_ok_Nil)
  moreover have "popped s = pushed s \<longleftrightarrow> l' = []" using l L by (auto simp: data_of_def)
  ultimately show ?thesis using mpsc_look [OF ok] L x pend by simp
qed

theorem mpsc_false_iff_witness: "mpsc_reach ex_cut \<and> dequeue_load (que ex_cut) = Inr 0 \<and> pushed ex_cut = [7, 8]"
proof -
  have "prod ex_cut 0 = Link (tail (que ex_cut)) 2" by (simp add: ex_cut_def)
  then show ?thesis using ex_cut_reach mpsc_false_iff [OF ex_cut_reach] by (auto simp: ex_cut_def)
qed

subsection \<open>Without other threads\<close>

lemma mpsc_Enqueue_ok:
  assumes ok: "mpsc_ok q (\<lambda>_. Away) L" and a: "a \<noteq> 0" "a \<notin> alive q"
  shows "\<exists>q'. mpsc_Enqueue a d q = Inr q' \<and> mpsc_ok q' (\<lambda>_. Away) (L @ [a]) \<and> data_of q' (L @ [a]) = data_of q L @ [d]"
proof -
  let ?q1 = "new_node a (Some d) q" and ?pr = "\<lambda>_ :: nat. Away"
  let ?q2 = "?q1\<lparr>head := a\<rparr>" and ?p = "head ?q1"
  note 1 = mpsc_make [where pr = ?pr and t = 0 and d = d, OF ok refl a]
  have "(?pr(0 := Ready a)) 0 = Ready a" by simp
  note 2 = mpsc_exchange [OF 1(1) this, unfolded fun_upd_upd]
  have "(?pr(0 := Link ?p a)) 0 = Link ?p a" by simp
  note 3 = mpsc_link [OF 2(1) this, unfolded fun_upd_upd]
  have "?pr(0 := Away) = ?pr" by auto
  then have "mpsc_ok (?q2\<lparr>nxt := (nxt ?q2)(?p := a)\<rparr>) ?pr (L @ [a])" using 3(2) by (simp only:)
  moreover have "mpsc_Enqueue a d q = Inr (?q2\<lparr>nxt := (nxt ?q2)(?p := a)\<rparr>)"
    using 3(1) by (simp add: mpsc_Enqueue_def enqueue_exchange_def)
  moreover have "data_of (?q2\<lparr>nxt := (nxt ?q2)(?p := a)\<rparr>) (L @ [a]) = data_of q L @ [d]"
    using 1(2) 2(2) by (simp add: data_of_def new_node_def)
  ultimately show ?thesis by blast
qed

lemma mpsc_Dequeue_ok:
  assumes ok: "mpsc_ok q (\<lambda>_. Away) L"
  shows "(\<exists>x. L = [x] \<and> mpsc_Dequeue q = Inr (None, q)) \<or>
    (\<exists>x l d q'. L = x # l \<and> mpsc_Dequeue q = Inr (Some d, q') \<and> mpsc_ok q' (\<lambda>_. Away) l \<and> data_of q L = d # data_of q' l)"
proof -
  have qk: "queue_ok (nxt q) (pending \<circ> (\<lambda>_ :: nat. Away)) L" using ok by (simp add: mpsc_ok_def)
  then obtain x l where L: "L = x # l" by (cases L) (simp_all add: queue_ok_def)
  show ?thesis
  proof (cases "nxt q x = 0")
    case True
    then have "l = []" using queue_ok_end [OF qk [unfolded L]] by simp
    with True mpsc_look [OF ok] L show ?thesis by (simp add: mpsc_Dequeue_def)
  next
    case False
    with mpsc_take [OF ok refl] L obtain d q' L' where "L = x # nxt q x # L'" "dequeue_take (nxt q x) q = Inr (d, q')"
      "mpsc_ok q' (\<lambda>_. Away) (nxt q x # L')" "data_of q L = d # data_of q' (nxt q x # L')" by auto
    with False mpsc_look [OF ok] L show ?thesis by (simp add: mpsc_Dequeue_def)
  qed
qed

lemma mpsc_destroy_ok:
  assumes "mpsc_ok q (\<lambda>_. Away) L"
  shows "mpsc_destroy q = Some (Inr (data_of q L, {}))"
proof -
  let ?I = "\<lambda>n (q', gone). \<exists>L'. mpsc_ok q' (\<lambda>_. Away) L' \<and> data_of q L = gone @ data_of q' L' \<and> n = length L'"
  let ?P = "\<lambda>(q', gone). (\<exists>x. mpsc_ok q' (\<lambda>_. Away) [x]) \<and> gone = data_of q L"
  have "\<exists>r. run_loop destroy_turn (q, []) = Some (Inr r) \<and> ?P r"
  proof (rule run_loop_total [of ?I "length L"])
    show "?I (length L) (q, [])" using assms by auto
  next
    fix n qg assume "?I n qg"
    then obtain q' gone L' where qg: "qg = (q', gone)" and ok: "mpsc_ok q' (\<lambda>_. Away) L'" "data_of q L = gone @ data_of q' L'" "n = length L'"
      by (cases qg) auto
    from mpsc_Dequeue_ok [OF ok(1)] show "(\<exists>x' m. destroy_turn qg = Inr (Inl x') \<and> m < n \<and> ?I m x') \<or> (\<exists>r. destroy_turn qg = Inr (Inr r) \<and> ?P r)"
    proof (elim disjE exE conjE)
      fix x assume "L' = [x]" "mpsc_Dequeue q' = Inr (None, q')"
      with ok qg show ?thesis by (auto simp: destroy_turn_def data_of_def)
    next
      fix x l d q'' assume "L' = x # l" "mpsc_Dequeue q' = Inr (Some d, q'')" "mpsc_ok q'' (\<lambda>_. Away) l" "data_of q' L' = d # data_of q'' l"
      with ok qg show ?thesis by (auto simp: destroy_turn_def)
    qed
  qed
  then obtain q' x where "run_loop destroy_turn (q, []) = Some (Inr (q', data_of q L))" "mpsc_ok q' (\<lambda>_. Away) [x]" by auto
  then show ?thesis by (simp add: mpsc_destroy_def mpsc_ok_def ready_def)
qed

text \<open>
  The destructor, run when every producer and the consumer are done, deletes the data that
  is left, in order, and every node: it returns, and no node stays allocated.
\<close>

theorem mpsc_destroy_frees_all:
  assumes "mpsc_reach s" "prod s = (\<lambda>_. Away)" "taking s = None"
  shows "\<exists>rest. pushed s = popped s @ rest \<and> mpsc_destroy (que s) = Some (Inr (rest, {}))"
proof -
  from mpsc_reach_inv [OF assms(1)] obtain L where "mpsc_ok (que s) (\<lambda>_. Away) L" "pushed s = popped s @ data_of (que s) L"
    unfolding mpsc_inv_def assms(2) by blast
  then show ?thesis using mpsc_destroy_ok by blast
qed

theorem mpsc_destroy_frees_all_witness: "mpsc_destroy (que ex_end) = Some (Inr ([8], {}))"
proof -
  have "prod ex_end = (\<lambda>_. Away)" by (simp add: ex_end_def fun_eq_iff)
  moreover have "taking ex_end = None" "pushed ex_end = [7, 8]" "popped ex_end = [7]" by (simp_all add: ex_end_def)
  ultimately show ?thesis using mpsc_destroy_frees_all [OF ex_end_reach] by auto
qed

end
