(* ===== verification/Mpsc_Weak.thy ===== *)
theory Mpsc_Weak
  imports Mpsc
begin

text \<open>
  The nonintrusive queue of \<^verbatim>\<open>MPSCQueue.h\<close> with the memory orders it asks for. The nodes are plain objects: that a node was
  constructed and that its link was stored are facts that a thread knows or does not know. An exchange or a store that releases puts what the thread knows
  into the message it leaves, a load or an exchange that acquires takes over what it finds there, and whoever touches a
  node that he does not know to be constructed, or deletes one whose link he does not know to be stored, has a data race. A load of a link may also find the
  old null. It is proved that there is no race and that the queue of \<open>Mpsc\<close>, which is sequentially
  consistent, has all runs that this one has.
\<close>

subsection \<open>Who knows what\<close>

datatype memory_order = Mo_relaxed | Mo_acquire | Mo_release | Mo_acq_rel

definition acquires :: "memory_order \<Rightarrow> bool" where
  "acquires ord \<longleftrightarrow> ord = Mo_acquire \<or> ord = Mo_acq_rel"

definition releases :: "memory_order \<Rightarrow> bool" where
  "releases ord \<longleftrightarrow> ord = Mo_release \<or> ord = Mo_acq_rel"

text \<open>The order of \<open>_head.exchange\<close>, of the store and of the load of \<open>Next\<close>.\<close>

record orders =
  exchange_order :: memory_order
  link_order :: memory_order
  next_order :: memory_order

definition mpsc_orders :: orders where
  "mpsc_orders = \<lparr>exchange_order = Mo_acq_rel, link_order = Mo_release, next_order = Mo_acquire\<rparr>"

datatype event = Born nat | Linked nat

definition forget :: "nat \<Rightarrow> event set \<Rightarrow> event set" where
  "forget a K = K - {Born a, Linked a}"

record 'd weak_mpsc =
  strong :: "'d mpsc"                \<comment> \<open>the queue, of which every location has its newest value\<close>
  known :: "nat \<Rightarrow> event set"         \<comment> \<open>by the producers\<close>
  consumer_known :: "event set"
  head_msg :: "event set"            \<comment> \<open>with the newest message of \<open>_head\<close>\<close>
  next_msg :: "nat \<Rightarrow> event set"      \<comment> \<open>with the link of a node\<close>
  raced :: bool

text \<open>The steps; a node that is allocated at an address that was used before is a new object.\<close>

definition weak_make :: "nat \<Rightarrow> nat \<Rightarrow> 'd \<Rightarrow> 'd weak_mpsc \<Rightarrow> 'd weak_mpsc" where
  "weak_make t a d s =
     (let c = strong s in
      s\<lparr>strong := c\<lparr>que := new_node a (Some d) (que c), prod := (prod c)(t := Ready a)\<rparr>,
        known := (\<lambda>u. forget a (known s u))(t := insert (Born a) (forget a (known s t))),
        consumer_known := forget a (consumer_known s), head_msg := forget a (head_msg s),
        next_msg := (\<lambda>p. forget a (next_msg s p))(a := {})\<rparr>)"

definition weak_exchange :: "orders \<Rightarrow> nat \<Rightarrow> nat \<Rightarrow> 'd weak_mpsc \<Rightarrow> 'd weak_mpsc" where
  "weak_exchange ord t a s =
     (let c = strong s; (p, q) = enqueue_exchange a (que c);
          V = (if acquires (exchange_order ord) then known s t \<union> head_msg s else known s t)
      in s\<lparr>strong := c\<lparr>que := q, prod := (prod c)(t := Link p a), pushed := pushed c @ [the (dat (que c) a)]\<rparr>,
           known := (known s)(t := V), head_msg := (if releases (exchange_order ord) then head_msg s \<union> V else head_msg s)\<rparr>)"

definition weak_link :: "orders \<Rightarrow> nat \<Rightarrow> nat \<Rightarrow> nat \<Rightarrow> 'd weak_mpsc \<Rightarrow> 'd weak_mpsc" where
  "weak_link ord t p a s =
     (let c = strong s; V = insert (Linked p) (known s t)
      in s\<lparr>strong := or_broken c (enqueue_link p a (que c)) (\<lambda>q. c\<lparr>que := q, prod := (prod c)(t := Away)\<rparr>),
           known := (known s)(t := V), next_msg := (next_msg s)(p := if releases (link_order ord) then V else {}),
           raced := (raced s \<or> Born p \<notin> known s t)\<rparr>)"

text \<open>\<open>Dequeue\<close>: the load of the link, which finds the newest value or (\<open>stale\<close>) the null of the constructor, and the rest.\<close>

definition weak_look :: "orders \<Rightarrow> bool \<Rightarrow> 'd weak_mpsc \<Rightarrow> 'd weak_mpsc" where
  "weak_look ord stale s =
     (let c = strong s; race = (raced s \<or> Born (tail (que c)) \<notin> consumer_known s)
      in if stale then s\<lparr>raced := race\<rparr>
         else s\<lparr>strong := or_broken c (dequeue_load (que c)) (\<lambda>n. c\<lparr>taking := (if n = 0 then None else Some n)\<rparr>),
                consumer_known := (if acquires (next_order ord) then consumer_known s \<union> next_msg s (tail (que c)) else consumer_known s),
                raced := race\<rparr>)"

definition weak_take :: "nat \<Rightarrow> 'd weak_mpsc \<Rightarrow> 'd weak_mpsc" where
  "weak_take n s =
     (let c = strong s
      in s\<lparr>strong := or_broken c (dequeue_take n (que c)) (\<lambda>(d, q). c\<lparr>que := q, taking := None, popped := popped c @ [d]\<rparr>),
           raced := (raced s \<or> \<not> {Born n, Born (tail (que c)), Linked (tail (que c))} \<subseteq> consumer_known s)\<rparr>)"

inductive weak_mpsc_step :: "orders \<Rightarrow> 'd weak_mpsc \<Rightarrow> 'd weak_mpsc \<Rightarrow> bool" for ord where
  make: "prod (strong s) t = Away \<Longrightarrow> a \<noteq> 0 \<Longrightarrow> a \<notin> alive (que (strong s)) \<Longrightarrow> weak_mpsc_step ord s (weak_make t a d s)"
| exchange: "prod (strong s) t = Ready a \<Longrightarrow> weak_mpsc_step ord s (weak_exchange ord t a s)"
| link: "prod (strong s) t = Link p a \<Longrightarrow> weak_mpsc_step ord s (weak_link ord t p a s)"
| look: "taking (strong s) = None \<Longrightarrow> (stale \<longrightarrow> Linked (tail (que (strong s))) \<notin> consumer_known s) \<Longrightarrow>
    weak_mpsc_step ord s (weak_look ord stale s)"
| take: "taking (strong s) = Some n \<Longrightarrow> weak_mpsc_step ord s (weak_take n s)"

text \<open>The threads are started after the constructor, so that everyone knows its node.\<close>

definition weak_mpsc_start :: "nat \<Rightarrow> 'd weak_mpsc" where
  "weak_mpsc_start a = \<lparr>strong = \<lparr>que = mpsc_new a, prod = (\<lambda>_. Away), taking = None, pushed = [], popped = [], broken = False\<rparr>,
     known = (\<lambda>_. {Born a}), consumer_known = {Born a}, head_msg = {Born a}, next_msg = (\<lambda>_. {}), raced = False\<rparr>"

inductive weak_mpsc_reach :: "orders \<Rightarrow> 'd weak_mpsc \<Rightarrow> bool" for ord where
  start: "a \<noteq> 0 \<Longrightarrow> weak_mpsc_reach ord (weak_mpsc_start a)"
| step: "weak_mpsc_reach ord s \<Longrightarrow> weak_mpsc_step ord s s' \<Longrightarrow> weak_mpsc_reach ord s'"

subsection \<open>The nodes a queue points to are alive\<close>

lemma link_ok_pend: "link_ok nx pend x l \<Longrightarrow> pend t = Some (x, y) \<Longrightarrow> \<exists>l'. l = y # l'"
proof (cases l)
  case (Cons z l')
  assume lk: "link_ok nx pend x l" and p: "pend t = Some (x, y)"
  then obtain u where u: "pend u = Some (x, z)" "\<And>v w. pend v = Some (x, w) \<Longrightarrow> v = u" unfolding Cons link_ok_Cons by blast
  with u(2) [OF p] p Cons show ?thesis by simp
qed (simp add: link_ok_Nil)

lemma link_ok_next: "link_ok nx pend x l \<Longrightarrow> nx x \<noteq> 0 \<Longrightarrow> \<exists>l'. l = nx x # l'"
  by (cases l) (auto simp: link_ok_Nil link_ok_Cons)

lemma chained_link_ok: "chained nx pend L \<Longrightarrow> x \<in> set L \<Longrightarrow> \<exists>l. set l \<subseteq> set L \<and> link_ok nx pend x l"
proof (induction L)
  case (Cons z L)
  show ?case
  proof (cases "x = z")
    case True
    with Cons.prems(1) show ?thesis by (intro exI [of _ L]) auto
  next
    case False
    with Cons.prems Cons.IH obtain l where "set l \<subseteq> set L" "link_ok nx pend x l" by auto
    then show ?thesis by (intro exI [of _ l]) auto
  qed
qed simp

lemma chained_pend_in: "chained nx pend L \<Longrightarrow> x \<in> set L \<Longrightarrow> pend t = Some (x, y) \<Longrightarrow> y \<in> set L"
  using chained_link_ok [of nx pend L x] link_ok_pend [of nx pend x _ t y] by fastforce

lemma chained_next_in: "chained nx pend L \<Longrightarrow> x \<in> set L \<Longrightarrow> nx x \<noteq> 0 \<Longrightarrow> nx x \<in> set L"
  using chained_link_ok [of nx pend L x] link_ok_next [of nx pend x] by fastforce

lemma mpsc_reach_alive:
  assumes "mpsc_reach c"
  shows "head (que c) \<in> alive (que c)" "tail (que c) \<in> alive (que c)"
    "prod c t = Ready a \<Longrightarrow> a \<in> alive (que c)"
    "prod c t = Link p a \<Longrightarrow> p \<in> alive (que c) \<and> a \<in> alive (que c)"
    "p \<in> alive (que c) \<Longrightarrow> nxt (que c) p \<noteq> 0 \<Longrightarrow> nxt (que c) p \<in> alive (que c)"
    "taking c = Some n \<Longrightarrow> nxt (que c) (tail (que c)) = n \<and> n \<noteq> 0"
proof -
  from mpsc_reach_inv [OF assms] obtain L where ok: "mpsc_ok (que c) (prod c) L"
    and tk: "\<forall>n. taking c = Some n \<longrightarrow> n \<noteq> 0 \<and> nxt (que c) (hd L) = n" unfolding mpsc_inv_def by blast
  have q: "L \<noteq> []" "chained (nxt (que c)) (pending \<circ> prod c) L" "\<And>t x y. (pending \<circ> prod c) t = Some (x, y) \<Longrightarrow> x \<in> set L"
    using ok by (auto simp: mpsc_ok_def queue_ok_def)
  have al: "alive (que c) = set L \<union> ready (prod c)" and ends: "hd L = tail (que c)" "last L = head (que c)"
    using ok by (simp_all add: mpsc_ok_def)
  show "head (que c) \<in> alive (que c)" "tail (que c) \<in> alive (que c)" using q(1) by (simp_all add: al ends [symmetric])
  show "prod c t = Ready a \<Longrightarrow> a \<in> alive (que c)" by (auto simp: al ready_def)
  show "prod c t = Link p a \<Longrightarrow> p \<in> alive (que c) \<and> a \<in> alive (que c)"
    using q(3) [of t p a] chained_pend_in [OF q(2), of p t a] by (simp add: al)
  have "nxt (que c) b = 0" if "b \<in> ready (prod c)" for b using ok that by (auto simp: mpsc_ok_def ready_def)
  then show "p \<in> alive (que c) \<Longrightarrow> nxt (que c) p \<noteq> 0 \<Longrightarrow> nxt (que c) p \<in> alive (que c)"
    using chained_next_in [OF q(2), of p] by (auto simp: al)
  show "taking c = Some n \<Longrightarrow> nxt (que c) (tail (que c)) = n \<and> n \<noteq> 0" using tk ends by auto
qed

subsection \<open>Everyone knows what he needs\<close>

definition knows_inv :: "'d weak_mpsc \<Rightarrow> bool" where
  "knows_inv s \<longleftrightarrow> \<not> raced s \<and> Born (head (que (strong s))) \<in> head_msg s \<and> Born (tail (que (strong s))) \<in> consumer_known s \<and>
     (\<forall>t a. prod (strong s) t = Ready a \<longrightarrow> Born a \<in> known s t) \<and>
     (\<forall>t p a. prod (strong s) t = Link p a \<longrightarrow> Born p \<in> known s t \<and> Born a \<in> known s t) \<and>
     (\<forall>p \<in> alive (que (strong s)). nxt (que (strong s)) p \<noteq> 0 \<longrightarrow>
        Born (nxt (que (strong s)) p) \<in> next_msg s p \<and> Linked p \<in> next_msg s p) \<and>
     (\<forall>n. taking (strong s) = Some n \<longrightarrow> Born n \<in> consumer_known s \<and> Linked (tail (que (strong s))) \<in> consumer_known s)"

lemma knows_invD:
  assumes "knows_inv s"
  shows "\<not> raced s" "Born (head (que (strong s))) \<in> head_msg s" "Born (tail (que (strong s))) \<in> consumer_known s"
    "prod (strong s) t = Ready a \<Longrightarrow> Born a \<in> known s t"
    "prod (strong s) t = Link p a \<Longrightarrow> Born p \<in> known s t \<and> Born a \<in> known s t"
    "p \<in> alive (que (strong s)) \<Longrightarrow> nxt (que (strong s)) p \<noteq> 0 \<Longrightarrow>
       Born (nxt (que (strong s)) p) \<in> next_msg s p \<and> Linked p \<in> next_msg s p"
    "taking (strong s) = Some n \<Longrightarrow> Born n \<in> consumer_known s \<and> Linked (tail (que (strong s))) \<in> consumer_known s"
  using assms unfolding knows_inv_def by simp_all

lemma forget_keeps [simp]: "Born b \<in> forget a K \<longleftrightarrow> b \<noteq> a \<and> Born b \<in> K" "Linked b \<in> forget a K \<longleftrightarrow> b \<noteq> a \<and> Linked b \<in> K"
  by (auto simp: forget_def)

lemma knows_make:
  assumes "knows_inv s" "mpsc_reach (strong s)" "prod (strong s) t = Away" "a \<notin> alive (que (strong s))"
  shows "knows_inv (weak_make t a d s)"
proof -
  note k = knows_invD [OF assms(1)] and al = mpsc_reach_alive [OF assms(2)]
  have ne: "b \<noteq> a" if "b \<in> alive (que (strong s))" for b using that assms(4) by blast
  show ?thesis
    unfolding knows_inv_def
  proof (intro conjI allI ballI impI)
    fix u p b assume "prod (strong (weak_make t a d s)) u = Link p b"
    then have "prod (strong s) u = Link p b" "u \<noteq> t" by (auto simp: weak_make_def Let_def split: if_splits)
    with k(5) [of u p b] al(4) [of u p b] ne show "Born p \<in> known (weak_make t a d s) u" "Born b \<in> known (weak_make t a d s) u"
      by (auto simp: weak_make_def Let_def)
  next
    fix u b assume "prod (strong (weak_make t a d s)) u = Ready b"
    with k(4) [of u b] al(3) [of u b] ne show "Born b \<in> known (weak_make t a d s) u"
      by (auto simp: weak_make_def Let_def split: if_splits)
  next
    fix p assume "p \<in> alive (que (strong (weak_make t a d s)))" "nxt (que (strong (weak_make t a d s))) p \<noteq> 0"
    then have p: "p \<in> alive (que (strong s))" "nxt (que (strong s)) p \<noteq> 0" "p \<noteq> a"
      by (auto simp: weak_make_def Let_def new_node_def split: if_splits)
    with k(6) [OF p(1,2)] al(5) [OF p(1,2)] ne [of "nxt (que (strong s)) p"]
    show "Born (nxt (que (strong (weak_make t a d s))) p) \<in> next_msg (weak_make t a d s) p" "Linked p \<in> next_msg (weak_make t a d s) p"
      by (auto simp: weak_make_def Let_def new_node_def)
  next
    fix n assume "taking (strong (weak_make t a d s)) = Some n"
    then have n: "taking (strong s) = Some n" by (simp add: weak_make_def Let_def)
    with al(6) [OF n] al(5) [OF al(2)] have "n \<in> alive (que (strong s))" by simp
    with k(7) [OF n] al(2) ne
    show "Born n \<in> consumer_known (weak_make t a d s)" "Linked (tail (que (strong (weak_make t a d s)))) \<in> consumer_known (weak_make t a d s)"
      by (auto simp: weak_make_def Let_def new_node_def)
  qed (use k(1-3) al(1,2) ne in \<open>auto simp: weak_make_def Let_def new_node_def\<close>)
qed

lemma knows_exchange:
  assumes "knows_inv s" "prod (strong s) t = Ready a" "exchange_order ord = Mo_acq_rel"
  shows "knows_inv (weak_exchange ord t a s)"
proof -
  note k = knows_invD [OF assms(1)] and ord = assms(3)
  let ?s = "weak_exchange ord t a s"
  note defs = weak_exchange_def Let_def enqueue_exchange_def acquires_def releases_def ord
  show ?thesis
    unfolding knows_inv_def
  proof (intro conjI allI ballI impI)
    fix u p b assume "prod (strong ?s) u = Link p b"
    then show "Born p \<in> known ?s u" "Born b \<in> known ?s u"
      using k(2) k(4) [OF assms(2)] k(5) [of u p b] by (auto simp: defs split: if_splits)
  next
    fix u b assume "prod (strong ?s) u = Ready b"
    then show "Born b \<in> known ?s u" using k(4) [of u b] by (auto simp: defs split: if_splits)
  qed (use k(1-3) k(4) [OF assms(2)] k(6,7) in \<open>auto simp: defs\<close>)
qed

lemma knows_link:
  assumes "knows_inv s" "mpsc_reach (strong s)" "prod (strong s) t = Link p a" "link_order ord = Mo_release"
  shows "knows_inv (weak_link ord t p a s)"
proof -
  note k = knows_invD [OF assms(1)] and ord = assms(4)
  let ?s = "weak_link ord t p a s"
  have "p \<in> alive (que (strong s))" using mpsc_reach_alive(4) [OF assms(2,3)] by simp
  note defs = weak_link_def Let_def releases_def ord enqueue_link_def or_broken_def this
  show ?thesis
    unfolding knows_inv_def
  proof (intro conjI allI ballI impI)
    fix u q b assume "prod (strong ?s) u = Link q b"
    then show "Born q \<in> known ?s u" "Born b \<in> known ?s u" using k(5) [of u q b] by (auto simp: defs split: if_splits)
  next
    fix u b assume "prod (strong ?s) u = Ready b"
    then show "Born b \<in> known ?s u" using k(4) [of u b] by (auto simp: defs split: if_splits)
  next
    fix q assume "q \<in> alive (que (strong ?s))" "nxt (que (strong ?s)) q \<noteq> 0"
    then show "Born (nxt (que (strong ?s)) q) \<in> next_msg ?s q" "Linked q \<in> next_msg ?s q"
      using k(5) [OF assms(3)] k(6) [of q] by (auto simp: defs split: if_splits)
  qed (use k(1-3) k(5) [OF assms(3)] k(7) in \<open>auto simp: defs\<close>)
qed

lemma knows_look:
  assumes "knows_inv s" "mpsc_reach (strong s)" "taking (strong s) = None" "next_order ord = Mo_acquire"
  shows "knows_inv (weak_look ord stale s)"
proof -
  note k = knows_invD [OF assms(1)] and ord = assms(4)
  have t: "tail (que (strong s)) \<in> alive (que (strong s))" using mpsc_reach_alive(2) [OF assms(2)] .
  show ?thesis
    using k(1-3) k(4,5,6) k(6) [OF t] assms(3) t
    by (cases stale) (auto simp: knows_inv_def weak_look_def Let_def acquires_def ord dequeue_load_def or_broken_def)
qed

lemma knows_take:
  assumes "knows_inv s" "mpsc_reach (strong s)" "taking (strong s) = Some n"
  shows "knows_inv (weak_take n s)"
proof -
  note k = knows_invD [OF assms(1)]
  from mpsc_reach_inv [OF mpsc_reach.step [OF assms(2) mpsc_step.take [OF assms(3)]]] obtain d q where
    q: "dequeue_take n (que (strong s)) = Inr (d, q)"
    by (cases "dequeue_take n (que (strong s))") (auto simp: or_broken_def mpsc_inv_def)
  then have "q = (que (strong s))\<lparr>tail := n, alive := alive (que (strong s)) - {tail (que (strong s))}\<rparr>"
    by (auto simp: dequeue_take_def split: if_splits option.splits)
  with k(1-3) k(4,5,6) k(7) [OF assms(3)] q show ?thesis
    by (auto simp: knows_inv_def weak_take_def Let_def or_broken_def)
qed

lemma weak_step_strong:
  assumes "weak_mpsc_step ord s s'"
  shows "strong s' = strong s \<or> mpsc_step (strong s) (strong s')"
  using assms
proof (cases rule: weak_mpsc_step.cases)
  case (make t a d)
  with mpsc_step.make [of "strong s" t a d] show ?thesis by (simp add: weak_make_def Let_def)
next
  case (exchange t a)
  with mpsc_step.exchange [of "strong s" t a] show ?thesis by (simp add: weak_exchange_def Let_def enqueue_exchange_def)
next
  case (link t p a)
  with mpsc_step.link [of "strong s" t p a] show ?thesis by (simp add: weak_link_def Let_def)
next
  case (look stale)
  with mpsc_step.look [of "strong s"] show ?thesis by (cases stale) (simp_all add: weak_look_def Let_def)
next
  case (take n)
  with mpsc_step.take [of "strong s" n] show ?thesis by (simp add: weak_take_def Let_def)
qed

lemma weak_mpsc_reach_inv:
  assumes "weak_mpsc_reach mpsc_orders s"
  shows "mpsc_reach (strong s) \<and> knows_inv s"
  using assms
proof (induction rule: weak_mpsc_reach.induct)
  case (start a)
  then show ?case using mpsc_reach.start [OF start] by (auto simp: weak_mpsc_start_def knows_inv_def mpsc_new_def)
next
  case (step s s')
  then have r: "mpsc_reach (strong s)" and k: "knows_inv s" by simp_all
  have ord: "exchange_order mpsc_orders = Mo_acq_rel" "link_order mpsc_orders = Mo_release" "next_order mpsc_orders = Mo_acquire"
    by (simp_all add: mpsc_orders_def)
  have "mpsc_reach (strong s')" using weak_step_strong [OF step(2)] r mpsc_reach.step [OF r] by auto
  moreover from step(2) have "knows_inv s'"
  proof (cases rule: weak_mpsc_step.cases)
    case (make t a d)
    with knows_make [OF k r make(2,4)] show ?thesis by simp
  next
    case (exchange t a)
    with knows_exchange [OF k exchange(2) ord(1)] show ?thesis by simp
  next
    case (link t p a)
    with knows_link [OF k r link(2) ord(2)] show ?thesis by simp
  next
    case (look stale)
    with knows_look [OF k r look(2) ord(3)] show ?thesis by simp
  next
    case (take n)
    with knows_take [OF k r take(2)] show ?thesis by simp
  qed
  ultimately show ?case ..
qed

subsection \<open>Properties\<close>

text \<open>
  C12: the orders of \<^verbatim>\<open>MPSCQueue.h\<close> are enough: no thread reads or links a node it does not know to be constructed, no node is
  deleted under a producer, and what the consumer gets is, in the order of the exchanges, a prefix of what was enqueued.
\<close>

theorem mpsc_orders_suffice:
  assumes "weak_mpsc_reach mpsc_orders s"
  shows "\<not> raced s \<and> \<not> broken (strong s) \<and> mpsc_reach (strong s) \<and> (\<exists>rest. pushed (strong s) = popped (strong s) @ rest)"
  using weak_mpsc_reach_inv [OF assms] mpsc_reach_inv [of "strong s"] unfolding knows_inv_def mpsc_inv_def by blast

text \<open>Two producers publish nodes 2 and 3, and the second one links; or one producer publishes node 2, and the consumer takes it.\<close>

definition weak_second_links :: "orders \<Rightarrow> nat weak_mpsc" where
  "weak_second_links ord =
     weak_link ord 1 2 3 (weak_exchange ord 1 3 (weak_make 1 3 8 (weak_exchange ord 0 2 (weak_make 0 2 7 (weak_mpsc_start 1)))))"

definition weak_consumed :: "orders \<Rightarrow> nat weak_mpsc" where
  "weak_consumed ord =
     weak_take 2 (weak_look ord False (weak_link ord 0 1 2 (weak_exchange ord 0 2 (weak_make 0 2 7 (weak_mpsc_start 1)))))"

lemmas weak_defs = weak_make_def weak_exchange_def weak_link_def weak_look_def weak_take_def weak_mpsc_start_def Let_def
  mpsc_new_def new_node_def enqueue_exchange_def enqueue_link_def dequeue_load_def dequeue_take_def or_broken_def

lemmas weak_run = weak_mpsc_reach.step [OF _ weak_mpsc_step.make] weak_mpsc_reach.step [OF _ weak_mpsc_step.exchange]
  weak_mpsc_reach.step [OF _ weak_mpsc_step.link] weak_mpsc_reach.step [OF _ weak_mpsc_step.look]
  weak_mpsc_reach.step [OF _ weak_mpsc_step.take] weak_mpsc_reach.start

lemma weak_second_links_reach: "weak_mpsc_reach ord (weak_second_links ord)"
  unfolding weak_second_links_def by (rule weak_run)+ (simp_all add: weak_defs)

lemma weak_consumed_reach: "weak_mpsc_reach ord (weak_consumed ord)"
  unfolding weak_consumed_def by (rule weak_run)+ (simp_all add: weak_defs)

theorem mpsc_orders_suffice_witness:
  "\<not> raced (weak_consumed mpsc_orders) \<and> popped (strong (weak_consumed mpsc_orders)) = [7]"
proof -
  have "popped (strong (weak_consumed mpsc_orders)) = [7]" by (simp add: weak_consumed_def weak_defs)
  with mpsc_orders_suffice [OF weak_consumed_reach] show ?thesis by blast
qed

text \<open>None of the orders can be weakened.\<close>

lemma weaker_orders_race:
  assumes "\<not> acquires (exchange_order ord) \<or> \<not> releases (exchange_order ord) \<or> \<not> releases (link_order ord) \<or> \<not> acquires (next_order ord)"
  shows "\<exists>s :: nat weak_mpsc. weak_mpsc_reach ord s \<and> raced s"
proof -
  have "raced (weak_second_links ord)" if "\<not> acquires (exchange_order ord) \<or> \<not> releases (exchange_order ord)"
    using that by (auto simp: weak_second_links_def weak_defs)
  moreover have "raced (weak_consumed ord)" if "\<not> releases (link_order ord) \<or> \<not> acquires (next_order ord)"
    using that by (auto simp: weak_consumed_def weak_defs)
  ultimately show ?thesis using assms weak_second_links_reach [of ord] weak_consumed_reach [of ord] by blast
qed

end
