(* ===== verification/Mpsc_Intrusive.thy ===== *)
theory Mpsc_Intrusive
  imports Mpsc Interfaces
begin

text \<open>
  \<open>MPSCQueueIntrusive\<close> of \<^verbatim>\<open>queue_design-master/MPSCQueue.h\<close>: the objects carry the link themselves, and a
  dummy object keeps the list from ever being empty. \<open>held\<close> are the objects that are the queue's,
  the dummy and those that were enqueued and not yet returned: the caller of \<open>Dequeue\<close> may delete
  what it got, so that a step that touches the link of any other object is a fault.
\<close>

subsection \<open>The queue\<close>

record intrusive =
  ilink :: "nat \<Rightarrow> nat"
  dummy :: nat
  ihead :: nat
  itail :: nat
  held :: "nat set"

definition intrusive_new :: "nat \<Rightarrow> intrusive" where
  "intrusive_new d = \<lparr>ilink = (\<lambda>_. 0)(d := 0), dummy = d, ihead = d, itail = d, held = {d}\<rparr>"

text \<open>\<open>Enqueue\<close>: the link of the new object is cleared, the head exchanged, the old head linked.\<close>

definition int_clear :: "nat \<Rightarrow> intrusive \<Rightarrow> intrusive" where
  "int_clear a q = q\<lparr>ilink := (ilink q)(a := 0)\<rparr>"

definition int_exchange :: "nat \<Rightarrow> intrusive \<Rightarrow> nat \<times> intrusive" where
  "int_exchange a q = (ihead q, q\<lparr>ihead := a, held := insert a (held q)\<rparr>)"

definition int_link :: "nat \<Rightarrow> nat \<Rightarrow> intrusive \<Rightarrow> fault + intrusive" where
  "int_link p a q = (if p \<in> held q then Inr (q\<lparr>ilink := (ilink q)(p := a)\<rparr>) else Inl NullUse)"

definition int_Enqueue :: "nat \<Rightarrow> intrusive \<Rightarrow> fault + intrusive" where
  "int_Enqueue a q = (let (p, q1) = int_exchange a (int_clear a q) in int_link p a q1)"

definition int_load :: "nat \<Rightarrow> intrusive \<Rightarrow> fault + nat" where
  "int_load a q = (if a \<in> held q then Inr (ilink q a) else Inl NullUse)"

text \<open>
  \<open>Dequeue\<close>, one access to memory others write at a time. The constructors say what the consumer
  does next and hold its local variables.
\<close>

datatype consumer =
    Begin
  | Second nat        \<comment> \<open>the tail was the dummy: load the link of the object after it\<close>
  | Read_head nat     \<comment> \<open>the tail has no link: compare it with the head\<close>
  | Clear_dummy nat   \<comment> \<open>\<open>Enqueue(_dummyPtr)\<close>, its three steps\<close>
  | Put_dummy nat
  | Link_dummy nat nat
  | Last nat          \<comment> \<open>load the link of the tail again\<close>

datatype answer = Going | Nothing | Took nat

definition int_take :: "nat \<Rightarrow> nat \<Rightarrow> intrusive \<Rightarrow> consumer \<times> answer \<times> intrusive" where
  "int_take t n q = (Begin, Took t, q\<lparr>itail := n, held := held q - {t}\<rparr>)"

fun dequeue_step :: "consumer \<Rightarrow> intrusive \<Rightarrow> fault + (consumer \<times> answer \<times> intrusive)" where
  "dequeue_step Begin q =
     bindE (int_load (itail q) q) (\<lambda>n.
     if itail q = dummy q
     then if n = 0 then Inr (Begin, Nothing, q) else Inr (Second n, Going, q\<lparr>itail := n\<rparr>)
     else if n \<noteq> 0 then Inr (int_take (itail q) n q) else Inr (Read_head (itail q), Going, q))"
| "dequeue_step (Second t) q =
     bindE (int_load t q) (\<lambda>n. if n \<noteq> 0 then Inr (int_take t n q) else Inr (Read_head t, Going, q))"
| "dequeue_step (Read_head t) q =
     (if t \<noteq> ihead q then Inr (Begin, Nothing, q) else Inr (Clear_dummy t, Going, q))"
| "dequeue_step (Clear_dummy t) q = Inr (Put_dummy t, Going, int_clear (dummy q) q)"
| "dequeue_step (Put_dummy t) q = (let (p, q') = int_exchange (dummy q) q in Inr (Link_dummy p t, Going, q'))"
| "dequeue_step (Link_dummy p t) q = bindE (int_link p (dummy q) q) (\<lambda>q'. Inr (Last t, Going, q'))"
| "dequeue_step (Last t) q =
     bindE (int_load t q) (\<lambda>n. if n \<noteq> 0 then Inr (int_take t n q) else Inr (Begin, Nothing, q))"

text \<open>A whole call, with no other thread in between.\<close>

definition dequeue_turn :: "consumer \<times> intrusive \<Rightarrow> fault + (consumer \<times> intrusive + nat option \<times> intrusive)" where
  "dequeue_turn = (\<lambda>(c, q). bindE (dequeue_step c q) (\<lambda>(c', r, q').
     case r of Going \<Rightarrow> Inr (Inl (c', q')) | Nothing \<Rightarrow> Inr (Inr (None, q')) | Took a \<Rightarrow> Inr (Inr (Some a, q'))))"

definition int_Dequeue :: "intrusive \<Rightarrow> (fault + (nat option \<times> intrusive)) option" where
  "int_Dequeue q = run_loop dequeue_turn (Begin, q)"

subsection \<open>Producers and the consumer\<close>

record imp =
  iq :: intrusive
  iprod :: "nat \<Rightarrow> producer"
  icons :: consumer
  ipushed :: "nat list"
  ipopped :: "nat list"
  ibroken :: bool

fun record_answer :: "answer \<Rightarrow> nat list \<Rightarrow> nat list" where
  "record_answer (Took a) xs = xs @ [a]"
| "record_answer _ xs = xs"

text \<open>The caller enqueues an object that is not in the queue and that no other producer is enqueueing.\<close>

inductive imp_step :: "imp \<Rightarrow> imp \<Rightarrow> bool" where
  clear: "iprod s t = Away \<Longrightarrow> a \<noteq> 0 \<Longrightarrow> a \<noteq> dummy (iq s) \<Longrightarrow> a \<notin> held (iq s) \<Longrightarrow> a \<notin> ready (iprod s) \<Longrightarrow>
    imp_step s (s\<lparr>iq := int_clear a (iq s), iprod := (iprod s)(t := Ready a)\<rparr>)"
| exchange: "iprod s t = Ready a \<Longrightarrow> int_exchange a (iq s) = (p, q) \<Longrightarrow>
    imp_step s (s\<lparr>iq := q, iprod := (iprod s)(t := Link p a), ipushed := ipushed s @ [a]\<rparr>)"
| link: "iprod s t = Link p a \<Longrightarrow> int_link p a (iq s) = Inr q \<Longrightarrow>
    imp_step s (s\<lparr>iq := q, iprod := (iprod s)(t := Away)\<rparr>)"
| link_fault: "iprod s t = Link p a \<Longrightarrow> int_link p a (iq s) = Inl e \<Longrightarrow> imp_step s (s\<lparr>ibroken := True\<rparr>)"
| dequeue: "dequeue_step (icons s) (iq s) = Inr (c, r, q) \<Longrightarrow>
    imp_step s (s\<lparr>iq := q, icons := c, ipopped := record_answer r (ipopped s)\<rparr>)"
| dequeue_fault: "dequeue_step (icons s) (iq s) = Inl e \<Longrightarrow> imp_step s (s\<lparr>ibroken := True\<rparr>)"

inductive imp_reach :: "imp \<Rightarrow> bool" where
  start: "d \<noteq> 0 \<Longrightarrow> imp_reach \<lparr>iq = intrusive_new d, iprod = (\<lambda>_. Away), icons = Begin, ipushed = [], ipopped = [], ibroken = False\<rparr>"
| step: "imp_reach s \<Longrightarrow> imp_step s s' \<Longrightarrow> imp_reach s'"

subsection \<open>The invariant\<close>

text \<open>Thread \<open>None\<close> is the consumer, which owes a link too while it puts the dummy back.\<close>

fun owed :: "(nat \<Rightarrow> producer) \<Rightarrow> consumer \<Rightarrow> nat \<Rightarrow> nat option \<Rightarrow> (nat \<times> nat) option" where
  "owed pr c d (Some t) = pending (pr t)"
| "owed pr (Link_dummy p t) d None = Some (p, d)"
| "owed pr _ d None = None"

definition queued :: "nat \<Rightarrow> nat list \<Rightarrow> nat list" where
  "queued d L = filter (\<lambda>x. x \<noteq> d) L"

text \<open>What the consumer's local variables say of the list \<open>L\<close> from the tail to the head.\<close>

fun at_ok :: "consumer \<Rightarrow> intrusive \<Rightarrow> nat list \<Rightarrow> bool" where
  "at_ok Begin q L = True"
| "at_ok (Second t) q L = (t = hd L \<and> t \<noteq> dummy q)"
| "at_ok (Read_head t) q L = (t = hd L \<and> t \<noteq> dummy q)"
| "at_ok (Clear_dummy t) q L = (t = hd L \<and> dummy q \<notin> set L)"
| "at_ok (Put_dummy t) q L = (t = hd L \<and> dummy q \<notin> set L \<and> ilink q (dummy q) = 0)"
| "at_ok (Link_dummy p t) q L = (t = hd L \<and> t \<noteq> dummy q)"
| "at_ok (Last t) q L = (t = hd L \<and> t \<noteq> dummy q)"

definition int_ok :: "intrusive \<Rightarrow> (nat \<Rightarrow> producer) \<Rightarrow> consumer \<Rightarrow> nat list \<Rightarrow> bool" where
  "int_ok q pr c L \<longleftrightarrow> queue_ok (ilink q) (owed pr c (dummy q)) L \<and> hd L = itail q \<and> last L = ihead q \<and>
     held q = insert (dummy q) (set L) \<and> dummy q \<noteq> 0 \<and> at_ok c q L \<and>
     (\<forall>a \<in> ready pr. a \<notin> held q \<and> a \<noteq> 0 \<and> ilink q a = 0) \<and> ready_once pr"

lemma int_okI:
  "queue_ok (ilink q) (owed pr c (dummy q)) L \<Longrightarrow> hd L = itail q \<Longrightarrow> last L = ihead q \<Longrightarrow>
     held q = insert (dummy q) (set L) \<Longrightarrow> dummy q \<noteq> 0 \<Longrightarrow> at_ok c q L \<Longrightarrow>
     (\<And>a. a \<in> ready pr \<Longrightarrow> a \<notin> held q \<and> a \<noteq> 0 \<and> ilink q a = 0) \<Longrightarrow> ready_once pr \<Longrightarrow> int_ok q pr c L"
  unfolding int_ok_def by blast

lemma int_okD:
  assumes "int_ok q pr c L"
  shows "queue_ok (ilink q) (owed pr c (dummy q)) L" "hd L = itail q" "last L = ihead q"
    "held q = insert (dummy q) (set L)" "dummy q \<noteq> 0" "at_ok c q L"
    "\<And>a. a \<in> ready pr \<Longrightarrow> a \<notin> held q \<and> a \<noteq> 0 \<and> ilink q a = 0" "ready_once pr" "L \<noteq> []" "distinct L"
  using assms unfolding int_ok_def queue_ok_def by blast+

lemma owed_prod: "owed (pr(t := x)) c d = (owed pr c d)(Some t := pending x)"
proof
  fix u show "owed (pr(t := x)) c d u = ((owed pr c d)(Some t := pending x)) u"
    by (cases u; cases c) auto
qed

lemma owed_cons: "owed pr c d = (owed pr Begin d)(None := owed pr c d None)"
proof
  fix u show "owed pr c d u = ((owed pr Begin d)(None := owed pr c d None)) u" by (cases u) auto
qed

lemma owed_same: "owed pr c d None = owed pr c' d None \<Longrightarrow> owed pr c d = owed pr c' d"
  using owed_cons [of pr c d] owed_cons [of pr c' d] by simp

lemma owed_forget: "owed pr c' d None = None \<Longrightarrow> owed pr c' d = (owed pr c d)(None := None)"
proof
  fix u assume "owed pr c' d None = None"
  then show "owed pr c' d u = ((owed pr c d)(None := None)) u" by (cases u) simp_all
qed

lemma ready_in: "pr t = Ready a \<Longrightarrow> a \<in> ready pr"
  unfolding ready_def by blast

lemma ready_once_Ready: "ready_once pr \<Longrightarrow> a \<notin> ready pr \<Longrightarrow> ready_once (pr(t := Ready a))"
  unfolding ready_once_def ready_def by (auto split: if_splits)

lemma ready_once_other: "ready_once pr \<Longrightarrow> (\<And>a. x \<noteq> Ready a) \<Longrightarrow> ready_once (pr(t := x))"
  unfolding ready_once_def by (auto split: if_splits)

lemma int_clear_ok:
  assumes ok: "int_ok q pr c L" and t: "pr t = Away" and a: "a \<noteq> 0" "a \<noteq> dummy q" "a \<notin> held q" "a \<notin> ready pr"
  shows "int_ok (int_clear a q) (pr(t := Ready a)) c L"
proof (rule int_okI)
  note d = int_okD [OF ok]
  have aL: "a \<notin> set L" using a(3) d(4) by blast
  have "owed (pr(t := Ready a)) c (dummy q) = owed pr c (dummy q)"
    unfolding owed_prod using t by (auto simp: fun_eq_iff)
  then show "queue_ok (ilink (int_clear a q)) (owed (pr(t := Ready a)) c (dummy (int_clear a q))) L"
    using queue_ok_other [OF d(1) aL] by (simp add: int_clear_def)
  show "at_ok c (int_clear a q) L" using d(6) a(2) by (cases c) (auto simp: int_clear_def)
  show "b \<notin> held (int_clear a q) \<and> b \<noteq> 0 \<and> ilink (int_clear a q) b = 0" if "b \<in> ready (pr(t := Ready a))" for b
    using that d(7) a unfolding ready_upd_Ready [of pr t a, OF t] by (auto simp: int_clear_def)
  show "ready_once (pr(t := Ready a))" by (rule ready_once_Ready [OF d(8) a(4)])
qed (use int_okD [OF ok] in \<open>simp_all add: int_clear_def\<close>)

lemma int_exchange_ok:
  assumes ok: "int_ok q pr c L" and t: "pr t = Ready a" and ex: "int_exchange a q = (p, q')"
  shows "int_ok q' (pr(t := Link p a)) c (L @ [a])" "queued (dummy q') (L @ [a]) = queued (dummy q) L @ [a]"
proof -
  note d = int_okD [OF ok]
  note a = d(7) [OF ready_in [of pr, OF t]]
  have q': "q' = q\<lparr>ihead := a, held := insert a (held q)\<rparr>" and p: "p = last L" using ex d(3) by (simp_all add: int_exchange_def)
  have aL: "a \<notin> set L" "a \<noteq> dummy q" using a d(4) by auto
  have rd: "ready (pr(t := Link p a)) = ready pr - {a}"
    by (rule ready_upd_Link [of pr, OF t]) (use d(8) t in \<open>unfold ready_once_def, blast\<close>)
  show "int_ok q' (pr(t := Link p a)) c (L @ [a])"
  proof (rule int_okI)
    have "owed pr c (dummy q) (Some t) = None" using t by simp
    from queue_ok_exchange [OF d(1) _ aL(1) _ this] a
    show "queue_ok (ilink q') (owed (pr(t := Link p a)) c (dummy q')) (L @ [a])" unfolding owed_prod q' p by simp
    show "at_ok c q' (L @ [a])" using d(6,9) aL(2) unfolding q' by (cases c) auto
    show "ready_once (pr(t := Link p a))" by (rule ready_once_other [OF d(8)]) simp
    show "b \<notin> held q' \<and> b \<noteq> 0 \<and> ilink q' b = 0" if "b \<in> ready (pr(t := Link p a))" for b
      using that d(7) unfolding rd q' by auto
  qed (use d in \<open>auto simp: q'\<close>)
  show "queued (dummy q') (L @ [a]) = queued (dummy q) L @ [a]" using aL(2) by (simp add: queued_def q')
qed

lemma int_link_ok:
  assumes ok: "int_ok q pr c L" and o: "owed pr c (dummy q) u = Some (p, a)"
  shows "int_link p a q = Inr (q\<lparr>ilink := (ilink q)(p := a)\<rparr>)" "p \<in> set L"
    "queue_ok ((ilink q)(p := a)) ((owed pr c (dummy q))(u := None)) L"
proof -
  note d = int_okD [OF ok]
  show p: "p \<in> set L" using d(1) o unfolding queue_ok_def by blast
  then show "int_link p a q = Inr (q\<lparr>ilink := (ilink q)(p := a)\<rparr>)" using d(4) by (simp add: int_link_def)
  show "queue_ok ((ilink q)(p := a)) ((owed pr c (dummy q))(u := None)) L" by (rule queue_ok_link [OF d(1) o])
qed

lemma int_producer_link_ok:
  assumes ok: "int_ok q pr c L" and t: "pr t = Link p a"
  shows "int_ok (q\<lparr>ilink := (ilink q)(p := a)\<rparr>) (pr(t := Away)) c L"
proof (rule int_okI)
  note d = int_okD [OF ok]
  have "owed pr c (dummy q) (Some t) = Some (p, a)" using t by simp
  note l = int_link_ok [OF ok this]
  show "queue_ok (ilink (q\<lparr>ilink := (ilink q)(p := a)\<rparr>)) (owed (pr(t := Away)) c (dummy (q\<lparr>ilink := (ilink q)(p := a)\<rparr>))) L"
    using l(3) unfolding owed_prod by simp
  show "at_ok c (q\<lparr>ilink := (ilink q)(p := a)\<rparr>) L" using d(6) l(2) by (cases c) auto
  show "b \<notin> held (q\<lparr>ilink := (ilink q)(p := a)\<rparr>) \<and> b \<noteq> 0 \<and> ilink (q\<lparr>ilink := (ilink q)(p := a)\<rparr>) b = 0"
    if "b \<in> ready (pr(t := Away))" for b
    using that d(4,7) l(2) unfolding ready_upd_Away [of pr, OF t] by auto
  show "ready_once (pr(t := Away))" by (rule ready_once_other [OF d(8)]) simp
qed (use int_okD [OF ok] in simp_all)

text \<open>The consumer's steps.\<close>

lemma int_take_ok:
  assumes ok: "int_ok q pr c L" and c: "owed pr c (dummy q) None = None"
    and n: "ilink q (hd L) = n" "n \<noteq> 0" and t: "t = hd L" "t \<noteq> dummy q" and take: "int_take t n q = (c', r, q')"
  shows "r = Took t \<and> (\<exists>L'. int_ok q' pr c' L' \<and> L = t # L' \<and> queued (dummy q) L = t # queued (dummy q') L')"
proof -
  note d = int_okD [OF ok]
  obtain l where L: "L = t # l" using d(9) t by (cases L) auto
  from queue_ok_advance [of "ilink q" _ t l] d(1) n L obtain L' where l: "l = n # L'" "queue_ok (ilink q) (owed pr c (dummy q)) l" by auto
  have q': "q' = q\<lparr>itail := n, held := held q - {t}\<rparr>" "c' = Begin" "r = Took t" using take by (simp_all add: int_take_def)
  have "int_ok q' pr Begin l"
  proof (rule int_okI)
    show "queue_ok (ilink q') (owed pr Begin (dummy q')) l" using l(2) owed_same [of pr c "dummy q" Begin] c by (simp add: q')
    show "held q' = insert (dummy q') (set l)" using d(4,10) t(2) L by (auto simp: q')
    show "a \<notin> held q' \<and> a \<noteq> 0 \<and> ilink q' a = 0" if "a \<in> ready pr" for a using d(7) [OF that] by (simp add: q')
  qed (use d L l(1) in \<open>simp_all add: q'\<close>)
  then show ?thesis using L q' t(2) by (simp add: queued_def)
qed

lemma int_load_ok: "int_ok q pr c L \<Longrightarrow> int_load (hd L) q = Inr (ilink q (hd L))"
  using int_okD(4,9) [of q pr c L] by (simp add: int_load_def)

lemma int_go_on:
  assumes ok: "int_ok q pr c L" and c: "owed pr c (dummy q) None = owed pr c' (dummy q) None" and at: "at_ok c' q L"
  shows "int_ok q pr c' L"
proof (rule int_okI)
  show "queue_ok (ilink q) (owed pr c' (dummy q)) L" using int_okD(1) [OF ok] owed_same [OF c] by simp
  show "a \<notin> held q \<and> a \<noteq> 0 \<and> ilink q a = 0" if "a \<in> ready pr" for a by (rule int_okD(7) [OF ok that])
qed (use int_okD [OF ok] at in blast)+

lemma int_skip_dummy:
  assumes ok: "int_ok q pr Begin L" and t: "itail q = dummy q" and n: "ilink q (itail q) = n" "n \<noteq> 0"
  shows "\<exists>L'. L = dummy q # L' \<and> int_ok (q\<lparr>itail := n\<rparr>) pr (Second n) L' \<and> queued (dummy q) L = queued (dummy q) L'"
proof -
  note d = int_okD [OF ok]
  obtain l where L: "L = dummy q # l" using d(2,9) t by (cases L) auto
  from queue_ok_advance [of "ilink q" _ "dummy q" l] d(1) n t L obtain L' where l: "l = n # L'" "queue_ok (ilink q) (owed pr Begin (dummy q)) l" by auto
  have "int_ok (q\<lparr>itail := n\<rparr>) pr (Second n) l"
  proof (rule int_okI)
    show "queue_ok (ilink (q\<lparr>itail := n\<rparr>)) (owed pr (Second n) (dummy (q\<lparr>itail := n\<rparr>))) l"
      using l(2) owed_same [of pr Begin "dummy q" "Second n"] by simp
    show "at_ok (Second n) (q\<lparr>itail := n\<rparr>) l" using d(10) L l(1) by auto
    show "a \<notin> held (q\<lparr>itail := n\<rparr>) \<and> a \<noteq> 0 \<and> ilink (q\<lparr>itail := n\<rparr>) a = 0" if "a \<in> ready pr" for a using d(7) [OF that] by simp
  qed (use d L l(1) in auto)
  then show ?thesis using L by (simp add: queued_def)
qed

lemma distinct_hd_last: "distinct L \<Longrightarrow> L \<noteq> [] \<Longrightarrow> hd L = last L \<Longrightarrow> L = [hd L]"
proof (cases L)
  case (Cons x l)
  assume "distinct L" "hd L = last L"
  with Cons show ?thesis using last_in_set [of l] by (cases "l = []") auto
qed simp

lemma int_dequeue_ok:
  assumes ok: "int_ok q pr c L"
  shows "\<exists>c' r q' L'. dequeue_step c q = Inr (c', r, q') \<and> int_ok q' pr c' L' \<and>
    record_answer r [] @ queued (dummy q') L' = queued (dummy q) L"
proof (cases c)
  case Begin
  note d = int_okD [OF ok]
  note load = int_load_ok [OF ok, unfolded d(2)]
  show ?thesis
  proof (cases "itail q = dummy q")
    case True
    show ?thesis
    proof (cases "ilink q (itail q) = 0")
      case False
      from int_skip_dummy [OF ok [unfolded Begin] True refl False] obtain L' where
        "L = dummy q # L'" "int_ok (q\<lparr>itail := ilink q (itail q)\<rparr>) pr (Second (ilink q (itail q))) L'" "queued (dummy q) L = queued (dummy q) L'" by blast
      then show ?thesis using Begin True False load by auto
    qed (use ok Begin True load in auto)
  next
    case False
    show ?thesis
    proof (cases "ilink q (itail q) = 0")
      case True
      have "int_ok q pr (Read_head (itail q)) L" by (rule int_go_on [OF ok]) (use Begin False d(2) in simp_all)
      then show ?thesis using Begin True False load by auto
    next
      case n: False
      obtain c' r q' where take: "int_take (itail q) (ilink q (itail q)) q = (c', r, q')" by (metis prod_cases3)
      have "dequeue_step c q = Inr (c', r, q')" using Begin False n load take by simp
      moreover have "owed pr c (dummy q) None = None" using Begin by simp
      from int_take_ok [OF ok this _ n d(2) [symmetric] False take] d(2) obtain L' where "r = Took (itail q)" "int_ok q' pr c' L'"
        "queued (dummy q) L = itail q # queued (dummy q') L'" by auto
      ultimately show ?thesis by auto
    qed
  qed
next
  case (Second t)
  note d = int_okD [OF ok]
  have t: "t = hd L" "t \<noteq> dummy q" using d(6) Second by auto
  show ?thesis
  proof (cases "ilink q t = 0")
    case True
    have "int_ok q pr (Read_head t) L" by (rule int_go_on [OF ok]) (use Second t in simp_all)
    then show ?thesis using Second True t int_load_ok [OF ok] by auto
  next
    case False
    obtain c' r q' where take: "int_take t (ilink q t) q = (c', r, q')" by (metis prod_cases3)
    from int_take_ok [OF ok _ _ False t take] Second t show ?thesis using False int_load_ok [OF ok] take by auto
  qed
next
  case (Read_head t)
  note d = int_okD [OF ok]
  have t: "t = hd L" "t \<noteq> dummy q" using d(6) Read_head by auto
  have one: "L = [t]" if i: "t = ihead q"
  proof -
    have "hd L = last L" using i t(1) d(3) by (simp only:)
    then have "L = [hd L]" by (rule distinct_hd_last [OF d(10,9)])
    then show ?thesis using t(1) by (simp only:)
  qed
  have "int_ok q pr (Clear_dummy t) L" if "t = ihead q"
  proof (rule int_go_on [OF ok])
    from one [OF that] have "set L = set [t]" by (rule arg_cong)
    then show "at_ok (Clear_dummy t) q L" using t by auto
  qed (simp add: Read_head)
  moreover have "int_ok q pr Begin L" by (rule int_go_on [OF ok]) (use Read_head in simp_all)
  ultimately show ?thesis using Read_head by auto
next
  case (Clear_dummy t)
  note d = int_okD [OF ok]
  have t: "t = hd L" "dummy q \<notin> set L" using d(6) Clear_dummy by auto
  have "int_ok (int_clear (dummy q) q) pr (Put_dummy t) L"
  proof (rule int_okI)
    show "queue_ok (ilink (int_clear (dummy q) q)) (owed pr (Put_dummy t) (dummy (int_clear (dummy q) q))) L"
      using queue_ok_other [OF d(1) t(2)] owed_same [of pr "Put_dummy t" "dummy q" c] Clear_dummy by (simp add: int_clear_def)
    show "b \<notin> held (int_clear (dummy q) q) \<and> b \<noteq> 0 \<and> ilink (int_clear (dummy q) q) b = 0" if "b \<in> ready pr" for b
      using d(7) [OF that] by (simp add: int_clear_def)
  qed (use d t in \<open>simp_all add: int_clear_def\<close>)
  then show ?thesis using Clear_dummy by (auto simp: int_clear_def)
next
  case (Put_dummy t)
  note d = int_okD [OF ok]
  have t: "t = hd L" "dummy q \<notin> set L" "ilink q (dummy q) = 0" using d(6) Put_dummy by auto
  have hdd: "hd L \<noteq> dummy q" using t(2) d(9) by (metis hd_in_set)
  define q' where "q' = q\<lparr>ihead := dummy q, held := insert (dummy q) (held q)\<rparr>"
  have "int_ok q' pr (Link_dummy (ihead q) t) (L @ [dummy q])"
  proof (rule int_okI)
    have "owed pr c (dummy q) None = None" using Put_dummy by simp
    from queue_ok_exchange [OF d(1) t(3,2) d(5) this]
    have "queue_ok (ilink q) ((owed pr c (dummy q))(None := Some (ihead q, dummy q))) (L @ [dummy q])" unfolding d(3) .
    moreover have "owed pr (Link_dummy (ihead q) t) (dummy q) = (owed pr c (dummy q))(None := Some (ihead q, dummy q))"
      using owed_cons [of pr "Link_dummy (ihead q) t" "dummy q"] owed_cons [of pr c "dummy q"] by (simp add: Put_dummy)
    ultimately show "queue_ok (ilink q') (owed pr (Link_dummy (ihead q) t) (dummy q')) (L @ [dummy q])" by (simp add: q'_def)
    show "at_ok (Link_dummy (ihead q) t) q' (L @ [dummy q])" using t(1,2) d(9) hdd by (simp add: q'_def)
    show "b \<notin> held q' \<and> b \<noteq> 0 \<and> ilink q' b = 0" if "b \<in> ready pr" for b using d(7) [OF that] d(4) by (auto simp: q'_def)
  qed (use d in \<open>auto simp: q'_def\<close>)
  moreover have "queued (dummy q') (L @ [dummy q]) = queued (dummy q) L" by (simp add: queued_def q'_def)
  ultimately show ?thesis using Put_dummy by (auto simp: int_exchange_def q'_def [symmetric])
next
  case (Link_dummy p t)
  note d = int_okD [OF ok]
  have t: "t = hd L" "t \<noteq> dummy q" using d(6) Link_dummy by auto
  have "owed pr c (dummy q) None = Some (p, dummy q)" using Link_dummy by simp
  note l = int_link_ok [OF ok this]
  define q' where "q' = q\<lparr>ilink := (ilink q)(p := dummy q)\<rparr>"
  have "int_ok q' pr (Last t) L"
  proof (rule int_okI)
    have "owed pr (Last t) (dummy q) = (owed pr c (dummy q))(None := None)"
      by (rule owed_forget) simp
    then show "queue_ok (ilink q') (owed pr (Last t) (dummy q')) L" using l(3) by (simp add: q'_def)
    show "b \<notin> held q' \<and> b \<noteq> 0 \<and> ilink q' b = 0" if "b \<in> ready pr" for b using d(7) [OF that] d(4) l(2) by (auto simp: q'_def)
  qed (use d t in \<open>simp_all add: q'_def\<close>)
  then show ?thesis using Link_dummy l(1) by (auto simp: q'_def)
next
  case (Last t)
  note d = int_okD [OF ok]
  have t: "t = hd L" "t \<noteq> dummy q" using d(6) Last by auto
  show ?thesis
  proof (cases "ilink q t = 0")
    case True
    have "int_ok q pr Begin L" by (rule int_go_on [OF ok]) (use Last in simp_all)
    then show ?thesis using Last True t int_load_ok [OF ok] by auto
  next
    case False
    obtain c' r q' where take: "int_take t (ilink q t) q = (c', r, q')" by (metis prod_cases3)
    from int_take_ok [OF ok _ _ False t take] Last t show ?thesis using False int_load_ok [OF ok] take by auto
  qed
qed

definition imp_inv :: "imp \<Rightarrow> bool" where
  "imp_inv s \<longleftrightarrow> \<not> ibroken s \<and> (\<exists>L. int_ok (iq s) (iprod s) (icons s) L \<and> ipushed s = ipopped s @ queued (dummy (iq s)) L)"

lemma record_answer_append: "record_answer r xs = xs @ record_answer r []"
  by (cases r) simp_all

lemma imp_step_inv: "imp_step s s' \<Longrightarrow> imp_inv s \<Longrightarrow> imp_inv s'"
proof (induction rule: imp_step.induct)
  case (clear s t a)
  then obtain L where "int_ok (iq s) (iprod s) (icons s) L" "ipushed s = ipopped s @ queued (dummy (iq s)) L" "\<not> ibroken s" unfolding imp_inv_def by blast
  with int_clear_ok [OF this(1) clear(1-5)] show ?case unfolding imp_inv_def by (auto simp: int_clear_def)
next
  case (exchange s t a p q)
  then obtain L where "int_ok (iq s) (iprod s) (icons s) L" "ipushed s = ipopped s @ queued (dummy (iq s)) L" "\<not> ibroken s" unfolding imp_inv_def by blast
  with int_exchange_ok [OF this(1) exchange(1,2)] show ?case unfolding imp_inv_def by auto
next
  case (link s t p a q)
  then obtain L where L: "int_ok (iq s) (iprod s) (icons s) L" "ipushed s = ipopped s @ queued (dummy (iq s)) L" "\<not> ibroken s" unfolding imp_inv_def by blast
  have "owed (iprod s) (icons s) (dummy (iq s)) (Some t) = Some (p, a)" using link(1) by simp
  from int_link_ok(1) [OF L(1) this] link(2) have "q = (iq s)\<lparr>ilink := (ilink (iq s))(p := a)\<rparr>" by simp
  with int_producer_link_ok [OF L(1) link(1)] L show ?case unfolding imp_inv_def by auto
next
  case (link_fault s t p a e)
  then obtain L where L: "int_ok (iq s) (iprod s) (icons s) L" unfolding imp_inv_def by blast
  have "owed (iprod s) (icons s) (dummy (iq s)) (Some t) = Some (p, a)" using link_fault(1) by simp
  from int_link_ok(1) [OF L this] link_fault(2) show ?case by simp
next
  case (dequeue s c r q)
  then obtain L where L: "int_ok (iq s) (iprod s) (icons s) L" "ipushed s = ipopped s @ queued (dummy (iq s)) L" "\<not> ibroken s" unfolding imp_inv_def by blast
  from int_dequeue_ok [OF L(1)] dequeue(1) obtain L' where "int_ok q (iprod s) c L'"
    "record_answer r [] @ queued (dummy q) L' = queued (dummy (iq s)) L" by auto
  with L(2,3) show ?case unfolding imp_inv_def record_answer_append [of r "ipopped s"] by auto
next
  case (dequeue_fault s e)
  then obtain L where L: "int_ok (iq s) (iprod s) (icons s) L" unfolding imp_inv_def by blast
  from int_dequeue_ok [OF L] dequeue_fault(1) show ?case by simp
qed

lemma imp_reach_inv: "imp_reach s \<Longrightarrow> imp_inv s"
proof (induction rule: imp_reach.induct)
  case (start d)
  have "int_ok (intrusive_new d) (\<lambda>_. Away) Begin [d]"
    using start by (auto simp: int_ok_def intrusive_new_def queue_ok_def link_ok_def ready_def ready_once_def elim: owed.elims)
  then show ?case unfolding imp_inv_def by (auto simp: queued_def intrusive_new_def intro!: exI [of _ "[d]"])
qed (rule imp_step_inv)

text \<open>
  C6: in every state that the producers and the consumer of the intrusive queue can reach, no step has
  touched the link of an object that is not the queue's, and \<open>Dequeue\<close> has returned a prefix of what was
  enqueued, in the order of the exchanges: never the dummy, whose place in the list
  does not show.
\<close>

theorem intrusive_fifo:
  assumes "imp_reach s"
  shows "\<not> ibroken s \<and> (\<exists>L. distinct L \<and> L \<noteq> [] \<and> hd L = itail (iq s) \<and> last L = ihead (iq s) \<and>
    ipushed s = ipopped s @ filter (\<lambda>x. x \<noteq> dummy (iq s)) L \<and> held (iq s) = insert (dummy (iq s)) (set L))"
proof -
  from imp_reach_inv [OF assms] obtain L where L: "int_ok (iq s) (iprod s) (icons s) L" "\<not> ibroken s"
    "ipushed s = ipopped s @ filter (\<lambda>x. x \<noteq> dummy (iq s)) L" unfolding imp_inv_def queued_def by blast
  show ?thesis using L(2,3) int_okD(2-4,9,10) [OF L(1)] by blast
qed

text \<open>The consumer puts the dummy back behind object 2 while a producer enqueues 3.\<close>

lemma imp_clear_reach:
  "imp_reach s \<Longrightarrow> iprod s t = Away \<Longrightarrow> a \<noteq> 0 \<Longrightarrow> a \<noteq> dummy (iq s) \<Longrightarrow> a \<notin> held (iq s) \<Longrightarrow> a \<notin> ready (iprod s) \<Longrightarrow>
     imp_reach (s\<lparr>iq := int_clear a (iq s), iprod := (iprod s)(t := Ready a)\<rparr>)"
  using imp_reach.step imp_step.clear by blast

lemma imp_exchange_reach:
  "imp_reach s \<Longrightarrow> iprod s t = Ready a \<Longrightarrow>
     imp_reach (s\<lparr>iq := snd (int_exchange a (iq s)), iprod := (iprod s)(t := Link (fst (int_exchange a (iq s))) a), ipushed := ipushed s @ [a]\<rparr>)"
  using imp_reach.step [OF _ imp_step.exchange [OF _ prod.collapse [symmetric]]] by blast

lemma imp_link_reach:
  "imp_reach s \<Longrightarrow> iprod s t = Link p a \<Longrightarrow>
     imp_reach (case int_link p a (iq s) of Inl e \<Rightarrow> s\<lparr>ibroken := True\<rparr> | Inr q \<Rightarrow> s\<lparr>iq := q, iprod := (iprod s)(t := Away)\<rparr>)"
  using imp_reach.step imp_step.link imp_step.link_fault by (auto split: sum.split)

lemma imp_dequeue_reach:
  "imp_reach s \<Longrightarrow>
     imp_reach (case dequeue_step (icons s) (iq s) of Inl e \<Rightarrow> s\<lparr>ibroken := True\<rparr>
       | Inr (c, r, q) \<Rightarrow> s\<lparr>iq := q, icons := c, ipopped := record_answer r (ipopped s)\<rparr>)"
  using imp_reach.step imp_step.dequeue imp_step.dequeue_fault by (auto split: sum.split)

definition ex_intrusive :: imp where
  "ex_intrusive = \<lparr>iq = \<lparr>ilink = (\<lambda>_. 0)(1 := 0, 3 := 0, 2 := 1), dummy = 1, ihead = 3, itail = 2, held = {3, 1, 2, 1}\<rparr>,
     iprod = (\<lambda>_. Away)(0 := Away, 1 := Link 1 3), icons = Last 2, ipushed = [2, 3], ipopped = [], ibroken = False\<rparr>"

lemma ex_intrusive_reach: "imp_reach ex_intrusive"
proof -
  have 0: "imp_reach \<lparr>iq = intrusive_new 1, iprod = (\<lambda>_. Away), icons = Begin, ipushed = [], ipopped = [], ibroken = False\<rparr>"
    by (rule imp_reach.start) simp
  note defs = intrusive_new_def int_clear_def int_exchange_def int_link_def int_load_def
  note 1 = imp_clear_reach [OF 0, of 0 2, unfolded defs, simplified ready_def, simplified]
  note 2 = imp_exchange_reach [OF 1, of 0 2, unfolded defs, simplified]
  note 3 = imp_link_reach [OF 2, of 0 1 2, unfolded defs, simplified]
  note 4 = imp_dequeue_reach [OF 3, simplified defs, simplified]
  note 5 = imp_dequeue_reach [OF 4, simplified defs, simplified]
  note 6 = imp_dequeue_reach [OF 5, simplified defs, simplified]
  note 7 = imp_dequeue_reach [OF 6, simplified defs, simplified]
  note 8 = imp_dequeue_reach [OF 7, simplified defs, simplified]
  note 9 = imp_clear_reach [OF 8, of 1 3, simplified defs, simplified ready_def, simplified]
  note 10 = imp_exchange_reach [OF 9, of 1 3, simplified defs, simplified]
  note 11 = imp_dequeue_reach [OF 10, simplified, simplified defs, simplified]
  show ?thesis using 11 by (simp add: ex_intrusive_def)
qed

theorem intrusive_fifo_witness:
  "\<not> ibroken ex_intrusive \<and> (\<exists>L :: nat list. hd L = 2 \<and> last L = 3 \<and> [2, 3] = filter (\<lambda>x. x \<noteq> 1) L)"
proof -
  have f: "ipushed ex_intrusive = [2, 3]" "ipopped ex_intrusive = []" "itail (iq ex_intrusive) = 2" "ihead (iq ex_intrusive) = 3"
    "dummy (iq ex_intrusive) = 1" by (simp_all add: ex_intrusive_def)
  show ?thesis using intrusive_fifo [OF ex_intrusive_reach] unfolding f append_Nil by blast
qed

subsection \<open>Without other threads\<close>

abbreviation nobody :: "nat \<Rightarrow> producer" where
  "nobody \<equiv> (\<lambda>_. Away)"

fun rank :: "consumer \<Rightarrow> nat" where
  "rank Begin = 6"
| "rank (Second t) = 5"
| "rank (Read_head t) = 4"
| "rank (Clear_dummy t) = 3"
| "rank (Put_dummy t) = 2"
| "rank (Link_dummy p t) = 1"
| "rank (Last t) = 0"

fun alone :: "consumer \<Rightarrow> intrusive \<Rightarrow> bool" where
  "alone (Read_head t) q = (ilink q t = 0)"
| "alone (Clear_dummy t) q = (t = ihead q)"
| "alone (Put_dummy t) q = (t = ihead q)"
| "alone (Link_dummy p t) q = (p = t)"
| "alone (Last t) q = (ilink q t \<noteq> 0)"
| "alone _ q = True"

lemma one_left:
  assumes ok: "int_ok q nobody c L" and c: "owed nobody c (dummy q) None = None" and n: "ilink q (hd L) = 0"
  shows "L = [hd L]"
proof -
  note d = int_okD [OF ok]
  obtain x l where L: "L = x # l" using d(9) by (cases L) auto
  have "owed nobody c (dummy q) u \<noteq> Some (x, y)" for u y using c by (cases u) simp_all
  with queue_ok_end [OF d(1) [unfolded L]] n L show ?thesis by auto
qed

lemma dequeue_step_rank:
  "dequeue_step c q = Inr (c', r, q') \<Longrightarrow> if r = Going then rank c' < rank c else c' = Begin"
  by (cases c) (auto simp: bindE_eq_Inr int_take_def int_exchange_def split: if_splits)

lemma dequeue_step_alone:
  assumes ok: "int_ok q nobody c L" and al: "alone c q" and step: "dequeue_step c q = Inr (c', r, q')"
  shows "alone c' q' \<and> (r = Nothing \<longrightarrow> queued (dummy q) L = [])"
proof (cases c)
  case Begin
  note d = int_okD [OF ok]
  have "queued (dummy q) L = []" if "ilink q (itail q) = 0" "itail q = dummy q"
  proof -
    have "L = [hd L]" by (rule one_left [OF ok]) (use that d(2) Begin in simp_all)
    then have "L = [dummy q]" using that(2) d(2) by (simp only:)
    then show ?thesis by (simp add: queued_def)
  qed
  then show ?thesis using step Begin
    by (auto simp: bindE_eq_Inr int_load_def int_take_def split: if_splits)
next
  case (Read_head t)
  note d = int_okD [OF ok]
  have "L = [hd L]" by (rule one_left [OF ok]) (use Read_head al d(6) in simp_all)
  then have "last L = hd L" by (metis last.simps)
  then have "t = ihead q" using d(3,6) Read_head by simp
  then show ?thesis using step Read_head by auto
next
  case (Link_dummy p t)
  then show ?thesis using step al int_okD(5) [OF ok] by (auto simp: bindE_eq_Inr int_link_def split: if_splits)
qed (use step al in \<open>auto simp: bindE_eq_Inr int_load_def int_take_def int_exchange_def int_clear_def Let_def split: if_splits\<close>)

lemma dequeue_step_dummy: "dequeue_step c q = Inr (c', r, q') \<Longrightarrow> dummy q' = dummy q"
  by (cases c) (auto simp: bindE_eq_Inr int_take_def int_exchange_def int_link_def int_clear_def split: if_splits)

lemma int_Dequeue_ok:
  assumes ok: "int_ok q nobody Begin L"
  shows "\<exists>r q' L'. int_Dequeue q = Some (Inr (r, q')) \<and> int_ok q' nobody Begin L' \<and>
    queued (dummy q) L = (case r of None \<Rightarrow> [] | Some a \<Rightarrow> [a]) @ queued (dummy q') L' \<and>
    (r = None \<longrightarrow> queued (dummy q) L = []) \<and> dummy q' = dummy q"
proof -
  let ?I = "\<lambda>n (c, q'). \<exists>L'. int_ok q' nobody c L' \<and> dummy q' = dummy q \<and> alone c q' \<and> queued (dummy q') L' = queued (dummy q) L \<and> n = rank c"
  let ?P = "\<lambda>(r, q'). \<exists>L'. int_ok q' nobody Begin L' \<and>
    queued (dummy q) L = (case r of None \<Rightarrow> [] | Some a \<Rightarrow> [a]) @ queued (dummy q') L' \<and>
    (r = None \<longrightarrow> queued (dummy q) L = []) \<and> dummy q' = dummy q"
  have "\<exists>x. run_loop dequeue_turn (Begin, q) = Some (Inr x) \<and> ?P x"
  proof (rule run_loop_total [of ?I 6])
    show "?I 6 (Begin, q)" using ok by auto
  next
    fix n cq assume "?I n cq"
    then obtain c q1 L1 where cq: "cq = (c, q1)" and ok1: "int_ok q1 nobody c L1" "alone c q1" and dq: "dummy q1 = dummy q"
      and eq: "queued (dummy q1) L1 = queued (dummy q) L" and n: "n = rank c" by (cases cq) auto
    from int_dequeue_ok [OF ok1(1)] obtain c' r q' L' where step: "dequeue_step c q1 = Inr (c', r, q')"
      and ok': "int_ok q' nobody c' L'" and r: "record_answer r [] @ queued (dummy q') L' = queued (dummy q1) L1" by blast
    have dq: "dummy q' = dummy q" using dequeue_step_dummy [OF step] dq by simp
    note rk = dequeue_step_rank [OF step] and al = dequeue_step_alone [OF ok1 step]
    show "(\<exists>x' m. dequeue_turn cq = Inr (Inl x') \<and> m < n \<and> ?I m x') \<or> (\<exists>r. dequeue_turn cq = Inr (Inr r) \<and> ?P r)"
    proof (cases r)
      case Going
      then have "?I (rank c') (c', q')" using ok' al r eq dq by auto
      moreover have "dequeue_turn cq = Inr (Inl (c', q'))" using cq step Going by (simp add: dequeue_turn_def)
      moreover have "rank c' < n" using rk Going n by simp
      ultimately show ?thesis by blast
    next
      case Nothing
      then have "?P (None, q')" using ok' al r eq rk dq by auto
      moreover have "dequeue_turn cq = Inr (Inr (None, q'))" using cq step Nothing by (simp add: dequeue_turn_def)
      ultimately show ?thesis by blast
    next
      case (Took a)
      have "int_ok q' nobody Begin L'" "queued (dummy q) L = a # queued (dummy q') L'" using ok' r eq rk Took by auto
      then have "?P (Some a, q')" using dq by auto
      moreover have "dequeue_turn cq = Inr (Inr (Some a, q'))" using cq step Took by (simp add: dequeue_turn_def)
      ultimately show ?thesis by blast
    qed
  qed
  then show ?thesis by (auto simp: int_Dequeue_def)
qed

lemma int_Enqueue_ok:
  assumes ok: "int_ok q nobody Begin L" and a: "a \<noteq> 0" "a \<noteq> dummy q" "a \<notin> held q"
  shows "\<exists>q'. int_Enqueue a q = Inr q' \<and> int_ok q' nobody Begin (L @ [a]) \<and>
    queued (dummy q') (L @ [a]) = queued (dummy q) L @ [a] \<and> held q' = insert a (held q) \<and> dummy q' = dummy q"
proof -
  have "a \<notin> ready nobody" by (simp add: ready_def)
  note 1 = int_clear_ok [where t = 0, OF ok refl a this]
  let ?q1 = "int_clear a q" and ?q2 = "snd (int_exchange a (int_clear a q))" and ?p = "ihead (int_clear a q)"
  have "(nobody(0 := Ready a)) 0 = Ready a" "int_exchange a ?q1 = (?p, ?q2)" by (simp_all add: int_exchange_def)
  note 2 = int_exchange_ok [OF 1 this, unfolded fun_upd_upd]
  have lk: "(nobody(0 := Link ?p a)) 0 = Link ?p a" by simp
  then have "owed (nobody(0 := Link ?p a)) Begin (dummy ?q2) (Some 0) = Some (?p, a)" by simp
  note 3 = int_link_ok(1) [OF 2(1) this] and 4 = int_producer_link_ok [OF 2(1) lk, unfolded fun_upd_upd]
  have "nobody(0 := Away) = nobody" by auto
  with 2(2) 3 4 show ?thesis
    by (auto simp: int_Enqueue_def int_exchange_def int_clear_def)
qed

text \<open>The destructor deletes what is left.\<close>

definition int_destroy_turn :: "intrusive \<times> nat list \<Rightarrow> fault + (intrusive \<times> nat list + intrusive \<times> nat list)" where
  "int_destroy_turn = (\<lambda>(q, gone).
     case int_Dequeue q of
       None \<Rightarrow> Inl Diverges
     | Some r \<Rightarrow> bindE r (\<lambda>(x, q'). case x of None \<Rightarrow> Inr (Inr (q', gone)) | Some a \<Rightarrow> Inr (Inl (q', gone @ [a]))))"

definition int_destroy :: "intrusive \<Rightarrow> (fault + (intrusive \<times> nat list)) option" where
  "int_destroy q = run_loop int_destroy_turn (q, [])"

lemma int_destroy_ok:
  assumes "int_ok q nobody Begin L"
  shows "\<exists>q'. int_destroy q = Some (Inr (q', queued (dummy q) L)) \<and> (\<exists>L'. int_ok q' nobody Begin L' \<and> queued (dummy q') L' = [])"
proof -
  let ?I = "\<lambda>n (q', gone). \<exists>L'. int_ok q' nobody Begin L' \<and> queued (dummy q) L = gone @ queued (dummy q') L' \<and> n = length (queued (dummy q') L')"
  let ?P = "\<lambda>(q', gone). (\<exists>L'. int_ok q' nobody Begin L' \<and> queued (dummy q') L' = []) \<and> gone = queued (dummy q) L"
  have "\<exists>x. run_loop int_destroy_turn (q, []) = Some (Inr x) \<and> ?P x"
  proof (rule run_loop_total [of ?I "length (queued (dummy q) L)"])
    show "?I (length (queued (dummy q) L)) (q, [])" using assms by auto
  next
    fix n qg assume "?I n qg"
    then obtain q1 gone L1 where qg: "qg = (q1, gone)" and ok: "int_ok q1 nobody Begin L1"
      and g: "queued (dummy q) L = gone @ queued (dummy q1) L1" and n: "n = length (queued (dummy q1) L1)" by (cases qg) auto
    from int_Dequeue_ok [OF ok] obtain r q' L' where r: "int_Dequeue q1 = Some (Inr (r, q'))" and ok': "int_ok q' nobody Begin L'"
      and l: "queued (dummy q1) L1 = (case r of None \<Rightarrow> [] | Some a \<Rightarrow> [a]) @ queued (dummy q') L'"
      "r = None \<longrightarrow> queued (dummy q1) L1 = []" by blast
    show "(\<exists>x' m. int_destroy_turn qg = Inr (Inl x') \<and> m < n \<and> ?I m x') \<or> (\<exists>r. int_destroy_turn qg = Inr (Inr r) \<and> ?P r)"
    proof (cases r)
      case None
      with l g ok' have "?P (q', gone)" by auto
      moreover have "int_destroy_turn qg = Inr (Inr (q', gone))" using r qg None by (simp add: int_destroy_turn_def)
      ultimately show ?thesis by blast
    next
      case (Some a)
      with l g ok' have "?I (length (queued (dummy q') L')) (q', gone @ [a])" by auto
      moreover have "int_destroy_turn qg = Inr (Inl (q', gone @ [a]))" using r qg Some by (simp add: int_destroy_turn_def)
      moreover have "length (queued (dummy q') L') < n" using l(1) n Some by simp
      ultimately show ?thesis by blast
    qed
  qed
  then show ?thesis by (auto simp: int_destroy_def)
qed

subsection \<open>The contract of a queue\<close>

definition int_rep :: "intrusive \<Rightarrow> nat list \<Rightarrow> bool" where
  "int_rep q xs \<longleftrightarrow> (\<exists>L. int_ok q nobody Begin L \<and> queued (dummy q) L = xs)"

definition int_usable :: "nat \<Rightarrow> intrusive \<Rightarrow> bool" where
  "int_usable a q \<longleftrightarrow> a \<noteq> 0 \<and> a \<noteq> dummy q \<and> a \<notin> held q"

definition int_get :: "intrusive \<Rightarrow> fault + (nat option \<times> intrusive)" where
  "int_get q = (case int_Dequeue q of None \<Rightarrow> Inl Diverges | Some r \<Rightarrow> r)"

lemma int_rep_held: "int_rep q xs \<Longrightarrow> held q = insert (dummy q) (set xs)"
  using int_okD(4) unfolding int_rep_def queued_def by fastforce

lemma int_get_rep:
  assumes "int_rep q xs"
  shows "\<exists>q'. int_get q = Inr (case xs of [] \<Rightarrow> None | x # _ \<Rightarrow> Some x, q') \<and> int_rep q' (tl xs) \<and> dummy q' = dummy q"
proof -
  from assms obtain L where ok: "int_ok q nobody Begin L" and xs: "queued (dummy q) L = xs" unfolding int_rep_def by blast
  from int_Dequeue_ok [OF ok] obtain r q' L' where "int_Dequeue q = Some (Inr (r, q'))" "int_ok q' nobody Begin L'"
    "queued (dummy q) L = (case r of None \<Rightarrow> [] | Some a \<Rightarrow> [a]) @ queued (dummy q') L'" "r = None \<longrightarrow> queued (dummy q) L = []" "dummy q' = dummy q" by blast
  then show ?thesis using xs by (cases r) (auto simp: int_get_def int_rep_def)
qed

lemma int_usable_rep: "int_rep q xs \<Longrightarrow> int_usable a q \<longleftrightarrow> a \<noteq> 0 \<and> a \<noteq> dummy q \<and> a \<notin> set xs"
  using int_rep_held [of q xs] by (auto simp: int_usable_def)

lemma int_put_rep:
  assumes "int_rep q xs" "int_usable a q"
  shows "\<exists>q'. int_Enqueue a q = Inr q' \<and> int_rep q' (xs @ [a]) \<and> dummy q' = dummy q"
proof -
  from assms(1) obtain L where ok: "int_ok q nobody Begin L" and xs: "queued (dummy q) L = xs" unfolding int_rep_def by blast
  from int_Enqueue_ok [OF ok, of a] assms(2) xs show ?thesis unfolding int_usable_def int_rep_def by blast
qed

interpretation intr: fifo_queue int_rep int_usable "(\<noteq>)" int_Enqueue int_get
proof
  fix q xs a assume "int_rep q xs" "int_usable a q"
  then show "\<exists>q'. int_Enqueue a q = Inr q' \<and> int_rep q' (xs @ [a])" using int_put_rep by blast
next
  fix q assume "int_rep q []"
  then show "\<exists>q'. int_get q = Inr (None, q') \<and> int_rep q' []" using int_get_rep [of q "[]"] by auto
next
  fix q x xs assume "int_rep q (x # xs)"
  then show "\<exists>q'. int_get q = Inr (Some x, q') \<and> int_rep q' xs" using int_get_rep [of q "x # xs"] by auto
next
  fix q xs x y q' assume r: "int_rep q xs" and x: "int_usable x q" and y: "int_usable y q" "x \<noteq> y" and q': "int_Enqueue x q = Inr q'"
  from int_put_rep [OF r x] q' have "int_rep q' (xs @ [x])" "dummy q' = dummy q" by auto
  then show "int_usable y q'" using y int_usable_rep [OF r] int_usable_rep [of q' "xs @ [x]"] by auto
next
  fix q xs y r q' assume i: "int_rep q xs" and y: "int_usable y q" and q': "int_get q = Inr (r, q')"
  from int_get_rep [OF i] q' have "int_rep q' (tl xs)" "dummy q' = dummy q" by auto
  moreover have "set (tl xs) \<subseteq> set xs" by (cases xs) auto
  ultimately show "int_usable y q'" using y int_usable_rep [OF i] int_usable_rep [of q' "tl xs"] by auto
qed

text \<open>
  C33: called by one thread, the intrusive queue is the list queue: for every sequence of \<open>Enqueue\<close>s of
  different objects and \<open>Dequeue\<close>s from a new queue, no step faults, every \<open>Dequeue\<close>
  returns, and the answers are those of the list.
\<close>

lemma int_rep_new: "d \<noteq> 0 \<Longrightarrow> int_rep (intrusive_new d) []"
  using imp_reach_inv [OF imp_reach.start [of d]] int_okD(4) [of "intrusive_new d" nobody Begin]
  unfolding imp_inv_def int_rep_def by (auto simp: queued_def)

theorem intrusive_refines_list:
  assumes "d \<noteq> 0" "distinct (puts_of ops)" "0 \<notin> set (puts_of ops)" "d \<notin> set (puts_of ops)"
  shows "\<exists>q. run_queue int_Enqueue int_get ops (intrusive_new d) = Inr (fst (list_queue ops []), q)"
proof -
  have "\<forall>a \<in> set (puts_of ops). int_usable a (intrusive_new d)"
  proof
    fix a assume "a \<in> set (puts_of ops)"
    then have "a \<noteq> 0" "a \<noteq> d" using assms(3,4) by metis+
    then show "int_usable a (intrusive_new d)" by (simp add: int_usable_def intrusive_new_def)
  qed
  with intr.run_refines [OF int_rep_new [OF assms(1)]] assms(2) show ?thesis by (auto simp: sorted_wrt_neq)
qed

theorem intrusive_refines_list_witness:
  "\<exists>q. run_queue int_Enqueue int_get [Put 2, Get, Get, Put 3, Put 4, Get] (intrusive_new 1) = Inr ([Some 2, None, Some 3], q)"
  using intrusive_refines_list [of 1 "[Put 2, Get, Get, Put 3, Put 4, Get]"] by simp

text \<open>
  The destructor, run when every producer and the consumer are done, returns, and has dequeued and
  deleted what was enqueued and not dequeued, in order.
\<close>

theorem intrusive_destroy_frees_all:
  assumes "imp_reach s" "iprod s = (\<lambda>_. Away)" "icons s = Begin"
  shows "\<exists>q' rest. ipushed s = ipopped s @ rest \<and> int_destroy (iq s) = Some (Inr (q', rest)) \<and> held q' = {dummy q'}"
proof -
  from imp_reach_inv [OF assms(1)] obtain L where "int_ok (iq s) nobody Begin L" "ipushed s = ipopped s @ queued (dummy (iq s)) L"
    unfolding imp_inv_def assms(2,3) by blast
  moreover from int_destroy_ok [OF this(1)] obtain q' L' where "int_destroy (iq s) = Some (Inr (q', queued (dummy (iq s)) L))"
    "int_ok q' nobody Begin L'" "queued (dummy q') L' = []" by blast
  moreover have "held q' = {dummy q'}" using int_rep_held [of q' "[]"] calculation(4,5) unfolding int_rep_def by auto
  ultimately show ?thesis by blast
qed

theorem intrusive_destroy_frees_all_witness:
  "\<exists>q'. int_destroy (intrusive_new 1) = Some (Inr (q', [])) \<and> held q' = {dummy q'}"
proof -
  have "imp_reach \<lparr>iq = intrusive_new 1, iprod = nobody, icons = Begin, ipushed = [], ipopped = [], ibroken = False\<rparr>"
    by (rule imp_reach.start) simp
  from intrusive_destroy_frees_all [OF this] show ?thesis by simp
qed

end
