(* ===== verification/Locked_Queue.thy ===== *)
theory Locked_Queue
  imports Interfaces
begin

text \<open>
  \<^verbatim>\<open>queue_design-master/LockedQueue.h\<close>: a deque behind a mutex that is not recursive. Every member
  but \<open>lock\<close>, \<open>unlock\<close> and \<open>peek\<close> holds the mutex from its first step to its last, so that it is
  one step to the other threads. \<open>owner\<close> is the thread that holds the mutex; a call by
  another thread does not begin before the owner has let go (\<open>free_for\<close>), and a thread that locks a mutex
  it holds itself waits for ever.
\<close>

subsection \<open>State and operations\<close>

record 'a locked_queue =
  owner :: "nat option"
  items :: "'a list"
  canceled :: bool

definition lq_new :: "'a locked_queue" where
  "lq_new = \<lparr>owner = None, items = [], canceled = False\<rparr>"

definition free_for :: "nat \<Rightarrow> 'a locked_queue \<Rightarrow> bool" where
  "free_for t q \<longleftrightarrow> owner q = None \<or> owner q = Some t"

definition lq_lock :: "nat \<Rightarrow> 'a locked_queue \<Rightarrow> fault + 'a locked_queue" where
  "lq_lock t q = (if owner q = None then Inr (q\<lparr>owner := Some t\<rparr>) else Inl Diverges)"

definition lq_unlock :: "nat \<Rightarrow> 'a locked_queue \<Rightarrow> fault + 'a locked_queue" where
  "lq_unlock t q = (if owner q = Some t then Inr (q\<lparr>owner := None\<rparr>) else Inl NotOwner)"

text \<open>\<open>std::lock_guard\<close>: the destructor unlocks on every way out of the block.\<close>

definition guarded :: "nat \<Rightarrow> ('a locked_queue \<Rightarrow> fault + ('r \<times> 'a locked_queue)) \<Rightarrow> 'a locked_queue \<Rightarrow> fault + ('r \<times> 'a locked_queue)" where
  "guarded t body q =
     bindE (lq_lock t q) (\<lambda>q1.
     bindE (body q1) (\<lambda>(r, q2).
     bindE (lq_unlock t q2) (\<lambda>q3. Inr (r, q3))))"

definition lq_add :: "nat \<Rightarrow> 'a \<Rightarrow> 'a locked_queue \<Rightarrow> fault + 'a locked_queue" where
  "lq_add t x q =
     bindE (lq_lock t q) (\<lambda>q1.
     let q2 = q1\<lparr>items := items q1 @ [x]\<rparr> in
     lq_unlock t q2)"

definition lq_readd :: "nat \<Rightarrow> 'a list \<Rightarrow> 'a locked_queue \<Rightarrow> fault + (unit \<times> 'a locked_queue)" where
  "lq_readd t xs = guarded t (\<lambda>q. Inr ((), q\<lparr>items := xs @ items q\<rparr>))"

text \<open>\<open>front\<close> and \<open>pop_front\<close> of an empty deque are undefined.\<close>

definition dq_front :: "'a list \<Rightarrow> fault + 'a" where
  "dq_front xs = (case xs of [] \<Rightarrow> Inl (BadIndex 0) | x # _ \<Rightarrow> Inr x)"

definition dq_pop_front :: "'a list \<Rightarrow> fault + 'a list" where
  "dq_pop_front xs = (case xs of [] \<Rightarrow> Inl (BadIndex 0) | _ # l \<Rightarrow> Inr l)"

definition lq_next :: "nat \<Rightarrow> 'a locked_queue \<Rightarrow> fault + ('a option \<times> 'a locked_queue)" where
  "lq_next t = guarded t (\<lambda>q.
     if items q = [] then Inr (None, q)
     else bindE (dq_front (items q)) (\<lambda>x.
          bindE (dq_pop_front (items q)) (\<lambda>l. Inr (Some x, q\<lparr>items := l\<rparr>))))"

text \<open>
  The second \<open>next\<close>. \<open>process\<close> is the checker's \<open>Process\<close>, which may change the checker; \<open>res\<close> is what
  the caller's \<open>result\<close> holds, which is assigned before the check.
\<close>

definition lq_next_check ::
    "('a \<Rightarrow> 'c \<Rightarrow> bool \<times> 'c) \<Rightarrow> nat \<Rightarrow> 'a \<Rightarrow> 'c \<Rightarrow> 'a locked_queue \<Rightarrow> fault + ((bool \<times> 'a \<times> 'c) \<times> 'a locked_queue)" where
  "lq_next_check process t res c = guarded t (\<lambda>q.
     if items q = [] then Inr ((False, res, c), q)
     else bindE (dq_front (items q)) (\<lambda>x.
          let (yes, c') = process x c in
          if \<not> yes then Inr ((False, x, c'), q)
          else bindE (dq_pop_front (items q)) (\<lambda>l. Inr ((True, x, c'), q\<lparr>items := l\<rparr>))))"

text \<open>\<open>peek\<close> answers a reference to the front; with \<open>autoUnlock\<close> false it keeps the mutex.\<close>

definition lq_peek :: "nat \<Rightarrow> bool \<Rightarrow> 'a locked_queue \<Rightarrow> fault + ('a \<times> 'a locked_queue)" where
  "lq_peek t auto_unlock q =
     bindE (lq_lock t q) (\<lambda>q1.
     bindE (dq_front (items q1)) (\<lambda>x.
     if auto_unlock then bindE (lq_unlock t q1) (\<lambda>q2. Inr (x, q2)) else Inr (x, q1)))"

definition lq_cancel :: "nat \<Rightarrow> 'a locked_queue \<Rightarrow> fault + (unit \<times> 'a locked_queue)" where
  "lq_cancel t = guarded t (\<lambda>q. Inr ((), q\<lparr>canceled := True\<rparr>))"

definition lq_cancelled :: "nat \<Rightarrow> 'a locked_queue \<Rightarrow> fault + (bool \<times> 'a locked_queue)" where
  "lq_cancelled t = guarded t (\<lambda>q. Inr (canceled q, q))"

definition lq_pop_front :: "nat \<Rightarrow> 'a locked_queue \<Rightarrow> fault + (unit \<times> 'a locked_queue)" where
  "lq_pop_front t = guarded t (\<lambda>q. bindE (dq_pop_front (items q)) (\<lambda>l. Inr ((), q\<lparr>items := l\<rparr>)))"

definition lq_empty :: "nat \<Rightarrow> 'a locked_queue \<Rightarrow> fault + (bool \<times> 'a locked_queue)" where
  "lq_empty t = guarded t (\<lambda>q. Inr (items q = [], q))"

lemmas lq_defs = lq_add_def lq_readd_def lq_next_def lq_next_check_def lq_peek_def lq_cancel_def
  lq_cancelled_def lq_pop_front_def lq_empty_def guarded_def lq_lock_def lq_unlock_def dq_front_def dq_pop_front_def

subsection \<open>The contract of a queue\<close>

definition lq_rep :: "'a locked_queue \<Rightarrow> 'a list \<Rightarrow> bool" where
  "lq_rep q xs \<longleftrightarrow> owner q = None \<and> items q = xs"

interpretation lkq: fifo_queue lq_rep "\<lambda>x q. True" "\<lambda>x y. True" "lq_add t" "lq_next t" for t
  by unfold_locales (auto simp: lq_rep_def lq_defs)

text \<open>
  Whatever the calls of \<open>add\<close> and \<open>next\<close>, a locked queue answers as the list queue does: in the
  order of the \<open>add\<close>s, \<open>None\<close> exactly when it is empty, and the mutex is free after each call.
\<close>

theorem locked_queue_refines_list:
  "\<exists>q. run_queue (lq_add t) (lq_next t) ops lq_new = Inr (fst (list_queue ops []), q) \<and>
     owner q = None \<and> items q = snd (list_queue ops [])"
proof -
  have "sorted_wrt (\<lambda>x y. True) (puts_of ops)" by (induction "puts_of ops") (simp_all add: sorted_wrt_iff_nth_less)
  then show ?thesis using lkq.run_refines [of lq_new "[]" ops t] by (simp add: lq_rep_def lq_new_def)
qed

subsection \<open>Taking items and putting them back\<close>

fun lq_take :: "nat \<Rightarrow> nat \<Rightarrow> 'a locked_queue \<Rightarrow> fault + ('a list \<times> 'a locked_queue)" where
  "lq_take t 0 q = Inr ([], q)"
| "lq_take t (Suc n) q =
     bindE (lq_next t q) (\<lambda>(r, q1).
     case r of None \<Rightarrow> Inr ([], q1)
     | Some x \<Rightarrow> bindE (lq_take t n q1) (\<lambda>(xs, q2). Inr (x # xs, q2)))"

lemma lq_take_eq: "owner q = None \<Longrightarrow> lq_take t n q = Inr (take n (items q), q\<lparr>items := drop n (items q)\<rparr>)"
proof (induction n arbitrary: q)
  case (Suc n)
  show ?case
  proof (cases "items q")
    case (Cons x l)
    with Suc.prems have "lq_next t q = Inr (Some x, q\<lparr>items := l\<rparr>)" by (simp add: lq_defs)
    with Suc.IH [of "q\<lparr>items := l\<rparr>"] Suc.prems Cons show ?thesis by simp
  qed (use Suc.prems in \<open>simp add: lq_defs\<close>)
qed simp

text \<open>
  Whatever number of items is taken with \<open>next\<close>, \<open>readd\<close> of them undoes it: the queue is what it was.
\<close>

theorem readd_undoes_next:
  assumes "owner q = None"
  shows "\<exists>xs q'. lq_take t n q = Inr (xs, q') \<and> lq_readd t xs q' = Inr ((), q)"
  using assms by (simp add: lq_take_eq lq_defs)

theorem readd_undoes_next_witness:
  "\<exists>xs q'. lq_take 0 2 \<lparr>owner = None, items = ''abc'', canceled = False\<rparr> = Inr (xs, q') \<and>
     lq_readd 0 xs q' = Inr ((), \<lparr>owner = None, items = ''abc'', canceled = False\<rparr>)"
  by (rule readd_undoes_next) simp

text \<open>
  \<open>next\<close> with a checker takes the front only if the checker accepts it. A refused item stays
  the front, and \<open>result\<close> holds it although the answer is false; only an empty queue leaves
  \<open>result\<close> and the checker alone. The mutex is free again on each of the three ways out.
\<close>

theorem next_check_branches:
  assumes "owner q = None"
  shows "lq_next_check process t res c q =
    (case items q of
       [] \<Rightarrow> Inr ((False, res, c), q)
     | x # l \<Rightarrow> if fst (process x c) then Inr ((True, x, snd (process x c)), q\<lparr>items := l\<rparr>)
         else Inr ((False, x, snd (process x c)), q))"
  using assms by (auto simp: lq_defs split: list.split prod.split)

theorem next_check_branches_witness:
  "lq_next_check (\<lambda>x c. (x < c, c + 1)) 0 9 3 \<lparr>owner = None, items = [5 :: nat, 6], canceled = False\<rparr> =
     Inr ((False, 5, 4), \<lparr>owner = None, items = [5, 6], canceled = False\<rparr>)"
  by (subst next_check_branches) simp_all

subsection \<open>Peeking\<close>

datatype 'a lq_call = Add 'a | Readd "'a list" | Next | Peek bool | Cancel | Cancelled | Pop_front | Empty | Lock

fun lq_call_faults :: "nat \<Rightarrow> 'a lq_call \<Rightarrow> 'a locked_queue \<Rightarrow> bool" where
  "lq_call_faults t (Add x) q = (lq_add t x q = Inl Diverges)"
| "lq_call_faults t (Readd xs) q = (lq_readd t xs q = Inl Diverges)"
| "lq_call_faults t Next q = (lq_next t q = Inl Diverges)"
| "lq_call_faults t (Peek b) q = (lq_peek t b q = Inl Diverges)"
| "lq_call_faults t Cancel q = (lq_cancel t q = Inl Diverges)"
| "lq_call_faults t Cancelled q = (lq_cancelled t q = Inl Diverges)"
| "lq_call_faults t Pop_front q = (lq_pop_front t q = Inl Diverges)"
| "lq_call_faults t Empty q = (lq_empty t q = Inl Diverges)"
| "lq_call_faults t Lock q = (lq_lock t q = Inl Diverges)"

text \<open>
  \<open>peek\<close> without \<open>autoUnlock\<close>, its default, answers the front and keeps the mutex. Until the
  caller calls \<open>unlock\<close>, every member it calls, \<open>pop_front\<close> of the item it looks at among them, waits for ever, and no
  other thread gets in; \<open>unlock\<close> gives the queue back as it was.
\<close>

theorem peek_keeps_the_lock:
  assumes "owner q = None" "items q = x # l"
  shows "\<exists>q'. lq_peek t False q = Inr (x, q') \<and> (\<forall>call. lq_call_faults t call q') \<and> (\<forall>u. free_for u q' \<longleftrightarrow> u = t) \<and> lq_unlock t q' = Inr q"
proof -
  have "lq_peek t False q = Inr (x, q\<lparr>owner := Some t\<rparr>)" using assms by (simp add: lq_defs)
  moreover have "lq_call_faults t call (q\<lparr>owner := Some t\<rparr>)" for call by (cases call) (simp_all add: lq_defs)
  moreover have "lq_unlock t (q\<lparr>owner := Some t\<rparr>) = Inr q" using assms(1) by (simp add: lq_defs)
  ultimately show ?thesis by (auto simp: free_for_def)
qed

theorem peek_keeps_the_lock_witness:
  "\<exists>q'. lq_peek 3 False \<lparr>owner = None, items = [7 :: nat], canceled = True\<rparr> = Inr (7, q') \<and> lq_call_faults 3 Pop_front q'"
proof -
  have "owner \<lparr>owner = None, items = [7 :: nat], canceled = True\<rparr> = None" "items \<lparr>owner = None, items = [7 :: nat], canceled = True\<rparr> = 7 # []" by simp_all
  from peek_keeps_the_lock [OF this] show ?thesis by blast
qed

text \<open>On an empty queue \<open>peek\<close> and \<open>pop_front\<close> are undefined.\<close>

lemma empty_faults:
  "owner q = None \<Longrightarrow> items q = [] \<Longrightarrow> lq_peek t b q = Inl (BadIndex 0) \<and> lq_pop_front t q = Inl (BadIndex 0)"
  by (simp add: lq_defs)

text \<open>\<open>cancel\<close> only sets the flag \<open>cancelled\<close> answers: a cancelled queue still takes and gives items.\<close>

lemma cancel_keeps_items:
  "owner q = None \<Longrightarrow> \<exists>q'. lq_cancel t q = Inr ((), q') \<and> lq_cancelled t q' = Inr (True, q') \<and> items q' = items q \<and> owner q' = None"
  by (simp add: lq_defs)

end
