(* ===== verification/Queue_Programs.thy ===== *)
theory Queue_Programs
  imports Locked_Queue Mpsc Interleaving "HOL-Library.Signed_Division"
begin

text \<open>
  The programs \<^verbatim>\<open>main_lockedqueue.cpp\<close> and \<^verbatim>\<open>main_mpscqueue.cpp\<close>: two producers add four values each,
  and consumers take values until the queue answers that there is none for them, which may be before anything was added. What they leave
  behind is accounted for: the values added are always an interleaving of the two producers' lists.
\<close>

subsection \<open>The locked queue\<close>

text \<open>\<open>Check1::Process\<close> and \<open>Check2::Process\<close>; \<open>%\<close> of C is \<open>smod\<close>.\<close>

definition Check1 :: "int \<Rightarrow> unit \<Rightarrow> bool \<times> unit" where
  "Check1 val c = (val smod 2 = 0, c)"

definition Check2 :: "int \<Rightarrow> unit \<Rightarrow> bool \<times> unit" where
  "Check2 val c = (val smod 2 = 1, c)"

definition lq_pd1 :: "int list" where "lq_pd1 = [1, 2, 3, 4]"

definition lq_pd2 :: "int list" where "lq_pd2 = [5, 6, 7, 8]"

record lq_main =
  shared :: "int locked_queue"
  to_add :: "nat \<Rightarrow> int list"          \<comment> \<open>threads 0 and 1, \<open>pd1\<close> and \<open>pd2\<close>\<close>
  looping :: "nat \<Rightarrow> bool"             \<comment> \<open>threads 2 and 3, \<open>cs1\<close> and \<open>cs2\<close>\<close>
  ele :: "nat \<Rightarrow> int"
  pops :: "(nat \<times> int) list"           \<comment> \<open>what the consumers print\<close>

definition lq_main_start :: "(nat \<Rightarrow> int) \<Rightarrow> lq_main" where
  "lq_main_start junk = \<lparr>shared = lq_new, to_add = (\<lambda>_. [])(0 := lq_pd1, 1 := lq_pd2), looping = (\<lambda>t. t = 2 \<or> t = 3),
     ele = junk, pops = []\<rparr>"

inductive lq_main_step :: "lq_main \<Rightarrow> lq_main \<Rightarrow> bool" where
  add: "to_add s t = x # xs \<Longrightarrow> lq_add t x (shared s) = Inr q \<Longrightarrow>
    lq_main_step s (s\<lparr>shared := q, to_add := (to_add s)(t := xs)\<rparr>)"
| next_ele: "looping s t \<Longrightarrow> lq_next_check (if t = 2 then Check1 else Check2) t (ele s t) () (shared s) = Inr ((again, x, c), q) \<Longrightarrow>
    lq_main_step s (s\<lparr>shared := q, looping := (looping s)(t := again), ele := (ele s)(t := x),
      pops := (if again then pops s @ [(t, x)] else pops s)\<rparr>)"

inductive lq_main_reach :: "lq_main \<Rightarrow> bool" where
  start: "lq_main_reach (lq_main_start junk)"
| step: "lq_main_reach s \<Longrightarrow> lq_main_step s s' \<Longrightarrow> lq_main_reach s'"

definition lq_joined :: "lq_main \<Rightarrow> bool" where
  "lq_joined s \<longleftrightarrow> (\<forall>t < 4. to_add s t = [] \<and> \<not> looping s t)"

definition lq_main_inv :: "lq_main \<Rightarrow> bool" where
  "lq_main_inv s \<longleftrightarrow> owner (shared s) = None \<and>
     sent_of lq_pd1 lq_pd2 (to_add s 0) (to_add s 1) (map snd (pops s) @ items (shared s)) \<and>
     (\<forall>t. to_add s t \<noteq> [] \<longrightarrow> t < 2) \<and> (\<forall>t. looping s t \<longrightarrow> t = 2 \<or> t = 3) \<and>
     (\<forall>e \<in> set (pops s). fst e = 2 \<and> even (snd e) \<or> fst e = 3 \<and> odd (snd e))"

lemma smod_parity: "v smod 2 = 0 \<Longrightarrow> even v" "v smod 2 = 1 \<Longrightarrow> odd v" for v :: int
  using sdiv_mult_smod_eq [of v 2] by presburger+

lemma next_check_eq:
  assumes "owner q = None"
  shows "lq_next_check process t res c q =
    (case items q of
       [] \<Rightarrow> Inr ((False, res, c), q)
     | x # l \<Rightarrow> Inr ((fst (process x c), x, snd (process x c)), if fst (process x c) then q\<lparr>items := l\<rparr> else q))"
  using assms by (cases q) (auto simp: lq_defs Let_def split: list.split prod.split)

definition lq_work :: "lq_main \<Rightarrow> nat" where
  "lq_work s = 2 * (length (to_add s 0) + length (to_add s 1)) + length (items (shared s)) +
     (if looping s 2 then 1 else 0) + (if looping s 3 then 1 else 0)"

lemma lq_main_step_inv:
  assumes "lq_main_step s s'" "lq_main_inv s"
  shows "lq_main_inv s' \<and> lq_work s' < lq_work s"
  using assms(1)
proof (cases rule: lq_main_step.cases)
  case (add t x xs q)
  have q: "q = (shared s)\<lparr>items := items (shared s) @ [x]\<rparr>"
    using add(3) assms(2) by (cases "shared s") (auto simp: lq_defs lq_main_inv_def)
  have "t < 2" using assms(2) add(2) unfolding lq_main_inv_def by (metis list.distinct(1))
  then have "t = 0 \<or> t = 1" by linarith
  then show ?thesis
  proof
    assume t: "t = 0"
    with assms(2) add(2) sent_of_left [of _ _ x xs] have "sent_of lq_pd1 lq_pd2 xs (to_add s 1) (map snd (pops s) @ items (shared s) @ [x])"
      unfolding lq_main_inv_def by fastforce
    with assms(2) add t q show ?thesis by (auto simp: lq_main_inv_def lq_work_def)
  next
    assume t: "t = 1"
    with assms(2) add(2) sent_of_right [of _ _ _ x xs] have "sent_of lq_pd1 lq_pd2 (to_add s 0) xs (map snd (pops s) @ items (shared s) @ [x])"
      unfolding lq_main_inv_def by fastforce
    with assms(2) add t q show ?thesis by (auto simp: lq_main_inv_def lq_work_def)
  qed
next
  case (next_ele t again x c q)
  let ?check = "if t = 2 then Check1 else Check2"
  have t: "t = 2 \<or> t = 3" and free: "owner (shared s) = None" using assms(2) next_ele(2) by (auto simp: lq_main_inv_def)
  note eq = next_ele(3) [unfolded next_check_eq [OF free]]
  show ?thesis
  proof (cases again)
    case True
    then obtain l where l: "items (shared s) = x # l" "q = (shared s)\<lparr>items := l\<rparr>" "fst (?check x ())"
      using eq by (auto split: list.splits if_splits)
    then have "t = 2 \<and> even x \<or> t = 3 \<and> odd x" using t smod_parity [of x] by (auto simp: Check1_def Check2_def split: if_splits)
    with assms(2) next_ele(1,2) True l(1,2) show ?thesis by (auto simp: lq_main_inv_def lq_work_def)
  next
    case False
    then have "q = shared s" using eq by (auto split: list.splits if_splits)
    with assms(2) next_ele(1,2) False t show ?thesis by (auto simp: lq_main_inv_def lq_work_def)
  qed
qed

lemma lq_main_reach_inv: "lq_main_reach s \<Longrightarrow> lq_main_inv s"
proof (induction rule: lq_main_reach.induct)
  case (start junk)
  then show ?case by (auto simp: lq_main_inv_def lq_main_start_def lq_new_def sent_of_start)
qed (use lq_main_step_inv in blast)

lemma lq_main_moves:
  assumes "lq_main_inv s" "\<not> lq_joined s"
  shows "\<exists>s'. lq_main_step s s'"
proof -
  from assms(2) obtain t where t: "to_add s t \<noteq> [] \<or> looping s t" unfolding lq_joined_def by blast
  have free: "owner (shared s) = None" using assms(1) by (simp add: lq_main_inv_def)
  show ?thesis
  proof (cases "to_add s t")
    case Nil
    with t have l: "looping s t" by simp
    obtain again x c q where "lq_next_check (if t = 2 then Check1 else Check2) t (ele s t) () (shared s) = Inr ((again, x, c), q)"
      unfolding next_check_eq [OF free] by (cases "items (shared s)") auto
    from lq_main_step.next_ele [OF l this] show ?thesis by blast
  next
    case (Cons x xs)
    moreover have "\<exists>q. lq_add t x (shared s) = Inr q" using free by (simp add: lq_defs)
    ultimately show ?thesis using lq_main_step.add by blast
  qed
qed


text \<open>The consumers may be first: then they print nothing, and all eight values stay in the queue.\<close>

definition lq_quiet :: lq_main where
  "lq_quiet = (lq_main_start (\<lambda>_. 0))\<lparr>looping := (\<lambda>t. t = 2 \<or> t = 3)(2 := False, 3 := False)\<rparr>"

lemma lq_quiet_reach: "lq_main_reach lq_quiet"
proof -
  let ?s = "lq_main_start (\<lambda>_. 0)"
  have nxt: "lq_main_reach (s\<lparr>looping := (looping s)(t := False)\<rparr>)"
    if "lq_main_reach s" "looping s t" "shared s = lq_new" "ele s = (\<lambda>_. 0)" for s t
    using lq_main_reach.step [OF that(1) lq_main_step.next_ele [OF that(2), of False 0 "()" lq_new]] that(3,4)
    by (cases s) (simp add: next_check_eq lq_new_def fun_upd_idem)
  have 1: "lq_main_reach ?s" by (rule lq_main_reach.start)
  from nxt [OF 1, of 2] have 2: "lq_main_reach (?s\<lparr>looping := (looping ?s)(2 := False)\<rparr>)" by (simp add: lq_main_start_def)
  from nxt [OF 2, of 3] show ?thesis by (simp add: lq_main_start_def lq_quiet_def)
qed


lemma lockedqueue_main_may_print_nothing: "\<exists>s. lq_main_reach s \<and> pops s = [] \<and> \<not> looping s 2 \<and> \<not> looping s 3 \<and> to_add s 0 = lq_pd1"
  using lq_quiet_reach by (auto simp: lq_quiet_def lq_main_start_def intro!: exI [of _ lq_quiet])

subsection \<open>The nonintrusive queue of many producers\<close>

definition mpsc_pd1 :: "nat list" where "mpsc_pd1 = [100, 200, 300, 400]"

definition mpsc_pd2 :: "nat list" where "mpsc_pd2 = [500, 600, 700, 800]"

record mpsc_main =
  system :: "nat mpsc"
  to_enqueue :: "nat \<Rightarrow> nat list"
  consuming :: bool

definition mpsc_main_start :: "nat \<Rightarrow> mpsc_main" where
  "mpsc_main_start a = \<lparr>system = \<lparr>que = mpsc_new a, prod = (\<lambda>_. Away), taking = None, pushed = [], popped = [], broken = False\<rparr>,
     to_enqueue = (\<lambda>_. [])(0 := mpsc_pd1, 1 := mpsc_pd2), consuming = True\<rparr>"

inductive mpsc_main_step :: "mpsc_main \<Rightarrow> mpsc_main \<Rightarrow> bool" where
  make: "to_enqueue s t = v # vs \<Longrightarrow> prod (system s) t = Away \<Longrightarrow> a \<noteq> 0 \<Longrightarrow> a \<notin> alive (que (system s)) \<Longrightarrow>
    mpsc_main_step s (s\<lparr>system := (system s)\<lparr>que := new_node a (Some v) (que (system s)), prod := (prod (system s))(t := Ready a)\<rparr>,
      to_enqueue := (to_enqueue s)(t := vs)\<rparr>)"
| exchange: "prod (system s) t = Ready a \<Longrightarrow> enqueue_exchange a (que (system s)) = (p, q) \<Longrightarrow>
    mpsc_main_step s (s\<lparr>system := (system s)\<lparr>que := q, prod := (prod (system s))(t := Link p a),
      pushed := pushed (system s) @ [the (dat (que (system s)) a)]\<rparr>\<rparr>)"
| link: "prod (system s) t = Link p a \<Longrightarrow>
    mpsc_main_step s (s\<lparr>system := or_broken (system s) (enqueue_link p a (que (system s)))
      (\<lambda>q. (system s)\<lparr>que := q, prod := (prod (system s))(t := Away)\<rparr>)\<rparr>)"
| look: "consuming s \<Longrightarrow> taking (system s) = None \<Longrightarrow> dequeue_load (que (system s)) = Inr n \<Longrightarrow>
    mpsc_main_step s (s\<lparr>system := (system s)\<lparr>taking := (if n = 0 then None else Some n)\<rparr>, consuming := n \<noteq> 0\<rparr>)"
| take: "consuming s \<Longrightarrow> taking (system s) = Some n \<Longrightarrow>
    mpsc_main_step s (s\<lparr>system := or_broken (system s) (dequeue_take n (que (system s)))
      (\<lambda>(d, q). (system s)\<lparr>que := q, taking := None, popped := popped (system s) @ [d]\<rparr>)\<rparr>)"

inductive mpsc_main_reach :: "mpsc_main \<Rightarrow> bool" where
  start: "a \<noteq> 0 \<Longrightarrow> mpsc_main_reach (mpsc_main_start a)"
| step: "mpsc_main_reach s \<Longrightarrow> mpsc_main_step s s' \<Longrightarrow> mpsc_main_reach s'"

definition mpsc_joined :: "mpsc_main \<Rightarrow> bool" where
  "mpsc_joined s \<longleftrightarrow> (\<forall>t < 2. to_enqueue s t = [] \<and> prod (system s) t = Away) \<and> \<not> consuming s"

text \<open>The value a producer has in its hands.\<close>

definition in_hand :: "nat mpsc \<Rightarrow> nat \<Rightarrow> nat list" where
  "in_hand c t = (case prod c t of Ready a \<Rightarrow> [the (dat (que c) a)] | _ \<Rightarrow> [])"

definition mpsc_main_inv :: "mpsc_main \<Rightarrow> bool" where
  "mpsc_main_inv s \<longleftrightarrow> mpsc_reach (system s) \<and> (\<forall>t. 2 \<le> t \<longrightarrow> to_enqueue s t = [] \<and> prod (system s) t = Away) \<and>
     (\<not> consuming s \<longrightarrow> taking (system s) = None) \<and>
     sent_of mpsc_pd1 mpsc_pd2 (in_hand (system s) 0 @ to_enqueue s 0) (in_hand (system s) 1 @ to_enqueue s 1) (pushed (system s))"

fun stage :: "producer \<Rightarrow> nat" where
  "stage (Ready a) = 7"
| "stage (Link p a) = 4"
| "stage Away = 0"

definition mpsc_work :: "mpsc_main \<Rightarrow> nat" where
  "mpsc_work s = 8 * (length (to_enqueue s 0) + length (to_enqueue s 1)) + stage (prod (system s) 0) + stage (prod (system s) 1) +
     2 * (length (pushed (system s)) - length (popped (system s))) + (if consuming s \<and> taking (system s) = None then 1 else 0)"

lemma mpsc_reach_facts:
  assumes "mpsc_reach c"
  shows "\<not> broken c" "finite (ready (prod c)) \<Longrightarrow> finite (alive (que c))" "length (popped c) \<le> length (pushed c)"
    "prod c t = Ready a \<Longrightarrow> a \<in> alive (que c)" "prod c t = Link p a \<Longrightarrow> p \<in> alive (que c)"
    "tail (que c) \<in> alive (que c)" "taking c = Some n \<Longrightarrow> \<exists>d q. dequeue_take n (que c) = Inr (d, q)"
proof -
  from mpsc_reach_inv [OF assms] obtain L where nb: "\<not> broken c" and ok: "mpsc_ok (que c) (prod c) L"
    and push: "pushed c = popped c @ data_of (que c) L" unfolding mpsc_inv_def by blast
  have al: "alive (que c) = set L \<union> ready (prod c)" and L: "L \<noteq> []" "hd L = tail (que c)"
    and pend: "\<And>t x y. (pending \<circ> prod c) t = Some (x, y) \<Longrightarrow> x \<in> set L" using ok by (auto simp: mpsc_ok_def queue_ok_def)
  show "\<not> broken c" by (rule nb)
  show "finite (ready (prod c)) \<Longrightarrow> finite (alive (que c))" by (simp add: al)
  show "length (popped c) \<le> length (pushed c)" by (simp add: push)
  show "prod c t = Ready a \<Longrightarrow> a \<in> alive (que c)" by (auto simp: al ready_def)
  show "prod c t = Link p a \<Longrightarrow> p \<in> alive (que c)" using pend [of t p a] by (simp add: al)
  show "tail (que c) \<in> alive (que c)" using L by (simp add: al L(2) [symmetric])
  assume t: "taking c = Some n"
  from mpsc_reach_inv [OF mpsc_reach.step [OF assms mpsc_step.take [OF t]]] show "\<exists>d q. dequeue_take n (que c) = Inr (d, q)"
    by (cases "dequeue_take n (que c)") (auto simp: or_broken_def mpsc_inv_def)
qed

lemma in_hand_simps:
  "prod c t = Away \<Longrightarrow> in_hand c t = []" "prod c t = Link p a \<Longrightarrow> in_hand c t = []"
  "prod c t = Ready a \<Longrightarrow> in_hand c t = [the (dat (que c) a)]"
  by (simp_all add: in_hand_def)

lemma mpsc_main_reach_step:
  assumes "mpsc_main_step s s'" "mpsc_main_inv s"
  shows "mpsc_reach (system s')"
  using assms(1)
proof (cases rule: mpsc_main_step.cases)
  case (make t v vs a)
  with mpsc_reach.step [OF _ mpsc_step.make [of "system s" t a v]] assms(2) show ?thesis by (simp add: mpsc_main_inv_def)
next
  case (exchange t a p q)
  with mpsc_reach.step [OF _ mpsc_step.exchange [of "system s" t a p q]] assms(2) show ?thesis by (simp add: mpsc_main_inv_def)
next
  case (link t p a)
  with mpsc_reach.step [OF _ mpsc_step.link [of "system s" t p a]] assms(2) show ?thesis by (simp add: mpsc_main_inv_def)
next
  case (look n)
  with mpsc_reach.step [OF _ mpsc_step.look [of "system s"]] assms(2) show ?thesis by (simp add: mpsc_main_inv_def or_broken_def)
next
  case (take n)
  with mpsc_reach.step [OF _ mpsc_step.take [of "system s" n]] assms(2) show ?thesis by (simp add: mpsc_main_inv_def)
qed

lemma mpsc_main_step_inv:
  assumes "mpsc_main_step s s'" "mpsc_main_inv s"
  shows "mpsc_main_inv s' \<and> mpsc_work s' < mpsc_work s"
proof -
  have r: "mpsc_reach (system s)" and rest: "\<And>t. 2 \<le> t \<Longrightarrow> to_enqueue s t = [] \<and> prod (system s) t = Away"
    and idle: "\<not> consuming s \<Longrightarrow> taking (system s) = None"
    and sent: "sent_of mpsc_pd1 mpsc_pd2 (in_hand (system s) 0 @ to_enqueue s 0) (in_hand (system s) 1 @ to_enqueue s 1) (pushed (system s))"
    using assms(2) by (simp_all add: mpsc_main_inv_def)
  note r' = mpsc_main_reach_step [OF assms] and facts = mpsc_reach_facts [OF r]
  note facts' = mpsc_reach_facts [OF r']
  define h where "h u = in_hand (system s) u @ to_enqueue s u" for u
  define h' where "h' u = in_hand (system s') u @ to_enqueue s' u" for u
  have sent_h: "sent_of mpsc_pd1 mpsc_pd2 (h 0) (h 1) (pushed (system s))" using sent by (simp add: h_def)
  have inv: "mpsc_main_inv s'" if "sent_of mpsc_pd1 mpsc_pd2 (h' 0) (h' 1) (pushed (system s'))"
    "\<And>t. 2 \<le> t \<Longrightarrow> to_enqueue s' t = [] \<and> prod (system s') t = Away" "\<not> consuming s' \<Longrightarrow> taking (system s') = None"
    using that r' unfolding mpsc_main_inv_def h'_def by blast
  have two: "t = 0 \<or> t = 1" if "to_enqueue s t \<noteq> [] \<or> prod (system s) t \<noteq> Away" for t
    using rest [of t] that by (cases "2 \<le> t") auto
  from assms(1) show ?thesis
  proof (cases rule: mpsc_main_step.cases)
    case (make t v vs a)
    have "h' u = h u" for u
    proof (cases "u = t")
      case True
      with make show ?thesis by (simp add: h_def h'_def in_hand_def new_node_def)
    next
      case False
      have "b \<noteq> a" if "prod (system s) u = Ready b" for b using facts(4) [OF that] make(5) by blast
      with make False show ?thesis by (auto simp: h_def h'_def in_hand_def new_node_def split: producer.split)
    qed
    moreover have "mpsc_work s' < mpsc_work s" using two [of t] make by (auto simp: mpsc_work_def)
    ultimately show ?thesis using inv sent_h rest make(1,2) idle by (force split: if_splits)
  next
    case (exchange t a p q)
    have t: "t < 2" using two [of t] exchange(2) by auto
    have q: "q = (que (system s))\<lparr>head := a\<rparr>" using exchange(3) by (simp add: enqueue_exchange_def)
    have own: "h t = the (dat (que (system s)) a) # to_enqueue s t" "h' t = to_enqueue s t"
      using exchange q by (simp_all add: h_def h'_def in_hand_def)
    have other: "\<And>u. u \<noteq> t \<Longrightarrow> h' u = h u" using exchange q by (auto simp: h_def h'_def in_hand_def split: producer.split)
    have "sent_of mpsc_pd1 mpsc_pd2 (h' 0) (h' 1) (pushed (system s'))"
      using sent_of_thread [OF sent_h t own(1) own(2) other] exchange(1) by simp
    moreover have "mpsc_work s' < mpsc_work s" using two [of t] exchange facts(3) by (auto simp: mpsc_work_def)
    ultimately show ?thesis using inv rest exchange(1,2) idle t by force
  next
    case (link t p a)
    have q: "system s' = (system s)\<lparr>que := (que (system s))\<lparr>nxt := (nxt (que (system s)))(p := a)\<rparr>, prod := (prod (system s))(t := Away)\<rparr>"
      using link facts(5) [OF link(2)] by (simp add: enqueue_link_def or_broken_def)
    have "h' u = h u" for u using link q by (auto simp: h_def h'_def in_hand_def split: producer.split)
    moreover have "mpsc_work s' < mpsc_work s" using two [of t] link q by (auto simp: mpsc_work_def)
    ultimately show ?thesis using inv sent_h rest link(1) q idle by force
  next
    case (look n)
    have "h' u = h u" for u using look by (auto simp: h_def h'_def in_hand_def split: producer.split)
    moreover have "mpsc_work s' < mpsc_work s" using look by (auto simp: mpsc_work_def)
    ultimately show ?thesis using inv sent_h rest look(1) by force
  next
    case (take n)
    obtain d q where q: "dequeue_take n (que (system s)) = Inr (d, q)" using facts(7) [OF take(3)] by blast
    then have s': "system s' = (system s)\<lparr>que := q, taking := None, popped := popped (system s) @ [d]\<rparr>" "dat q = dat (que (system s))"
      using take(1) by (auto simp: or_broken_def dequeue_take_def split: if_splits option.splits)
    have "h' u = h u" for u using take(1) s' by (auto simp: h_def h'_def in_hand_def split: producer.split)
    moreover have "mpsc_work s' < mpsc_work s" using take s' facts'(3) by (auto simp: mpsc_work_def)
    ultimately show ?thesis using inv sent_h rest take(1) s' idle by force
  qed
qed

lemma mpsc_main_reach_inv: "mpsc_main_reach s \<Longrightarrow> mpsc_main_inv s"
proof (induction rule: mpsc_main_reach.induct)
  case (start a)
  then show ?case using mpsc_reach.start [OF start]
    by (auto simp: mpsc_main_inv_def mpsc_main_start_def in_hand_def sent_of_start)
qed (use mpsc_main_step_inv in blast)

lemma mpsc_main_moves:
  assumes "mpsc_main_inv s" "\<not> mpsc_joined s"
  shows "\<exists>s'. mpsc_main_step s s'"
proof -
  have r: "mpsc_reach (system s)" and rest: "\<And>t. 2 \<le> t \<Longrightarrow> prod (system s) t = Away" using assms(1) by (simp_all add: mpsc_main_inv_def)
  note facts = mpsc_reach_facts [OF r]
  from assms(2) consider (prod) t where "to_enqueue s t \<noteq> [] \<or> prod (system s) t \<noteq> Away" | (cons) "consuming s"
    unfolding mpsc_joined_def by blast
  then show ?thesis
  proof cases
    case prod
    show ?thesis
    proof (cases "prod (system s) t")
      case Away
      then obtain v vs where v: "to_enqueue s t = v # vs" using prod by (cases "to_enqueue s t") auto
      have "ready (prod (system s)) \<subseteq> (\<lambda>t. case prod (system s) t of Ready a \<Rightarrow> a | _ \<Rightarrow> 0) ` {..<2}"
      proof
        fix a assume "a \<in> ready (prod (system s))"
        then obtain u where u: "prod (system s) u = Ready a" by (auto simp: ready_def)
        then have "u < 2" using rest [of u] by (cases "2 \<le> u") auto
        with u show "a \<in> (\<lambda>t. case prod (system s) t of Ready a \<Rightarrow> a | _ \<Rightarrow> 0) ` {..<2}" by force
      qed
      then have "finite (insert 0 (alive (que (system s))))" using facts(2) finite_subset by (metis finite_imageI finite_insert finite_lessThan)
      then obtain a where "a \<notin> insert 0 (alive (que (system s)))" using ex_new_if_finite infinite_UNIV_nat by blast
      with mpsc_main_step.make [OF v Away, of a] show ?thesis by auto
    qed (use mpsc_main_step.exchange mpsc_main_step.link in \<open>metis surj_pair\<close>)+
  next
    case cons
    have "\<exists>n. dequeue_load (que (system s)) = Inr n" using facts(6) by (simp add: dequeue_load_def)
    then show ?thesis using mpsc_main_step.look [OF cons] mpsc_main_step.take [OF cons] by (cases "taking (system s)") blast+
  qed
qed

text \<open>
  \<^verbatim>\<open>main_mpscqueue.cpp\<close> always ends: each step lowers \<open>mpsc_work\<close>, and until all threads are joined there is one. What the consumer
  has printed and deleted, followed by what the destructor of the queue then deletes, is an interleaving of the values of the producers, and no node
  is left.
\<close>

theorem mpscqueue_main_ends:
  assumes "mpsc_main_reach s"
  shows "if mpsc_joined s then \<exists>rest. mpsc_destroy (que (system s)) = Some (Inr (rest, {})) \<and>
      popped (system s) @ rest \<in> shuffles [100, 200, 300, 400] [500, 600, 700, 800]
    else (\<exists>s'. mpsc_main_step s s') \<and> (\<forall>s'. mpsc_main_step s s' \<longrightarrow> mpsc_work s' < mpsc_work s)"
proof (cases "mpsc_joined s")
  case True
  have inv: "mpsc_main_inv s" using assms by (rule mpsc_main_reach_inv)
  have away: "prod (system s) t = Away" for t
    using inv True unfolding mpsc_main_inv_def mpsc_joined_def by (meson not_le)
  then have p: "prod (system s) = (\<lambda>_. Away)" by auto
  from mpsc_reach_inv [of "system s"] obtain L where "mpsc_ok (que (system s)) (\<lambda>_. Away) L"
    and L: "pushed (system s) = popped (system s) @ data_of (que (system s)) L"
    using inv unfolding mpsc_main_inv_def mpsc_inv_def p by blast
  then have "mpsc_destroy (que (system s)) = Some (Inr (data_of (que (system s)) L, {}))" by (simp add: mpsc_destroy_ok)
  moreover have "pushed (system s) \<in> shuffles mpsc_pd1 mpsc_pd2"
    using inv True sent_of_all [of mpsc_pd1 mpsc_pd2] by (simp add: mpsc_main_inv_def mpsc_joined_def in_hand_def)
  ultimately show ?thesis using True L by (simp add: mpsc_pd1_def mpsc_pd2_def)
next
  case False
  have inv: "mpsc_main_inv s" using assms by (rule mpsc_main_reach_inv)
  from False mpsc_main_moves [OF inv] mpsc_main_step_inv [OF _ inv] show ?thesis by auto
qed

theorem mpscqueue_main_ends_witness: "\<exists>s'. mpsc_main_step (mpsc_main_start 1) s' \<and> mpsc_work s' < mpsc_work (mpsc_main_start 1)"
proof -
  have "mpsc_main_reach (mpsc_main_start 1)" by (rule mpsc_main_reach.start) simp
  moreover have "\<not> mpsc_joined (mpsc_main_start 1)" by (simp add: mpsc_joined_def mpsc_main_start_def)
  ultimately show ?thesis using mpscqueue_main_ends [of "mpsc_main_start 1"] by auto
qed

end
