(* ===== verification/Pc_Queue.thy ===== *)
theory Pc_Queue
  imports Prelude
begin

text \<open>
  \<^verbatim>\<open>queue_design-master/ProducerConsumerQueue.h\<close>: a queue behind a mutex with a condition variable.
  Every member but \<open>Size\<close> holds the mutex from its first step to its last, except while
  \<open>WaitAndPop\<close> sleeps in \<open>wait\<close>; so the steps of the threads are the pieces between two waits.
\<close>

subsection \<open>State and operations\<close>

record 'a pc_queue =
  pc_items :: "'a list"
  pc_shutdown :: bool

definition pc_new :: "'a pc_queue" where
  "pc_new = \<lparr>pc_items = [], pc_shutdown = False\<rparr>"

definition pc_push :: "'a \<Rightarrow> 'a pc_queue \<Rightarrow> 'a pc_queue" where
  "pc_push v q = q\<lparr>pc_items := pc_items q @ [v]\<rparr>"

definition pc_empty :: "'a pc_queue \<Rightarrow> bool" where
  "pc_empty q \<longleftrightarrow> pc_items q = []"

definition pc_size :: "'a pc_queue \<Rightarrow> nat" where
  "pc_size q = length (pc_items q)"

text \<open>The reference parameter \<open>value\<close> keeps \<open>old\<close> where the code does not assign it.\<close>

definition pc_pop :: "'a \<Rightarrow> 'a pc_queue \<Rightarrow> bool \<times> 'a \<times> 'a pc_queue" where
  "pc_pop old q =
     (if pc_items q = [] \<or> pc_shutdown q then (False, old, q)
      else (True, hd (pc_items q), q\<lparr>pc_items := tl (pc_items q)\<rparr>))"

definition pc_must_wait :: "'a pc_queue \<Rightarrow> bool" where
  "pc_must_wait q \<longleftrightarrow> pc_items q = [] \<and> \<not> pc_shutdown q"

text \<open>What follows the loop of \<open>WaitAndPop\<close>, which tells its caller nothing but \<open>value\<close>.\<close>

definition pc_wait_end :: "'a \<Rightarrow> 'a pc_queue \<Rightarrow> 'a \<times> 'a pc_queue" where
  "pc_wait_end old q =
     (if pc_items q = [] \<or> pc_shutdown q then (old, q)
      else (hd (pc_items q), q\<lparr>pc_items := tl (pc_items q)\<rparr>))"

text \<open>\<open>DeleteQueuedObject\<close> deletes what a queue of pointers holds and nothing otherwise.\<close>

definition delete_queued :: "bool \<Rightarrow> 'a \<Rightarrow> 'a list \<Rightarrow> 'a list" where
  "delete_queued is_pointer v deleted = (if is_pointer then deleted @ [v] else deleted)"

fun pc_cancel_loop :: "bool \<Rightarrow> 'a list \<Rightarrow> 'a list \<Rightarrow> 'a list \<times> 'a list" where
  "pc_cancel_loop ptr [] deleted = ([], deleted)"
| "pc_cancel_loop ptr (v # l) deleted = pc_cancel_loop ptr l (delete_queued ptr v deleted)"

definition pc_cancel :: "bool \<Rightarrow> 'a pc_queue \<Rightarrow> 'a list \<Rightarrow> 'a pc_queue \<times> 'a list" where
  "pc_cancel ptr q deleted =
     (let (l, deleted') = pc_cancel_loop ptr (pc_items q) deleted in (\<lparr>pc_items = l, pc_shutdown = True\<rparr>, deleted'))"

lemma pc_cancel_loop_eq: "pc_cancel_loop ptr l deleted = ([], deleted @ (if ptr then l else []))"
  by (induction l arbitrary: deleted) (simp_all add: delete_queued_def)

lemma pc_cancel_eq: "pc_cancel ptr q deleted = (\<lparr>pc_items = [], pc_shutdown = True\<rparr>, deleted @ (if ptr then pc_items q else []))"
  by (simp add: pc_cancel_def pc_cancel_loop_eq)

subsection \<open>Threads\<close>

datatype phase = Outside | Asleep | Woken

text \<open>
  \<open>gone\<close> are the items that left the queue, with the thread that got them, or \<open>None\<close> for those that
  \<open>Cancel\<close> removed; \<open>returned\<close> counts the calls of \<open>WaitAndPop\<close> that returned without an item.
\<close>

record 'a pc_system =
  pcq :: "'a pc_queue"
  at :: "nat \<Rightarrow> phase"
  put_in :: "'a list"
  gone :: "('a \<times> nat option) list"
  deleted :: "'a list"
  barren :: nat

definition in_phase :: "phase \<Rightarrow> (nat \<Rightarrow> phase) \<Rightarrow> nat set" where
  "in_phase c p = {t. p t = c}"

abbreviation asleep :: "'a pc_system \<Rightarrow> nat set" where
  "asleep s \<equiv> in_phase Asleep (at s)"

abbreviation woken :: "'a pc_system \<Rightarrow> nat set" where
  "woken s \<equiv> in_phase Woken (at s)"

text \<open>\<open>notify_one\<close> wakes one sleeper if there is one, and any one; \<open>notify_all\<close> wakes all.\<close>

definition notify_one :: "(nat \<Rightarrow> phase) \<Rightarrow> nat \<Rightarrow> nat \<Rightarrow> phase" where
  "notify_one p u = (if p u = Asleep then p(u := Woken) else p)"

definition notify_all :: "(nat \<Rightarrow> phase) \<Rightarrow> nat \<Rightarrow> phase" where
  "notify_all p = (\<lambda>t. if p t = Asleep then Woken else p t)"

text \<open>A thread in \<open>WaitAndPop\<close> that holds the mutex, at the head of the loop.\<close>

definition wait_turn :: "nat \<Rightarrow> 'a \<Rightarrow> 'a pc_system \<Rightarrow> 'a pc_system" where
  "wait_turn t old s =
     (if pc_must_wait (pcq s) then s\<lparr>at := (at s)(t := Asleep)\<rparr>
      else (let (v, q) = pc_wait_end old (pcq s) in
        if pc_items (pcq s) = [] \<or> pc_shutdown (pcq s) then s\<lparr>pcq := q, at := (at s)(t := Outside), barren := Suc (barren s)\<rparr>
        else s\<lparr>pcq := q, at := (at s)(t := Outside), gone := gone s @ [(v, Some t)]\<rparr>))"

inductive pc_step :: "bool \<Rightarrow> 'a pc_system \<Rightarrow> 'a pc_system \<Rightarrow> bool" for ptr :: bool where
  push: "at s t = Outside \<Longrightarrow> (at s u = Asleep \<or> asleep s = {}) \<Longrightarrow>
    pc_step ptr s (s\<lparr>pcq := pc_push v (pcq s), at := notify_one (at s) u, put_in := put_in s @ [v]\<rparr>)"
| pop: "at s t = Outside \<Longrightarrow> pc_pop old (pcq s) = (yes, v, q) \<Longrightarrow>
    pc_step ptr s (s\<lparr>pcq := q, gone := gone s @ (if yes then [(v, Some t)] else [])\<rparr>)"
| enter: "at s t = Outside \<Longrightarrow> pc_step ptr s (wait_turn t old s)"
| again: "at s t = Woken \<Longrightarrow> pc_step ptr s (wait_turn t old s)"
| spurious: "at s t = Asleep \<Longrightarrow> pc_step ptr s (s\<lparr>at := (at s)(t := Woken)\<rparr>)"
| cancel: "at s t = Outside \<Longrightarrow> pc_cancel ptr (pcq s) (deleted s) = (q, dels) \<Longrightarrow>
    pc_step ptr s (s\<lparr>pcq := q, at := notify_all (at s), gone := gone s @ map (\<lambda>v. (v, None)) (pc_items (pcq s)), deleted := dels\<rparr>)"

inductive pc_reach :: "bool \<Rightarrow> 'a pc_system \<Rightarrow> bool" for ptr :: bool where
  start: "pc_reach ptr \<lparr>pcq = pc_new, at = (\<lambda>_. Outside), put_in = [], gone = [], deleted = [], barren = 0\<rparr>"
| step: "pc_reach ptr s \<Longrightarrow> pc_step ptr s s' \<Longrightarrow> pc_reach ptr s'"

subsection \<open>Nothing is lost\<close>

definition pc_items_inv :: "bool \<Rightarrow> 'a pc_system \<Rightarrow> bool" where
  "pc_items_inv ptr s \<longleftrightarrow> put_in s = map fst (gone s) @ pc_items (pcq s) \<and>
     deleted s = (if ptr then map fst (filter (\<lambda>x. snd x = None) (gone s)) else [])"

lemma wait_turn_items:
  "pc_items_inv ptr s \<Longrightarrow> pc_items_inv ptr (wait_turn t old s)"
  by (cases "pc_items (pcq s)") (auto simp: pc_items_inv_def wait_turn_def pc_wait_end_def)

lemma filter_none: "filter (\<lambda>x. snd x = None) (map (\<lambda>v. (v, None)) l) = map (\<lambda>v. (v, None)) l"
  by (induction l) simp_all

lemma pc_step_items: "pc_step ptr s s' \<Longrightarrow> pc_items_inv ptr s \<Longrightarrow> pc_items_inv ptr s'"
proof (induction rule: pc_step.induct)
  case (pop s t old yes v q)
  then show ?case by (cases "pc_items (pcq s)") (auto simp: pc_items_inv_def pc_pop_def split: if_splits)
next
  case (cancel s t q dels)
  then show ?case by (auto simp: pc_items_inv_def pc_cancel_eq filter_none comp_def)
qed (simp_all add: wait_turn_items, simp_all add: pc_items_inv_def pc_push_def)

lemma pc_reach_items: "pc_reach ptr s \<Longrightarrow> pc_items_inv ptr s"
  by (induction rule: pc_reach.induct) (simp_all add: pc_items_inv_def [of ptr "\<lparr>pcq = _, at = _, put_in = _, gone = _, deleted = _, barren = _\<rparr>"] pc_new_def pc_step_items)

subsection \<open>No wakeup is lost\<close>

definition pc_wake_inv :: "'a pc_system \<Rightarrow> bool" where
  "pc_wake_inv s \<longleftrightarrow> finite (woken s) \<and> finite (asleep s) \<and>
     (asleep s \<noteq> {} \<longrightarrow> \<not> pc_shutdown (pcq s) \<and> length (pc_items (pcq s)) \<le> card (woken s))"

lemma in_phase_upd [simp]: "in_phase c (p(t := d)) = (if d = c then insert t (in_phase c p) else in_phase c p - {t})"
  by (auto simp: in_phase_def)

lemma in_phase_notify [simp]:
  "in_phase Woken (notify_one p u) = (if p u = Asleep then insert u (in_phase Woken p) else in_phase Woken p)"
  "in_phase Asleep (notify_one p u) = in_phase Asleep p - {u}"
  "in_phase Woken (notify_all p) = in_phase Woken p \<union> in_phase Asleep p"
  "in_phase Asleep (notify_all p) = {}"
  by (auto simp: notify_one_def notify_all_def in_phase_def)

lemma wait_turn_sleep: "pc_must_wait (pcq s) \<Longrightarrow> wait_turn t old s = s\<lparr>at := (at s)(t := Asleep)\<rparr>"
  by (simp add: wait_turn_def)

lemma wait_turn_barren:
  "\<not> pc_must_wait (pcq s) \<Longrightarrow> pc_items (pcq s) = [] \<or> pc_shutdown (pcq s) \<Longrightarrow>
     wait_turn t old s = s\<lparr>at := (at s)(t := Outside), barren := Suc (barren s)\<rparr>"
  by (auto simp: wait_turn_def pc_wait_end_def)

lemma wait_turn_got:
  "\<not> pc_must_wait (pcq s) \<Longrightarrow> pc_items (pcq s) \<noteq> [] \<Longrightarrow> \<not> pc_shutdown (pcq s) \<Longrightarrow>
     wait_turn t old s = s\<lparr>pcq := (pcq s)\<lparr>pc_items := tl (pc_items (pcq s))\<rparr>, at := (at s)(t := Outside),
       gone := gone s @ [(hd (pc_items (pcq s)), Some t)]\<rparr>"
  by (simp add: wait_turn_def pc_wait_end_def)

lemma pc_wake_invI:
  "finite (woken s) \<Longrightarrow> finite (asleep s) \<Longrightarrow>
     (asleep s \<noteq> {} \<Longrightarrow> \<not> pc_shutdown (pcq s) \<and> length (pc_items (pcq s)) \<le> card (woken s)) \<Longrightarrow> pc_wake_inv s"
  unfolding pc_wake_inv_def by blast

lemma pc_wake_invD:
  assumes "pc_wake_inv s"
  shows "finite (woken s)" "finite (asleep s)"
    "asleep s \<noteq> {} \<Longrightarrow> \<not> pc_shutdown (pcq s) \<and> length (pc_items (pcq s)) \<le> card (woken s)"
  using assms unfolding pc_wake_inv_def by blast+

lemma wait_turn_wake:
  assumes inv: "pc_wake_inv s" and t: "at s t \<noteq> Asleep"
  shows "pc_wake_inv (wait_turn t old s)"
proof (rule pc_wake_invI)
  note d = pc_wake_invD [OF inv]
  have out: "asleep s - {t} = asleep s" using t by (auto simp: in_phase_def)
  show "finite (woken (wait_turn t old s))" "finite (asleep (wait_turn t old s))"
    using d(1,2) by (auto simp: wait_turn_def pc_wait_end_def)
  assume some: "asleep (wait_turn t old s) \<noteq> {}"
  consider "pc_must_wait (pcq s)"
    | "\<not> pc_must_wait (pcq s)" "pc_items (pcq s) = [] \<or> pc_shutdown (pcq s)"
    | "\<not> pc_must_wait (pcq s)" "pc_items (pcq s) \<noteq> []" "\<not> pc_shutdown (pcq s)" by blast
  then show "\<not> pc_shutdown (pcq (wait_turn t old s)) \<and> length (pc_items (pcq (wait_turn t old s))) \<le> card (woken (wait_turn t old s))"
  proof cases
    case 1
    then show ?thesis by (simp add: wait_turn_sleep pc_must_wait_def)
  next
    case 2
    then have "asleep s \<noteq> {}" using some out by (simp add: wait_turn_barren)
    with d(3) 2 show ?thesis by (auto simp: pc_must_wait_def)
  next
    case 3
    then have "asleep s \<noteq> {}" using some out by (simp add: wait_turn_got)
    with d(3) have "length (pc_items (pcq s)) \<le> card (woken s)" by blast
    moreover have "card (woken s) - 1 \<le> card (woken s - {t})" using d(1) by (simp add: card_Diff_singleton_if)
    ultimately show ?thesis using 3 by (simp add: wait_turn_got)
  qed
qed

lemma pc_step_wake: "pc_step ptr s s' \<Longrightarrow> pc_wake_inv s \<Longrightarrow> pc_wake_inv s'"
proof (induction rule: pc_step.induct)
  case (push s t u v)
  note d = pc_wake_invD [OF push(3)]
  show ?case
  proof (rule pc_wake_invI)
    assume "asleep (s\<lparr>pcq := pc_push v (pcq s), at := notify_one (at s) u, put_in := put_in s @ [v]\<rparr>) \<noteq> {}"
    then have u: "at s u = Asleep" "asleep s \<noteq> {}" using push(2) by auto
    then have "u \<notin> woken s" by (simp add: in_phase_def)
    with d(1) d(3) [OF u(2)] u(1)
    show "\<not> pc_shutdown (pcq (s\<lparr>pcq := pc_push v (pcq s), at := notify_one (at s) u, put_in := put_in s @ [v]\<rparr>)) \<and>
      length (pc_items (pcq (s\<lparr>pcq := pc_push v (pcq s), at := notify_one (at s) u, put_in := put_in s @ [v]\<rparr>))) \<le>
      card (woken (s\<lparr>pcq := pc_push v (pcq s), at := notify_one (at s) u, put_in := put_in s @ [v]\<rparr>))"
      by (simp add: pc_push_def)
  qed (use d in simp_all)
next
  case (pop s t old yes v q)
  note d = pc_wake_invD [OF pop(3)]
  have "pc_shutdown q = pc_shutdown (pcq s)" "length (pc_items q) \<le> length (pc_items (pcq s))"
    using pop(2) by (auto simp: pc_pop_def split: if_splits)
  with d show ?case by (intro pc_wake_invI) (auto intro: order_trans)
next
  case (enter s t old)
  then show ?case by (intro wait_turn_wake) simp_all
next
  case (again s t old)
  then show ?case by (intro wait_turn_wake) simp_all
next
  case (spurious s t)
  note d = pc_wake_invD [OF spurious(2)]
  have "asleep s \<noteq> {}" "t \<notin> woken s" using spurious(1) by (auto simp: in_phase_def)
  with d show ?case by (intro pc_wake_invI) auto
next
  case (cancel s t q dels)
  note d = pc_wake_invD [OF cancel(3)]
  show ?case using d(1,2) by (intro pc_wake_invI) simp_all
qed

lemma pc_reach_wake: "pc_reach ptr s \<Longrightarrow> pc_wake_inv s"
proof (induction rule: pc_reach.induct)
  case start
  show ?case by (simp add: pc_wake_inv_def in_phase_def)
qed (rule pc_step_wake)

subsection \<open>Properties\<close>

text \<open>A run: threads 1 and 3 find nothing and sleep, then thread 0 pushes 7 and wakes thread 1.\<close>

definition ex_pc :: "nat pc_system" where
  "ex_pc = \<lparr>pcq = \<lparr>pc_items = [7], pc_shutdown = False\<rparr>, at = (\<lambda>_. Outside)(3 := Asleep, 1 := Woken), put_in = [7],
     gone = [], deleted = [], barren = 0\<rparr>"

lemma ex_pc_reach: "pc_reach ptr ex_pc"
proof -
  note defs = pc_new_def wait_turn_def pc_must_wait_def pc_push_def notify_one_def
  note 1 = pc_reach.step [OF pc_reach.start pc_step.enter [where t = 1], of ptr, unfolded defs, simplified]
  note 2 = pc_reach.step [OF 1 pc_step.enter [where t = 3], unfolded defs, simplified]
  note 3 = pc_reach.step [OF 2 pc_step.push [where t = 0 and u = 1 and v = 7], unfolded defs, simplified]
  show ?thesis using 3 by (simp add: ex_pc_def fun_upd_twist)
qed

text \<open>
  C34: an item that is pushed leaves the queue once, in the order of the pushes: to one thread, or
  removed by \<open>Cancel\<close>, which deletes exactly those items, and only if they are pointers.
\<close>

theorem pc_fifo:
  assumes "pc_reach ptr s"
  shows "put_in s = map fst (gone s) @ pc_items (pcq s) \<and>
    deleted s = (if ptr then map fst (filter (\<lambda>x. snd x = None) (gone s)) else [])"
  using pc_reach_items [OF assms] by (simp add: pc_items_inv_def)

theorem pc_fifo_witness: "put_in ex_pc = map fst (gone ex_pc) @ pc_items (pcq ex_pc) \<and> put_in ex_pc = [7]"
  using pc_fifo [OF ex_pc_reach] by (simp add: ex_pc_def)

text \<open>
  C9: no wakeup is lost. While a thread sleeps in \<open>WaitAndPop\<close> the queue is not shut down, and for each item in the
  queue a thread is awake that will look at it, whatever the wakeups the system adds.
\<close>

theorem pc_no_lost_wakeup:
  assumes "pc_reach ptr s" "at s t = Asleep"
  shows "\<not> pc_shutdown (pcq s) \<and> length (pc_items (pcq s)) \<le> card {u. at s u = Woken}"
proof -
  have "asleep s \<noteq> {}" using assms(2) by (auto simp: in_phase_def)
  then show ?thesis using pc_wake_invD(3) [OF pc_reach_wake [OF assms(1)]] by (simp add: in_phase_def)
qed

theorem pc_no_lost_wakeup_witness: "at ex_pc 3 = Asleep \<and> length (pc_items (pcq ex_pc)) \<le> card {u. at ex_pc u = Woken}"
proof -
  have "at ex_pc 3 = Asleep" by (simp add: ex_pc_def)
  with pc_no_lost_wakeup [OF ex_pc_reach this] show ?thesis by simp
qed

lemma shutdown_step:
  assumes "pc_shutdown (pcq s)" "asleep s = {}" "pc_step ptr s s'"
  shows "pc_shutdown (pcq s') \<and> asleep s' = {} \<and> filter (\<lambda>x. snd x \<noteq> None) (gone s') = filter (\<lambda>x. snd x \<noteq> None) (gone s)"
  using assms(3,1,2)
proof (induction rule: pc_step.induct)
  case (cancel s t q dels)
  then show ?case by (auto simp: pc_cancel_eq filter_empty_conv)
next
  case (enter s t old)
  then have "\<not> pc_must_wait (pcq s)" by (simp add: pc_must_wait_def)
  with enter show ?case by (auto simp: wait_turn_barren pc_wait_end_def in_phase_def)
next
  case (again s t old)
  then have "\<not> pc_must_wait (pcq s)" by (simp add: pc_must_wait_def)
  with again show ?case by (auto simp: wait_turn_barren pc_wait_end_def in_phase_def)
qed (auto simp: pc_push_def pc_pop_def split: if_splits)

text \<open>
  Once \<open>Cancel\<close> has run the queue stays shut down and no thread sleeps in it, now or later; no
  thread is given an item any more. An item that is pushed then stays in the queue until
  the next \<open>Cancel\<close>: \<open>Push\<close> does not look at \<open>_shutdown\<close>.
\<close>

theorem pc_after_cancel:
  assumes "pc_reach ptr s" "pc_shutdown (pcq s)" "(pc_step ptr)\<^sup>*\<^sup>* s s'"
  shows "pc_shutdown (pcq s') \<and> (\<nexists>t. at s' t = Asleep) \<and>
    filter (\<lambda>x. snd x \<noteq> None) (gone s') = filter (\<lambda>x. snd x \<noteq> None) (gone s)"
proof -
  have none: "asleep s = {}" using pc_wake_invD(3) [OF pc_reach_wake [OF assms(1)]] assms(2) by blast
  have "pc_shutdown (pcq s') \<and> asleep s' = {} \<and> filter (\<lambda>x. snd x \<noteq> None) (gone s') = filter (\<lambda>x. snd x \<noteq> None) (gone s)"
    using assms(3)
  proof (induction rule: rtranclp_induct)
    case base
    then show ?case using assms(2) none by simp
  next
    case (step u v)
    then show ?case using shutdown_step [of u ptr v] by simp
  qed
  then show ?thesis by (auto simp: in_phase_def)
qed

lemma ex_pc_cancel: "pc_step True ex_pc (ex_pc\<lparr>pcq := \<lparr>pc_items = [], pc_shutdown = True\<rparr>, at := notify_all (at ex_pc),
    gone := [(7, None)], deleted := [7]\<rparr>)"
  using pc_step.cancel [where s = ex_pc and t = 0 and ptr = True] by (simp add: ex_pc_def pc_cancel_eq)

theorem pc_after_cancel_witness: "\<exists>s. pc_reach True s \<and> pc_shutdown (pcq s) \<and> deleted s = [7 :: nat] \<and> (\<nexists>t. at s t = Asleep)"
proof -
  let ?s = "ex_pc\<lparr>pcq := \<lparr>pc_items = [], pc_shutdown = True\<rparr>, at := notify_all (at ex_pc), gone := [(7, None)], deleted := [7]\<rparr>"
  have r: "pc_reach True ?s" by (rule pc_reach.step [OF ex_pc_reach ex_pc_cancel])
  have "pc_shutdown (pcq ?s)" "deleted ?s = [7]" by simp_all
  with r pc_after_cancel [OF r this(1) rtranclp.rtrancl_refl] show ?thesis by blast
qed

end
