(* ===== verification/Cpp_Threadpool.thy ===== *)
theory Cpp_Threadpool
  imports Prelude
begin

text \<open>
  The class \<open>ThreadPool\<close> of \<^verbatim>\<open>1_CPBase/threadPool/tp.cpp\<close>: workers that take functions from a queue
  behind a mutex and a condition variable, \<open>enqueue\<close>, which throws once the pool is stopped, and the
  destructor, which stops the pool and joins the workers. The steps are the blocks that hold the
  mutex, the notifications behind them, and a task's end. The function objects and futures are the
  tasks \<open>'f\<close>; that a task runs and returns is its client's part.
\<close>

subsection \<open>State and operations\<close>

datatype worker =
    Locking      \<comment> \<open>about to lock the mutex and to test the predicate of \<open>wait\<close>\<close>
  | Sleeping
  | Running
  | Returned

datatype stage =
    Alive
  | Stopped      \<comment> \<open>the destructor has set \<open>stop\<close>, not yet notified\<close>
  | Joining

text \<open>The stages are ordered: the destructor goes through them once.\<close>

fun stage_no :: "stage \<Rightarrow> nat" where
  "stage_no Alive = 0"
| "stage_no Stopped = 1"
| "stage_no Joining = 2"

instantiation stage :: linorder
begin

definition less_eq_stage :: "stage \<Rightarrow> stage \<Rightarrow> bool" where
  "less_eq_stage x y \<longleftrightarrow> stage_no x \<le> stage_no y"

definition less_stage :: "stage \<Rightarrow> stage \<Rightarrow> bool" where
  "less_stage x y \<longleftrightarrow> stage_no x < stage_no y"

instance
proof
  fix x y :: stage assume "x \<le> y" "y \<le> x"
  then show "x = y" by (cases x; cases y) (simp_all add: less_eq_stage_def)
qed (auto simp: less_eq_stage_def less_stage_def)

end

record 'f pool =
  tasks :: "'f list"
  stop :: bool
  workers :: "worker list"
  notices :: nat           \<comment> \<open>\<open>enqueue\<close>s between their block and \<open>notify_one\<close>\<close>
  stage :: stage
  accepted :: "'f list"
  started :: "'f list"

definition pool_new :: "nat \<Rightarrow> 'f pool" where
  "pool_new n = \<lparr>tasks = [], stop = False, workers = replicate n Locking, notices = 0, stage = Alive, accepted = [], started = []\<rparr>"

text \<open>The predicate of \<open>wait\<close>, and a worker's block when it has the mutex.\<close>

definition wait_over :: "'f pool \<Rightarrow> bool" where
  "wait_over p \<longleftrightarrow> stop p \<or> tasks p \<noteq> []"

definition worker_block :: "nat \<Rightarrow> 'f pool \<Rightarrow> 'f pool" where
  "worker_block i p =
     (if \<not> wait_over p then p\<lparr>workers := (workers p)[i := Sleeping]\<rparr>
      else if stop p \<and> tasks p = [] then p\<lparr>workers := (workers p)[i := Returned]\<rparr>
      else p\<lparr>tasks := tl (tasks p), workers := (workers p)[i := Running], started := started p @ [hd (tasks p)]\<rparr>)"

text \<open>The block of \<open>enqueue\<close>: \<open>None\<close> is the exception.\<close>

definition pool_enqueue :: "'f \<Rightarrow> 'f pool \<Rightarrow> 'f pool option" where
  "pool_enqueue f p =
     (if stop p then None else Some (p\<lparr>tasks := tasks p @ [f], notices := Suc (notices p), accepted := accepted p @ [f]\<rparr>))"

definition wake_worker :: "nat \<Rightarrow> worker list \<Rightarrow> worker list" where
  "wake_worker i ws = (if i < length ws \<and> ws ! i = Sleeping then ws[i := Locking] else ws)"

definition wake_workers :: "worker list \<Rightarrow> worker list" where
  "wake_workers ws = map (\<lambda>w. if w = Sleeping then Locking else w) ws"

definition destructor_block :: "'f pool \<Rightarrow> 'f pool" where
  "destructor_block p = p\<lparr>stop := True, stage := Stopped\<rparr>"

text \<open>The steps of the workers, and those of everyone else.\<close>

inductive worker_step :: "'f pool \<Rightarrow> 'f pool \<Rightarrow> bool" where
  block: "i < length (workers p) \<Longrightarrow> workers p ! i = Locking \<Longrightarrow> worker_step p (worker_block i p)"
| run_ends: "i < length (workers p) \<Longrightarrow> workers p ! i = Running \<Longrightarrow> worker_step p (p\<lparr>workers := (workers p)[i := Locking]\<rparr>)"

inductive pool_step :: "'f pool \<Rightarrow> 'f pool \<Rightarrow> bool" where
  work: "worker_step p p' \<Longrightarrow> pool_step p p'"
| spurious: "pool_step p (p\<lparr>workers := wake_worker i (workers p)\<rparr>)"
| enqueue: "pool_enqueue f p = Some p' \<Longrightarrow> pool_step p p'"
| notify: "notices p = Suc n \<Longrightarrow> (i < length (workers p) \<and> workers p ! i = Sleeping) \<or> Sleeping \<notin> set (workers p) \<Longrightarrow>
    pool_step p (p\<lparr>workers := wake_worker i (workers p), notices := n\<rparr>)"
| stop: "stage p = Alive \<Longrightarrow> pool_step p (destructor_block p)"
| notify_all: "stage p = Stopped \<Longrightarrow> pool_step p (p\<lparr>workers := wake_workers (workers p), stage := Joining\<rparr>)"

inductive pool_reach :: "nat \<Rightarrow> 'f pool \<Rightarrow> bool" for n :: nat where
  start: "pool_reach n (pool_new n)"
| step: "pool_reach n p \<Longrightarrow> pool_step p p' \<Longrightarrow> pool_reach n p'"

subsection \<open>Counting workers\<close>

definition num :: "worker \<Rightarrow> worker list \<Rightarrow> nat" where
  "num c ws = length (filter (\<lambda>w. w = c) ws)"

lemma num_pos: "0 < num c ws \<longleftrightarrow> c \<in> set ws"
  by (simp add: num_def filter_empty_conv)

lemma num_zero: "num c ws = 0 \<longleftrightarrow> c \<notin> set ws"
  using num_pos [of c ws] by auto

lemma num_split: "i < length ws \<Longrightarrow> num c ws = num c (take i ws) + (if ws ! i = c then 1 else 0) + num c (drop (Suc i) ws)"
proof -
  assume "i < length ws"
  then have "num c ws = num c (take i ws @ ws ! i # drop (Suc i) ws)" by (simp add: id_take_nth_drop [symmetric])
  then show ?thesis by (simp add: num_def)
qed

lemma num_upd:
  "i < length ws \<Longrightarrow> num c (ws[i := d]) + (if ws ! i = c then 1 else 0) = num c ws + (if d = c then 1 else 0)"
  using num_split [of i ws c] num_split [of i "ws[i := d]" c] by (simp split: if_splits)

lemma num_wake_worker:
  "num Sleeping (wake_worker i ws) \<le> num Sleeping ws" "num Locking ws \<le> num Locking (wake_worker i ws)"
  "i < length ws \<Longrightarrow> ws ! i = Sleeping \<Longrightarrow> num Locking (wake_worker i ws) = Suc (num Locking ws)"
  using num_upd [of i ws Sleeping Locking] num_upd [of i ws Locking Locking] by (auto simp: wake_worker_def)

lemma num_wake_workers: "num Sleeping (wake_workers ws) = 0"
  by (simp add: num_zero wake_workers_def) auto

subsection \<open>The invariant\<close>

definition pool_inv :: "nat \<Rightarrow> 'f pool \<Rightarrow> bool" where
  "pool_inv n p \<longleftrightarrow> length (workers p) = n \<and> accepted p = started p @ tasks p \<and> (stop p \<longleftrightarrow> stage p \<noteq> Alive) \<and>
     (0 < num Sleeping (workers p) \<longrightarrow> stage p \<noteq> Joining \<and> length (tasks p) \<le> num Locking (workers p) + notices p) \<and>
     (Returned \<in> set (workers p) \<longrightarrow> stop p \<and> tasks p = [])"

lemma pool_invI:
  "length (workers p) = n \<Longrightarrow> accepted p = started p @ tasks p \<Longrightarrow> (stop p \<longleftrightarrow> stage p \<noteq> Alive) \<Longrightarrow>
     (0 < num Sleeping (workers p) \<Longrightarrow> stage p \<noteq> Joining \<and> length (tasks p) \<le> num Locking (workers p) + notices p) \<Longrightarrow>
     (Returned \<in> set (workers p) \<Longrightarrow> stop p \<and> tasks p = []) \<Longrightarrow> pool_inv n p"
  unfolding pool_inv_def by blast

lemma pool_invD:
  assumes "pool_inv n p"
  shows "length (workers p) = n" "accepted p = started p @ tasks p" "stop p \<longleftrightarrow> stage p \<noteq> Alive"
    "0 < num Sleeping (workers p) \<Longrightarrow> stage p \<noteq> Joining \<and> length (tasks p) \<le> num Locking (workers p) + notices p"
    "Returned \<in> set (workers p) \<Longrightarrow> stop p \<and> tasks p = []"
  using assms unfolding pool_inv_def by blast+

lemma set_upd_Returned: "Returned \<in> set (ws[i := d]) \<Longrightarrow> d \<noteq> Returned \<Longrightarrow> Returned \<in> set ws"
  using set_update_subset_insert [of ws i d] by auto

lemma worker_block_inv:
  assumes inv: "pool_inv n p" and i: "i < length (workers p)" "workers p ! i = Locking"
  shows "pool_inv n (worker_block i p)"
proof -
  note d = pool_invD [OF inv]
  note sl = num_upd [OF i(1), of Sleeping] and lk = num_upd [OF i(1), of Locking]
  consider "\<not> wait_over p" | "wait_over p" "stop p" "tasks p = []" | f l where "wait_over p" "tasks p = f # l"
    unfolding wait_over_def by (cases "tasks p") auto
  then show ?thesis
  proof cases
    case 1
    then have "worker_block i p = p\<lparr>workers := (workers p)[i := Sleeping]\<rparr>" by (simp add: worker_block_def)
    with 1 d i show ?thesis by (intro pool_invI) (auto simp: wait_over_def dest: set_upd_Returned)
  next
    case 2
    then have "worker_block i p = p\<lparr>workers := (workers p)[i := Returned]\<rparr>" by (simp add: worker_block_def)
    with 2 d i sl [of Returned] lk [of Returned] show ?thesis by (intro pool_invI) auto
  next
    case 3
    then have eq: "worker_block i p = p\<lparr>tasks := l, workers := (workers p)[i := Running], started := started p @ [f]\<rparr>" by (simp add: worker_block_def)
    show ?thesis unfolding eq
      by (intro pool_invI) (use 3 d i sl [of Running] lk [of Running] in \<open>auto dest: set_upd_Returned\<close>)
  qed
qed

lemma worker_step_inv: "worker_step p p' \<Longrightarrow> pool_inv n p \<Longrightarrow> pool_inv n p'"
proof (induction rule: worker_step.induct)
  case (block i p)
  then show ?case using worker_block_inv by blast
next
  case (run_ends i p)
  note d = pool_invD [OF run_ends(3)]
  note sl = num_upd [OF run_ends(1), of Sleeping Locking] and lk = num_upd [OF run_ends(1), of Locking Locking]
  show ?case
    by (intro pool_invI) (use d run_ends(1,2) sl lk in \<open>auto dest: set_upd_Returned\<close>)
qed

lemma wake_worker_Returned: "Returned \<in> set (wake_worker i ws) \<Longrightarrow> Returned \<in> set ws"
  by (auto simp: wake_worker_def dest: set_upd_Returned split: if_splits)

lemma length_wake_worker [simp]: "length (wake_worker i ws) = length ws"
  by (simp add: wake_worker_def)

lemma pool_step_inv: "pool_step p p' \<Longrightarrow> pool_inv n p \<Longrightarrow> pool_inv n p'"
proof (induction rule: pool_step.induct)
  case (work p p')
  then show ?case by (rule worker_step_inv)
next
  case (spurious p i)
  note d = pool_invD [OF spurious]
  show ?case
    by (intro pool_invI) (use d num_wake_worker(1,2) [where i = i and ws = "workers p"] wake_worker_Returned [of i "workers p"] in auto)
next
  case (enqueue f p p')
  note d = pool_invD [OF enqueue(2)]
  from enqueue(1) have "\<not> stop p" and p': "p' = p\<lparr>tasks := tasks p @ [f], notices := Suc (notices p), accepted := accepted p @ [f]\<rparr>"
    by (auto simp: pool_enqueue_def split: if_splits)
  with d show ?case unfolding p' by (intro pool_invI) auto
next
  case (notify p m i)
  note d = pool_invD [OF notify(3)]
  show ?case
  proof (intro pool_invI)
    assume s: "0 < num Sleeping (workers (p\<lparr>workers := wake_worker i (workers p), notices := m\<rparr>))"
    then have "0 < num Sleeping (workers p)" using num_wake_worker(1) [of i "workers p"] by simp
    moreover from this notify(2) have "i < length (workers p) \<and> workers p ! i = Sleeping" by (simp add: num_pos)
    ultimately show "stage (p\<lparr>workers := wake_worker i (workers p), notices := m\<rparr>) \<noteq> Joining \<and>
      length (tasks (p\<lparr>workers := wake_worker i (workers p), notices := m\<rparr>)) \<le>
      num Locking (workers (p\<lparr>workers := wake_worker i (workers p), notices := m\<rparr>)) + notices (p\<lparr>workers := wake_worker i (workers p), notices := m\<rparr>)"
      using d(4) num_wake_worker(3) [of i "workers p"] notify(1) by simp
  qed (use d wake_worker_Returned [of i "workers p"] in auto)
next
  case (stop p)
  note d = pool_invD [OF stop(2)]
  show ?case by (intro pool_invI) (use d in \<open>auto simp: destructor_block_def\<close>)
next
  case (notify_all p)
  note d = pool_invD [OF notify_all(2)]
  have "Returned \<in> set (wake_workers (workers p)) \<Longrightarrow> Returned \<in> set (workers p)"
    by (auto simp: wake_workers_def split: if_splits)
  then show ?case by (intro pool_invI) (use d notify_all(1) num_wake_workers [of "workers p"] in \<open>auto simp: wake_workers_def\<close>)
qed

lemma pool_reach_inv: "pool_reach n p \<Longrightarrow> pool_inv n p"
proof (induction rule: pool_reach.induct)
  case start
  show ?case by (auto simp: pool_inv_def pool_new_def num_def)
qed (rule pool_step_inv)

text \<open>
  The accepted tasks are started once each, in the order of the \<open>enqueue\<close>s; a task that is still
  queued while a worker sleeps has a worker or a notification on its way; and a worker returns only when the
  pool is stopped and no task is left, so that the destructor drops none.
\<close>

theorem pool_runs_everything:
  assumes "pool_reach n p"
  shows "accepted p = started p @ tasks p \<and>
    (Sleeping \<in> set (workers p) \<longrightarrow> length (tasks p) \<le> length (filter (\<lambda>w. w = Locking) (workers p)) + notices p) \<and>
    (Returned \<in> set (workers p) \<longrightarrow> stop p \<and> accepted p = started p)"
  using pool_invD [OF pool_reach_inv [OF assms]] by (auto simp: num_pos num_def [symmetric])

subsection \<open>The destructor\<close>

lemma worker_step_stage: "worker_step p p' \<Longrightarrow> stage p' = stage p"
  by (induction rule: worker_step.induct) (simp_all add: worker_block_def)

lemma pool_steps_stage: "pool_step\<^sup>*\<^sup>* p p' \<Longrightarrow> stage p \<le> stage p'"
proof (induction rule: rtranclp_induct)
  case (step q q')
  from step(2) have "stage q \<le> stage q'"
    by (induction rule: pool_step.induct)
      (auto simp: worker_step_stage pool_enqueue_def destructor_block_def less_eq_stage_def split: if_splits)
  with step(3) show ?case by (rule order_trans)
qed simp

text \<open>A stopped pool stays stopped, and accepts nothing.\<close>

lemma stopped_stays:
  assumes "pool_reach n p" "stop p" "pool_step\<^sup>*\<^sup>* p p'"
  shows "pool_enqueue f p' = None"
proof -
  have "pool_inv n p'" using assms(3) pool_reach_inv [OF assms(1)] by (induction rule: rtranclp_induct) (auto intro: pool_step_inv)
  moreover have "Alive < stage p" using pool_invD(3) [OF pool_reach_inv [OF assms(1)]] assms(2) by (cases "stage p") (auto simp: less_stage_def)
  then have "stage p' \<noteq> Alive" using pool_steps_stage [OF assms(3)] by (auto dest: less_le_trans)
  ultimately show ?thesis using pool_invD(3) by (auto simp: pool_enqueue_def)
qed

text \<open>
  What is left to do while the destructor joins: a queued task is worth three steps, as starting it brings a
  worker from \<open>Locking\<close> to \<open>Running\<close>.
\<close>

definition work_left :: "'f pool \<Rightarrow> nat" where
  "work_left p = 3 * length (tasks p) + num Locking (workers p) + 2 * num Running (workers p)"

lemma worker_step_decreases:
  assumes "pool_inv n p" "stage p = Joining" "worker_step p p'"
  shows "work_left p' < work_left p \<and> stage p' = Joining"
  using assms(3,1,2)
proof (induction rule: worker_step.induct)
  case (block i p)
  note d = pool_invD [OF block(3)]
  note lk = num_upd [OF block(1), of Locking] and rn = num_upd [OF block(1), of Running]
  have "stop p" using d(3) block(4) by simp
  then show ?case using block(2,4) lk [of Returned] rn [of Returned] lk [of Running] rn [of Running]
    by (cases "tasks p") (simp_all add: worker_block_def wait_over_def work_left_def)
next
  case (run_ends i p)
  then show ?case using num_upd [OF run_ends(1), of Locking Locking] num_upd [OF run_ends(1), of Running Locking]
    by (simp add: work_left_def)
qed

lemma worker_can_step:
  assumes "pool_inv n p" "stage p = Joining" "i < n" "workers p ! i \<noteq> Returned"
  shows "\<exists>p'. worker_step p p'"
proof -
  note d = pool_invD [OF assms(1)]
  have i: "i < length (workers p)" using assms(3) d(1) by simp
  have "Sleeping \<notin> set (workers p)" using d(4) assms(2) by (auto simp: num_pos)
  then have "workers p ! i \<noteq> Sleeping" using nth_mem [OF i] by metis
  then show ?thesis using worker_step.intros [OF i] assms(4) by (cases "workers p ! i") auto
qed

text \<open>
  C16: the join of the destructor ends. Once every worker is notified, the workers can take at most
  \<open>work_left\<close> steps, whatever their order; as long as one has not returned, one of them has a step; and when all have
  returned every accepted task has been started.
\<close>

theorem pool_destructor_joins:
  assumes "pool_reach n p" "stage p = Joining" "(worker_step ^^ k) p p'"
  shows "k \<le> work_left p \<and> (\<forall>i < n. workers p' ! i \<noteq> Returned \<longrightarrow> (\<exists>p''. worker_step p' p'')) \<and>
    (0 < n \<and> (\<forall>i < n. workers p' ! i = Returned) \<longrightarrow> started p' = accepted p')"
proof -
  have "pool_inv n p' \<and> stage p' = Joining \<and> k + work_left p' \<le> work_left p" using assms(3)
  proof (induction k arbitrary: p')
    case 0
    then show ?case using pool_reach_inv [OF assms(1)] assms(2) by simp
  next
    case (Suc k)
    then obtain q where q: "(worker_step ^^ k) p q" "worker_step q p'" by auto
    with Suc.IH have "pool_inv n q" "stage q = Joining" "k + work_left q \<le> work_left p" by auto
    with worker_step_decreases [OF _ _ q(2)] worker_step_inv [OF q(2)] show ?case by fastforce
  qed
  then have inv: "pool_inv n p'" "stage p' = Joining" "k \<le> work_left p" by auto
  have "started p' = accepted p'" if "0 < n" "\<forall>i < n. workers p' ! i = Returned"
  proof -
    have "Returned \<in> set (workers p')" using that pool_invD(1) [OF inv(1)] nth_mem [of 0 "workers p'"] by auto
    then show ?thesis using pool_invD(2,5) [OF inv(1)] by simp
  qed
  then show ?thesis using inv(3) worker_can_step [OF inv(1,2)] by blast
qed

text \<open>Witnesses: one worker; two tasks are accepted, and the destructor begins while the first runs.\<close>

definition ex_pool :: "nat pool" where
  "ex_pool = \<lparr>tasks = [8], stop = True, workers = [Running], notices = 2, stage = Joining, accepted = [7, 8], started = [7]\<rparr>"

lemma enqueue_reach:
  "pool_reach n p \<Longrightarrow> \<not> stop p \<Longrightarrow> pool_reach n (p\<lparr>tasks := tasks p @ [f], notices := Suc (notices p), accepted := accepted p @ [f]\<rparr>)"
  by (rule pool_reach.step, assumption, rule pool_step.enqueue [of f]) (simp add: pool_enqueue_def)

lemma block_reach: "pool_reach n p \<Longrightarrow> i < length (workers p) \<Longrightarrow> workers p ! i = Locking \<Longrightarrow> pool_reach n (worker_block i p)"
  using pool_reach.step pool_step.work worker_step.block by blast

lemma ex_pool_reach: "pool_reach 1 ex_pool"
proof -
  note defs = pool_new_def worker_block_def wait_over_def destructor_block_def wake_workers_def
  note 1 = enqueue_reach [OF pool_reach.start [of 1], of "7 :: nat", unfolded defs, simplified]
  note 2 = enqueue_reach [OF 1, of 8, unfolded defs, simplified]
  note 3 = block_reach [OF 2, of 0, unfolded defs, simplified]
  note 4 = pool_reach.step [OF 3 pool_step.stop, unfolded defs, simplified]
  note 5 = pool_reach.step [OF 4 pool_step.notify_all, unfolded defs, simplified]
  show ?thesis using 5 by (simp add: ex_pool_def numeral_2_eq_2)
qed

theorem pool_runs_everything_witness: "accepted ex_pool = started ex_pool @ tasks ex_pool \<and> tasks ex_pool = [8]"
  using pool_runs_everything [OF ex_pool_reach] by (simp add: ex_pool_def)

theorem pool_destructor_joins_witness:
  "\<exists>p'. (worker_step ^^ 4) ex_pool p' \<and> 4 \<le> work_left ex_pool \<and> started p' = [7, 8]"
proof -
  let ?w = "\<lambda>c s. ex_pool\<lparr>tasks := if s then [] else [8], workers := [c], started := if s then [7, 8] else [7]\<rparr>"
  have 1: "worker_step ex_pool (?w Locking False)"
    using worker_step.run_ends [of 0 ex_pool] by (simp add: ex_pool_def)
  have 2: "worker_step (?w Locking False) (?w Running True)"
    using worker_step.block [of 0 "?w Locking False"] by (simp add: ex_pool_def worker_block_def wait_over_def)
  have 3: "worker_step (?w Running True) (?w Locking True)"
    using worker_step.run_ends [of 0 "?w Running True"] by (simp add: ex_pool_def)
  have 4: "worker_step (?w Locking True) (?w Returned True)"
    using worker_step.block [of 0 "?w Locking True"] by (simp add: ex_pool_def worker_block_def wait_over_def)
  have "(worker_step ^^ Suc (Suc (Suc (Suc 0)))) ex_pool (?w Returned True)"
    using 1 2 3 4 unfolding relpowp.simps by blast
  moreover have "Suc (Suc (Suc (Suc 0))) = 4" by simp
  ultimately have run: "(worker_step ^^ 4) ex_pool (?w Returned True)" by (simp only:)
  have "stage ex_pool = Joining" by (simp add: ex_pool_def)
  from pool_destructor_joins [OF ex_pool_reach this run] have "4 \<le> work_left ex_pool" "started (?w Returned True) = accepted (?w Returned True)"
    by auto
  moreover have "accepted (?w Returned True) = [7, 8]" by (simp add: ex_pool_def)
  ultimately show ?thesis using run by auto
qed

end
