(* ===== verification/Cpp_Threadpool_Program.thy ===== *)
theory Cpp_Threadpool_Program
  imports Cpp_Threadpool
begin

text \<open>
  The program at the end of \<^verbatim>\<open>tp.cpp\<close>, on the pool of four workers above it: two tasks are enqueued, each with a future for its result,
  \<open>main\<close> waits for both and prints them, and the destructor runs. The steps are those of \<open>Cpp_Threadpool\<close>; what is added is what the tasks compute, the
  futures and where \<open>main\<close> is.
\<close>

subsection \<open>The program\<close>

text \<open>A packaged task: which future it sets, and to what.\<close>

type_synonym packaged = "nat \<times> int"

definition square :: "int \<Rightarrow> int" where "square x = x * x"

definition plus :: "int \<Rightarrow> int \<Rightarrow> int" where "plus x y = x + y"

definition both :: "packaged list" where
  "both = [(0, square 10), (1, plus 2 3)]"

datatype main_op =
    Enqueue packaged     \<comment> \<open>the block of \<open>enqueue\<close>\<close>
  | Notify_one
  | Get nat
  | Stop_pool            \<comment> \<open>the block of the destructor\<close>
  | Notify_all
  | Join_workers

definition main_ops :: "main_op list" where
  "main_ops = [Enqueue (both ! 0), Notify_one, Enqueue (both ! 1), Notify_one, Get 0, Get 1, Stop_pool, Notify_all, Join_workers]"

record tp_run =
  the_pool :: "packaged pool"
  running :: "nat \<Rightarrow> packaged"         \<comment> \<open>the variable \<open>task\<close> of each worker\<close>
  futures :: "nat \<Rightarrow> int option"
  at_op :: nat
  printed :: "int list"

definition tp_run_start :: tp_run where
  "tp_run_start = \<lparr>the_pool = pool_new 4, running = (\<lambda>_. (0, 0)), futures = (\<lambda>_. None), at_op = 0, printed = []\<rparr>"

definition next_op :: "tp_run \<Rightarrow> main_op option" where
  "next_op s = (if at_op s < length main_ops then Some (main_ops ! at_op s) else None)"

inductive tp_run_step :: "tp_run \<Rightarrow> tp_run \<Rightarrow> bool" where
  enqueue: "next_op s = Some (Enqueue f) \<Longrightarrow> pool_enqueue f (the_pool s) = Some p \<Longrightarrow>
    tp_run_step s (s\<lparr>the_pool := p, at_op := Suc (at_op s)\<rparr>)"
| notify: "next_op s = Some Notify_one \<Longrightarrow> the_pool s = p \<Longrightarrow> notices p = Suc n \<Longrightarrow>
    (i < length (workers p) \<and> workers p ! i = Sleeping) \<or> Sleeping \<notin> set (workers p) \<Longrightarrow>
    tp_run_step s (s\<lparr>the_pool := p\<lparr>workers := wake_worker i (workers p), notices := n\<rparr>, at_op := Suc (at_op s)\<rparr>)"
| get: "next_op s = Some (Get f) \<Longrightarrow> futures s f = Some v \<Longrightarrow>
    tp_run_step s (s\<lparr>printed := printed s @ [v], at_op := Suc (at_op s)\<rparr>)"
| stop: "next_op s = Some Stop_pool \<Longrightarrow> stage (the_pool s) = Alive \<Longrightarrow>
    tp_run_step s (s\<lparr>the_pool := destructor_block (the_pool s), at_op := Suc (at_op s)\<rparr>)"
| notify_all: "next_op s = Some Notify_all \<Longrightarrow> the_pool s = p \<Longrightarrow> stage p = Stopped \<Longrightarrow>
    tp_run_step s (s\<lparr>the_pool := p\<lparr>workers := wake_workers (workers p), stage := Joining\<rparr>, at_op := Suc (at_op s)\<rparr>)"
| join: "next_op s = Some Join_workers \<Longrightarrow> \<forall>w \<in> set (workers (the_pool s)). w = Returned \<Longrightarrow>
    tp_run_step s (s\<lparr>at_op := Suc (at_op s)\<rparr>)"
| block: "the_pool s = p \<Longrightarrow> i < length (workers p) \<Longrightarrow> workers p ! i = Locking \<Longrightarrow>
    tp_run_step s (s\<lparr>the_pool := worker_block i p,
      running := (if workers (worker_block i p) ! i = Running then (running s)(i := hd (tasks p)) else running s)\<rparr>)"
| run: "the_pool s = p \<Longrightarrow> i < length (workers p) \<Longrightarrow> workers p ! i = Running \<Longrightarrow> running s i = (f, v) \<Longrightarrow>
    tp_run_step s (s\<lparr>the_pool := p\<lparr>workers := (workers p)[i := Locking]\<rparr>, futures := (futures s)(f := Some v)\<rparr>)"

text \<open>A sleeping worker may also wake up by itself.\<close>

definition tp_run_wake :: "nat \<Rightarrow> tp_run \<Rightarrow> tp_run" where
  "tp_run_wake i s = s\<lparr>the_pool := (the_pool s)\<lparr>workers := wake_worker i (workers (the_pool s))\<rparr>\<rparr>"

inductive tp_run_reach :: "tp_run \<Rightarrow> bool" where
  start: "tp_run_reach tp_run_start"
| step: "tp_run_reach s \<Longrightarrow> tp_run_step s s' \<Longrightarrow> tp_run_reach s'"
| spurious: "tp_run_reach s \<Longrightarrow> tp_run_reach (tp_run_wake i s)"

subsection \<open>Invariant\<close>

text \<open>What \<open>main\<close> has done to the pool when it is before its operation number \<open>k\<close>, and what it has printed.\<close>

definition accepted_at :: "nat \<Rightarrow> nat" where
  "accepted_at k = (if k = 0 then 0 else if k \<le> 2 then 1 else 2)"

definition stage_at :: "nat \<Rightarrow> stage" where
  "stage_at k = (if k \<le> 6 then Alive else if k = 7 then Stopped else Joining)"

text \<open>A task that was started runs, or its future is set.\<close>

definition task_known :: "tp_run \<Rightarrow> packaged \<Rightarrow> bool" where
  "task_known s x \<longleftrightarrow> futures s (fst x) = Some (snd x) \<or>
     (\<exists>i < length (workers (the_pool s)). workers (the_pool s) ! i = Running \<and> running s i = x)"

definition run_inv :: "tp_run \<Rightarrow> bool" where
  "run_inv s \<longleftrightarrow> pool_reach 4 (the_pool s) \<and> at_op s \<le> length main_ops \<and>
     accepted (the_pool s) = take (accepted_at (at_op s)) both \<and>
     notices (the_pool s) = (if at_op s = 1 \<or> at_op s = 3 then 1 else 0) \<and>
     stage (the_pool s) = stage_at (at_op s) \<and>
     printed s = take (at_op s - 4) (map snd both) \<and>
     (\<forall>x \<in> set (started (the_pool s)). task_known s x) \<and>
     (\<forall>f v. futures s f = Some v \<longrightarrow> (f, v) \<in> set both) \<and>
     (\<forall>i < length (workers (the_pool s)). workers (the_pool s) ! i = Running \<longrightarrow> running s i \<in> set both) \<and>
     (at_op s = length main_ops \<longrightarrow> (\<forall>w \<in> set (workers (the_pool s)). w = Returned))"

lemma run_invI:
  assumes "pool_reach 4 (the_pool s)" "at_op s \<le> length main_ops"
    "accepted (the_pool s) = take (accepted_at (at_op s)) both"
    "notices (the_pool s) = (if at_op s = 1 \<or> at_op s = 3 then 1 else 0)"
    "stage (the_pool s) = stage_at (at_op s)" "printed s = take (at_op s - 4) (map snd both)"
    "\<And>x. x \<in> set (started (the_pool s)) \<Longrightarrow> task_known s x"
    "\<And>f v. futures s f = Some v \<Longrightarrow> (f, v) \<in> set both"
    "\<And>i. i < length (workers (the_pool s)) \<Longrightarrow> workers (the_pool s) ! i = Running \<Longrightarrow> running s i \<in> set both"
    "\<And>w. at_op s = length main_ops \<Longrightarrow> w \<in> set (workers (the_pool s)) \<Longrightarrow> w = Returned"
  shows "run_inv s"
  using assms unfolding run_inv_def by blast

lemma run_invD:
  assumes "run_inv s"
  shows "pool_reach 4 (the_pool s)" "at_op s \<le> length main_ops"
    "accepted (the_pool s) = take (accepted_at (at_op s)) both"
    "notices (the_pool s) = (if at_op s = 1 \<or> at_op s = 3 then 1 else 0)"
    "stage (the_pool s) = stage_at (at_op s)" "printed s = take (at_op s - 4) (map snd both)"
    "x \<in> set (started (the_pool s)) \<Longrightarrow> task_known s x"
    "futures s f = Some v \<Longrightarrow> (f, v) \<in> set both"
    "i < length (workers (the_pool s)) \<Longrightarrow> workers (the_pool s) ! i = Running \<Longrightarrow> running s i \<in> set both"
    "at_op s = length main_ops \<Longrightarrow> w \<in> set (workers (the_pool s)) \<Longrightarrow> w = Returned"
  using assms unfolding run_inv_def by blast+

lemma main_ops_length [simp]: "length main_ops = 9"
  by (simp add: main_ops_def)

lemma next_op_cases:
  assumes "next_op s = Some x"
  shows "x = Enqueue (both ! 0) \<and> at_op s = 0 \<or> x = Notify_one \<and> at_op s = 1 \<or> x = Enqueue (both ! 1) \<and> at_op s = 2 \<or>
    x = Notify_one \<and> at_op s = 3 \<or> x = Get 0 \<and> at_op s = 4 \<or> x = Get 1 \<and> at_op s = 5 \<or> x = Stop_pool \<and> at_op s = 6 \<or>
    x = Notify_all \<and> at_op s = 7 \<or> x = Join_workers \<and> at_op s = 8"
proof -
  have "at_op s < 9" and x: "x = main_ops ! at_op s" using assms by (auto simp: next_op_def split: if_splits)
  then consider "at_op s = 0" | "at_op s = 1" | "at_op s = 2" | "at_op s = 3" | "at_op s = 4" | "at_op s = 5" | "at_op s = 6" |
    "at_op s = 7" | "at_op s = 8" by linarith
  then show ?thesis by cases (simp_all add: x main_ops_def)
qed

lemma both_values: "(f, v) \<in> set both \<Longrightarrow> v = snd (both ! f)" "snd (both ! 0) = 100" "snd (both ! 1) = 5"
  by (auto simp: both_def square_def plus_def)

text \<open>Each step is one of the pool, or none at all.\<close>

lemma tp_run_step_pool: "tp_run_step s s' \<Longrightarrow> the_pool s' = the_pool s \<or> pool_step (the_pool s) (the_pool s')"
proof (induction rule: tp_run_step.induct)
  case (block s p i)
  then show ?case using pool_step.work [OF worker_step.block, of i p] by auto
next
  case (run s p i f v)
  then show ?case using pool_step.work [OF worker_step.run_ends, of i p] by auto
qed (auto intro: pool_step.intros)

lemma tp_run_step_reach: "tp_run_step s s' \<Longrightarrow> pool_reach 4 (the_pool s) \<Longrightarrow> pool_reach 4 (the_pool s')"
  using tp_run_step_pool pool_reach.step by metis

text \<open>A step of \<open>main\<close> that leaves workers, started tasks, futures and the variables of the workers alone.\<close>

lemma run_inv_main:
  assumes "run_inv s" "pool_reach 4 p" "at_op s < 9"
    "\<And>i. i < length (workers p) \<Longrightarrow> workers p ! i = Running \<longleftrightarrow> workers (the_pool s) ! i = Running"
    "length (workers p) = length (workers (the_pool s))" "started p = started (the_pool s)"
    "accepted p = take (accepted_at (Suc (at_op s))) both"
    "notices p = (if Suc (at_op s) = 1 \<or> Suc (at_op s) = 3 then 1 else 0)" "stage p = stage_at (Suc (at_op s))"
    "out = take (Suc (at_op s) - 4) (map snd both)"
    "at_op s = 8 \<Longrightarrow> \<forall>w \<in> set (workers p). w = Returned"
    "s' = s\<lparr>the_pool := p, printed := out, at_op := Suc (at_op s)\<rparr>"
  shows "run_inv s'"
proof (rule run_invI)
  note i = run_invD [OF assms(1)]
  show "task_known s' x" if "x \<in> set (started (the_pool s'))" for x
    using i(7) [of x] that assms(4-6) by (auto simp: task_known_def assms(12))
  show "running s' j \<in> set both" if "j < length (workers (the_pool s'))" "workers (the_pool s') ! j = Running" for j
    using i(9) [of j] that assms(4,5) by (simp add: assms(12))
qed (use assms run_invD [OF assms(1)] in auto)

lemma wake_Running: "i < length (wake_worker j ws) \<Longrightarrow> wake_worker j ws ! i = Running \<longleftrightarrow> ws ! i = Running"
  "i < length (wake_workers ws) \<Longrightarrow> wake_workers ws ! i = Running \<longleftrightarrow> ws ! i = Running"
  by (auto simp: wake_worker_def wake_workers_def nth_list_update)

lemmas run_op_simps = accepted_at_def stage_at_def both_def

text \<open>The steps of a worker.\<close>

lemma run_inv_worker:
  assumes "run_inv s" "pool_reach 4 p" "i < length (workers (the_pool s))" "workers (the_pool s) ! i \<noteq> Returned"
    "workers p = (workers (the_pool s))[i := w]" "accepted p = accepted (the_pool s)" "notices p = notices (the_pool s)"
    "stage p = stage (the_pool s)"
    "\<And>x. x \<in> set (started p) \<Longrightarrow> task_known s' x"
    "\<And>f v. fut f = Some v \<Longrightarrow> (f, v) \<in> set both"
    "w = Running \<Longrightarrow> run i \<in> set both" "\<And>j. j \<noteq> i \<Longrightarrow> run j = running s j"
    "s' = s\<lparr>the_pool := p, running := run, futures := fut\<rparr>"
  shows "run_inv s'"
proof (rule run_invI)
  note i = run_invD [OF assms(1)]
  show "running s' j \<in> set both" if "j < length (workers (the_pool s'))" "workers (the_pool s') ! j = Running" for j
    using i(9) [of j] that assms(5,11) assms(12) [of j] by (cases "j = i") (simp_all add: assms(13))
  have "at_op s \<noteq> length main_ops" using i(10) assms(3,4) nth_mem by blast
  then show "u = Returned" if "at_op s' = length main_ops" for u using that by (simp add: assms(13))
qed (use assms run_invD [OF assms(1)] in auto)

lemma wake_worker_idle: "\<forall>w \<in> set ws. w = Returned \<Longrightarrow> wake_worker i ws = ws"
proof -
  assume "\<forall>w \<in> set ws. w = Returned"
  then have "ws ! i = Returned" if "i < length ws" using nth_mem [OF that] by blast
  then show ?thesis by (auto simp: wake_worker_def)
qed

lemma run_inv_wake:
  assumes "run_inv s"
  shows "run_inv (tp_run_wake i s)"
proof -
  note d = run_invD [OF assms]
  have r: "pool_reach 4 ((the_pool s)\<lparr>workers := wake_worker i (workers (the_pool s))\<rparr>)"
    using pool_reach.step [OF d(1) pool_step.spurious] .
  show ?thesis
  proof (rule run_invI)
    show "task_known (tp_run_wake i s) x" if "x \<in> set (started (the_pool (tp_run_wake i s)))" for x
      using d(7) [of x] that by (auto simp: task_known_def tp_run_wake_def wake_Running)
    show "running (tp_run_wake i s) j \<in> set both"
      if "j < length (workers (the_pool (tp_run_wake i s)))" "workers (the_pool (tp_run_wake i s)) ! j = Running" for j
      using d(9) [of j] that by (simp add: tp_run_wake_def wake_Running)
    show "w = Returned" if "at_op (tp_run_wake i s) = length main_ops" "w \<in> set (workers (the_pool (tp_run_wake i s)))" for w
      using d(10) that wake_worker_idle [of "workers (the_pool s)" i] by (auto simp: tp_run_wake_def)
  qed (use r d(1-6,8) in \<open>auto simp: tp_run_wake_def\<close>)
qed

lemma worker_block_shape:
  "\<exists>w. workers (worker_block i p) = (workers p)[i := w] \<and>
     (if w = Running then tasks p \<noteq> [] \<and> started (worker_block i p) = started p @ [hd (tasks p)] else started (worker_block i p) = started p)"
  by (intro exI [of _ "if \<not> wait_over p then Sleeping else if stop p \<and> tasks p = [] then Returned else Running"])
    (auto simp: worker_block_def wait_over_def)

lemma run_inv_step:
  assumes "tp_run_step s s'" "run_inv s"
  shows "run_inv s'"
proof -
  note d = run_invD [OF assms(2)]
  note reach = tp_run_step_reach [OF assms(1) d(1)]
  from assms(1) show ?thesis
  proof (cases rule: tp_run_step.cases)
    case (enqueue f p)
    from next_op_cases [OF enqueue(2)] have "f = both ! 0 \<and> at_op s = 0 \<or> f = both ! 1 \<and> at_op s = 2" by auto
    moreover have "p = (the_pool s)\<lparr>tasks := tasks (the_pool s) @ [f], notices := Suc (notices (the_pool s)), accepted := accepted (the_pool s) @ [f]\<rparr>"
      using enqueue(3) by (simp add: pool_enqueue_def split: if_splits)
    ultimately show ?thesis using reach d enqueue(1)
      by (intro run_inv_main [OF assms(2), of p "printed s"]) (auto simp: run_op_simps)
  next
    case (notify p n i)
    from next_op_cases [OF notify(2)] have "at_op s = 1 \<or> at_op s = 3" by auto
    then show ?thesis using reach d notify(1,3,4) wake_Running
      by (intro run_inv_main [OF assms(2), of "the_pool s'" "printed s"]) (auto simp: run_op_simps)
  next
    case (get f v)
    from next_op_cases [OF get(2)] have at: "f = 0 \<and> at_op s = 4 \<or> f = 1 \<and> at_op s = 5" by auto
    have "(f, v) \<in> set both" using d(8) get(3) .
    with at show ?thesis using reach d(3-6) get(1)
      by (intro run_inv_main [OF assms(2), of "the_pool s'" "printed s @ [v]"]) (auto simp: run_op_simps)
  next
    case stop
    from next_op_cases [OF stop(2)] have "at_op s = 6" by auto
    then show ?thesis using reach d(3-6) stop(1)
      by (intro run_inv_main [OF assms(2), of "the_pool s'" "printed s"]) (auto simp: run_op_simps destructor_block_def)
  next
    case (notify_all p)
    from next_op_cases [OF notify_all(2)] have "at_op s = 7" by auto
    then show ?thesis using reach d(3-6) notify_all(1,3) wake_Running
      by (intro run_inv_main [OF assms(2), of "the_pool s'" "printed s"]) (auto simp: run_op_simps wake_workers_def)
  next
    case join
    from next_op_cases [OF join(2)] have "at_op s = 8" by auto
    then show ?thesis using reach d(3-6) join(1,3)
      by (intro run_inv_main [OF assms(2), of "the_pool s'" "printed s"]) (auto simp: run_op_simps)
  next
    case (block p i)
    define run where "run = (if workers (worker_block i p) ! i = Running then (running s)(i := hd (tasks p)) else running s)"
    have s': "s' = s\<lparr>the_pool := worker_block i p, running := run, futures := futures s\<rparr>" using block(1) by (simp add: run_def)
    obtain w where w: "workers (worker_block i p) = (workers p)[i := w]"
      and new: "if w = Running then tasks p \<noteq> [] \<and> started (worker_block i p) = started p @ [hd (tasks p)] else started (worker_block i p) = started p"
      using worker_block_shape [of i p] by blast
    have same: "accepted (worker_block i p) = accepted p" "notices (worker_block i p) = notices p" "stage (worker_block i p) = stage p"
      by (simp_all add: worker_block_def)
    have run: "run = (if w = Running then (running s)(i := hd (tasks p)) else running s)" using block(3) by (simp add: run_def w)
    have "set (tasks p) \<subseteq> set (accepted p)" using pool_invD(2) [OF pool_reach_inv [OF d(1)]] block(2) by simp
    moreover have "set (accepted p) \<subseteq> set both" using d(3) block(2) set_take_subset by metis
    ultimately have task: "w = Running \<Longrightarrow> hd (tasks p) \<in> set both" using new hd_in_set [of "tasks p"] by (metis subsetD)
    show ?thesis
    proof (rule run_inv_worker [OF assms(2), of "worker_block i p" i w s' "futures s" run])
      fix x assume x: "x \<in> set (started (worker_block i p))"
      show "task_known s' x"
      proof (cases "x \<in> set (started p)")
        case True
        then have "task_known s x" using d(7) block(2) by blast
        moreover have "j \<noteq> i" if "workers p ! j = Running" for j using that block(4) by auto
        ultimately show ?thesis using block(2,3) unfolding task_known_def s' run
          by (simp add: w) (metis fun_upd_other nth_list_update_neq)
      next
        case False
        with x new have "w = Running" "x = hd (tasks p)" by (auto split: if_splits)
        with block(3) show ?thesis unfolding task_known_def s' run by (auto simp: w intro!: exI [of _ i])
      qed
    qed (use block(2-4) w same task run reach s' d(8) in auto)
  next
    case (run p i f v)
    have fv: "(f, v) \<in> set both" using d(9) [of i] run(2-5) by simp
    show ?thesis
    proof (rule run_inv_worker [OF assms(2), of "p\<lparr>workers := (workers p)[i := Locking]\<rparr>" i Locking s' "(futures s)(f := Some v)" "running s"])
      fix x assume "x \<in> set (started (p\<lparr>workers := (workers p)[i := Locking]\<rparr>))"
      then have known: "task_known s x" and x: "x \<in> set both"
        using d(7) [of x] run(2) pool_invD(2) [OF pool_reach_inv [OF d(1)]] d(3) set_take_subset [of _ both] by (auto, metis UnI1 set_append subsetD)
      show "task_known s' x"
      proof (cases "fst x = f")
        case True
        then have "snd x = v" using x fv both_values(1) by (metis prod.collapse)
        with True show ?thesis by (simp add: task_known_def run(1))
      next
        case False
        with known run(2,5) show ?thesis unfolding task_known_def run(1) by auto (metis fst_conv nth_list_update_neq)
      qed
    qed (use run reach fv d(8) in \<open>auto split: if_splits\<close>)
  qed
qed

lemma run_reach_inv: "tp_run_reach s \<Longrightarrow> run_inv s"
proof (induction rule: tp_run_reach.induct)
  case start
  show ?case
    by (rule run_invI) (auto simp: tp_run_start_def pool_new_def run_op_simps intro: pool_reach.start [of 4, unfolded pool_new_def])
qed (auto intro: run_inv_step run_inv_wake)

subsection \<open>Progress and termination\<close>

text \<open>An operation of \<open>main\<close> is worth more than what it gives the workers to do.\<close>

definition run_left :: "tp_run \<Rightarrow> nat" where
  "run_left s = 6 * (9 - at_op s) + work_left (the_pool s)"

lemma num_wake_all: "num Locking (wake_workers ws) \<le> length ws" "num Running (wake_workers ws) = num Running ws"
proof -
  show "num Locking (wake_workers ws) \<le> length ws"
    using length_filter_le [of "\<lambda>w. w = Locking" "wake_workers ws"] by (simp add: num_def wake_workers_def)
  show "num Running (wake_workers ws) = num Running ws" by (induction ws) (auto simp: num_def wake_workers_def)
qed

lemma num_wake_one: "num Locking (wake_worker i ws) \<le> Suc (num Locking ws)" "num Running (wake_worker i ws) = num Running ws"
  using num_upd [of i ws Locking Locking] num_upd [of i ws Running Locking] by (auto simp: wake_worker_def)

lemma worker_block_work:
  assumes "i < length (workers p)" "workers p ! i = Locking"
  shows "work_left (worker_block i p) < work_left p"
  using assms num_upd [OF assms(1), of Locking Sleeping] num_upd [OF assms(1), of Running Sleeping]
    num_upd [OF assms(1), of Locking Returned] num_upd [OF assms(1), of Running Returned]
    num_upd [OF assms(1), of Locking Running] num_upd [OF assms(1), of Running Running]
  by (cases "tasks p") (simp_all add: worker_block_def wait_over_def work_left_def)

lemma run_left_decreases:
  assumes "tp_run_step s s'" "run_inv s"
  shows "run_left s' < run_left s"
proof -
  have len: "length (workers (the_pool s)) = 4" using pool_invD(1) [OF pool_reach_inv [OF run_invD(1) [OF assms(2)]]] .
  have lt: "next_op s = Some x \<Longrightarrow> at_op s < 9" for x by (auto simp: next_op_def split: if_splits)
  from assms(1) show ?thesis
  proof (cases rule: tp_run_step.cases)
    case (enqueue f p)
    with lt [OF enqueue(2)] show ?thesis by (auto simp: run_left_def work_left_def pool_enqueue_def split: if_splits)
  next
    case (notify p n i)
    with lt [OF notify(2)] num_wake_one [of i "workers p"] show ?thesis by (auto simp: run_left_def work_left_def)
  next
    case (notify_all p)
    with lt [OF notify_all(2)] len num_wake_all [of "workers p"] show ?thesis
      by (auto simp: run_left_def work_left_def)
  next
    case (block p i)
    with worker_block_work [of i p] show ?thesis by (simp add: run_left_def)
  next
    case (run p i f v)
    with num_upd [OF run(3), of Locking Locking] num_upd [OF run(3), of Running Locking] show ?thesis
      by (simp add: run_left_def work_left_def)
  qed (use lt in \<open>auto simp: run_left_def work_left_def destructor_block_def\<close>)
qed

text \<open>A worker that is not asleep and has not returned has a step, and so there is none left when \<open>main\<close> is stuck.\<close>

lemma worker_moves:
  assumes "w \<in> set (workers (the_pool s))" "w = Locking \<or> w = Running"
  shows "\<exists>s'. tp_run_step s s'"
proof -
  obtain i where i: "i < length (workers (the_pool s))" "workers (the_pool s) ! i = w" using assms(1) by (auto simp: in_set_conv_nth)
  then show ?thesis using assms(2) tp_run_step.block [of s "the_pool s" i] tp_run_step.run [of s "the_pool s" i] by (metis prod.collapse)
qed

lemma run_moves:
  assumes "run_inv s" "at_op s < 9"
  shows "\<exists>s'. tp_run_step s s'"
proof (rule ccontr)
  assume stuck: "\<nexists>s'. tp_run_step s s'"
  note d = run_invD [OF assms(1)]
  note inv = pool_reach_inv [OF d(1)]
  note p = pool_invD [OF inv]
  let ?p = "the_pool s"
  have quiet: "w = Sleeping \<or> w = Returned" if "w \<in> set (workers ?p)" for w
    using worker_moves [OF that] stuck by (cases w) auto
  have some: "workers ?p \<noteq> []" using p(1) by auto
  have next_op: "next_op s = Some (main_ops ! at_op s)" using assms(2) by (simp add: next_op_def)
  have known: "futures s f \<noteq> None" if "at_op s = 4 \<or> at_op s = 5" "f < 2" for f
  proof -
    have "\<not> stop ?p" using p(3) d(5) that(1) by (auto simp: stage_at_def)
    then have "Returned \<notin> set (workers ?p)" using p(5) by blast
    then have "Sleeping \<in> set (workers ?p)" using quiet some by (metis hd_in_set)
    then have "length (tasks ?p) \<le> num Locking (workers ?p) + notices ?p" using p(4) by (simp add: num_pos)
    moreover have "num Locking (workers ?p) = 0" using quiet by (auto simp: num_zero)
    ultimately have "tasks ?p = []" using d(4) that(1) by auto
    then have started: "started ?p = both" using p(2) d(3) that(1) by (auto simp: accepted_at_def both_def)
    have idle: "workers ?p ! j \<noteq> Running" if "j < length (workers ?p)" for j using quiet [OF nth_mem [OF that]] by auto
    have "f = 0 \<or> f = 1" using that(2) by linarith
    then have "both ! f \<in> set (started ?p)" "fst (both ! f) = f" using started by (auto simp: both_def)
    with d(7) [of "both ! f"] idle show ?thesis by (auto simp: task_known_def)
  qed
  consider "at_op s = 0 \<or> at_op s = 2" | "at_op s = 1 \<or> at_op s = 3" | "at_op s = 4 \<or> at_op s = 5" | "at_op s = 6" | "at_op s = 7" | "at_op s = 8"
    using assms(2) by linarith
  then show False
  proof cases
    case 1
    then have "\<exists>f. next_op s = Some (Enqueue f)" using next_op by (auto simp: main_ops_def simp del: split_paired_Ex)
    then obtain f where f: "next_op s = Some (Enqueue f)" by blast
    have "\<not> stop ?p" using p(3) d(5) 1 by (auto simp: stage_at_def)
    then obtain q where "pool_enqueue f ?p = Some q" by (simp add: pool_enqueue_def)
    with f stuck tp_run_step.enqueue show False by blast
  next
    case 2
    then have f: "next_op s = Some Notify_one" using next_op by (auto simp: main_ops_def)
    have n: "notices ?p = Suc 0" using d(4) 2 by auto
    obtain i where "(i < length (workers ?p) \<and> workers ?p ! i = Sleeping) \<or> Sleeping \<notin> set (workers ?p)"
      by (meson in_set_conv_nth)
    with f n stuck tp_run_step.notify [OF f refl n] show False by blast
  next
    case 3
    then obtain f where f: "next_op s = Some (Get f)" "f < 2" using next_op by (auto simp: main_ops_def)
    with known [OF 3] obtain v where "futures s f = Some v" by blast
    with f stuck tp_run_step.get show False by blast
  next
    case 4
    then have "next_op s = Some Stop_pool" "stage ?p = Alive" using next_op d(5) by (auto simp: main_ops_def stage_at_def)
    with stuck tp_run_step.stop show False by blast
  next
    case 5
    then have "next_op s = Some Notify_all" "stage ?p = Stopped" using next_op d(5) by (auto simp: main_ops_def stage_at_def)
    with stuck tp_run_step.notify_all show False by blast
  next
    case 6
    then have f: "next_op s = Some Join_workers" "stage ?p = Joining" using next_op d(5) by (auto simp: main_ops_def stage_at_def)
    then have "Sleeping \<notin> set (workers ?p)" using p(4) by (auto simp: num_pos)
    then have "\<forall>w \<in> set (workers ?p). w = Returned" using quiet by auto
    with f stuck tp_run_step.join show False by blast
  qed
qed

text \<open>
  C14: the program of \<^verbatim>\<open>tp.cpp\<close> ends, however its threads interleave: until \<open>main\<close> has returned some thread has a step, each step lowers
  \<open>run_left\<close>, and only the wakeups that happen by themselves come on top. When \<open>main\<close> has returned it has printed 100 and 5, all workers have
  returned and no task is left.
\<close>

theorem tp_main_ends:
  assumes "tp_run_reach s"
  shows "if at_op s = length main_ops
    then printed s = [100, 5] \<and> (\<forall>w \<in> set (workers (the_pool s)). w = Returned) \<and> tasks (the_pool s) = [] \<and> started (the_pool s) = both
    else (\<exists>s'. tp_run_step s s') \<and> (\<forall>s'. tp_run_step s s' \<longrightarrow> run_left s' < run_left s)"
proof (cases "at_op s = length main_ops")
  case True
  note d = run_invD [OF run_reach_inv [OF assms]]
  note p = pool_invD [OF pool_reach_inv [OF d(1)]]
  have all: "\<forall>w \<in> set (workers (the_pool s)). w = Returned" using d(10) [OF True] by blast
  moreover have "Returned \<in> set (workers (the_pool s))" using all p(1) by (cases "workers (the_pool s)") auto
  then have "tasks (the_pool s) = []" using p(5) by blast
  moreover have "started (the_pool s) = both" using p(2) calculation(2) d(3) True by (simp add: accepted_at_def both_def)
  moreover have "printed s = [100, 5]" using d(6) True by (simp add: both_def square_def plus_def)
  ultimately show ?thesis using True by simp
next
  case False
  note inv = run_reach_inv [OF assms]
  then have "at_op s < 9" using False run_invD(2) [OF inv] by simp
  with run_moves [OF inv] run_left_decreases [OF _ inv] False show ?thesis by simp
qed

theorem tp_main_ends_witness: "\<exists>s'. tp_run_step tp_run_start s' \<and> run_left s' < run_left tp_run_start"
  using tp_main_ends [OF tp_run_reach.start] by (auto simp: tp_run_start_def)

end
