(* ===== verification/Load_Client.thy ===== *)
theory Load_Client
  imports Sockets
begin

text \<open>
  The load generator \<^verbatim>\<open>2_Net/2.1-epoll/mul_port_client_epoll.c\<close>: one turn of its loop opens a
  connection and, now and then, serves what \<open>epoll_wait\<close> reports. The answers of the system in a
  turn are an input; the clock and the output to the terminal are left out.
\<close>

subsection \<open>Constants and buffers\<close>

definition MAX_BUFFER :: nat where
  "MAX_BUFFER = 128"

definition MAX_EPOLLSIZE :: nat where
  "MAX_EPOLLSIZE = 384 * 1024"

definition MAX_PORT :: int where
  "MAX_PORT = 20"

definition MAX_CONNECTIONS :: int where
  "MAX_CONNECTIONS = 340000"

fun decimal :: "nat \<Rightarrow> string" where
  "decimal n = (if n < 10 then [char_of (48 + n)] else decimal (n div 10) @ [char_of (48 + n mod 10)])"

declare decimal.simps [simp del]

definition print_d :: "int \<Rightarrow> string" where
  "print_d i = (if i < 0 then ''-'' @ decimal (nat (- i)) else decimal (nat i))"

text \<open>\<open>sprintf\<close> into \<open>buffer[128]\<close> stores the string and a zero.\<close>

definition sprintf_buffer :: "string \<Rightarrow> fault + string" where
  "sprintf_buffer str = (if length str < 128 then Inr str else Inl (BadLength (int (length str) + 1)))"

definition newline :: string where
  "newline = [CHR 0x0A]"

subsection \<open>State and answers\<close>

record client =
  connections :: int
  index :: int
  is_continue :: int
  watching :: "int set"
  sends :: "(int \<times> string) list"
  recvs :: "int list"
  closes :: "int list"
  finished :: bool

text \<open>
  An event: its descriptor and flags; what \<open>recv\<close> answers if it is called (\<open>None\<close> is an error, \<open>Some []\<close> the end), and whether the error is \<open>EINTR\<close>.
\<close>

record event =
  clientfd :: int
  epollout :: bool
  epollin :: bool
  received :: "bytes option"
  eintr :: bool

record turn =
  new_socket :: int
  connected :: bool
  events :: "event list"

definition client_start :: client where
  "client_start = \<lparr>connections = 0, index = 0, is_continue = 0, watching = {}, sends = [], recvs = [], closes = [], finished = False\<rparr>"

definition next_index :: "int \<Rightarrow> int" where
  "next_index i = (if i + 1 \<ge> MAX_PORT then 0 else i + 1)"

subsection \<open>The loop\<close>

text \<open>Opening a connection. The answer is the value of the variable \<open>sockfd\<close>, which is 0 when none is opened.\<close>

definition client_connect :: "turn \<Rightarrow> client \<Rightarrow> fault + (int \<times> client)" where
  "client_connect a s =
     (if connections s < MAX_CONNECTIONS \<and> is_continue s = 0
      then if new_socket a = -1 \<or> \<not> connected a then Inr (new_socket a, s\<lparr>finished := True\<rparr>)
        else bindE (sprintf_buffer (''Hello Server: client --> '' @ print_d (connections s) @ newline)) (\<lambda>buffer.
          Inr (new_socket a, s\<lparr>sends := sends s @ [(new_socket a, buffer)],
            watching := insert (new_socket a) (watching s), connections := connections s + 1\<rparr>))
      else Inr (0, s))"

definition client_close :: "int \<Rightarrow> client \<Rightarrow> client" where
  "client_close fd s = s\<lparr>closes := closes s @ [fd], watching := watching s - {fd}\<rparr>"

text \<open>
  What was received is printed with \<open>%s\<close>, which reads up to the first zero: if the 128 bytes are full and hold
  none, it reads behind the buffer.
\<close>

definition received_string :: "bytes \<Rightarrow> fault + bytes" where
  "received_string got =
     (let buffer = overwrite 0 got (replicate MAX_BUFFER 0) in
      if 0 \<in> set buffer then Inr (takeWhile (\<lambda>b. b \<noteq> 0) buffer) else Inl (BadIndex (int MAX_BUFFER)))"

definition quit :: bytes where
  "quit = [113, 117, 105, 116]"

definition client_event :: "int \<Rightarrow> nat \<Rightarrow> event \<Rightarrow> client \<Rightarrow> fault + client" where
  "client_event sockfd i e s =
     (if i \<ge> MAX_EPOLLSIZE then Inl (BadIndex (int i))
      else if epollout e then
        bindE (sprintf_buffer (''data from '' @ print_d (clientfd e) @ newline)) (\<lambda>buffer.
        Inr (s\<lparr>sends := sends s @ [(sockfd, buffer)]\<rparr>))
      else if epollin e then
        let s1 = s\<lparr>recvs := recvs s @ [sockfd]\<rparr> in
        (case received e of
           None \<Rightarrow> Inr (if eintr e then s1 else client_close (clientfd e) s1)
         | Some got \<Rightarrow>
             if got = [] then Inr (client_close (clientfd e) (s1\<lparr>connections := connections s1 - 1\<rparr>))
             else bindE (received_string got) (\<lambda>str. Inr (if str = quit then s1\<lparr>is_continue := 0\<rparr> else s1)))
      else Inr (client_close (clientfd e) s))"

fun client_events :: "int \<Rightarrow> nat \<Rightarrow> event list \<Rightarrow> client \<Rightarrow> fault + client" where
  "client_events sockfd i [] s = Inr s"
| "client_events sockfd i (e # es) s = bindE (client_event sockfd i e s) (client_events sockfd (Suc i) es)"

definition serves :: "client \<Rightarrow> bool" where
  "serves s \<longleftrightarrow> connections s mod 1000 = 999 \<and> 0 \<le> connections s \<or> MAX_CONNECTIONS \<le> connections s"

definition client_turn :: "turn \<Rightarrow> client \<Rightarrow> fault + client" where
  "client_turn a s =
     (if finished s then Inr s
      else bindE (client_connect a (s\<lparr>index := next_index (index s)\<rparr>)) (\<lambda>(sockfd, s1).
        if \<not> finished s1 \<and> serves s1 then client_events sockfd 0 (events a) s1 else Inr s1))"

subsection \<open>Bounds\<close>

text \<open>
  What the system keeps to: \<open>epoll_wait\<close> reports no more events than it is asked for, which is the number of
  connections; descriptors are \<open>int\<close>s; \<open>recv\<close> delivers at most the 128 bytes it is asked for. That the server's data are no 128
  bytes without a zero is what the program relies on.
\<close>

definition event_ok :: "event \<Rightarrow> bool" where
  "event_ok e \<longleftrightarrow> int32 (clientfd e) \<and>
     (case received e of None \<Rightarrow> True | Some got \<Rightarrow> length got \<le> MAX_BUFFER \<and> (length got = MAX_BUFFER \<longrightarrow> 0 \<in> set got))"

definition turn_ok :: "turn \<Rightarrow> client \<Rightarrow> bool" where
  "turn_ok a s \<longleftrightarrow> (\<forall>e \<in> set (events a). event_ok e) \<and>
     (case client_connect a (s\<lparr>index := next_index (index s)\<rparr>) of Inl f \<Rightarrow> True | Inr (sockfd, s1) \<Rightarrow> int (length (events a)) \<le> max 0 (connections s1))"

definition client_ok :: "client \<Rightarrow> bool" where
  "client_ok s \<longleftrightarrow> 0 \<le> connections s \<and> connections s \<le> MAX_CONNECTIONS \<and> 0 \<le> index s \<and> index s < MAX_PORT \<and> is_continue s = 0"

lemma length_decimal: "n < 10 ^ Suc k \<Longrightarrow> length (decimal n) \<le> Suc k"
proof (induction k arbitrary: n)
  case 0
  then show ?case by (subst decimal.simps) simp
next
  case (Suc k)
  show ?case
  proof (cases "n < 10")
    case False
    have "n div 10 < 10 ^ Suc k" using Suc.prems by (simp add: less_mult_imp_div_less mult.commute)
    with Suc.IH False show ?thesis by (subst decimal.simps) simp
  qed (subst decimal.simps, simp)
qed

lemma length_print_d: "int32 i \<Longrightarrow> length (print_d i) \<le> 11"
proof -
  assume "int32 i"
  then have "nat (- i) < 10 ^ Suc 9" "nat i < 10 ^ Suc 9" by (auto simp: int32_def nat_less_iff)
  then show ?thesis using length_decimal [of "nat (- i)" 9] length_decimal [of "nat i" 9] by (simp add: print_d_def)
qed

lemma sprintf_ok: "length str < 128 \<Longrightarrow> sprintf_buffer str = Inr str"
  by (simp add: sprintf_buffer_def)

lemma received_string_ok:
  assumes "length got \<le> MAX_BUFFER" "length got = MAX_BUFFER \<longrightarrow> 0 \<in> set got"
  shows "\<exists>str. received_string got = Inr str"
proof -
  have "overwrite 0 got (replicate MAX_BUFFER 0) = got @ replicate (MAX_BUFFER - length got) 0" by (simp add: overwrite_def)
  then have "0 \<in> set (overwrite 0 got (replicate MAX_BUFFER 0))" using assms by (cases "length got = MAX_BUFFER") auto
  then show ?thesis by (simp add: received_string_def)
qed

lemma client_event_ok:
  assumes "client_ok s" "event_ok e" "i < MAX_EPOLLSIZE" "1 \<le> connections s"
  shows "\<exists>s'. client_event sockfd i e s = Inr s' \<and> client_ok s' \<and> connections s - 1 \<le> connections s'"
proof (cases "epollout e")
  case True
  have "sprintf_buffer (''data from '' @ print_d (clientfd e) @ newline) = Inr (''data from '' @ print_d (clientfd e) @ newline)"
    using length_print_d [of "clientfd e"] assms(2) by (intro sprintf_ok) (simp add: event_ok_def newline_def)
  with True assms show ?thesis by (simp add: client_event_def client_ok_def)
next
  case out: False
  show ?thesis
  proof (cases "epollin e")
    case True
    show ?thesis
    proof (cases "received e")
      case None
      with out True assms show ?thesis by (simp add: client_event_def client_ok_def client_close_def Let_def)
    next
      case (Some got)
      then obtain str where "received_string got = Inr str" using received_string_ok assms(2) unfolding event_ok_def by auto
      with Some out True assms show ?thesis by (auto simp: client_event_def client_ok_def client_close_def Let_def)
    qed
  qed (use out assms in \<open>simp add: client_event_def client_ok_def client_close_def\<close>)
qed

lemma client_events_ok:
  "client_ok s \<Longrightarrow> \<forall>e \<in> set es. event_ok e \<Longrightarrow> i + length es \<le> MAX_EPOLLSIZE \<Longrightarrow> int (length es) \<le> connections s \<Longrightarrow>
     \<exists>s'. client_events sockfd i es s = Inr s' \<and> client_ok s'"
proof (induction es arbitrary: i s)
  case (Cons e es)
  then obtain s1 where s1: "client_event sockfd i e s = Inr s1" "client_ok s1" "connections s - 1 \<le> connections s1"
    using client_event_ok [of s e i sockfd] by auto
  with Cons.prems have "\<exists>s'. client_events sockfd (Suc i) es s1 = Inr s' \<and> client_ok s'" by (intro Cons.IH) auto
  with s1 show ?case by simp
qed simp

lemma client_connect_ok:
  assumes "client_ok s"
  shows "\<exists>fd s1. client_connect a s = Inr (fd, s1) \<and> client_ok s1"
proof -
  have "int32 (connections s)" using assms by (simp add: client_ok_def MAX_CONNECTIONS_def int32_def)
  then have "sprintf_buffer (''Hello Server: client --> '' @ print_d (connections s) @ newline) =
      Inr (''Hello Server: client --> '' @ print_d (connections s) @ newline)"
    using length_print_d [of "connections s"] by (intro sprintf_ok) (simp add: newline_def)
  with assms show ?thesis by (auto simp: client_connect_def client_ok_def)
qed

lemma client_turn_ok:
  assumes ok: "client_ok s" and may: "turn_ok a s"
  shows "\<exists>s'. client_turn a s = Inr s' \<and> client_ok s'"
proof (cases "finished s")
  case False
  let ?s = "s\<lparr>index := next_index (index s)\<rparr>"
  have "client_ok ?s" using ok by (auto simp: client_ok_def next_index_def MAX_PORT_def)
  then obtain fd s1 where c: "client_connect a ?s = Inr (fd, s1)" "client_ok s1" using client_connect_ok by blast
  have len: "int (length (events a)) \<le> connections s1" using may c by (simp add: turn_ok_def client_ok_def)
  then have "length (events a) \<le> MAX_EPOLLSIZE" using c(2) by (simp add: client_ok_def MAX_CONNECTIONS_def MAX_EPOLLSIZE_def)
  with len have "\<exists>s'. client_events fd 0 (events a) s1 = Inr s' \<and> client_ok s'"
    using c(2) may by (intro client_events_ok) (simp_all add: turn_ok_def)
  with c False show ?thesis by (simp add: client_turn_def)
qed (use ok in \<open>simp add: client_turn_def\<close>)

interpretation load_client: event_loop client_ok turn_ok client_turn
  by unfold_locales (rule client_turn_ok)



subsection \<open>The wrong descriptor\<close>

lemma client_event_socket:
  "client_event sockfd i e s = Inr s' \<Longrightarrow>
     (\<exists>l. sends s' = sends s @ l \<and> fst ` set l \<subseteq> {sockfd}) \<and> (\<exists>l. recvs s' = recvs s @ l \<and> set l \<subseteq> {sockfd})"
  by (auto simp: client_event_def client_close_def bindE_eq_Inr Let_def split: if_splits option.splits)

lemma client_events_socket:
  "client_events sockfd i es s = Inr s' \<Longrightarrow>
     (\<exists>l. sends s' = sends s @ l \<and> fst ` set l \<subseteq> {sockfd}) \<and> (\<exists>l. recvs s' = recvs s @ l \<and> set l \<subseteq> {sockfd})"
proof (induction es arbitrary: i s)
  case (Cons e es)
  then obtain s1 where "client_event sockfd i e s = Inr s1" "client_events sockfd (Suc i) es s1 = Inr s'" by (auto simp: bindE_eq_Inr)
  with Cons.IH [OF this(2)] client_event_socket [OF this(1)] show ?case by (fastforce simp: Un_subset_iff)
qed simp

text \<open>
  The events are answered on the wrong descriptor. In a turn that opens no connection, because there are
  340000, \<open>sockfd\<close> is 0: whatever descriptors \<open>epoll_wait\<close> reports, all that is sent goes to
  descriptor 0, the standard input, and all that is received comes from there.
\<close>

theorem client_serves_descriptor_zero:
  assumes "connections s = 340000" "client_turn a s = Inr s'"
  shows "\<exists>l m. sends s' = sends s @ l \<and> recvs s' = recvs s @ m \<and> (\<forall>(fd, str) \<in> set l. fd = 0) \<and> (\<forall>fd \<in> set m. fd = 0)"
proof (cases "finished s")
  case False
  have "client_connect a (s\<lparr>index := next_index (index s)\<rparr>) = Inr (0, s\<lparr>index := next_index (index s)\<rparr>)"
    using assms(1) by (simp add: client_connect_def MAX_CONNECTIONS_def)
  with assms False have "client_events 0 0 (events a) (s\<lparr>index := next_index (index s)\<rparr>) = Inr s'"
    by (simp add: client_turn_def serves_def MAX_CONNECTIONS_def)
  from client_events_socket [OF this] show ?thesis by fastforce
qed (use assms in \<open>simp add: client_turn_def\<close>)

theorem client_serves_descriptor_zero_witness:
  "\<exists>s'. client_turn \<lparr>new_socket = 9, connected = True, events = [\<lparr>clientfd = 7, epollout = False, epollin = True, received = Some [65], eintr = False\<rparr>]\<rparr>
     (client_start\<lparr>connections := 340000\<rparr>) = Inr s' \<and> recvs s' = [0]"
proof -
  let ?a = "\<lparr>new_socket = 9, connected = True, events = [\<lparr>clientfd = 7, epollout = False, epollin = True, received = Some [65], eintr = False\<rparr>]\<rparr>"
  let ?s = "client_start\<lparr>connections := 340000\<rparr>"
  have "received_string [65] = Inr [65]" by (simp add: received_string_def overwrite_def MAX_BUFFER_def)
  then obtain s' where s': "client_turn ?a ?s = Inr s'" "length (recvs s') = 1"
    by (simp add: client_turn_def client_connect_def client_start_def MAX_CONNECTIONS_def serves_def client_event_def MAX_EPOLLSIZE_def quit_def)
  have "connections ?s = 340000" by simp
  from client_serves_descriptor_zero [OF this s'(1)] s' show ?thesis by (cases "recvs s'") (auto simp: client_start_def)
qed

text \<open>A full buffer without a zero is read past its end.\<close>

lemma received_string_overreads: "length got = MAX_BUFFER \<Longrightarrow> 0 \<notin> set got \<Longrightarrow> received_string got = Inl (BadIndex (int MAX_BUFFER))"
  by (simp add: received_string_def overwrite_def)

end
