(* ===== verification/Thread_Wrapper.thy ===== *)
theory Thread_Wrapper
  imports Sockets
begin

text \<open>
  The class \<open>ThreadWrapper\<close> of \<^verbatim>\<open>1_CPBase/thread/ThreadWrapper.hpp\<close>, which owns a \<open>std::thread\<close> and joins it
  when it goes. A \<open>std::thread\<close> is a thread number, or \<open>None\<close> when it is not joinable; destroying or
  assigning to one that is joinable ends the process, and so does joining one that is not.
\<close>

subsection \<open>State and operations\<close>

record wrappers =
  m_thread :: "nat \<Rightarrow> nat option"
  objects :: "nat set"
  started :: nat
  joined :: "nat list"
  detached :: "nat list"

definition no_wrappers :: wrappers where
  "no_wrappers = \<lparr>m_thread = (\<lambda>_. None), objects = {}, started = 0, joined = [], detached = []\<rparr>"

text \<open>The members of \<open>std::thread\<close> the class calls, on the thread of the wrapper \<open>w\<close>.\<close>

definition joinable :: "nat \<Rightarrow> wrappers \<Rightarrow> bool" where
  "joinable w s \<longleftrightarrow> m_thread s w \<noteq> None"

definition thread_join :: "nat \<Rightarrow> wrappers \<Rightarrow> fault + wrappers" where
  "thread_join w s =
     (case m_thread s w of
        None \<Rightarrow> Inl Terminated
      | Some t \<Rightarrow> Inr (s\<lparr>m_thread := (m_thread s)(w := None), joined := joined s @ [t]\<rparr>))"

definition thread_detach :: "nat \<Rightarrow> wrappers \<Rightarrow> fault + wrappers" where
  "thread_detach w s =
     (case m_thread s w of
        None \<Rightarrow> Inl Terminated
      | Some t \<Rightarrow> Inr (s\<lparr>m_thread := (m_thread s)(w := None), detached := detached s @ [t]\<rparr>))"

definition thread_move_assign :: "nat \<Rightarrow> nat \<Rightarrow> wrappers \<Rightarrow> fault + wrappers" where
  "thread_move_assign w other s =
     (if joinable w s then Inl Terminated else Inr (s\<lparr>m_thread := (m_thread s)(w := m_thread s other, other := None)\<rparr>))"

definition thread_destroy :: "nat \<Rightarrow> wrappers \<Rightarrow> fault + wrappers" where
  "thread_destroy w s = (if joinable w s then Inl Terminated else Inr (s\<lparr>objects := objects s - {w}\<rparr>))"

text \<open>The members of \<open>ThreadWrapper\<close>.\<close>

definition tw_join :: "nat \<Rightarrow> wrappers \<Rightarrow> fault + wrappers" where
  "tw_join w s = (if joinable w s then thread_join w s else Inr s)"

definition tw_detach :: "nat \<Rightarrow> wrappers \<Rightarrow> fault + wrappers" where
  "tw_detach w s = (if joinable w s then thread_detach w s else Inr s)"

definition tw_construct :: "nat \<Rightarrow> wrappers \<Rightarrow> wrappers" where
  "tw_construct w s = s\<lparr>m_thread := (m_thread s)(w := Some (started s)), objects := insert w (objects s), started := Suc (started s)\<rparr>"

definition tw_move_construct :: "nat \<Rightarrow> nat \<Rightarrow> wrappers \<Rightarrow> wrappers" where
  "tw_move_construct w other s =
     s\<lparr>m_thread := (m_thread s)(w := m_thread s other, other := None), objects := insert w (objects s)\<rparr>"

definition tw_move_assign :: "nat \<Rightarrow> nat \<Rightarrow> wrappers \<Rightarrow> fault + wrappers" where
  "tw_move_assign w other s =
     (if w \<noteq> other
      then bindE (if joinable w s then thread_join w s else Inr s) (thread_move_assign w other)
      else Inr s)"

definition tw_destroy :: "nat \<Rightarrow> wrappers \<Rightarrow> fault + wrappers" where
  "tw_destroy w s = bindE (if joinable w s then thread_join w s else Inr s) (thread_destroy w)"

subsection \<open>Clients\<close>

datatype tw_op =
    Construct nat
  | Move_construct nat nat
  | Move_assign nat nat
  | Join nat
  | Detach nat
  | Destroy nat

fun tw_do :: "tw_op \<Rightarrow> wrappers \<Rightarrow> fault + wrappers" where
  "tw_do (Construct w) s = Inr (tw_construct w s)"
| "tw_do (Move_construct w other) s = Inr (tw_move_construct w other s)"
| "tw_do (Move_assign w other) s = tw_move_assign w other s"
| "tw_do (Join w) s = tw_join w s"
| "tw_do (Detach w) s = tw_detach w s"
| "tw_do (Destroy w) s = tw_destroy w s"

text \<open>A client constructs new objects and uses those that are there.\<close>

fun tw_may :: "tw_op \<Rightarrow> wrappers \<Rightarrow> bool" where
  "tw_may (Construct w) s = (w \<notin> objects s)"
| "tw_may (Move_construct w other) s = (w \<notin> objects s \<and> other \<in> objects s)"
| "tw_may (Move_assign w other) s = (w \<in> objects s \<and> other \<in> objects s)"
| "tw_may (Join w) s = (w \<in> objects s)"
| "tw_may (Detach w) s = (w \<in> objects s)"
| "tw_may (Destroy w) s = (w \<in> objects s)"

subsection \<open>Every thread is accounted for\<close>

definition accounted :: "(nat \<Rightarrow> nat option) \<Rightarrow> nat \<Rightarrow> nat set \<Rightarrow> bool" where
  "accounted f n A \<longleftrightarrow> (\<forall>w v t. f w = Some t \<longrightarrow> f v = Some t \<longrightarrow> w = v) \<and> A \<subseteq> {..<n} \<and>
     (\<forall>t. (\<exists>w. f w = Some t) \<longleftrightarrow> t < n \<and> t \<notin> A)"

lemma accounted_out:
  assumes "accounted f n A" "f w = Some t"
  shows "accounted (f(w := None)) n (insert t A)" "t \<notin> A"
proof -
  have inj: "\<And>v u x. f v = Some x \<Longrightarrow> f u = Some x \<Longrightarrow> v = u" and A: "A \<subseteq> {..<n}"
    and ex: "\<And>x. (\<exists>v. f v = Some x) \<longleftrightarrow> x < n \<and> x \<notin> A" using assms(1) unfolding accounted_def by blast+
  show tA: "t \<notin> A" using ex [of t] assms(2) by blast
  have tn: "t < n" using ex [of t] assms(2) by blast
  have "(\<exists>v. (f(w := None)) v = Some x) \<longleftrightarrow> x < n \<and> x \<notin> insert t A" for x
  proof (cases "x = t")
    case True
    have "v = w" if "f v = Some t" for v using inj [OF that assms(2)] .
    then show ?thesis using True by auto
  next
    case False
    then have "(f(w := None)) v = Some x \<longleftrightarrow> f v = Some x" for v using assms(2) by auto
    with ex [of x] False show ?thesis by (simp only: insert_iff) blast
  qed
  moreover have "v = u" if "(f(w := None)) v = Some x" "(f(w := None)) u = Some x" for v u x
    using that inj [of v x u] by (simp split: if_splits)
  ultimately show "accounted (f(w := None)) n (insert t A)" using A tn unfolding accounted_def by blast
qed

lemma accounted_new:
  assumes "accounted f n A" "f w = None"
  shows "accounted (f(w := Some n)) (Suc n) A"
proof -
  have inj: "\<And>v u x. f v = Some x \<Longrightarrow> f u = Some x \<Longrightarrow> v = u" and A: "A \<subseteq> {..<n}"
    and ex: "\<And>x. (\<exists>v. f v = Some x) \<longleftrightarrow> x < n \<and> x \<notin> A" using assms(1) unfolding accounted_def by blast+
  have n: "f v \<noteq> Some n" for v using ex [of n] by blast
  have "(\<exists>v. (f(w := Some n)) v = Some x) \<longleftrightarrow> x < Suc n \<and> x \<notin> A" for x
  proof (cases "x = n")
    case True
    then show ?thesis using A by auto
  next
    case False
    then have "(f(w := Some n)) v = Some x \<longleftrightarrow> f v = Some x" for v using assms(2) by auto
    then have "(\<exists>v. (f(w := Some n)) v = Some x) \<longleftrightarrow> (\<exists>v. f v = Some x)" by (simp only:)
    with ex [of x] False show ?thesis by (simp only: less_Suc_eq) blast
  qed
  moreover have "v = u" if "(f(w := Some n)) v = Some x" "(f(w := Some n)) u = Some x" for v u x
    using that inj [of v x u] n by (auto split: if_splits)
  moreover have "A \<subseteq> {..<Suc n}" using A by auto
  ultimately show ?thesis unfolding accounted_def by blast
qed

lemma accounted_move:
  assumes "accounted f n A" "f w = None" "w \<noteq> other"
  shows "accounted (f(w := f other, other := None)) n A"
proof -
  have inj: "\<And>v u x. f v = Some x \<Longrightarrow> f u = Some x \<Longrightarrow> v = u" and A: "A \<subseteq> {..<n}"
    and ex: "\<And>x. (\<exists>v. f v = Some x) \<longleftrightarrow> x < n \<and> x \<notin> A" using assms(1) unfolding accounted_def by blast+
  let ?g = "f(w := f other, other := None)"
  have bwd: "?g v = Some x \<Longrightarrow> f (if v = w then other else v) = Some x \<and> v \<noteq> other" for v x by (auto split: if_splits)
  have fwd: "f v = Some x \<Longrightarrow> ?g (if v = other then w else v) = Some x" for v x using assms(2,3) by (auto split: if_splits)
  have "(\<exists>v. ?g v = Some x) \<longleftrightarrow> x < n \<and> x \<notin> A" for x unfolding ex [of x, symmetric] using bwd fwd by blast
  moreover have "v = u" if "?g v = Some x" "?g u = Some x" for v u x
  proof -
    have "(if v = w then other else v) = (if u = w then other else u)" using bwd [OF that(1)] bwd [OF that(2)] inj by blast
    then show ?thesis using bwd [OF that(1)] bwd [OF that(2)] by (cases "v = w"; cases "u = w") auto
  qed
  ultimately show ?thesis using A unfolding accounted_def by blast
qed

definition tw_inv :: "wrappers \<Rightarrow> bool" where
  "tw_inv s \<longleftrightarrow> (\<forall>w. w \<notin> objects s \<longrightarrow> m_thread s w = None) \<and> distinct (joined s @ detached s) \<and>
     accounted (m_thread s) (started s) (set (joined s @ detached s))"

lemma tw_inv_join:
  assumes "tw_inv s" "joinable w s"
  shows "\<exists>s'. thread_join w s = Inr s' \<and> tw_inv s' \<and> \<not> joinable w s' \<and> objects s' = objects s"
proof -
  obtain t where t: "m_thread s w = Some t" using assms(2) by (auto simp: joinable_def)
  with accounted_out [of "m_thread s" _ _ w t] assms(1) show ?thesis by (auto simp: thread_join_def joinable_def tw_inv_def)
qed

lemma tw_inv_detach:
  assumes "tw_inv s" "joinable w s"
  shows "\<exists>s'. thread_detach w s = Inr s' \<and> tw_inv s'"
proof -
  obtain t where t: "m_thread s w = Some t" using assms(2) by (auto simp: joinable_def)
  with accounted_out [of "m_thread s" _ _ w t] assms(1) show ?thesis by (auto simp: thread_detach_def tw_inv_def)
qed

lemma tw_inv_release:
  assumes "tw_inv s"
  shows "\<exists>s'. (if joinable w s then thread_join w s else Inr s) = Inr s' \<and> tw_inv s' \<and> \<not> joinable w s' \<and> objects s' = objects s"
  using tw_inv_join [OF assms] assms by (cases "joinable w s") auto

lemma tw_inv_do:
  assumes inv: "tw_inv s" and may: "tw_may op s"
  shows "\<exists>s'. tw_do op s = Inr s' \<and> tw_inv s'"
proof (cases op)
  case (Construct w)
  with inv may accounted_new [of "m_thread s" "started s" _ w] show ?thesis by (auto simp: tw_construct_def tw_inv_def)
next
  case (Move_construct w other)
  with inv may accounted_move [of "m_thread s" "started s" _ w other] show ?thesis by (auto simp: tw_move_construct_def tw_inv_def)
next
  case (Move_assign w other)
  obtain s1 where s1: "(if joinable w s then thread_join w s else Inr s) = Inr s1" "tw_inv s1" "\<not> joinable w s1" "objects s1 = objects s"
    using tw_inv_release [OF inv] by blast
  show ?thesis
  proof (cases "w = other")
    case False
    with s1 may Move_assign accounted_move [of "m_thread s1" "started s1" _ w other] show ?thesis
      by (auto simp: tw_move_assign_def thread_move_assign_def joinable_def tw_inv_def)
  qed (use inv Move_assign in \<open>simp add: tw_move_assign_def\<close>)
next
  case (Join w)
  with tw_inv_join [OF inv] inv show ?thesis by (auto simp: tw_join_def)
next
  case (Detach w)
  with tw_inv_detach [OF inv] inv show ?thesis by (auto simp: tw_detach_def)
next
  case (Destroy w)
  obtain s1 where "(if joinable w s then thread_join w s else Inr s) = Inr s1" "tw_inv s1" "\<not> joinable w s1" "objects s1 = objects s"
    using tw_inv_release [OF inv] by blast
  then show ?thesis using Destroy by (auto simp: tw_destroy_def thread_destroy_def joinable_def tw_inv_def)
qed

interpretation wrapper_client: event_loop tw_inv tw_may tw_do
  by unfold_locales (rule tw_inv_do)

text \<open>
  Whatever a client does with its wrappers, the process is never ended by a \<open>std::thread\<close> that is still
  joinable, and every thread that was started is owned by exactly one wrapper, or was joined or detached, once. When no wrapper is
  left every thread has been joined or detached.
\<close>

theorem wrappers_account_for_threads:
  assumes "possible tw_do tw_may ops no_wrappers"
  shows "\<exists>s. run_events tw_do ops no_wrappers = Inr s \<and> distinct (joined s @ detached s) \<and>
    (\<forall>t. (\<exists>w. m_thread s w = Some t) \<longleftrightarrow> t < started s \<and> t \<notin> set (joined s @ detached s)) \<and>
    (objects s = {} \<longrightarrow> set (joined s @ detached s) = {..<started s})"
proof -
  have "tw_inv no_wrappers" by (simp add: tw_inv_def no_wrappers_def accounted_def)
  from wrapper_client.run_inv [OF this assms] obtain s where s: "run_events tw_do ops no_wrappers = Inr s" "tw_inv s" by blast
  have "set (joined s @ detached s) = {..<started s}" if "objects s = {}"
    using s(2) that unfolding tw_inv_def accounted_def by fastforce
  with s show ?thesis unfolding tw_inv_def accounted_def by blast
qed

theorem wrappers_account_for_threads_witness:
  "\<exists>s. run_events tw_do [Construct 1, Construct 2, Move_assign 1 2, Move_construct 3 1, Detach 3, Destroy 1, Destroy 2, Destroy 3] no_wrappers = Inr s \<and>
     set (joined s @ detached s) = {..<started s}"
proof -
  let ?ops = "[Construct 1, Construct 2, Move_assign 1 2, Move_construct 3 1, Detach 3, Destroy 1, Destroy 2, Destroy 3]"
  note defs = no_wrappers_def tw_construct_def tw_move_construct_def tw_move_assign_def tw_detach_def tw_destroy_def
    thread_join_def thread_detach_def thread_move_assign_def thread_destroy_def joinable_def
  have p: "possible tw_do tw_may ?ops no_wrappers" by (simp add: defs)
  obtain s where r: "run_events tw_do ?ops no_wrappers = Inr s" "objects s = {}" by (auto simp: defs)
  with wrappers_account_for_threads [OF p] show ?thesis by auto
qed

end
