(* ===== verification/Cv_Pipeline.thy ===== *)
theory Cv_Pipeline
  imports Prelude
begin

text \<open>
  The producer and the consumer of \<^verbatim>\<open>1_CPBase/thread/condition_variable.cpp\<close>: ten numbers go through a
  queue behind a mutex; both notify and wait on one condition variable, and the flag \<open>done\<close> ends the
  consumer. A step is a block that holds the mutex or a notification.
\<close>

subsection \<open>The two threads\<close>

definition numbers :: nat where
  "numbers = 10"

datatype maker =
    Push nat          \<comment> \<open>at the block that pushes \<open>i\<close>\<close>
  | Notify nat        \<comment> \<open>at \<open>notify_one\<close> behind it\<close>
  | Set_done
  | Notify_done
  | Producer_ended

datatype taker = Checking | Asleep | Consumer_ended

record pipeline =
  data_queue :: "nat list"
  finished :: bool
  producer :: maker
  consumer :: taker
  consumed :: "nat list"

text \<open>The loop of the producer goes on to \<open>i\<close> or ends.\<close>

definition produce_from :: "nat \<Rightarrow> maker" where
  "produce_from i = (if i < numbers then Push i else Set_done)"

definition pipeline_start :: pipeline where
  "pipeline_start = \<lparr>data_queue = [], finished = False, producer = produce_from 0, consumer = Checking, consumed = []\<rparr>"

definition wake_consumer :: "taker \<Rightarrow> taker" where
  "wake_consumer c = (if c = Asleep then Checking else c)"

definition produce :: "pipeline \<Rightarrow> pipeline option" where
  "produce s =
     (case producer s of
        Push i \<Rightarrow> Some (s\<lparr>data_queue := data_queue s @ [i], producer := Notify i\<rparr>)
      | Notify i \<Rightarrow> Some (s\<lparr>consumer := wake_consumer (consumer s), producer := produce_from (i + 1)\<rparr>)
      | Set_done \<Rightarrow> Some (s\<lparr>finished := True, producer := Notify_done\<rparr>)
      | Notify_done \<Rightarrow> Some (s\<lparr>consumer := wake_consumer (consumer s), producer := Producer_ended\<rparr>)
      | Producer_ended \<Rightarrow> None)"

definition consume :: "pipeline \<Rightarrow> pipeline option" where
  "consume s =
     (if consumer s \<noteq> Checking then None
      else if data_queue s = [] \<and> \<not> finished s then Some (s\<lparr>consumer := Asleep\<rparr>)
      else if data_queue s = [] \<and> finished s then Some (s\<lparr>consumer := Consumer_ended\<rparr>)
      else Some (s\<lparr>data_queue := tl (data_queue s), consumed := consumed s @ [hd (data_queue s)]\<rparr>))"

inductive pipe_step :: "pipeline \<Rightarrow> pipeline \<Rightarrow> bool" where
  produces: "produce s = Some s' \<Longrightarrow> pipe_step s s'"
| consumes: "consume s = Some s' \<Longrightarrow> pipe_step s s'"

inductive pipe_reach :: "pipeline \<Rightarrow> bool" where
  start: "pipe_reach pipeline_start"
| step: "pipe_reach s \<Longrightarrow> pipe_step s s' \<Longrightarrow> pipe_reach s'"
| spurious: "pipe_reach s \<Longrightarrow> pipe_reach (s\<lparr>consumer := wake_consumer (consumer s)\<rparr>)"

subsection \<open>Invariant\<close>

text \<open>How many numbers the producer has pushed, and whether a notification is on its way.\<close>

fun pushed_so_far :: "maker \<Rightarrow> nat" where
  "pushed_so_far (Push i) = i"
| "pushed_so_far (Notify i) = Suc i"
| "pushed_so_far _ = numbers"

fun notifies :: "maker \<Rightarrow> bool" where
  "notifies (Notify i) = True"
| "notifies Notify_done = True"
| "notifies _ = False"

definition pipe_inv :: "pipeline \<Rightarrow> bool" where
  "pipe_inv s \<longleftrightarrow> consumed s @ data_queue s = [0..<pushed_so_far (producer s)] \<and> pushed_so_far (producer s) \<le> numbers \<and>
     (\<forall>i. producer s = Push i \<longrightarrow> i < numbers) \<and>
     (finished s \<longleftrightarrow> producer s = Notify_done \<or> producer s = Producer_ended) \<and>
     (consumer s = Asleep \<longrightarrow> notifies (producer s) \<or> data_queue s = [] \<and> \<not> finished s) \<and>
     (consumer s = Consumer_ended \<longrightarrow> data_queue s = [] \<and> finished s)"

lemma pushed_from [simp]: "i \<le> numbers \<Longrightarrow> pushed_so_far (produce_from i) = i"
  by (simp add: produce_from_def)

lemma produce_from_simps [simp]:
  "\<not> notifies (produce_from i)" "produce_from i \<noteq> Notify_done" "produce_from i \<noteq> Producer_ended"
  "produce_from i = Push j \<longleftrightarrow> j = i \<and> i < numbers"
  by (auto simp: produce_from_def)

lemma wake_consumer_simps [simp]: "wake_consumer c \<noteq> Asleep" "wake_consumer c = Consumer_ended \<longleftrightarrow> c = Consumer_ended"
  by (auto simp: wake_consumer_def)

lemma produce_inv: "produce s = Some s' \<Longrightarrow> pipe_inv s \<Longrightarrow> pipe_inv s'"
  by (cases "producer s") (auto simp: produce_def pipe_inv_def)

lemma consume_inv:
  assumes "consume s = Some s'" "pipe_inv s"
  shows "pipe_inv s'"
proof (cases "data_queue s")
  case Nil
  with assms show ?thesis by (auto simp: consume_def pipe_inv_def split: if_splits)
next
  case (Cons x l)
  then have "s' = s\<lparr>data_queue := l, consumed := consumed s @ [x]\<rparr>" "consumer s = Checking" using assms(1) by (auto simp: consume_def split: if_splits)
  with assms(2) Cons show ?thesis by (simp add: pipe_inv_def)
qed

lemma pipe_reach_inv: "pipe_reach s \<Longrightarrow> pipe_inv s"
proof (induction rule: pipe_reach.induct)
  case start
  show ?case by (simp add: pipe_inv_def pipeline_start_def numbers_def produce_from_def)
next
  case (step s s')
  then show ?case by (auto elim: pipe_step.cases intro: produce_inv consume_inv)
next
  case (spurious s)
  then show ?case by (auto simp: pipe_inv_def)
qed

subsection \<open>Progress\<close>

fun producer_left :: "maker \<Rightarrow> nat" where
  "producer_left (Push i) = 4 * (numbers - i) + 6"
| "producer_left (Notify i) = 4 * (numbers - i) + 4"
| "producer_left Set_done = 6"
| "producer_left Notify_done = 4"
| "producer_left Producer_ended = 0"

fun consumer_left :: "taker \<Rightarrow> nat" where
  "consumer_left Checking = 1"
| "consumer_left _ = 0"

definition steps_left :: "pipeline \<Rightarrow> nat" where
  "steps_left s = producer_left (producer s) + consumer_left (consumer s) + length (data_queue s)"

lemma consumer_left_wake: "consumer_left (wake_consumer c) \<le> 1"
  by (cases c) (simp_all add: wake_consumer_def)

lemma pipe_step_decreases:
  assumes "pipe_inv s" "pipe_step s s'"
  shows "steps_left s' < steps_left s"
  using assms(2)
proof (cases rule: pipe_step.cases)
  case produces
  then show ?thesis using consumer_left_wake [of "consumer s"] assms(1)
    by (cases "producer s") (auto simp: produce_def steps_left_def produce_from_def pipe_inv_def)
next
  case consumes
  then show ?thesis by (cases "data_queue s") (auto simp: consume_def steps_left_def split: if_splits)
qed

text \<open>
  C37: both threads end, with every number consumed in order: unless both have ended one of them has a step, every step of
  theirs lowers \<open>steps_left\<close>, and when they have ended the consumer has had 0 to 9.
\<close>

theorem pipeline_delivers:
  assumes "pipe_reach s"
  shows "if producer s = Producer_ended \<and> consumer s = Consumer_ended then consumed s = [0..<10]
    else (\<exists>s'. pipe_step s s') \<and> (\<forall>s'. pipe_step s s' \<longrightarrow> steps_left s' < steps_left s)"
proof -
  have inv: "pipe_inv s" by (rule pipe_reach_inv [OF assms])
  have "\<exists>s'. pipe_step s s'" if "producer s \<noteq> Producer_ended \<or> consumer s \<noteq> Consumer_ended"
  proof (cases "produce s")
    case None
    then have p: "producer s = Producer_ended" by (auto simp: produce_def split: maker.splits)
    then have "consumer s = Checking" using that inv by (cases "consumer s") (auto simp: pipe_inv_def)
    then have "consume s \<noteq> None" by (simp add: consume_def)
    then show ?thesis using pipe_step.consumes by blast
  qed (use pipe_step.produces in blast)
  then show ?thesis using pipe_step_decreases [OF inv] inv by (auto simp: pipe_inv_def numbers_def)
qed

text \<open>The consumer sleeps, and the producer has pushed 0 and is about to notify.\<close>

definition ex_pipeline :: pipeline where
  "ex_pipeline = \<lparr>data_queue = [0], finished = False, producer = Notify 0, consumer = Asleep, consumed = []\<rparr>"

lemma ex_pipeline_reach: "pipe_reach ex_pipeline"
proof -
  have "pipe_step pipeline_start (pipeline_start\<lparr>consumer := Asleep\<rparr>)"
    by (rule pipe_step.consumes) (simp add: consume_def pipeline_start_def)
  moreover have "pipe_step (pipeline_start\<lparr>consumer := Asleep\<rparr>) ex_pipeline"
    by (rule pipe_step.produces) (simp add: produce_def pipeline_start_def ex_pipeline_def produce_from_def numbers_def)
  ultimately show ?thesis using pipe_reach.start pipe_reach.step by blast
qed

theorem pipeline_delivers_witness: "\<exists>s'. pipe_step ex_pipeline s' \<and> steps_left s' < steps_left ex_pipeline"
proof -
  have "producer ex_pipeline \<noteq> Producer_ended" by (simp add: ex_pipeline_def)
  with pipeline_delivers [OF ex_pipeline_reach] show ?thesis by auto
qed

end
