(* ===== verification/Counters.thy ===== *)
theory Counters
  imports Autoinc
begin

text \<open>
  \<^verbatim>\<open>1_CPBase/thread/mutex.cpp\<close> and \<^verbatim>\<open>atomic_demo.cpp\<close>: counters that many threads increment, under a \<open>std::mutex\<close>, as a \<open>std::atomic\<close>, and
  with nothing. The threads are those of \<open>Autoinc\<close>; a mutex is the lock that blocks.
\<close>

subsection \<open>The programs\<close>

definition count_10k :: "int counter \<Rightarrow> int counter \<Rightarrow> bool" where
  "count_10k = inc_step Locked (spinlock_trylock Pthread_Mutex) (spinlock_unlock Pthread_Mutex)"

definition mutex_main :: "int counter" where
  "mutex_main = inc_start (spinlock_init Pthread_Mutex) (replicate 10 10000)"

definition increment_atomic :: "unit counter \<Rightarrow> unit counter \<Rightarrow> bool" where
  "increment_atomic = inc_step Atomic (\<lambda>_. (False, ())) (\<lambda>_. ())"

definition increment_normal :: "unit counter \<Rightarrow> unit counter \<Rightarrow> bool" where
  "increment_normal = inc_step Bare (\<lambda>_. (False, ())) (\<lambda>_. ())"

text \<open>The two counters of \<^verbatim>\<open>atomic_demo.cpp\<close>, each with its four threads.\<close>

definition atomic_demo_main :: "unit counter \<times> unit counter" where
  "atomic_demo_main = (inc_start () (replicate 4 100000), inc_start () (replicate 4 100000))"

inductive atomic_demo_step :: "unit counter \<times> unit counter \<Rightarrow> unit counter \<times> unit counter \<Rightarrow> bool" where
  atomic: "increment_atomic a a' \<Longrightarrow> atomic_demo_step (a, n) (a', n)"
| normal: "increment_normal n n' \<Longrightarrow> atomic_demo_step (a, n) (a, n')"

subsection \<open>A counter without a lock\<close>

text \<open>What a thread has loaded is at most the number of stores made so far, and so is the counter.\<close>

definition bare_inv :: "nat \<Rightarrow> 'l counter \<Rightarrow> bool" where
  "bare_inv goal s \<longleftrightarrow> to_add s \<le> goal \<and> unat (count s) \<le> goal - to_add s \<and>
     (\<forall>x \<in> set (crew s). \<forall>v. snd x = Loaded v \<longrightarrow> 0 < fst x \<and> unat v \<le> goal - to_add s) \<and>
     (\<forall>x \<in> set (crew s). snd x = Top \<or> (\<exists>v. snd x = Loaded v))"

lemma bare_inv_start: "bare_inv (sum_list nums) (inc_start l nums)"
  by (auto simp: bare_inv_def inc_start_def to_add_def comp_def)

lemma bare_step:
  assumes "inc_step Bare acquire release s s'" "bare_inv goal s" "goal < 2 ^ 32"
  shows "bare_inv goal s'"
  using assms(1)
proof (cases rule: inc_step.cases)
  case (load i n)
  have i: "crew s ! i \<in> set (crew s)" using load(2) by simp
  then have top: "crew s ! i = (Suc n, Top)" using assms(2) load(3) by (auto simp: bare_inv_def)
  have "to_add s' = to_add s" using to_add_upd [OF load(2), of "(Suc n, Loaded (count s))"] load(1) top by (simp add: to_add_def)
  with assms(2) load(1) show ?thesis by (auto simp: bare_inv_def dest!: set_update_subset_insert [THEN subsetD])
next
  case (store i n v)
  have i: "crew s ! i \<in> set (crew s)" using store(2) by simp
  have s': "s' = s\<lparr>count := v + 1, crew := (crew s)[i := (n, Top)]\<rparr>" using store(1) by (simp add: HOL.induct_true_def)
  have left: "to_add s = Suc (to_add s')" using to_add_upd [OF store(2), of "(n, Top)"] s' store(3) by (simp add: to_add_def)
  have v: "unat v \<le> goal - to_add s" using assms(2) i store(3) by (force simp: bare_inv_def)
  have "unat (v + 1) \<le> unat v + 1" by (simp add: unat_plus_if') linarith
  also have "unat v + 1 \<le> goal - to_add s'" 
  proof -
    have "to_add s \<le> goal" using assms(2) by (simp add: bare_inv_def)
    then show ?thesis using v left by linarith
  qed
  finally have "unat (v + 1) \<le> goal - to_add s'" .
  with assms(2) left s' show ?thesis
    by (fastforce simp: bare_inv_def dest!: set_update_subset_insert [THEN subsetD])
next
  case (unlock i n)
  have "crew s ! i \<in> set (crew s)" using unlock(2) by simp
  with assms(2) unlock(3) show ?thesis by (auto simp: bare_inv_def)
qed simp_all

lemma bare_reach:
  assumes "inc_reach Bare acquire release l nums s" "sum_list nums < 2 ^ 32"
  shows "bare_inv (sum_list nums) s"
  using assms(1) unfolding inc_reach_def
proof (induction rule: rtranclp_induct)
  case base
  show ?case by (rule bare_inv_start)
next
  case (step s s')
  with bare_step assms(2) show ?case by blast
qed

lemma atomic_demo_parts:
  assumes "atomic_demo_step\<^sup>*\<^sup>* atomic_demo_main (a, n)"
  shows "inc_reach Atomic (\<lambda>_. (False, ())) (\<lambda>_. ()) () (replicate 4 100000) a \<and>
    inc_reach Bare (\<lambda>_. (False, ())) (\<lambda>_. ()) () (replicate 4 100000) n"
  using assms
proof (induction "(a, n)" arbitrary: a n rule: rtranclp_induct)
  case base
  then show ?case by (auto simp: atomic_demo_main_def inc_reach_def)
next
  case (step y)
  obtain b m where y: "y = (b, m)" by (cases y)
  with step have IH: "inc_reach Atomic (\<lambda>_. (False, ())) (\<lambda>_. ()) () (replicate 4 100000) b"
    "inc_reach Bare (\<lambda>_. (False, ())) (\<lambda>_. ()) () (replicate 4 100000) m" by simp_all
  from step(2) [unfolded y] show ?case
    using IH unfolding inc_reach_def increment_atomic_def increment_normal_def
    by (cases rule: atomic_demo_step.cases)
      (auto simp: increment_atomic_def increment_normal_def intro: rtranclp.rtrancl_into_rtrancl)
qed

subsection \<open>Properties\<close>

text \<open>
  The joined threads of \<^verbatim>\<open>mutex.cpp\<close> leave 100000 in the counter, those of \<^verbatim>\<open>atomic_demo.cpp\<close> leave 400000 in the atomic one, and at most that,
  but by \<open>bare_loses\<close> not always that, in the other one.
\<close>

lemma mutex_main_counts:
  assumes "count_10k\<^sup>*\<^sup>* mutex_main s" "all_joined s"
  shows "count s = 100000"
proof -
  have "sum_list (replicate 10 (10000 :: nat)) = 100000" by (simp add: sum_list_replicate)
  moreover have "spinlock_init Pthread_Mutex = 0" by (simp add: spinlock_init_def)
  ultimately show ?thesis
    using spin.locked_reach [of Pthread_Mutex "spinlock_init Pthread_Mutex" "replicate 10 10000" s] inc_sum_done [of 100000 s] assms
    by (simp add: inc_reach_def count_10k_def mutex_main_def)
qed

lemma atomic_demo_counts:
  assumes "atomic_demo_step\<^sup>*\<^sup>* atomic_demo_main (a, n)"
  shows "all_joined a \<Longrightarrow> count a = 400000" "unat (count n) \<le> 400000"
proof -
  have total: "sum_list (replicate 4 (100000 :: nat)) = 400000" by (simp add: sum_list_replicate)
  note parts = atomic_demo_parts [OF assms]
  show "all_joined a \<Longrightarrow> count a = 400000"
    using parts atomic_reach [of _ _ _ "replicate 4 100000" a] inc_sum_done [of 400000 a] total by auto
  have "bare_inv 400000 n" using bare_reach [OF conjunct2 [OF parts]] total by simp
  then show "unat (count n) \<le> 400000" unfolding bare_inv_def by (meson diff_le_self le_trans)
qed

end
