(* ===== verification/Futures.thy ===== *)
theory Futures
  imports Prelude
begin

text \<open>
  \<^verbatim>\<open>promise.cpp\<close>, \<^verbatim>\<open>future.cpp\<close> and \<^verbatim>\<open>packaged_task.cpp\<close> of \<^verbatim>\<open>1_CPBase/thread\<close>: \<open>main\<close> starts a thread, waits for what it
  puts into the shared state of a promise, an \<open>async\<close> call or a packaged task, value or exception, and joins it. Texts are given in English; sleeping and the
  other output are left out.
\<close>

subsection \<open>What the threads compute\<close>

datatype 'a outcome = Value 'a | Exception string

text \<open>\<open>process_data\<close>: the exception is thrown and caught inside, and handed to the promise.\<close>

definition process_data :: "bool \<Rightarrow> string outcome" where
  "process_data success = (if \<not> success then Exception ''processing failed'' else Value ''processed'')"

definition heavy_computation :: "int \<Rightarrow> int outcome" where
  "heavy_computation x = Value (x * x)"

definition compute :: "int \<Rightarrow> int \<Rightarrow> int outcome" where
  "compute a b = Value (a + b)"

subsection \<open>A thread and the one who waits for it\<close>

datatype waiter = Starting | Waiting | Joining

record 'a future_run =
  jobs :: "'a outcome list"           \<comment> \<open>what the threads still to be joined compute, the running one first\<close>
  shared_state :: "'a outcome option"
  running :: bool
  waiter :: waiter
  printed :: "'a outcome list"        \<comment> \<open>results, and exceptions caught\<close>

text \<open>\<open>set_value\<close> and \<open>set_exception\<close>; on a state that is set already they throw (\<open>None\<close>).\<close>

definition set_outcome :: "'a outcome \<Rightarrow> 'a outcome option \<Rightarrow> 'a outcome option option" where
  "set_outcome r x = (if x = None then Some (Some r) else None)"

inductive future_step :: "'a future_run \<Rightarrow> 'a future_run \<Rightarrow> bool" where
  start_thread: "waiter s = Starting \<Longrightarrow> jobs s \<noteq> [] \<Longrightarrow>
    future_step s (s\<lparr>shared_state := None, running := True, waiter := Waiting\<rparr>)"
| finish: "running s \<Longrightarrow> jobs s = r # rs \<Longrightarrow> set_outcome r (shared_state s) = Some x \<Longrightarrow>
    future_step s (s\<lparr>shared_state := x, running := False\<rparr>)"
| get: "waiter s = Waiting \<Longrightarrow> shared_state s = Some r \<Longrightarrow>
    future_step s (s\<lparr>printed := printed s @ [r], waiter := Joining\<rparr>)"
| join: "waiter s = Joining \<Longrightarrow> \<not> running s \<Longrightarrow>
    future_step s (s\<lparr>jobs := tl (jobs s), waiter := Starting\<rparr>)"

definition future_start :: "'a outcome list \<Rightarrow> 'a future_run" where
  "future_start js = \<lparr>jobs = js, shared_state = None, running = False, waiter = Starting, printed = []\<rparr>"

inductive future_reach :: "'a outcome list \<Rightarrow> 'a future_run \<Rightarrow> bool" for js where
  start: "future_reach js (future_start js)"
| step: "future_reach js s \<Longrightarrow> future_step s s' \<Longrightarrow> future_reach js s'"

text \<open>The three programs.\<close>

definition promise_main :: "string outcome list" where
  "promise_main = [process_data True, process_data False]"

definition future_main :: "int outcome list" where
  "future_main = [heavy_computation 10]"

definition packaged_task_main :: "int outcome list" where
  "packaged_task_main = [compute 2 3]"

definition future_ended :: "'a future_run \<Rightarrow> bool" where
  "future_ended s \<longleftrightarrow> jobs s = [] \<and> waiter s = Starting"

subsection \<open>The result always arrives\<close>

definition future_inv :: "'a outcome list \<Rightarrow> 'a future_run \<Rightarrow> bool" where
  "future_inv js s \<longleftrightarrow> (if waiter s = Joining then js = printed s @ tl (jobs s) else js = printed s @ jobs s) \<and>
     (waiter s \<noteq> Starting \<longrightarrow> jobs s \<noteq> []) \<and> (waiter s = Starting \<longrightarrow> \<not> running s) \<and>
     (waiter s = Waiting \<longrightarrow> shared_state s = (if running s then None else Some (hd (jobs s)))) \<and> (waiter s = Joining \<longrightarrow> \<not> running s)"

lemma future_step_inv: "future_step s s' \<Longrightarrow> future_inv js s \<Longrightarrow> future_inv js s'"
proof (induction rule: future_step.induct)
  case (finish s r rs x)
  then show ?case by (cases "waiter s") (auto simp: future_inv_def set_outcome_def split: if_splits)
next
  case (get s r)
  then show ?case by (cases "jobs s") (auto simp: future_inv_def split: if_splits)
qed (auto simp: future_inv_def)

lemma future_reach_inv: "future_reach js s \<Longrightarrow> future_inv js s"
proof (induction rule: future_reach.induct)
  case start
  then show ?case by (simp add: future_start_def future_inv_def)
qed (rule future_step_inv)

definition future_work :: "'a future_run \<Rightarrow> nat" where
  "future_work s = 4 * length (jobs s) - (case waiter s of Starting \<Rightarrow> 0 | Waiting \<Rightarrow> if running s then 1 else 2 | Joining \<Rightarrow> 3)"

lemma future_step_work: "future_step s s' \<Longrightarrow> future_inv js s \<Longrightarrow> future_work s' < future_work s"
proof (induction rule: future_step.induct)
  case (start_thread s)
  then show ?case by (cases "jobs s") (auto simp: future_work_def)
next
  case (finish s r rs x)
  then show ?case by (cases "waiter s") (auto simp: future_work_def future_inv_def)
next
  case (get s r)
  then show ?case by (cases "jobs s") (auto simp: future_work_def future_inv_def split: if_splits)
next
  case (join s)
  then show ?case by (cases "jobs s") (auto simp: future_work_def future_inv_def)
qed

lemma future_moves:
  assumes "future_inv js s" "\<not> future_ended s"
  shows "\<exists>s'. future_step s s'"
proof (cases "waiter s")
  case Starting
  with assms(2) show ?thesis using future_step.start_thread [of s] by (auto simp: future_ended_def)
next
  case Waiting
  then obtain r rs where j: "jobs s = r # rs" using assms(1) by (cases "jobs s") (auto simp: future_inv_def)
  show ?thesis
  proof (cases "running s")
    case True
    then have "set_outcome r (shared_state s) = Some (Some r)" using assms(1) Waiting by (simp add: future_inv_def set_outcome_def)
    from future_step.finish [OF True j this] show ?thesis by blast
  next
    case False
    with assms(1) Waiting future_step.get [of s] show ?thesis by (auto simp: future_inv_def)
  qed
next
  case Joining
  with assms(1) future_step.join [of s] show ?thesis by (auto simp: future_inv_def)
qed

text \<open>
  However \<open>main\<close> and its threads interleave, the program ends, and it has printed the outcome of every thread in order: for
  \<^verbatim>\<open>promise.cpp\<close> the value and then the exception, for \<^verbatim>\<open>future.cpp\<close> 100 and for \<^verbatim>\<open>packaged_task.cpp\<close> 5.
\<close>

theorem futures_deliver:
  assumes "future_reach js s"
  shows "if future_ended s then printed s = js
    else (\<exists>s'. future_step s s') \<and> (\<forall>s'. future_step s s' \<longrightarrow> future_work s' < future_work s)"
proof -
  have inv: "future_inv js s" using assms by (rule future_reach_inv)
  have "printed s = js" if "future_ended s" using that inv by (simp add: future_ended_def future_inv_def)
  with future_moves [OF inv] future_step_work [OF _ inv] show ?thesis by auto
qed

lemma futures_main_print: "promise_main = [Value ''processed'', Exception ''processing failed'']" "future_main = [Value 100]"
  "packaged_task_main = [Value 5]"
  by (simp_all add: promise_main_def future_main_def packaged_task_main_def process_data_def heavy_computation_def compute_def)

theorem futures_deliver_witness: "\<exists>s'. future_step (future_start promise_main) s' \<and> future_work s' < future_work (future_start promise_main)"
  using futures_deliver [OF future_reach.start [of promise_main]]
  by (auto simp: future_ended_def future_start_def promise_main_def split: if_splits)

end
