(* ===== verification/Guards.thy ===== *)
theory Guards
  imports Interleaving
begin

text \<open>
  \<^verbatim>\<open>1_CPBase/thread/lock_guard_vs_unique_lock.cpp\<close>: a thread that holds a mutex through a \<open>lock_guard\<close>, and one that holds it through a
  \<open>unique_lock\<close>, lets it go and takes it again. Both locks are objects that know whether they own the mutex.
\<close>

subsection \<open>The program\<close>

datatype said = Lock_guard_locked | Unique_lock_locked | Unique_lock_relocked

datatype guard_op =
    Construct          \<comment> \<open>\<open>lock_guard lg(mtx)\<close>, \<open>unique_lock ul(mtx)\<close>\<close>
  | Print said
  | Unlock             \<comment> \<open>\<open>ul.unlock()\<close>\<close>
  | Lock               \<comment> \<open>\<open>ul.lock()\<close>\<close>
  | Scope_end          \<comment> \<open>the destructor\<close>

definition usingLockGuard :: "guard_op list" where
  "usingLockGuard = [Construct, Print Lock_guard_locked, Scope_end]"

definition usingUniqueLock :: "guard_op list" where
  "usingUniqueLock = [Construct, Print Unique_lock_locked, Unlock, Lock, Print Unique_lock_relocked, Scope_end]"

record guard_run =
  mtx :: "nat option"
  owns :: "nat \<Rightarrow> bool"             \<comment> \<open>what the lock object of the thread says\<close>
  ops :: "nat \<Rightarrow> guard_op list"
  said :: "(nat \<times> said) list"
  threw :: bool                    \<comment> \<open>\<open>std::system_error\<close>\<close>

definition guard_main :: guard_run where
  "guard_main = \<lparr>mtx = None, owns = (\<lambda>_. False), ops = (\<lambda>_. [])(0 := usingLockGuard, 1 := usingUniqueLock), said = [], threw = False\<rparr>"

definition guard_take :: "nat \<Rightarrow> guard_run \<Rightarrow> guard_run option" where
  "guard_take t s = (if mtx s = None then Some (s\<lparr>mtx := Some t, owns := (owns s)(t := True)\<rparr>) else None)"

definition guard_drop :: "nat \<Rightarrow> guard_run \<Rightarrow> guard_run" where
  "guard_drop t s = s\<lparr>mtx := None, owns := (owns s)(t := False)\<rparr>"

text \<open>The next operation of thread \<open>t\<close>; \<open>None\<close>: it has none, or is blocked.\<close>

definition guard_step :: "nat \<Rightarrow> guard_run \<Rightarrow> guard_run option" where
  "guard_step t s =
     (case ops s t of
        [] \<Rightarrow> None
      | c # cs \<Rightarrow> map_option (\<lambda>s'. s'\<lparr>ops := (ops s)(t := cs)\<rparr>)
          (case c of
             Construct \<Rightarrow> guard_take t s
           | Print m \<Rightarrow> Some (s\<lparr>said := said s @ [(t, m)]\<rparr>)
           | Unlock \<Rightarrow> Some (if owns s t then guard_drop t s else s\<lparr>threw := True\<rparr>)
           | Lock \<Rightarrow> if owns s t then Some (s\<lparr>threw := True\<rparr>) else guard_take t s
           | Scope_end \<Rightarrow> Some (if owns s t then guard_drop t s else s)))"

inductive guard_reach :: "guard_run \<Rightarrow> bool" where
  start: "guard_reach guard_main"
| step: "guard_reach s \<Longrightarrow> guard_step t s = Some s' \<Longrightarrow> guard_reach s'"

subsection \<open>Programs that use their locks well\<close>

fun guarded_ops :: "bool \<Rightarrow> guard_op list \<Rightarrow> bool" where
  "guarded_ops own [] = (\<not> own)"
| "guarded_ops own (Construct # cs) = (\<not> own \<and> guarded_ops True cs)"
| "guarded_ops own (Lock # cs) = (\<not> own \<and> guarded_ops True cs)"
| "guarded_ops own (Print m # cs) = (own \<and> guarded_ops True cs)"
| "guarded_ops own (Unlock # cs) = (own \<and> guarded_ops False cs)"
| "guarded_ops own (Scope_end # cs) = guarded_ops False cs"

fun prints :: "guard_op list \<Rightarrow> said list" where
  "prints [] = []"
| "prints (Print m # cs) = m # prints cs"
| "prints (_ # cs) = prints cs"

definition guard_inv :: "guard_run \<Rightarrow> bool" where
  "guard_inv s \<longleftrightarrow> \<not> threw s \<and> (\<forall>t. owns s t \<longleftrightarrow> mtx s = Some t) \<and> (\<forall>t. guarded_ops (owns s t) (ops s t)) \<and>
     (\<forall>t. 2 \<le> t \<longrightarrow> ops s t = []) \<and>
     sent_of (map (Pair 0) (prints usingLockGuard)) (map (Pair 1) (prints usingUniqueLock))
       (map (Pair 0) (prints (ops s 0))) (map (Pair 1) (prints (ops s 1))) (said s)"

lemma guard_invD: "guard_inv s \<Longrightarrow> guarded_ops (owns s t) (ops s t)"
  unfolding guard_inv_def by blast

lemma guard_inv_other:
  assumes "guard_inv s" "ops s t = c # cs" "prints (c # cs) = prints cs" "s' = s\<lparr>mtx := m, owns := (owns s)(t := b), ops := (ops s)(t := cs)\<rparr>"
    and "guarded_ops b cs" "\<And>u. ((owns s)(t := b)) u \<longleftrightarrow> m = Some u"
  shows "guard_inv s'"
proof -
  have t: "t < 2" using assms(1,2) unfolding guard_inv_def by (metis list.distinct(1) not_le)
  have same: "prints (ops s' u) = prints (ops s u)" for u using assms(2,3,4) by simp
  have "\<not> threw s'" "said s' = said s" using assms(1) by (simp_all add: assms(4) guard_inv_def)
  moreover have "owns s' u \<longleftrightarrow> mtx s' = Some u" for u using assms(6) [of u] by (simp add: assms(4))
  moreover have "guarded_ops (owns s' u) (ops s' u)" for u
    using guard_invD [OF assms(1), of u] assms(5) by (simp add: assms(4))
  moreover have "ops s' u = []" if "2 \<le> u" for u using assms(1) t that by (simp add: assms(4) guard_inv_def)
  ultimately show ?thesis using assms(1) by (simp add: guard_inv_def same)
qed

lemma guard_step_inv:
  assumes "guard_inv s" "guard_step t s = Some s'"
  shows "guard_inv s' \<and> length (ops s' 0) + length (ops s' 1) < length (ops s 0) + length (ops s 1)"
proof -
  obtain c cs where c: "ops s t = c # cs" using assms(2) by (cases "ops s t") (auto simp: guard_step_def)
  have t: "t = 0 \<or> t = 1" using assms(1) c unfolding guard_inv_def by (metis One_nat_def less_2_cases_iff list.distinct(1) not_le)
  have own: "\<And>u. owns s u \<longleftrightarrow> mtx s = Some u" and ok: "guarded_ops (owns s t) (c # cs)"
    using assms(1) c unfolding guard_inv_def by (blast, metis)
  have fewer: "length (ops s' 0) + length (ops s' 1) < length (ops s 0) + length (ops s 1)"
    using assms(2) t c by (auto simp: guard_step_def)
  have takes: "guard_inv s'" if "guard_take t s = Some r" "s' = r\<lparr>ops := (ops s)(t := cs)\<rparr>" "guarded_ops True cs" "prints (c # cs) = prints cs" for r
    using that own by (intro guard_inv_other [OF assms(1) c that(4), where m = "Some t" and b = True])
      (auto simp: guard_take_def split: if_splits)
  have drops: "guard_inv s'" if "owns s t" "s' = (guard_drop t s)\<lparr>ops := (ops s)(t := cs)\<rparr>" "guarded_ops False cs" "prints (c # cs) = prints cs"
    using that own by (intro guard_inv_other [OF assms(1) c that(4), where m = None and b = False]) (auto simp: guard_drop_def)
  have "guard_inv s'"
  proof (cases c)
    case (Print m)
    have s': "s' = s\<lparr>said := said s @ [(t, m)], ops := (ops s)(t := cs)\<rparr>" using assms(2) c Print by (auto simp: guard_step_def)
    have "sent_of (map (Pair 0) (prints usingLockGuard)) (map (Pair 1) (prints usingUniqueLock))
        (map (Pair 0) (prints (ops s' 0))) (map (Pair 1) (prints (ops s' 1))) (said s')"
      using assms(1) t c Print sent_of_left [of _ _ "(t, m)"] sent_of_right [of _ _ _ "(t, m)"] by (auto simp: guard_inv_def s')
    moreover have "guarded_ops (owns s' u) (ops s' u)" for u
      using guard_invD [OF assms(1), of u] ok Print by (auto simp: s')
    moreover have "\<not> threw s'" "\<And>u. owns s' u \<longleftrightarrow> mtx s' = Some u" "\<And>u. 2 \<le> u \<Longrightarrow> ops s' u = []"
      using assms(1) t unfolding guard_inv_def by (auto simp: s')
    ultimately show ?thesis by (simp only: guard_inv_def) blast
  next
    case Construct
    with assms(2) c ok takes show ?thesis by (auto simp: guard_step_def)
  next
    case Lock
    with assms(2) c ok takes show ?thesis by (auto simp: guard_step_def split: if_splits)
  next
    case Unlock
    with assms(2) c ok drops show ?thesis by (auto simp: guard_step_def)
  next
    case Scope_end
    show ?thesis
    proof (cases "owns s t")
      case True
      with assms(2) c ok drops Scope_end show ?thesis by (auto simp: guard_step_def)
    next
      case False
      have "s' = s\<lparr>mtx := mtx s, owns := (owns s)(t := False), ops := (ops s)(t := cs)\<rparr>"
        using assms(2) c Scope_end False by (simp add: guard_step_def fun_upd_idem)
      moreover have "((owns s)(t := False)) u \<longleftrightarrow> mtx s = Some u" for u using own [of u] own [of t] False by auto
      moreover have "guarded_ops False cs" using ok Scope_end by simp
      ultimately show ?thesis using guard_inv_other [OF assms(1) c, where m = "mtx s" and b = False and s' = s'] by (simp add: Scope_end)
    qed
  qed
  then show ?thesis using fewer by (rule conjI)
qed

lemma guard_start: "guard_inv guard_main"
  by (simp add: guard_inv_def guard_main_def usingLockGuard_def usingUniqueLock_def sent_of_start)

lemma guard_reach_inv: "guard_reach s \<Longrightarrow> guard_inv s"
  by (induction rule: guard_reach.induct) (use guard_start guard_step_inv in blast)+

lemma guard_holder_steps: "guard_inv s \<Longrightarrow> mtx s = Some t \<Longrightarrow> guard_step t s \<noteq> None"
proof -
  assume s: "guard_inv s" "mtx s = Some t"
  then have own: "owns s t" unfolding guard_inv_def by blast
  with guard_invD [OF s(1), of t] obtain c cs where "ops s t = c # cs" "guarded_ops True (c # cs)" by (cases "ops s t") auto
  with own show "guard_step t s \<noteq> None" by (cases c) (auto simp: guard_step_def)
qed

lemma guard_free_steps: "mtx s = None \<Longrightarrow> ops s t \<noteq> [] \<Longrightarrow> guard_step t s \<noteq> None"
  by (cases "ops s t"; cases "hd (ops s t)") (auto simp: guard_step_def guard_take_def)

text \<open>
  No lock is let go or taken out of turn, the mutex is never held twice, and each step uses up one of the nine operations. While an
  operation is left some thread can go on, and at the end the mutex is free and all three lines are printed, the two of the second
  thread in order.
\<close>

theorem guards_end:
  assumes "guard_reach s"
  shows "\<not> threw s \<and> (\<forall>t. owns s t \<longleftrightarrow> mtx s = Some t)
    \<and> (\<forall>t s'. guard_step t s = Some s' \<longrightarrow> length (ops s' 0) + length (ops s' 1) < length (ops s 0) + length (ops s 1))
    \<and> ((\<forall>t. guard_step t s = None) \<longrightarrow> mtx s = None \<and> (\<forall>t. ops s t = [])
         \<and> said s \<in> shuffles [(0, Lock_guard_locked)] [(1, Unique_lock_locked), (1, Unique_lock_relocked)])"
proof -
  note s = guard_reach_inv [OF assms]
  have idle: "mtx s = None \<and> (\<forall>t. ops s t = [])" if "\<forall>t. guard_step t s = None"
    using that guard_holder_steps [OF s] guard_free_steps [of s] by (cases "mtx s") auto
  have "said s \<in> shuffles [(0, Lock_guard_locked)] [(1, Unique_lock_locked), (1, Unique_lock_relocked)]" if "\<forall>t. guard_step t s = None"
  proof -
    have "ops s 0 = []" "ops s 1 = []" using idle [OF that] by simp_all
    then show ?thesis using s unfolding guard_inv_def by (simp add: sent_of_all usingLockGuard_def usingUniqueLock_def)
  qed
  moreover have "\<not> threw s" "\<forall>t. owns s t \<longleftrightarrow> mtx s = Some t" using s unfolding guard_inv_def by blast+
  ultimately show ?thesis using idle guard_step_inv [OF s] by blast
qed

end
