(* ===== verification/Smart_Pointers.thy ===== *)
theory Smart_Pointers
  imports Sockets
begin

text \<open>
  The smart pointer examples (\<^verbatim>\<open>1_CPBase/SmartPointer/sp_ex.cpp\<close> and \<^verbatim>\<open>sp_ex2.cpp\<close>). The objects of the
  two classes live in a store; \<open>shared_ptr\<close>, \<open>weak_ptr\<close> and \<open>unique_ptr\<close> are what the standard says they
  are: owners that count, watchers that do not, and sole owners. The statements of the programs are
  operations (\<open>sp_op\<close>), a program is the list of what it executes, destructors at the ends
  of blocks included, and what it prints is a list of \<open>printout\<close>s.
\<close>

subsection \<open>Objects, owners and printout\<close>

datatype class_name = Sample | Node

datatype message =
    Unique_demo | Shared_demo | Weak_demo | Cycle_demo
  | Moved_away | Got_shared | Not_got | Object_gone

datatype printout =
    Constructed class_name string
  | Destroyed class_name string
  | Shown class_name string
  | Counted nat
  | Said message

text \<open>A \<open>shared_ptr\<close> is a variable or the member \<open>next\<close> of an object, a \<open>weak_ptr\<close> a variable or the member \<open>prev\<close>.\<close>

datatype owner = Local string | Next nat

datatype watcher = Watch string | Prev nat

record store =
  object :: "nat \<Rightarrow> (class_name \<times> string) option"   \<comment> \<open>the objects alive\<close>
  strong :: "nat \<Rightarrow> nat"                          \<comment> \<open>the counts in the control blocks\<close>
  owns :: "owner \<Rightarrow> nat option"
  watches :: "watcher \<Rightarrow> nat option"
  sole :: "string \<Rightarrow> nat option"                   \<comment> \<open>the \<open>unique_ptr\<close>s\<close>
  fresh :: nat
  out :: "printout list"

definition empty_store :: store where
  "empty_store = \<lparr>object = (\<lambda>_. None), strong = (\<lambda>_. 0), owns = (\<lambda>_. None), watches = (\<lambda>_. None),
     sole = (\<lambda>_. None), fresh = 0, out = []\<rparr>"

definition print :: "printout \<Rightarrow> store \<Rightarrow> store" where
  "print x s = s\<lparr>out := out s @ [x]\<rparr>"

definition construct :: "class_name \<Rightarrow> string \<Rightarrow> store \<Rightarrow> store" where
  "construct c v s = print (Constructed c v)
     (s\<lparr>object := (object s)(fresh s := Some (c, v)), fresh := fresh s + 1\<rparr>)"

text \<open>The destructor prints, then the members go: \<open>prev\<close>, and \<open>next\<close>, whose object is the result.\<close>

definition destruct :: "nat \<Rightarrow> store \<Rightarrow> nat option \<times> store" where
  "destruct a s =
     (case object s a of
        None \<Rightarrow> (None, s)
      | Some (c, v) \<Rightarrow>
          (owns s (Next a),
           print (Destroyed c v)
             (s\<lparr>object := (object s)(a := None), watches := (watches s)(Prev a := None),
                owns := (owns s)(Next a := None)\<rparr>)))"

text \<open>A reference to \<open>a\<close> goes; the last one takes the object along, and with it the reference it holds.\<close>

fun release :: "nat \<Rightarrow> nat \<Rightarrow> store \<Rightarrow> fault + store" where
  "release 0 a s = Inl Diverges"
| "release (Suc n) a s =
     (let s1 = s\<lparr>strong := (strong s)(a := strong s a - 1)\<rparr>
      in if strong s1 a = 0 then
           case destruct a s1 of (None, s2) \<Rightarrow> Inr s2 | (Some b, s2) \<Rightarrow> release n b s2
         else Inr s1)"

definition drop_owner :: "owner \<Rightarrow> store \<Rightarrow> fault + store" where
  "drop_owner p s =
     (case owns s p of None \<Rightarrow> Inr s | Some a \<Rightarrow> release (Suc (fresh s)) a (s\<lparr>owns := (owns s)(p := None)\<rparr>))"

definition add_owner :: "owner \<Rightarrow> nat option \<Rightarrow> store \<Rightarrow> store" where
  "add_owner p x s =
     (case x of
        None \<Rightarrow> s\<lparr>owns := (owns s)(p := None)\<rparr>
      | Some a \<Rightarrow> s\<lparr>owns := (owns s)(p := Some a), strong := (strong s)(a := strong s a + 1)\<rparr>)"

text \<open>\<open>weak_ptr::lock\<close> and \<open>expired\<close>\<close>

definition lock_weak :: "watcher \<Rightarrow> store \<Rightarrow> nat option" where
  "lock_weak w s = (case watches s w of None \<Rightarrow> None | Some a \<Rightarrow> if strong s a = 0 then None else Some a)"

definition expired :: "watcher \<Rightarrow> store \<Rightarrow> bool" where
  "expired w s \<longleftrightarrow> lock_weak w s = None"

definition show_object :: "nat option \<Rightarrow> store \<Rightarrow> fault + store" where
  "show_object x s =
     (case x of None \<Rightarrow> Inl NullUse
      | Some a \<Rightarrow> (case object s a of None \<Rightarrow> Inl NullUse | Some (c, v) \<Rightarrow> Inr (print (Shown c v) s)))"

subsection \<open>The statements\<close>

datatype sp_op =
    Make_shared class_name string string   \<comment> \<open>a new object for a new variable\<close>
  | Copy_shared string string              \<comment> \<open>\<open>shared_ptr p = q;\<close>\<close>
  | Lock_shared string watcher             \<comment> \<open>\<open>auto p = w.lock()\<close>\<close>
  | Drop_shared string                     \<comment> \<open>\<open>p.reset()\<close>, or the end of \<open>p\<close>'s block\<close>
  | Link_next string string                \<comment> \<open>\<open>p->next = q;\<close>\<close>
  | Link_prev string string                \<comment> \<open>\<open>p->prev = q;\<close>\<close>
  | Watch_shared string string             \<comment> \<open>\<open>weak_ptr w = p;\<close>\<close>
  | Drop_watch string
  | Show_shared string
  | Count_shared string
  | Make_unique class_name string string
  | Move_unique string string              \<comment> \<open>\<open>unique_ptr u = std::move(v);\<close>\<close>
  | Show_unique string
  | Drop_unique string
  | Say message
  | Say_if_moved string message            \<comment> \<open>\<open>if (!u) \<dots>\<close>\<close>
  | Say_if_expired watcher message
  | Say_if_held string message             \<comment> \<open>in the branch where \<open>p\<close> is not null\<close>
  | Show_if_held string
  | Say_unless_held string message

definition drop_unique :: "string \<Rightarrow> store \<Rightarrow> fault + store" where
  "drop_unique u s =
     (case sole s u of
        None \<Rightarrow> Inr s
      | Some a \<Rightarrow>
          case destruct a (s\<lparr>sole := (sole s)(u := None)\<rparr>) of
            (None, s2) \<Rightarrow> Inr s2
          | (Some b, s2) \<Rightarrow> release (Suc (fresh s)) b s2)"

fun sp_exec :: "sp_op \<Rightarrow> store \<Rightarrow> fault + store" where
  "sp_exec (Make_shared c v p) s = Inr (add_owner (Local p) (Some (fresh s)) (construct c v s))"
| "sp_exec (Copy_shared p q) s = Inr (add_owner (Local p) (owns s (Local q)) s)"
| "sp_exec (Lock_shared p w) s = Inr (add_owner (Local p) (lock_weak w s) s)"
| "sp_exec (Drop_shared p) s = drop_owner (Local p) s"
| "sp_exec (Link_next p q) s =
     (case owns s (Local p) of
        None \<Rightarrow> Inl NullUse
      | Some a \<Rightarrow>
          let old = owns s (Next a); s1 = add_owner (Next a) (owns s (Local q)) s
          in case old of None \<Rightarrow> Inr s1 | Some b \<Rightarrow> release (Suc (fresh s)) b s1)"
| "sp_exec (Link_prev p q) s =
     (case owns s (Local p) of
        None \<Rightarrow> Inl NullUse
      | Some a \<Rightarrow> Inr (s\<lparr>watches := (watches s)(Prev a := owns s (Local q))\<rparr>))"
| "sp_exec (Watch_shared w p) s = Inr (s\<lparr>watches := (watches s)(Watch w := owns s (Local p))\<rparr>)"
| "sp_exec (Drop_watch w) s = Inr (s\<lparr>watches := (watches s)(Watch w := None)\<rparr>)"
| "sp_exec (Show_shared p) s = show_object (owns s (Local p)) s"
| "sp_exec (Count_shared p) s =
     Inr (print (Counted (case owns s (Local p) of None \<Rightarrow> 0 | Some a \<Rightarrow> strong s a)) s)"
| "sp_exec (Make_unique c v u) s = Inr ((construct c v s)\<lparr>sole := (sole s)(u := Some (fresh s))\<rparr>)"
| "sp_exec (Move_unique u v) s = Inr (s\<lparr>sole := (sole s)(u := sole s v, v := None)\<rparr>)"
| "sp_exec (Show_unique u) s = show_object (sole s u) s"
| "sp_exec (Drop_unique u) s = drop_unique u s"
| "sp_exec (Say m) s = Inr (print (Said m) s)"
| "sp_exec (Say_if_moved u m) s = Inr (if sole s u = None then print (Said m) s else s)"
| "sp_exec (Say_if_expired w m) s = Inr (if expired w s then print (Said m) s else s)"
| "sp_exec (Say_if_held p m) s = Inr (if owns s (Local p) \<noteq> None then print (Said m) s else s)"
| "sp_exec (Show_if_held p) s = (if owns s (Local p) \<noteq> None then show_object (owns s (Local p)) s else Inr s)"
| "sp_exec (Say_unless_held p m) s = Inr (if owns s (Local p) = None then print (Said m) s else s)"

subsection \<open>The programs\<close>

definition sp_ex_main :: "sp_op list" where
  "sp_ex_main =
    [Say Unique_demo, Make_unique Sample ''Unique1'' ''uPtr1'', Show_unique ''uPtr1'', Move_unique ''uPtr2'' ''uPtr1'',
     Say_if_moved ''uPtr1'' Moved_away, Show_unique ''uPtr2'', Drop_unique ''uPtr2'', Drop_unique ''uPtr1'',
     Say Shared_demo, Make_shared Sample ''Shared1'' ''sPtr1'', Copy_shared ''sPtr2'' ''sPtr1'', Count_shared ''sPtr1'',
     Show_shared ''sPtr2'', Drop_shared ''sPtr2'', Count_shared ''sPtr1'',
     Watch_shared ''wPtr'' ''sPtr1'', Lock_shared ''temp'' (Watch ''wPtr''), Say_if_held ''temp'' Got_shared, Show_if_held ''temp'',
     Drop_shared ''temp'', Drop_shared ''sPtr1'', Say_if_expired (Watch ''wPtr'') Object_gone,
     Say Cycle_demo, Make_shared Node ''Node1'' ''node1'', Make_shared Node ''Node2'' ''node2'',
     Link_next ''node1'' ''node2'', Link_prev ''node2'' ''node1'',
     Drop_shared ''node2'', Drop_shared ''node1'', Drop_watch ''wPtr'', Drop_shared ''sPtr1'']"

definition sp_ex2_main :: "sp_op list" where
  "sp_ex2_main =
    [Say Unique_demo, Make_unique Sample ''UniqueSample'' ''uptr1'', Show_unique ''uptr1'', Move_unique ''uptr2'' ''uptr1'',
     Say_if_moved ''uptr1'' Moved_away, Show_unique ''uptr2'', Drop_unique ''uptr2'', Drop_unique ''uptr1'',
     Say Shared_demo, Make_shared Sample ''SharedSample'' ''sptr1'', Count_shared ''sptr1'',
     Copy_shared ''sptr2'' ''sptr1'', Count_shared ''sptr1'', Show_shared ''sptr2'', Drop_shared ''sptr2'',
     Count_shared ''sptr1'', Show_shared ''sptr1'', Drop_shared ''sptr1'',
     Say Weak_demo, Make_shared Sample ''WeakDemoSample'' ''sharedSample'', Watch_shared ''wptr'' ''sharedSample'',
     Count_shared ''sharedSample'', Lock_shared ''lockedPtr'' (Watch ''wptr''), Say_if_held ''lockedPtr'' Got_shared,
     Show_if_held ''lockedPtr'', Say_unless_held ''lockedPtr'' Not_got, Drop_shared ''lockedPtr'',
     Drop_shared ''sharedSample'', Say_if_expired (Watch ''wptr'') Object_gone, Drop_watch ''wptr'', Drop_shared ''sharedSample'']"

definition printed :: "sp_op list \<Rightarrow> fault + printout list" where
  "printed prog = map_sum id out (run_events sp_exec prog empty_store)"

subsection \<open>The counts are right\<close>

definition refs :: "(owner \<Rightarrow> nat option) \<Rightarrow> nat \<Rightarrow> nat" where
  "refs f a = card {p. f p = Some a}"

definition balanced :: "store \<Rightarrow> bool" where
  "balanced s \<longleftrightarrow> (\<forall>c v. count_list (out s) (Constructed c v) =
     count_list (out s) (Destroyed c v) + card {a. object s a = Some (c, v)})"

text \<open>
  \<open>F\<close> is an object to which one more reference is in hand than the owners account for, \<open>G\<close> an
  object that is alive though it has no owner (any more, or yet).
\<close>

definition sp_inv :: "nat option \<Rightarrow> nat option \<Rightarrow> store \<Rightarrow> bool" where
  "sp_inv F G s \<longleftrightarrow>
     (\<forall>a \<ge> fresh s. object s a = None \<and> strong s a = 0) \<and>
     finite {p. owns s p \<noteq> None} \<and>
     (\<forall>a. strong s a = refs (owns s) a + (if F = Some a then 1 else 0)) \<and>
     (\<forall>a. object s a \<noteq> None \<longleftrightarrow> 0 < strong s a \<or> a \<in> ran (sole s) \<or> G = Some a) \<and>
     (\<forall>u v. sole s u = sole s v \<longrightarrow> sole s u = None \<or> u = v) \<and>
     (\<forall>a. a \<in> ran (sole s) \<or> G = Some a \<longrightarrow> strong s a = 0) \<and>
     (\<forall>a. G = Some a \<longrightarrow> a \<notin> ran (sole s)) \<and>
     (\<forall>a. owns s (Next a) \<noteq> None \<longrightarrow> object s a \<noteq> None) \<and> balanced s"

lemma sp_invD:
  assumes "sp_inv F G s"
  shows "fresh s \<le> a \<Longrightarrow> object s a = None \<and> strong s a = 0" "finite {p. owns s p \<noteq> None}"
    "strong s a = refs (owns s) a + (if F = Some a then 1 else 0)"
    "object s a \<noteq> None \<longleftrightarrow> 0 < strong s a \<or> a \<in> ran (sole s) \<or> G = Some a"
    "sole s u = sole s v \<Longrightarrow> sole s u = None \<or> u = v"
    "a \<in> ran (sole s) \<or> G = Some a \<Longrightarrow> strong s a = 0" "G = Some a \<Longrightarrow> a \<notin> ran (sole s)"
    "owns s (Next a) \<noteq> None \<Longrightarrow> object s a \<noteq> None" "balanced s"
  using assms unfolding sp_inv_def by blast+

lemma sp_invI:
  assumes "\<And>a. fresh s \<le> a \<Longrightarrow> object s a = None \<and> strong s a = 0" "finite {p. owns s p \<noteq> None}"
    "\<And>a. strong s a = refs (owns s) a + (if F = Some a then 1 else 0)"
    "\<And>a. object s a \<noteq> None \<longleftrightarrow> 0 < strong s a \<or> a \<in> ran (sole s) \<or> G = Some a"
    "\<And>u v. sole s u = sole s v \<Longrightarrow> sole s u = None \<or> u = v"
    "\<And>a. a \<in> ran (sole s) \<or> G = Some a \<Longrightarrow> strong s a = 0" "\<And>a. G = Some a \<Longrightarrow> a \<notin> ran (sole s)"
    "\<And>a. owns s (Next a) \<noteq> None \<Longrightarrow> object s a \<noteq> None" "balanced s"
  shows "sp_inv F G s"
  unfolding sp_inv_def using assms by blast

lemma refs_finite: "finite {p. f p \<noteq> None} \<Longrightarrow> finite {p. f p = Some a}"
  by (rule finite_subset [of _ "{p. f p \<noteq> None}"]) auto

lemma refs_update:
  assumes "finite {p. f p \<noteq> None}"
  shows "refs (f(p := x)) a + (if f p = Some a then 1 else 0) = refs f a + (if x = Some a then 1 else 0)"
proof -
  have r: "{q. (f(p := x)) q = Some a} = (if x = Some a then insert p ({q. f q = Some a} - {p}) else {q. f q = Some a} - {p})"
    by auto
  note fin = refs_finite [OF assms, of a]
  show ?thesis
  proof (cases "f p = Some a")
    case True
    define B where "B = {q. f q = Some a} - {p}"
    have "card {q. f q = Some a} = Suc (card B)" unfolding B_def by (rule card.remove) (use fin True in simp_all)
    moreover have "finite B" "p \<notin> B" using fin by (auto simp: B_def)
    ultimately show ?thesis unfolding refs_def r using True by (simp flip: B_def)
  next
    case False
    then have "{q. f q = Some a} - {p} = {q. f q = Some a}" by auto
    with fin False show ?thesis unfolding refs_def r by simp
  qed
qed

lemma finite_owners_update: "finite {p. f p \<noteq> None} \<Longrightarrow> finite {q. (f(p := x)) q \<noteq> None}"
  by (rule finite_subset [of _ "insert p {p. f p \<noteq> None}"]) auto

lemma sp_inv_alive_finite: "sp_inv F G s \<Longrightarrow> finite {a. object s a \<noteq> None} \<and> card {a. object s a \<noteq> None} \<le> fresh s"
proof -
  assume "sp_inv F G s"
  then have sub: "{a. object s a \<noteq> None} \<subseteq> {..<fresh s}" using sp_invD(1) by (force simp: not_le [symmetric])
  with card_mono [OF finite_lessThan sub] show ?thesis by (simp add: finite_subset)
qed

lemma balanced_print:
  assumes "\<forall>c v. x \<noteq> Constructed c v \<and> x \<noteq> Destroyed c v"
  shows "balanced (print x s) = balanced s"
  using assms by (simp add: balanced_def print_def)

lemma sp_inv_print:
  assumes "\<forall>c v. x \<noteq> Constructed c v \<and> x \<noteq> Destroyed c v"
  shows "sp_inv F G (print x s) = sp_inv F G s"
  using balanced_print [OF assms] by (simp add: sp_inv_def) (simp add: print_def)

lemma sp_inv_watches [simp]: "sp_inv F G (s\<lparr>watches := w\<rparr>) = sp_inv F G s"
  by (simp add: sp_inv_def balanced_def)

lemma sp_inv_construct:
  assumes "sp_inv None None s"
  shows "sp_inv None (Some (fresh s)) (construct c v s)"
proof -
  note inv = sp_invD [OF assms]
  have new: "object s (fresh s) = None" "strong s (fresh s) = 0" using inv(1) by auto
  have "fresh s \<notin> ran (sole s)" using inv(4) [of "fresh s"] new by auto
  moreover have "balanced (construct c v s)"
  proof -
    have "{a. ((object s)(fresh s := Some (c, v))) a = Some (c', v')} =
        (if (c', v') = (c, v) then insert (fresh s) {a. object s a = Some (c', v')} else {a. object s a = Some (c', v')})" for c' v'
      using new by auto
    moreover have "finite {a. object s a = Some x}" for x
      using sp_inv_alive_finite [OF assms] by (auto intro: finite_subset [of _ "{a. object s a \<noteq> None}"])
    ultimately show ?thesis using inv(9) new unfolding balanced_def construct_def print_def by auto
  qed
  ultimately show ?thesis
    using inv new by (intro sp_invI) (auto simp: construct_def print_def)
qed

lemma sp_inv_destruct:
  assumes "sp_inv None (Some a) s"
  shows "\<exists>x s'. destruct a s = (x, s') \<and> sp_inv x None s' \<and> {b. object s' b \<noteq> None} = {b. object s b \<noteq> None} - {a} \<and>
    a \<in> {b. object s b \<noteq> None} \<and> fresh s' = fresh s"
proof -
  note inv = sp_invD [OF assms]
  obtain c v where o: "object s a = Some (c, v)" using inv(4) [of a] by auto
  let ?s = "print (Destroyed c v) (s\<lparr>object := (object s)(a := None), watches := (watches s)(Prev a := None),
      owns := (owns s)(Next a := None)\<rparr>)"
  have d: "destruct a s = (owns s (Next a), ?s)" by (simp add: destruct_def o)
  have bal: "balanced ?s"
  proof -
    have "{b. ((object s)(a := None)) b = Some (c', v')} = {b. object s b = Some (c', v')} - {a}" for c' v' by auto
    moreover have "finite {b. object s b = Some x}" for x
      using sp_inv_alive_finite [OF assms] by (auto intro: finite_subset [of _ "{a. object s a \<noteq> None}"])
    moreover from this have "card {b. object s b = Some (c, v)} = Suc (card ({b. object s b = Some (c, v)} - {a}))"
      by (rule card.remove) (use o in simp)
    moreover have "(c', v') \<noteq> (c, v) \<Longrightarrow> {b. object s b = Some (c', v')} - {a} = {b. object s b = Some (c', v')}" for c' v'
      using o by auto
    ultimately show ?thesis using inv(9) unfolding balanced_def print_def by auto
  qed
  have "sp_inv (owns s (Next a)) None ?s"
  proof (rule sp_invI)
    show "finite {p. owns ?s p \<noteq> None}" using finite_owners_update [OF inv(2), of "Next a" None] by (simp add: print_def)
    show "strong ?s b = refs (owns ?s) b + (if owns s (Next a) = Some b then 1 else 0)" for b
      using refs_update [OF inv(2), of "Next a" None b] inv(3) [of b] by (simp add: print_def)
    show "object ?s b \<noteq> None \<longleftrightarrow> 0 < strong ?s b \<or> b \<in> ran (sole ?s) \<or> None = Some b" for b
      using inv(4) [of b] inv(6) [of a] inv(7) [of a] by (auto simp: print_def)
    show "owns ?s (Next b) \<noteq> None \<Longrightarrow> object ?s b \<noteq> None" for b
      using inv(8) [of b] by (auto simp: print_def split: if_splits)
  qed (use inv bal in \<open>auto simp: print_def\<close>)
  with d o show ?thesis by (intro exI [of _ "owns s (Next a)"] exI [of _ ?s]) (auto simp: print_def)
qed

lemma sp_inv_add_owner:
  assumes inv: "sp_inv None G s" and x: "\<And>b. x = Some b \<Longrightarrow> 0 < strong s b \<or> G = Some b" "G = None \<or> x = G"
    and p: "\<And>c. p = Next c \<Longrightarrow> object s c \<noteq> None"
  shows "sp_inv (owns s p) None (add_owner p x s)"
proof -
  note inv = sp_invD [OF inv]
  have own: "owns (add_owner p x s) = (owns s)(p := x)" "sole (add_owner p x s) = sole s" "object (add_owner p x s) = object s"
    "fresh (add_owner p x s) = fresh s" "out (add_owner p x s) = out s"
    by (auto simp: add_owner_def split: option.splits)
  have str: "strong (add_owner p x s) a = strong s a + (if x = Some a then 1 else 0)" for a
    by (auto simp: add_owner_def split: option.splits)
  have nosole: "x = Some b \<Longrightarrow> b \<notin> ran (sole s) \<and> object s b \<noteq> None" for b
    using x(1) [of b] inv(4) [of b] inv(6) [of b] inv(7) [of b] by auto
  show ?thesis
  proof (rule sp_invI, unfold own str)
    show "finite {q. ((owns s)(p := x)) q \<noteq> None}" by (rule finite_owners_update [OF inv(2)])
    show "strong s a + (if x = Some a then 1 else 0) = refs ((owns s)(p := x)) a + (if owns s p = Some a then 1 else 0)" for a
      using refs_update [OF inv(2), of p x a] inv(3) [of a] by simp
    show "object s a \<noteq> None \<longleftrightarrow> 0 < strong s a + (if x = Some a then 1 else 0) \<or> a \<in> ran (sole s) \<or> None = Some a" for a
      using inv(4) [of a] x nosole [of a] by auto
    show "fresh s \<le> a \<Longrightarrow> object s a = None \<and> strong s a + (if x = Some a then 1 else 0) = 0" for a
      using inv(1) [of a] nosole [of a] by auto
    show "((owns s)(p := x)) (Next a) \<noteq> None \<Longrightarrow> object s a \<noteq> None" for a
      using inv(8) [of a] p by (auto split: if_splits)
    show "balanced (add_owner p x s)" using inv(9) by (simp add: balanced_def own)
    show "a \<in> ran (sole s) \<or> None = Some a \<Longrightarrow> strong s a + (if x = Some a then 1 else 0) = 0" for a
      using inv(6) [of a] nosole [of a] by auto
  qed (use inv(5) in auto)
qed

text \<open>Letting go of a reference ends: every object that goes along is one object less alive.\<close>

lemma sp_inv_release:
  "sp_inv (Some a) None s \<Longrightarrow> card {b. object s b \<noteq> None} < n \<Longrightarrow> \<exists>s'. release n a s = Inr s' \<and> sp_inv None None s'"
proof (induction n arbitrary: a s)
  case (Suc n)
  note inv = sp_invD [OF Suc.prems(1)]
  have pos: "0 < strong s a" using inv(3) [of a] by simp
  let ?s1 = "s\<lparr>strong := (strong s)(a := strong s a - 1)\<rparr>"
  have s1: "sp_inv None (if strong ?s1 a = 0 then Some a else None) ?s1"
  proof (rule sp_invI)
    show "strong ?s1 b = refs (owns ?s1) b + (if None = Some b then 1 else 0)" for b using inv(3) [of b] by auto
    show "object ?s1 b \<noteq> None \<longleftrightarrow> 0 < strong ?s1 b \<or> b \<in> ran (sole ?s1) \<or> (if strong ?s1 a = 0 then Some a else None) = Some b" for b
      using inv(4) [of b] pos by auto
    show "b \<in> ran (sole ?s1) \<or> (if strong ?s1 a = 0 then Some a else None) = Some b \<Longrightarrow> strong ?s1 b = 0" for b
      using inv(6) [of b] pos by (auto split: if_splits)
    show "(if strong ?s1 a = 0 then Some a else None) = Some b \<Longrightarrow> b \<notin> ran (sole ?s1)" for b
      using inv(6) [of b] pos by (auto split: if_splits)
    show "balanced ?s1" using inv(9) by (simp add: balanced_def)
    show "fresh ?s1 \<le> b \<Longrightarrow> object ?s1 b = None \<and> strong ?s1 b = 0" for b using inv(1) [of b] by auto
  qed (use inv(2,5,8) in simp_all)
  show ?case
  proof (cases "strong ?s1 a = 0")
    case False
    with s1 show ?thesis by simp
  next
    case True
    with s1 have "sp_inv None (Some a) ?s1" by simp
    from sp_inv_destruct [OF this] obtain x s' where d: "destruct a ?s1 = (x, s')" "sp_inv x None s'"
      "{b. object s' b \<noteq> None} = {b. object s b \<noteq> None} - {a}" "a \<in> {b. object s b \<noteq> None}" by auto
    have "card {b. object s b \<noteq> None} = Suc (card {b. object s' b \<noteq> None})"
      unfolding d(3) by (rule card.remove) (use sp_inv_alive_finite [OF Suc.prems(1)] d(4) in simp_all)
    with Suc.prems(2) have "card {b. object s' b \<noteq> None} < n" by simp
    with Suc.IH [of _ s'] d True show ?thesis by (cases x) auto
  qed
qed simp

lemma sp_inv_drop:
  assumes "sp_inv (Some a) None s"
  shows "\<exists>s'. release (Suc (fresh s)) a s = Inr s' \<and> sp_inv None None s'"
  using sp_inv_release [OF assms] sp_inv_alive_finite [OF assms] by (auto simp: less_Suc_eq_le simp del: release.simps)

text \<open>What a program has to see to: new variables are new, and only pointers that are not null are used.\<close>

fun sp_may :: "sp_op \<Rightarrow> store \<Rightarrow> bool" where
  "sp_may (Make_shared c v p) s \<longleftrightarrow> owns s (Local p) = None"
| "sp_may (Copy_shared p q) s \<longleftrightarrow> owns s (Local p) = None"
| "sp_may (Lock_shared p w) s \<longleftrightarrow> owns s (Local p) = None"
| "sp_may (Link_next p q) s \<longleftrightarrow> owns s (Local p) \<noteq> None"
| "sp_may (Link_prev p q) s \<longleftrightarrow> owns s (Local p) \<noteq> None"
| "sp_may (Show_shared p) s \<longleftrightarrow> owns s (Local p) \<noteq> None"
| "sp_may (Make_unique c v u) s \<longleftrightarrow> sole s u = None"
| "sp_may (Move_unique u v) s \<longleftrightarrow> sole s u = None"
| "sp_may (Show_unique u) s \<longleftrightarrow> sole s u \<noteq> None"
| "sp_may _ s \<longleftrightarrow> True"

lemma owned_strong: "sp_inv F G s \<Longrightarrow> owns s p = Some a \<Longrightarrow> 0 < strong s a \<and> object s a \<noteq> None"
proof -
  assume inv: "sp_inv F G s" and p: "owns s p = Some a"
  have "card {q. owns s q = Some a} \<noteq> 0" using refs_finite [OF sp_invD(2) [OF inv], of a] p by auto
  then show ?thesis using sp_invD(3,4) [OF inv, of a] by (simp add: refs_def)
qed

lemma sp_exec_add:
  assumes "sp_inv None None s" "owns s (Local p) = None" "\<And>b. x = Some b \<Longrightarrow> 0 < strong s b"
  shows "sp_inv None None (add_owner (Local p) x s)"
  using sp_inv_add_owner [OF assms(1), of x "Local p"] assms(2,3) by simp

lemma sp_exec_show: "sp_inv None None s \<Longrightarrow> object s a \<noteq> None \<Longrightarrow> \<exists>s'. show_object (Some a) s = Inr s' \<and> sp_inv None None s'"
  by (auto simp: show_object_def sp_inv_print)

lemma ran_move:
  assumes "f u = None"
  shows "ran (f(u := f v, v := None)) = ran f"
proof (intro equalityI subsetI)
  fix x assume "x \<in> ran f"
  then obtain a where a: "f a = Some x" by (auto simp: ran_def)
  with assms have "(f(u := f v, v := None)) (if a = v then u else a) = Some x" by auto
  then show "x \<in> ran (f(u := f v, v := None))" unfolding ran_def by blast
qed (auto simp: ran_def split: if_splits)

lemma ran_drop:
  assumes "f u = Some a" "\<And>v. f v = Some a \<Longrightarrow> v = u"
  shows "ran (f(u := None)) = ran f - {a}"
proof (intro equalityI subsetI)
  fix x assume "x \<in> ran f - {a}"
  then obtain v where "f v = Some x" "x \<noteq> a" by (auto simp: ran_def)
  with assms(1) have "(f(u := None)) v = Some x" by auto
  then show "x \<in> ran (f(u := None))" unfolding ran_def by blast
next
  fix x assume "x \<in> ran (f(u := None))"
  then obtain v where "v \<noteq> u" "f v = Some x" by (auto simp: ran_def split: if_splits)
  with assms(2) [of v] show "x \<in> ran f - {a}" by (auto simp: ran_def)
qed

lemma sp_exec_unique:
  assumes "sp_inv None None s"
  shows "sole s u = None \<Longrightarrow> sp_inv None None ((construct c v s)\<lparr>sole := (sole s)(u := Some (fresh s))\<rparr>)"
    and "sole s u = None \<Longrightarrow> sp_inv None None (s\<lparr>sole := (sole s)(u := sole s v', v' := None)\<rparr>)"
    and "sole s u = Some a \<Longrightarrow> sp_inv None (Some a) (s\<lparr>sole := (sole s)(u := None)\<rparr>)"
proof -
  note inv = sp_invD [OF assms]
  have lt: "a \<in> ran (sole s) \<Longrightarrow> a < fresh s" for a using inv(1) [of a] inv(4) [of a] by force
  assume "sole s u = None"
  then have r: "ran ((sole s)(u := sole s v', v' := None)) = ran (sole s)" "ran ((sole s)(u := Some (fresh s))) = insert (fresh s) (ran (sole s))"
    using ran_move [of "sole s" u v'] ran_map_upd [of "sole s" u] by simp_all
  note inv' = sp_invD [OF sp_inv_construct [OF assms, of c v]]
  have "balanced ((construct c v s)\<lparr>sole := (sole s)(u := Some (fresh s))\<rparr>)" using inv'(9) by (simp add: balanced_def)
  moreover have "sole (construct c v s) = sole s" by (simp add: construct_def print_def)
  moreover have "sole s w = Some (fresh s) \<Longrightarrow> False" for w using lt [of "fresh s"] by (auto simp: ran_def)
  ultimately show "sp_inv None None ((construct c v s)\<lparr>sole := (sole s)(u := Some (fresh s))\<rparr>)"
    using inv' inv(5) by (intro sp_invI) (auto simp: r(2) split: if_splits)
  show "sp_inv None None (s\<lparr>sole := (sole s)(u := sole s v', v' := None)\<rparr>)" (is "sp_inv None None ?s")
  proof (rule sp_invI)
    show "sole ?s a = sole ?s b \<Longrightarrow> sole ?s a = None \<or> a = b" for a b
      using inv(5) [of a b] inv(5) [of a v'] inv(5) [of v' b] by (simp split: if_splits)
  qed (use inv in \<open>auto simp: r(1) balanced_def\<close>)
next
  note inv = sp_invD [OF assms]
  assume u: "sole s u = Some a"
  have only: "v = u" if "sole s v = Some a" for v using inv(5) [of v u] u that by simp
  have r: "ran ((sole s)(u := None)) = ran (sole s) - {a}"
    by (rule ran_drop [of "sole s" u a, OF u only])
  have a: "a \<in> ran (sole s)" using u by (auto simp: ran_def)
  show "sp_inv None (Some a) (s\<lparr>sole := (sole s)(u := None)\<rparr>)"
    using inv inv(6) [of a] a by (intro sp_invI) (auto simp: r balanced_def split: if_splits)
qed

lemma sp_exec_inv:
  assumes inv: "sp_inv None None s" and may: "sp_may op s"
  shows "\<exists>s'. sp_exec op s = Inr s' \<and> sp_inv None None s'"
proof (cases op)
  case (Make_shared c v p)
  have "owns (construct c v s) (Local p) = None" using may Make_shared by (simp add: construct_def print_def)
  then have "sp_inv None None (add_owner (Local p) (Some (fresh s)) (construct c v s))"
    using sp_inv_add_owner [OF sp_inv_construct [OF inv, of c v], of "Some (fresh s)" "Local p"] by simp
  with Make_shared show ?thesis by simp
next
  case (Copy_shared p q)
  with sp_exec_add [OF inv, of p "owns s (Local q)"] owned_strong [OF inv, of "Local q"] may show ?thesis by auto
next
  case (Lock_shared p w)
  have "lock_weak w s = Some b \<Longrightarrow> 0 < strong s b" for b by (auto simp: lock_weak_def split: option.splits if_splits)
  with sp_exec_add [OF inv, of p "lock_weak w s"] may Lock_shared show ?thesis by auto
next
  case (Drop_shared p)
  show ?thesis
  proof (cases "owns s (Local p)")
    case (Some a)
    have "add_owner (Local p) None s = s\<lparr>owns := (owns s)(Local p := None)\<rparr>" by (simp add: add_owner_def)
    with sp_inv_add_owner [OF inv, of None "Local p"] Some
    have "sp_inv (Some a) None (s\<lparr>owns := (owns s)(Local p := None)\<rparr>)" by simp
    from sp_inv_drop [OF this] Drop_shared Some show ?thesis by (simp add: drop_owner_def del: release.simps)
  qed (use inv Drop_shared in \<open>simp add: drop_owner_def\<close>)
next
  case (Link_next p q)
  with may obtain a where a: "owns s (Local p) = Some a" by auto
  let ?s = "add_owner (Next a) (owns s (Local q)) s"
  have "sp_inv (owns s (Next a)) None ?s"
    by (rule sp_inv_add_owner [OF inv]) (use owned_strong [OF inv] a in auto)
  moreover have "fresh ?s = fresh s" by (simp add: add_owner_def split: option.splits)
  ultimately show ?thesis
    using sp_inv_drop [of _ ?s] a Link_next by (cases "owns s (Next a)") (auto simp del: release.simps)
next
  case (Show_shared p)
  with may obtain a where "owns s (Local p) = Some a" by auto
  with sp_exec_show [OF inv, of a] owned_strong [OF inv this] Show_shared show ?thesis by simp
next
  case (Show_if_held p)
  show ?thesis
  proof (cases "owns s (Local p)")
    case (Some a)
    with sp_exec_show [OF inv, of a] owned_strong [OF inv Some] Show_if_held show ?thesis by simp
  qed (use inv Show_if_held in simp)
next
  case (Show_unique u)
  with may obtain a where "sole s u = Some a" by auto
  moreover from this have "object s a \<noteq> None" using sp_invD(4) [OF inv, of a] by (auto simp: ran_def)
  ultimately show ?thesis using sp_exec_show [OF inv, of a] Show_unique by simp
next
  case (Drop_unique u)
  show ?thesis
  proof (cases "sole s u")
    case (Some a)
    from sp_inv_destruct [OF sp_exec_unique(3) [OF inv Some]] obtain x s' where
      "destruct a (s\<lparr>sole := (sole s)(u := None)\<rparr>) = (x, s')" "sp_inv x None s'" "fresh s' = fresh s" by auto
    with sp_inv_drop [of _ s'] Drop_unique Some show ?thesis by (cases x) (auto simp: drop_unique_def simp del: release.simps)
  qed (use inv Drop_unique in \<open>simp add: drop_unique_def\<close>)
qed (use inv may sp_exec_unique [OF inv] in \<open>auto simp: sp_inv_print split: option.splits\<close>)

interpretation smart_pointers: event_loop "sp_inv None None" sp_may sp_exec
  by unfold_locales (rule sp_exec_inv)

lemma sp_inv_empty: "sp_inv None None empty_store"
  by (rule sp_invI) (simp_all add: empty_store_def refs_def balanced_def)

subsection \<open>Properties\<close>


text \<open>
  What the two programs print: the counts 2 and then 1, the weak pointer that finds its object
  and later finds it gone, and at the end the destructors of both nodes, in the order in which
  they let go of each other. No object is left over.
\<close>

theorem smart_pointer_programs_print:
  "printed sp_ex_main =
     Inr [Said Unique_demo, Constructed Sample ''Unique1'', Shown Sample ''Unique1'', Said Moved_away,
       Shown Sample ''Unique1'', Destroyed Sample ''Unique1'',
       Said Shared_demo, Constructed Sample ''Shared1'', Counted 2, Shown Sample ''Shared1'', Counted 1,
       Said Got_shared, Shown Sample ''Shared1'', Destroyed Sample ''Shared1'', Said Object_gone,
       Said Cycle_demo, Constructed Node ''Node1'', Constructed Node ''Node2'', Destroyed Node ''Node1'', Destroyed Node ''Node2''] \<and>
   printed sp_ex2_main =
     Inr [Said Unique_demo, Constructed Sample ''UniqueSample'', Shown Sample ''UniqueSample'', Said Moved_away,
       Shown Sample ''UniqueSample'', Destroyed Sample ''UniqueSample'',
       Said Shared_demo, Constructed Sample ''SharedSample'', Counted 1, Counted 2, Shown Sample ''SharedSample'', Counted 1,
       Shown Sample ''SharedSample'', Destroyed Sample ''SharedSample'',
       Said Weak_demo, Constructed Sample ''WeakDemoSample'', Counted 1, Said Got_shared, Shown Sample ''WeakDemoSample'',
       Destroyed Sample ''WeakDemoSample'', Said Object_gone]"
  by (intro conjI) code_simp+

text \<open>As the comment of the source says: with \<open>shared_ptr\<close>s in both directions neither node is destroyed.\<close>

lemma cycle_leaks:
  "printed [Make_shared Node ''Node1'' ''node1'', Make_shared Node ''Node2'' ''node2'',
      Link_next ''node1'' ''node2'', Link_next ''node2'' ''node1'', Drop_shared ''node2'', Drop_shared ''node1''] =
    Inr [Constructed Node ''Node1'', Constructed Node ''Node2'']"
  by code_simp


end
