(* ===== verification/Copying.thy ===== *)
theory Copying
  imports Sockets
begin

text \<open>
  The copying examples (\<^verbatim>\<open>1_CPBase/copy/operator=.cpp\<close> and \<^verbatim>\<open>copy_example.cpp\<close>). What \<open>new\<close> returns
  is an index into a store of arrays, never used before; \<open>delete\<close> takes the array out, and
  a second \<open>delete\<close> or any use after it is a fault. Line 55 of the first program, which uses an
  \<open>operator[]\<close> the class does not have, and the output after it are left out of its \<open>main\<close>.
\<close>

subsection \<open>Arrays from new, and C strings in them\<close>

record 'a arrays =
  cells :: "nat \<Rightarrow> 'a list option"
  next_cell :: nat

definition no_arrays :: "'a arrays" where
  "no_arrays = \<lparr>cells = (\<lambda>_. None), next_cell = 0\<rparr>"

definition new_array :: "'a list \<Rightarrow> 'a arrays \<Rightarrow> nat \<times> 'a arrays" where
  "new_array xs h = (next_cell h, h\<lparr>cells := (cells h)(next_cell h := Some xs), next_cell := next_cell h + 1\<rparr>)"

definition delete_array :: "nat \<Rightarrow> 'a arrays \<Rightarrow> fault + 'a arrays" where
  "delete_array a h = (if cells h a = None then Inl (BadFree (of_nat a)) else Inr (h\<lparr>cells := (cells h)(a := None)\<rparr>))"

definition array_at :: "nat \<Rightarrow> 'a arrays \<Rightarrow> fault + 'a list" where
  "array_at a h = (case cells h a of None \<Rightarrow> Inl (BadAccess (of_nat a) 1) | Some xs \<Rightarrow> Inr xs)"

definition c_string :: "bytes \<Rightarrow> fault + bytes" where
  "c_string xs = (if 0 \<in> set xs then Inr (takeWhile (\<lambda>b. b \<noteq> 0) xs) else Inl (BadLength (int (length xs))))"

definition strlen :: "bytes \<Rightarrow> fault + nat" where
  "strlen xs = bindE (c_string xs) (\<lambda>s. Inr (length s))"

definition strcpy :: "nat \<Rightarrow> bytes \<Rightarrow> 8 word arrays \<Rightarrow> fault + 8 word arrays" where
  "strcpy a xs h =
     bindE (array_at a h) (\<lambda>dst. bindE (c_string xs) (\<lambda>s.
       if length s < length dst then Inr (h\<lparr>cells := (cells h)(a := Some (overwrite 0 (s @ [0]) dst))\<rparr>)
       else Inl (BadLength (int (length s + 1)))))"

subsection \<open>MyString\<close>

record my_string =
  data :: nat
  len :: nat

record strings =
  heap_of :: "8 word arrays"
  vars :: "string \<Rightarrow> my_string option"
  output_of :: "bytes list"

definition no_strings :: strings where
  "no_strings = \<lparr>heap_of = no_arrays, vars = (\<lambda>_. None), output_of = []\<rparr>"

definition var :: "string \<Rightarrow> strings \<Rightarrow> fault + my_string" where
  "var x s = (case vars s x of None \<Rightarrow> Inl NullUse | Some m \<Rightarrow> Inr m)"

text \<open>\<open>junk\<close> is what the new array happens to hold.\<close>

definition ms_construct :: "bytes \<Rightarrow> bytes \<Rightarrow> 8 word arrays \<Rightarrow> fault + (my_string \<times> 8 word arrays)" where
  "ms_construct junk str h =
     bindE (strlen str) (\<lambda>n.
       let (a, h1) = new_array (take (n + 1) (junk @ replicate (n + 1) 0)) h
       in bindE (strcpy a str h1) (\<lambda>h2. Inr (\<lparr>data = a, len = n\<rparr>, h2)))"

definition ms_destroy :: "my_string \<Rightarrow> 8 word arrays \<Rightarrow> fault + 8 word arrays" where
  "ms_destroy m h = delete_array (data m) h"

definition ms_print :: "my_string \<Rightarrow> 8 word arrays \<Rightarrow> fault + bytes" where
  "ms_print m h = bindE (array_at (data m) h) c_string"

text \<open>\<open>operator=\<close>, for two different objects.\<close>

definition ms_assign :: "bytes \<Rightarrow> my_string \<Rightarrow> my_string \<Rightarrow> 8 word arrays \<Rightarrow> fault + (my_string \<times> 8 word arrays)" where
  "ms_assign junk this str h =
     bindE (delete_array (data this) h) (\<lambda>h1.
       let n = len str; (a, h2) = new_array (take (n + 1) (junk @ replicate (n + 1) 0)) h1
       in bindE (array_at (data str) h2) (\<lambda>src.
            bindE (strcpy a src h2) (\<lambda>h3. Inr (\<lparr>data = a, len = n\<rparr>, h3))))"

datatype ms_op =
    Construct string bytes bytes      \<comment> \<open>\<open>MyString x(str);\<close>\<close>
  | Default_copy string string        \<comment> \<open>\<open>MyString x = y;\<close>, which copies the members\<close>
  | Assign string string bytes        \<comment> \<open>\<open>x = y;\<close>\<close>
  | Print_string string
  | Destroy string                    \<comment> \<open>the end of the block of \<open>x\<close>\<close>

fun ms_exec :: "ms_op \<Rightarrow> strings \<Rightarrow> fault + strings" where
  "ms_exec (Construct x str junk) s =
     bindE (ms_construct junk str (heap_of s)) (\<lambda>(m, h). Inr (s\<lparr>heap_of := h, vars := (vars s)(x := Some m)\<rparr>))"
| "ms_exec (Default_copy x y) s = bindE (var y s) (\<lambda>m. Inr (s\<lparr>vars := (vars s)(x := Some m)\<rparr>))"
| "ms_exec (Assign x y junk) s =
     (if x = y then Inr s
      else bindE (var x s) (\<lambda>this. bindE (var y s) (\<lambda>str.
        bindE (ms_assign junk this str (heap_of s)) (\<lambda>(m, h). Inr (s\<lparr>heap_of := h, vars := (vars s)(x := Some m)\<rparr>)))))"
| "ms_exec (Print_string x) s =
     bindE (var x s) (\<lambda>m. bindE (ms_print m (heap_of s)) (\<lambda>b. Inr (s\<lparr>output_of := output_of s @ [b]\<rparr>)))"
| "ms_exec (Destroy x) s =
     bindE (var x s) (\<lambda>m. bindE (ms_destroy m (heap_of s)) (\<lambda>h. Inr (s\<lparr>heap_of := h, vars := (vars s)(x := None)\<rparr>)))"

definition hello :: bytes where
  "hello = [72, 101, 108, 108, 111, 0]"

definition ms_main :: "ms_op list" where
  "ms_main = [Construct ''str1'' hello [], Default_copy ''str2'' ''str1'', Print_string ''str1'', Print_string ''str2'',
     Destroy ''str2'', Destroy ''str1'']"

subsection \<open>Strings that own their arrays\<close>

text \<open>Variable \<open>x\<close> holds the text \<open>t\<close>, in an array of its own.\<close>

definition holds :: "strings \<Rightarrow> string \<Rightarrow> bytes \<Rightarrow> bool" where
  "holds s x t \<longleftrightarrow> (\<exists>m xs. vars s x = Some m \<and> cells (heap_of s) (data m) = Some xs \<and> 0 \<in> set xs \<and>
     takeWhile (\<lambda>b. b \<noteq> 0) xs = t \<and> len m = length t)"

definition ms_inv :: "strings \<Rightarrow> bool" where
  "ms_inv s \<longleftrightarrow> (\<forall>x. vars s x \<noteq> None \<longrightarrow> (\<exists>t. holds s x t)) \<and>
     (\<forall>x y m n. vars s x = Some m \<longrightarrow> vars s y = Some n \<longrightarrow> data m = data n \<longrightarrow> x = y) \<and>
     (\<forall>a. cells (heap_of s) a \<noteq> None \<longrightarrow> (\<exists>x m. vars s x = Some m \<and> data m = a)) \<and>
     (\<forall>a \<ge> next_cell (heap_of s). cells (heap_of s) a = None)"

text \<open>Every use but the default copy.\<close>

fun ms_may :: "ms_op \<Rightarrow> strings \<Rightarrow> bool" where
  "ms_may (Construct x str junk) s \<longleftrightarrow> vars s x = None \<and> 0 \<in> set str"
| "ms_may (Default_copy x y) s \<longleftrightarrow> False"
| "ms_may (Assign x y junk) s \<longleftrightarrow> vars s x \<noteq> None \<and> vars s y \<noteq> None"
| "ms_may (Print_string x) s \<longleftrightarrow> vars s x \<noteq> None"
| "ms_may (Destroy x) s \<longleftrightarrow> vars s x \<noteq> None"

lemma takeWhile_zero: "0 \<notin> set t \<Longrightarrow> takeWhile (\<lambda>b. b \<noteq> 0) (t @ 0 # xs) = t" for t :: bytes
  by (induction t) auto

lemma c_string_ok: "0 \<in> set xs \<Longrightarrow> c_string xs = Inr (takeWhile (\<lambda>b. b \<noteq> 0) xs)"
  by (simp add: c_string_def)

text \<open>A text copied into a new array that is one byte longer.\<close>

lemma strcpy_new:
  assumes "0 \<in> set xs" "t = takeWhile (\<lambda>b. b \<noteq> 0) xs" "length raw = length t + 1"
  shows "strcpy (next_cell h) xs (h\<lparr>cells := (cells h)(next_cell h := Some raw), next_cell := next_cell h + 1\<rparr>) =
    Inr (h\<lparr>cells := (cells h)(next_cell h := Some (t @ [0])), next_cell := next_cell h + 1\<rparr>)"
  using assms(3) by (cases h) (simp add: strcpy_def array_at_def c_string_ok [OF assms(1)] overwrite_def flip: assms(2))

lemma ms_construct_effect:
  assumes "0 \<in> set str" "t = takeWhile (\<lambda>b. b \<noteq> 0) str"
  shows "ms_construct junk str h =
    Inr (\<lparr>data = next_cell h, len = length t\<rparr>, h\<lparr>cells := (cells h)(next_cell h := Some (t @ [0])), next_cell := next_cell h + 1\<rparr>)"
proof -
  let ?raw = "take (length t + 1) (junk @ replicate (length t + 1) 0)"
  have "length ?raw = length t + 1" by simp
  from strcpy_new [OF assms this, of h] show ?thesis
    unfolding ms_construct_def strlen_def c_string_ok [OF assms(1)] bindE_Inr assms(2) [symmetric] new_array_def Let_def
    by (simp del: take_append take_replicate)
qed

lemma ms_assign_effect:
  assumes "cells h (data this) \<noteq> None" "cells h (data str) = Some xs" "data this \<noteq> data str" "0 \<in> set xs"
    "t = takeWhile (\<lambda>b. b \<noteq> 0) xs" "len str = length t" "cells h (next_cell h) = None"
  shows "ms_assign junk this str h =
    Inr (\<lparr>data = next_cell h, len = length t\<rparr>,
      h\<lparr>cells := (cells h)(data this := None, next_cell h := Some (t @ [0])), next_cell := next_cell h + 1\<rparr>)"
proof -
  let ?raw = "take (length t + 1) (junk @ replicate (length t + 1) 0)"
  let ?h = "h\<lparr>cells := (cells h)(data this := None)\<rparr>"
  have "length ?raw = length t + 1" by simp
  note copy = strcpy_new [OF assms(4,5) this, of ?h]
  have "delete_array (data this) h = Inr ?h" using assms(1) by (simp add: delete_array_def)
  moreover have "array_at (data str) (?h\<lparr>cells := (cells ?h)(next_cell ?h := Some ?raw), next_cell := next_cell ?h + 1\<rparr>) = Inr xs"
    using assms(2,3,7) by (auto simp: array_at_def simp del: take_append take_replicate)
  ultimately show ?thesis
    using copy unfolding ms_assign_def new_array_def Let_def assms(6)
    by (simp del: take_append take_replicate)
qed

text \<open>Variable \<open>x\<close> gets an array that was never used, its old one, if it had one, being gone.\<close>

lemma ms_inv_new:
  assumes inv: "ms_inv s" and t: "0 \<notin> set t" and old: "\<And>m. vars s x = Some m \<Longrightarrow> dead = {data m}" "vars s x = None \<Longrightarrow> dead = {}"
    and s': "heap_of s' = (heap_of s)\<lparr>cells := (\<lambda>a. if a = next_cell (heap_of s) then Some (t @ [0]) else if a \<in> dead then None else cells (heap_of s) a),
        next_cell := next_cell (heap_of s) + 1\<rparr>"
      "vars s' = (vars s)(x := Some \<lparr>data = next_cell (heap_of s), len = length t\<rparr>)"
  shows "ms_inv s' \<and> holds s' x t \<and> (\<forall>y u. y \<noteq> x \<longrightarrow> holds s y u \<longrightarrow> holds s' y u)"
proof -
  let ?n = "next_cell (heap_of s)"
  have inj: "\<And>x y m n. vars s x = Some m \<Longrightarrow> vars s y = Some n \<Longrightarrow> data m = data n \<Longrightarrow> x = y"
    and own: "\<And>a. cells (heap_of s) a \<noteq> None \<Longrightarrow> \<exists>x m. vars s x = Some m \<and> data m = a"
    and new: "\<And>a. ?n \<le> a \<Longrightarrow> cells (heap_of s) a = None"
    and hold: "\<And>y. vars s y \<noteq> None \<Longrightarrow> \<exists>u. holds s y u"
    using inv unfolding ms_inv_def by blast+
  have live: "data m < ?n" if "vars s y = Some m" for y m
  proof (rule ccontr)
    assume "\<not> data m < ?n"
    with new [of "data m"] hold [of y] that show False by (auto simp: holds_def)
  qed
  have "takeWhile (\<lambda>b. b \<noteq> 0) (t @ [0]) = t" by (rule takeWhile_zero [OF t])
  then have x: "holds s' x t" by (simp add: holds_def s')
  have y: "holds s' y u" if "y \<noteq> x" "holds s y u" for y u
  proof -
    from that(2) obtain m where m: "vars s y = Some m" by (auto simp: holds_def)
    have "data m \<notin> dead" using old inj [OF m] that(1) by (cases "vars s x") auto
    with that m live [OF m] show ?thesis by (auto simp: holds_def s')
  qed
  have "ms_inv s'" unfolding ms_inv_def
  proof (intro conjI allI impI)
    fix y assume "vars s' y \<noteq> None"
    with x y hold [of y] show "\<exists>u. holds s' y u" by (cases "y = x") (auto simp: s')
  next
    fix y z m n assume "vars s' y = Some m" "vars s' z = Some n" "data m = data n"
    with inj [of y m z n] live [of y m] live [of z n] show "y = z" by (auto simp: s' split: if_splits)
  next
    fix a assume a: "cells (heap_of s') a \<noteq> None"
    show "\<exists>x m. vars s' x = Some m \<and> data m = a"
    proof (cases "a = ?n")
      case True
      then show ?thesis by (auto simp: s')
    next
      case False
      with a have "cells (heap_of s) a \<noteq> None" "a \<notin> dead" by (auto simp: s' split: if_splits)
      with own obtain z m where "vars s z = Some m" "data m = a" by blast
      moreover from this old \<open>a \<notin> dead\<close> have "z \<noteq> x" by auto
      ultimately show ?thesis by (auto simp: s')
    qed
  next
    fix a assume "next_cell (heap_of s') \<le> a"
    then show "cells (heap_of s') a = None" using new [of a] by (simp add: s')
  qed
  with x y show ?thesis by blast
qed

lemma ms_exec_construct:
  assumes "ms_inv s" "vars s x = None" "0 \<in> set str" "t = takeWhile (\<lambda>b. b \<noteq> 0) str"
  shows "\<exists>s'. ms_exec (Construct x str junk) s = Inr s' \<and> ms_inv s' \<and> holds s' x t \<and> (\<forall>y u. y \<noteq> x \<longrightarrow> holds s y u \<longrightarrow> holds s' y u)"
proof -
  have "0 \<notin> set t" unfolding assms(4) by (auto dest: set_takeWhileD)
  let ?s = "s\<lparr>heap_of := (heap_of s)\<lparr>cells := (cells (heap_of s))(next_cell (heap_of s) := Some (t @ [0])), next_cell := next_cell (heap_of s) + 1\<rparr>,
    vars := (vars s)(x := Some \<lparr>data = next_cell (heap_of s), len = length t\<rparr>)\<rparr>"
  have "ms_exec (Construct x str junk) s = Inr ?s" by (simp add: ms_construct_effect [OF assms(3,4)])
  moreover have "ms_inv ?s \<and> holds ?s x t \<and> (\<forall>y u. y \<noteq> x \<longrightarrow> holds s y u \<longrightarrow> holds ?s y u)"
    by (rule ms_inv_new [OF assms(1) \<open>0 \<notin> set t\<close>, of x "{}"]) (auto simp: assms(2) fun_upd_def cong: if_cong)
  ultimately show ?thesis by blast
qed

lemma ms_exec_assign:
  assumes "ms_inv s" "vars s x \<noteq> None" "holds s y t" "x \<noteq> y"
  shows "\<exists>s'. ms_exec (Assign x y junk) s = Inr s' \<and> ms_inv s' \<and> holds s' x t \<and> holds s' y t \<and>
    (\<forall>z u. z \<noteq> x \<longrightarrow> holds s z u \<longrightarrow> holds s' z u)"
proof -
  from assms(2) obtain m where m: "vars s x = Some m" by auto
  from assms(3) obtain n xs where n: "vars s y = Some n" "cells (heap_of s) (data n) = Some xs" "0 \<in> set xs"
    "t = takeWhile (\<lambda>b. b \<noteq> 0) xs" "len n = length t" by (auto simp: holds_def)
  have d: "data m \<noteq> data n" using assms(1,4) m n(1) unfolding ms_inv_def by blast
  obtain u where "holds s x u" using assms(1) m unfolding ms_inv_def by blast
  then have live: "cells (heap_of s) (data m) \<noteq> None" using m by (auto simp: holds_def)
  have free: "cells (heap_of s) (next_cell (heap_of s)) = None" using assms(1) by (simp add: ms_inv_def)
  have "0 \<notin> set t" unfolding n(4) by (auto dest: set_takeWhileD)
  let ?s = "s\<lparr>heap_of := (heap_of s)\<lparr>cells := (cells (heap_of s))(data m := None, next_cell (heap_of s) := Some (t @ [0])),
      next_cell := next_cell (heap_of s) + 1\<rparr>,
    vars := (vars s)(x := Some \<lparr>data = next_cell (heap_of s), len = length t\<rparr>)\<rparr>"
  have "ms_exec (Assign x y junk) s = Inr ?s"
    using assms(4) m n(1) by (simp add: var_def ms_assign_effect [OF live n(2) d n(3-5) free])
  moreover have "ms_inv ?s \<and> holds ?s x t \<and> (\<forall>y u. y \<noteq> x \<longrightarrow> holds s y u \<longrightarrow> holds ?s y u)"
  proof (rule ms_inv_new [OF assms(1) \<open>0 \<notin> set t\<close>, where dead = "{data m}"])
    have eq: "(cells (heap_of s))(data m := None, next_cell (heap_of s) := Some (t @ [0])) = (\<lambda>a. if a = next_cell (heap_of s) then Some (t @ [0])
        else if a \<in> {data m} then None else cells (heap_of s) a)" by (rule ext) simp
    show "heap_of ?s = (heap_of s)\<lparr>cells := (\<lambda>a. if a = next_cell (heap_of s) then Some (t @ [0]) else if a \<in> {data m} then None
        else cells (heap_of s) a), next_cell := next_cell (heap_of s) + 1\<rparr>"
      unfolding eq [symmetric] by simp
  qed (use m in simp_all)
  ultimately obtain s' where s': "ms_exec (Assign x y junk) s = Inr s'" "ms_inv s'" "holds s' x t"
    and rest: "\<And>y u. y \<noteq> x \<Longrightarrow> holds s y u \<Longrightarrow> holds s' y u" by blast
  have "holds s' y t" by (rule rest [OF _ assms(3)]) (use assms(4) in simp)
  with s' rest show ?thesis by (intro exI [of _ s'] conjI allI impI) simp_all
qed

lemma ms_exec_destroy:
  assumes "ms_inv s" "vars s x = Some m"
  shows "\<exists>s'. ms_exec (Destroy x) s = Inr s' \<and> ms_inv s'"
proof -
  obtain t where t: "holds s x t" using assms unfolding ms_inv_def by blast
  then have live: "cells (heap_of s) (data m) \<noteq> None" using assms(2) by (auto simp: holds_def)
  let ?s = "s\<lparr>heap_of := (heap_of s)\<lparr>cells := (cells (heap_of s))(data m := None)\<rparr>, vars := (vars s)(x := None)\<rparr>"
  have "ms_exec (Destroy x) s = Inr ?s" using assms(2) live by (simp add: var_def ms_destroy_def delete_array_def)
  moreover have "ms_inv ?s"
  proof -
    have other: "data n \<noteq> data m" if "vars s y = Some n" "y \<noteq> x" for y n
      using assms that unfolding ms_inv_def by blast
    have "holds ?s y u" if "holds s y u" "y \<noteq> x" for y u
      using that other by (auto simp: holds_def)
    moreover have "\<exists>u. holds s y u" if "vars ?s y \<noteq> None" for y
      using assms(1) that unfolding ms_inv_def by (auto split: if_splits)
    moreover have "y \<noteq> x" if "vars ?s y \<noteq> None" for y using that by auto
    ultimately have 1: "\<forall>y. vars ?s y \<noteq> None \<longrightarrow> (\<exists>u. holds ?s y u)" by blast
    have 2: "\<forall>y z m n. vars ?s y = Some m \<longrightarrow> vars ?s z = Some n \<longrightarrow> data m = data n \<longrightarrow> y = z"
      using assms(1) unfolding ms_inv_def by (auto split: if_splits)
    have 3: "\<forall>a. cells (heap_of ?s) a \<noteq> None \<longrightarrow> (\<exists>y n. vars ?s y = Some n \<and> data n = a)"
    proof (intro allI impI)
      fix a assume a: "cells (heap_of ?s) a \<noteq> None"
      then have "cells (heap_of s) a \<noteq> None" "a \<noteq> data m" by (auto split: if_splits)
      with assms(1) obtain y n where "vars s y = Some n" "data n = a" unfolding ms_inv_def by blast
      with \<open>a \<noteq> data m\<close> assms(2) show "\<exists>y n. vars ?s y = Some n \<and> data n = a" by (intro exI [of _ y] exI [of _ n]) auto
    qed
    have "\<forall>a \<ge> next_cell (heap_of ?s). cells (heap_of ?s) a = None" using assms(1) by (simp add: ms_inv_def)
    with 1 2 3 show ?thesis unfolding ms_inv_def by blast
  qed
  ultimately show ?thesis by blast
qed

lemma ms_exec_print:
  assumes "ms_inv s" "holds s x t"
  shows "ms_exec (Print_string x) s = Inr (s\<lparr>output_of := output_of s @ [t]\<rparr>)"
  using assms by (auto simp: holds_def var_def ms_print_def array_at_def c_string_ok)

lemma ms_exec_inv:
  assumes "ms_inv s" "ms_may op s"
  shows "\<exists>s'. ms_exec op s = Inr s' \<and> ms_inv s'"
proof (cases op)
  case (Construct x str junk)
  with assms ms_exec_construct [of s x str _ junk, OF assms(1) _ _ refl] show ?thesis by (auto simp del: ms_exec.simps)
next
  case (Assign x y junk)
  show ?thesis
  proof (cases "x = y")
    case False
    with assms Assign obtain t where "holds s y t" unfolding ms_inv_def by auto
    with assms Assign ms_exec_assign [of s x y t junk] False show ?thesis by (auto simp del: ms_exec.simps)
  qed (use assms(1) Assign in simp)
next
  case (Print_string x)
  with assms obtain t where "holds s x t" unfolding ms_inv_def by auto
  moreover have "ms_inv (s\<lparr>output_of := out\<rparr>)" for out using assms(1) by (simp add: ms_inv_def holds_def)
  ultimately show ?thesis using ms_exec_print [OF assms(1)] Print_string by auto
next
  case (Destroy x)
  with assms ms_exec_destroy [of s x] show ?thesis by (auto simp del: ms_exec.simps)
qed (use assms in auto)

interpretation my_strings: event_loop ms_inv ms_may ms_exec
  by unfold_locales (rule ms_exec_inv)

lemma ms_inv_empty: "ms_inv no_strings"
  by (simp add: ms_inv_def no_strings_def no_arrays_def)

lemma ms_main_faults: "run_events ms_exec ms_main no_strings = Inl (BadFree 0)"
  by (simp add: ms_main_def no_strings_def no_arrays_def hello_def ms_construct_def strlen_def c_string_def new_array_def
      strcpy_def array_at_def overwrite_def var_def ms_print_def ms_destroy_def delete_array_def)

subsection \<open>Shallow and deep copies of a number\<close>

text \<open>\<open>ShallowCopy\<close> and \<open>DeepCopy\<close> have one member, the index of an array of one \<open>int\<close>.\<close>

definition sc_construct :: "int \<Rightarrow> int arrays \<Rightarrow> nat \<times> int arrays" where
  "sc_construct v h = new_array [v] h"

definition sc_copy :: "nat \<Rightarrow> nat" where
  "sc_copy other = other"

definition dc_copy :: "nat \<Rightarrow> int arrays \<Rightarrow> fault + (nat \<times> int arrays)" where
  "dc_copy other h = bindE (array_at other h) (\<lambda>xs. Inr (new_array xs h))"

definition dc_destroy :: "nat \<Rightarrow> int arrays \<Rightarrow> fault + int arrays" where
  "dc_destroy d h = delete_array d h"

definition set_value :: "nat \<Rightarrow> int \<Rightarrow> int arrays \<Rightarrow> fault + int arrays" where
  "set_value d v h = bindE (array_at d h) (\<lambda>xs. Inr (h\<lparr>cells := (cells h)(d := Some (xs[0 := v]))\<rparr>))"

definition get_value :: "nat \<Rightarrow> int arrays \<Rightarrow> fault + int" where
  "get_value d h = bindE (array_at d h) (\<lambda>xs. if xs = [] then Inl (BadIndex 0) else Inr (hd xs))"

text \<open>The four numbers \<open>main\<close> prints, and the store when it has ended.\<close>

definition copy_example_main :: "fault + (int list \<times> int arrays)" where
  "copy_example_main =
     (let (shallowOrig, h1) = sc_construct 10 no_arrays; shallowCopy = sc_copy shallowOrig
      in bindE (set_value shallowOrig 20 h1) (\<lambda>h2.
         bindE (get_value shallowOrig h2) (\<lambda>a. bindE (get_value shallowCopy h2) (\<lambda>b.
         let (deepOrig, h3) = sc_construct 10 h2
         in bindE (dc_copy deepOrig h3) (\<lambda>(deepCopy, h4).
            bindE (set_value deepOrig 20 h4) (\<lambda>h5.
            bindE (get_value deepOrig h5) (\<lambda>c. bindE (get_value deepCopy h5) (\<lambda>d.
            bindE (dc_destroy deepCopy h5) (\<lambda>h6. bindE (dc_destroy deepOrig h6) (\<lambda>h7.
            Inr ([a, b, c, d], h7)))))))))))"

subsection \<open>Properties\<close>

text \<open>
  \<open>operator=\<close> makes a deep copy: afterwards both variables hold the same text in arrays of their
  own, every other variable what it held, and there is still one array for each variable, so that nothing has
  leaked; an assignment to itself changes nothing.
\<close>

theorem ms_assign_deep:
  assumes "ms_inv s" "vars s x \<noteq> None" "holds s y t"
  shows "\<exists>s'. ms_exec (Assign x y junk) s = Inr s' \<and> ms_inv s' \<and> holds s' x t \<and> holds s' y t \<and>
    (x = y \<longrightarrow> s' = s) \<and> (\<forall>z u. z \<noteq> x \<longrightarrow> holds s z u \<longrightarrow> holds s' z u)"
  using assms ms_exec_assign [OF assms] by (cases "x = y") auto

text \<open>
  C23: without the default copy the class is safe in every program that declares its variables once
  and uses none that is not declared: no fault, and at any time the arrays alive are those of the
  variables. With it, as in \<open>main\<close>, two variables have one array, and the second destructor
  deletes it again.
\<close>

theorem ms_safe_without_default_copy:
  assumes "possible ms_exec ms_may prog no_strings"
  shows "(\<exists>s. run_events ms_exec prog no_strings = Inr s \<and>
      {a. cells (heap_of s) a \<noteq> None} = {data m | x m. vars s x = Some m}) \<and>
    run_events ms_exec ms_main no_strings = Inl (BadFree 0)"
proof -
  from my_strings.run_inv [OF ms_inv_empty assms] obtain s where s: "run_events ms_exec prog no_strings = Inr s" "ms_inv s" by blast
  have "cells (heap_of s) (data m) \<noteq> None" if "vars s x = Some m" for x m
    using s(2) that unfolding ms_inv_def holds_def by (metis option.distinct(1) option.inject)
  then have "{a. cells (heap_of s) a \<noteq> None} = {data m | x m. vars s x = Some m}"
    using s(2) unfolding ms_inv_def by blast
  then show ?thesis using s(1) ms_main_faults by blast
qed

text \<open>
  The program on shallow and deep copies prints 20 and 20, for the shallow copy shares the number, and then 20 and
  10; the number of the shallow copies is never deleted.
\<close>

theorem copy_example_prints:
  "map_sum id fst copy_example_main = Inr [20, 20, 20, 10] \<and>
   map_sum id (\<lambda>(_, h). map (cells h) [0..<next_cell h]) copy_example_main = Inr [Some [20], None, None]"
  by (intro conjI) code_simp+

theorem ms_assign_deep_witness:
  "\<exists>s s'. holds s ''b'' [104] \<and> ms_exec (Assign ''a'' ''b'' []) s = Inr s' \<and> holds s' ''a'' [104] \<and> ms_inv s'"
proof -
  obtain s1 where s1: "ms_exec (Construct ''a'' [0] []) no_strings = Inr s1" "ms_inv s1" "holds s1 ''a'' []"
    using ms_exec_construct [OF ms_inv_empty, of "''a''" "[0]" "[]" "[]"] by (auto simp: no_strings_def simp del: ms_exec.simps)
  have "vars s1 ''b'' = None" using s1(1) by (auto simp: no_strings_def ms_construct_effect)
  from ms_exec_construct [OF s1(2) this, of "[104, 0]" "[104]" "[]"] obtain s2 where
    s2: "ms_inv s2" "holds s2 ''b'' [104]" "\<forall>y u. y \<noteq> ''b'' \<longrightarrow> holds s1 y u \<longrightarrow> holds s2 y u" by auto
  with s1(3) have "holds s2 ''a'' []" by simp
  then have "vars s2 ''a'' \<noteq> None" by (auto simp: holds_def)
  from ms_assign_deep [OF s2(1) this s2(2), of "[]"] s2(2) show ?thesis by blast
qed

theorem ms_safe_without_default_copy_witness:
  "\<exists>s. run_events ms_exec [Construct ''a'' [104, 0] []] no_strings = Inr s \<and>
     {a. cells (heap_of s) a \<noteq> None} = {data m | x m. vars s x = Some m}"
  using ms_safe_without_default_copy [of "[Construct ''a'' [104, 0] []]"]
  by (simp add: no_strings_def split: sum.splits del: ms_exec.simps)

end
