(* ===== verification/Language_Examples.thy ===== *)
theory Language_Examples
  imports Prelude
begin

text \<open>
  The straight-line programs of \<^verbatim>\<open>1_CPBase\<close>: \<^verbatim>\<open>vector_demo.cpp\<close>, \<^verbatim>\<open>forward.cpp\<close>, the programs on \<open>bind\<close> and \<open>function\<close>, \<^verbatim>\<open>lambda.cpp\<close>
  and \<^verbatim>\<open>LRReference/ex.cpp\<close>, each with what it uses of the language.
\<close>

subsection \<open>Vectors\<close>

text \<open>
  The elements and the capacity. When the room is used up the library takes a new block whose size it chooses: \<open>grow old needed\<close>, at least
  what is needed; a vector made from a list gets just its size, as libraries do. Positions beyond the end and elements of an empty vector are undefined behaviour, here faults.
\<close>

record 'a vector =
  elems :: "'a list"
  capacity :: nat

definition vector_ok :: "'a vector \<Rightarrow> bool" where
  "vector_ok v \<longleftrightarrow> length (elems v) \<le> capacity v"

definition room_for :: "(nat \<Rightarrow> nat \<Rightarrow> nat) \<Rightarrow> nat \<Rightarrow> nat \<Rightarrow> nat" where
  "room_for grow cap n = (if n \<le> cap then cap else grow cap n)"

definition vector_of :: "'a list \<Rightarrow> 'a vector" where
  "vector_of xs = \<lparr>elems = xs, capacity = length xs\<rparr>"

definition insert_at :: "(nat \<Rightarrow> nat \<Rightarrow> nat) \<Rightarrow> nat \<Rightarrow> 'a \<Rightarrow> 'a vector \<Rightarrow> fault + 'a vector" where
  "insert_at grow i x v =
     (if i \<le> length (elems v)
      then Inr \<lparr>elems = take i (elems v) @ x # drop i (elems v), capacity = room_for grow (capacity v) (Suc (length (elems v)))\<rparr>
      else Inl (BadIndex (int i)))"

definition push_back :: "(nat \<Rightarrow> nat \<Rightarrow> nat) \<Rightarrow> 'a \<Rightarrow> 'a vector \<Rightarrow> fault + 'a vector" where
  "push_back grow x v = Inr \<lparr>elems = elems v @ [x], capacity = room_for grow (capacity v) (Suc (length (elems v)))\<rparr>"

definition pop_back :: "'a vector \<Rightarrow> fault + 'a vector" where
  "pop_back v = (if elems v = [] then Inl (BadIndex (-1)) else Inr (v\<lparr>elems := butlast (elems v)\<rparr>))"

definition erase_at :: "nat \<Rightarrow> 'a vector \<Rightarrow> fault + 'a vector" where
  "erase_at i v =
     (if i < length (elems v) then Inr (v\<lparr>elems := take i (elems v) @ drop (Suc i) (elems v)\<rparr>) else Inl (BadIndex (int i)))"

text \<open>What \<open>main\<close> prints: the vector after each operation, and then its size, capacity, first and last element.\<close>

definition vector_main :: "(nat \<Rightarrow> nat \<Rightarrow> nat) \<Rightarrow> fault + (int list list \<times> nat \<times> nat \<times> int \<times> int)" where
  "vector_main grow =
     (let v0 = vector_of [1, 2, 3, 4, 5] in
      bindE (push_back grow 6 v0) (\<lambda>v1.
      bindE (insert_at grow 2 10 v1) (\<lambda>v2.
      bindE (pop_back v2) (\<lambda>v3.
      bindE (erase_at 1 v3) (\<lambda>v4.
      Inr (map elems [v0, v1, v2, v3, v4], length (elems v4), capacity v4, hd (elems v4), last (elems v4)))))))"

lemma vector_operations:
  assumes "vector_ok v" "\<And>cap n. n \<le> grow cap n"
  shows "push_back grow x v = Inr w \<Longrightarrow> vector_ok w" "insert_at grow i x v = Inr w \<Longrightarrow> vector_ok w"
    "pop_back v = Inr w \<Longrightarrow> vector_ok w" "erase_at i v = Inr w \<Longrightarrow> vector_ok w"
    "insert_at grow (length (elems v)) x v = push_back grow x v"
    "insert_at grow i x v = Inr w \<Longrightarrow> bindE (erase_at i w) (\<lambda>u. Inr (elems u)) = Inr (elems v)"
    "bindE (push_back grow x v) pop_back = Inr w \<Longrightarrow> elems w = elems v"
  using assms(1) assms(2) [of "Suc (length (elems v))" "capacity v"]
  by (auto simp: vector_ok_def push_back_def insert_at_def pop_back_def erase_at_def room_for_def split: if_splits)

lemma vector_main_prints:
  "vector_main grow =
     Inr ([[1, 2, 3, 4, 5], [1, 2, 3, 4, 5, 6], [1, 2, 10, 3, 4, 5, 6], [1, 2, 10, 3, 4, 5], [1, 10, 3, 4, 5]],
       5, room_for grow (room_for grow 5 6) 7, 1, 5)"
  by (simp add: vector_main_def vector_of_def push_back_def insert_at_def pop_back_def erase_at_def Let_def numeral_eq_Suc)

subsection \<open>Perfect forwarding\<close>

text \<open>
  An argument is an lvalue or an rvalue. The parameter \<open>T &&t\<close> of a template takes both: \<open>T\<close> is a reference for an lvalue. Inside, \<open>t\<close> is a name
  and so an lvalue; \<open>forward\<close> gives back an lvalue exactly if \<open>T\<close> is a reference.
\<close>

datatype category = Lvalue | Rvalue

datatype deduced = Plain | Reference

definition deduce :: "category \<Rightarrow> deduced" where
  "deduce c = (if c = Lvalue then Reference else Plain)"

definition cpp_move :: "category \<Rightarrow> category" where
  "cpp_move c = Rvalue"

definition cpp_forward :: "deduced \<Rightarrow> category" where
  "cpp_forward T = (if T = Reference then Lvalue else Rvalue)"

text \<open>
  The overload \<open>Print(T &t)\<close> takes lvalues only, \<open>Print(T &&t)\<close> everything; for an lvalue both are viable, and the first is
  more specialised.
\<close>

definition Print :: "category \<Rightarrow> char" where
  "Print c = (if c = Lvalue then CHR ''L'' else CHR ''R'')"

definition func :: "category \<Rightarrow> char list" where
  "func c = (let T = deduce c; t = Lvalue in [Print t, Print (cpp_move t), Print (cpp_forward T)])"

definition forward_main :: "char list list" where
  "forward_main = [func Rvalue, func Lvalue, func (cpp_forward Plain), func (cpp_forward Reference)]"

lemma forwarding: "cpp_forward (deduce c) = c" "func c = ''LR'' @ [Print c]"
  by (cases c; simp add: cpp_forward_def deduce_def func_def cpp_move_def Print_def Let_def)+

lemma forward_main_prints: "forward_main = [''LRR'', ''LRL'', ''LRR'', ''LRL'']"
  by (simp add: forward_main_def forwarding cpp_forward_def) (simp add: Print_def)

subsection \<open>Binding arguments\<close>

text \<open>A bound argument is a value or the number of a placeholder. A call with too few arguments does not compile (\<open>None\<close>), further ones are ignored.\<close>

datatype 'a bound = Fixed 'a | Placeholder nat

fun bound_value :: "'a list \<Rightarrow> 'a bound \<Rightarrow> 'a option" where
  "bound_value call (Fixed x) = Some x"
| "bound_value call (Placeholder i) = (if 0 < i \<and> i \<le> length call then Some (call ! (i - 1)) else None)"

definition bind_call :: "'a bound list \<Rightarrow> 'a list \<Rightarrow> 'a list option" where
  "bind_call args call = those (map (bound_value call) args)"

definition placeholders_main :: "int list option list" where
  "placeholders_main =
     [bind_call [Placeholder 2, Placeholder 1, Placeholder 3, Placeholder 4] [10, 20, 30, 40],
      bind_call [Fixed 100, Placeholder 1, Placeholder 2, Fixed 200] [10, 20]]"

definition multiplyAndAdd :: "int \<Rightarrow> int \<Rightarrow> int \<Rightarrow> int" where
  "multiplyAndAdd a b c = a * b + c"

text \<open>\<open>multiply\<close> works on \<open>double\<close>s, of which only products of small integers occur.\<close>

definition multiply :: "int \<Rightarrow> int \<Rightarrow> int" where
  "multiply x y = x * y"

definition bind_main :: "int option \<times> int option \<times> int list option" where
  "bind_main =
     (map_option (\<lambda>v. multiply (v ! 0) (v ! 1)) (bind_call [Placeholder 1, Fixed 2] [4]),
      map_option (\<lambda>v. multiplyAndAdd (v ! 0) (v ! 1) (v ! 2)) (bind_call [Placeholder 2, Placeholder 1, Placeholder 3] [3, 2, 1]),
      bind_call [Fixed 42, Placeholder 1, Fixed 0] [10])"

lemma those_map_Some: "(\<And>x. x \<in> set xs \<Longrightarrow> f x = Some (g x)) \<Longrightarrow> those (map f xs) = Some (map g xs)"
  by (induction xs) auto

lemma bind_identity: "bind_call (map (\<lambda>i. Placeholder (Suc i)) [0..<length call]) call = Some call"
proof -
  have "those (map (bound_value call \<circ> (\<lambda>i. Placeholder (Suc i))) [0..<length call]) = Some (map ((!) call) [0..<length call])"
    by (rule those_map_Some) auto
  then show ?thesis by (simp add: bind_call_def map_nth)
qed

lemma bind_mains_print:
  "placeholders_main = [Some [20, 10, 30, 40], Some [100, 10, 20, 200]]" "bind_main = (Some 8, Some 7, Some [42, 10, 0])"
  by (simp_all add: placeholders_main_def bind_main_def bind_call_def multiply_def multiplyAndAdd_def)

text \<open>\<^verbatim>\<open>function_example.cpp\<close>: a function, a member function with its object, and a lambda expression, called through a \<open>function\<close>.\<close>

definition normalFunc :: "int \<Rightarrow> int \<Rightarrow> int" where
  "normalFunc a b = a + b"

definition memberFunc :: "string \<Rightarrow> int \<Rightarrow> int \<Rightarrow> int" where
  "memberFunc name a b = a * b"

definition function_main :: "int list" where
  "function_main = (let calc = ''calc'' in [normalFunc 5 3, memberFunc calc 5 3, (\<lambda>a b. a - b) 5 3])"

lemma function_main_prints: "function_main = [8, 15, 2]"
  by (simp add: function_main_def normalFunc_def memberFunc_def)

subsection \<open>Captures and references\<close>

text \<open>A lambda expression keeps its own copy of what it captures by value; what it captures by reference is the variable itself.\<close>

datatype var = Var_x | Var_y | Var_a

type_synonym store = "var \<Rightarrow> int"

text \<open>The body of \<open>lambda\<close>, with the copy of \<open>x\<close>: it prints both and increments \<open>y\<close>. That of \<open>modify\<close> changes and prints its own copy.\<close>

definition call_lambda :: "int \<Rightarrow> store \<Rightarrow> int list \<times> store" where
  "call_lambda x s = ([x, s Var_y], s(Var_y := s Var_y + 1))"

definition call_modify :: "int \<Rightarrow> int list \<times> int" where
  "call_modify x = ([x + 1], x + 1)"

definition lambda_main :: "int list" where
  "lambda_main =
     (let s = (\<lambda>_. 0)(Var_x := 10, Var_y := 20); captured = s Var_x; (out, s') = call_lambda captured s
      in out @ [s' Var_y])"

lemma capture_by_value: "fst (call_lambda x (s(Var_x := v))) = fst (call_lambda x s)" "snd (call_lambda x s) Var_x = s Var_x"
  by (simp_all add: call_lambda_def)

lemma lambda_main_prints: "lambda_main = [10, 20, 21]"
  by (simp add: lambda_main_def call_lambda_def)

text \<open>\<^verbatim>\<open>LRReference/ex.cpp\<close>: both references, the one to an rvalue too, name \<open>a\<close>; \<open>move\<close> moves nothing.\<close>

definition references_main :: "int list \<times> var list" where
  "references_main =
     (let s = (\<lambda>_. 0)(Var_a := 5); ref_a_left = Var_a; ref_a_right = Var_a; s' = s(ref_a_right := 6)
      in ([s' Var_a, s' ref_a_left, s' ref_a_right], [Var_a, ref_a_left, ref_a_right]))"

lemma references_main_prints: "references_main = ([6, 6, 6], [Var_a, Var_a, Var_a])"
  by (simp add: references_main_def)

end
