(* ===== verification/Spec2Isabelle.thy ===== *)
theory Spec2Isabelle
  imports Mempool_Programs Msgqueue_Program Spinlock_Variants Spinlock_Weak Thrdpool_Program Server_Setup Multi_IO
    Multi_IO_Select Skiplist_Conc Mpsc_Weak Mpsc_Intrusive Queue_Programs Pc_Queue Cpp_Threadpool_Program Load_Client
    Thread_Wrapper Cv_Pipeline Counters Futures Guards Smart_Pointers Copying
    Language_Examples
begin

text \<open>
  A verification library of the C and C++ sources of this repository.

  \<^bold>\<open>The program.\<close> The repository collects the building blocks of a network server: memory pools
  (\<^verbatim>\<open>src/3_pool/3.1.2-mempool-main\<close>), queues between threads (\<^verbatim>\<open>src/3_pool/queue_design-master\<close>), a
  thread pool on a task queue and a spin lock (\<^verbatim>\<open>src/3_pool/thread_pool-master\<close>), a concurrent skip
  list (\<^verbatim>\<open>src/3_pool/atomic_and_lock-master\<close>), epoll servers and a client that loads them
  (\<^verbatim>\<open>src/2_Net/2.1-epoll\<close>), and a thread pool in C++ (\<^verbatim>\<open>src/1_CPBase/threadPool\<close>). The thread pool
  calls the task queue, and that the spin lock; the servers call only the system.

  \<^bold>\<open>How code is modelled.\<close> \<open>Prelude\<close> has the faults of C and the results that may be one
  (\<open>fault + 'a\<close>, sequenced by \<open>bindE\<close>): a null or dangling access, an index out of bounds, a failed
  \<open>assert\<close>, a division by zero, the use of what was never set, and waiting for ever. That a
  function returns \<open>Inr\<close> is a theorem about it. \<open>Memory\<close> is a memory of bytes with the live blocks of
  the allocator; pointers of eight bytes are read and written through \<open>rd64\<close> and \<open>wr64\<close>, which are
  faults outside the live blocks. \<open>Loops\<close> has \<open>run_loop\<close>, the loop with no bound in sight: \<open>None\<close> is the loop that
  does not end, so that each theorem \<open>\<dots> = Some \<dots>\<close> contains termination; no model uses fuel. Machine integers are \<open>word\<close>s where the
  code counts on or suffers from wrap-around (message counts, atomic counters, random numbers,
  addresses) and \<open>int\<close>s with range conditions elsewhere. What a system call, \<open>malloc\<close>, \<open>new\<close>, a random
  generator or a comparator answers is an argument of the definition that calls it.

  Programs with threads are step relations on a record of the shared state and of where each thread
  is; a step is the code between two synchronisation points, or one access to a shared variable where
  there is no lock. Every interleaving is a run of the relation, with any number of threads and with spurious wakeups.
  These models take memory to be sequentially consistent. That they may is proved where the sources spell out memory orders:
  \<open>Spinlock_Weak\<close> and \<open>Mpsc_Weak\<close> run the spin lock and the nonintrusive queue with the orders they ask for and prove that each
  run is one of the sequentially consistent model, and that weaker orders would not do; \<open>Memory_Orders\<close> has the memory of C++11 and what the programs that
  demonstrate it can print. For the skip list and the intrusive queue the orders are not examined.

  \<^bold>\<open>Interfaces.\<close> \<open>Interfaces\<close> states the contract of a memory pool (\<open>region_allocator\<close>, extended by
  \<open>block_allocator\<close>) and of a queue (\<open>fifo_queue\<close>), \<open>Sockets\<close> that of an event loop (\<open>event_loop\<close>), \<open>Spinlock\<close> that
  of a lock (\<open>try_lock\<close>), \<open>Skiplist_Search\<close> that of an order given by a C comparator (\<open>key_order\<close>). Their
  clients' lemmas are proved once, and each is interpreted on the models: the two pools; the message queue, the task queue, the
  intrusive queue and the locked queue; the servers, among them the one on \<open>select\<close>, the load generator and the clients of a thread wrapper, of smart pointers and of a string class; the spin lock and its variant
  on the compiler's builtins; \<open>IntComparator\<close>.

  \<^bold>\<open>Memory pools.\<close> \<open>Mempool_Fixed\<close> is \<^verbatim>\<open>mempool-v1.c\<close>: equal blocks of a page, linked through their
  first eight bytes; \<open>mempool_t\<close> is \<open>struct mempool_s\<close>. Allocation and release keep the free list and the outstanding blocks
  apart for every sequence of calls; \<open>mp_init\<close> writes behind its page for the block size \<open>main\<close> asks
  for, which is proved too. \<open>Mempool_Paged\<close> is \<^verbatim>\<open>mempool.c\<close>: pages with a bump pointer,
  searched first fit; oversized requests and the inverted loop of \<open>mp_dest\<close> are described as they are.
  \<open>Mempool_Programs\<close> has the programs at the ends of both files.

  \<^bold>\<open>Queues.\<close> \<open>Msgqueue\<close> holds the functions of \<^verbatim>\<open>msgqueue.c\<close> on linked messages in memory (refinement of a list),
  \<open>Msgqueue_Conc\<close> its threads at the two mutexes and the two condition variables (order, mutual
  exclusion, no lost wakeup, the bound of \<open>2 * maxlen\<close> messages). \<open>Mpsc\<close> is the nonintrusive queue of
  \<^verbatim>\<open>MPSCQueue.h\<close> and holds the lemmas on lists of which some links are still to be stored; \<open>Mpsc_Intrusive\<close>
  is the intrusive one, with its dummy. \<open>Locked_Queue\<close> is \<^verbatim>\<open>LockedQueue.h\<close>, with the owner of its mutex;
  \<open>Pc_Queue\<close> is \<^verbatim>\<open>ProducerConsumerQueue.h\<close>, with the threads asleep in \<open>WaitAndPop\<close>. The programs on these queues are in
  \<open>Msgqueue_Program\<close> (\<^verbatim>\<open>main_msgqueue.cpp\<close>, which never ends) and \<open>Queue_Programs\<close> (\<^verbatim>\<open>main_lockedqueue.cpp\<close> and
  \<^verbatim>\<open>main_mpscqueue.cpp\<close>, which always do); \<open>Interleaving\<close> is what they share.

  \<^bold>\<open>Thread pools.\<close> \<open>Spinlock\<close> has the three variants of \<^verbatim>\<open>spinlock.h\<close> and the operations of \<^verbatim>\<open>atomic.h\<close>;
  \<open>Taskqueue\<close> the functions of \<^verbatim>\<open>thrd_pool.c\<close> on its task queue (a linked list with a pointer to
  its last link), \<open>Thrdpool\<close> creation and destruction with every failing call, \<open>Thrdpool_Conc\<close> the
  workers, posters and terminators: tasks are run at most once and in order, none is leaked, none is left behind by the
  shutdown, and the wakeup that \<open>__add_task\<close> can lose, with the run that loses it. \<open>Cpp_Threadpool\<close> is
  \<^verbatim>\<open>tp.cpp\<close>, which loses none, and whose destructor ends in a bounded number of steps
  (\<open>work_left\<close>) with every accepted task started. \<open>Spinlock_Variants\<close> has the functions of the second and third variant of the lock one by
  one, and \<open>Thrdpool_Program\<close> the program \<^verbatim>\<open>thread_pool-master/main.c\<close>: 1000 to 1007 tasks are done when it ends.
  \<open>Cpp_Threadpool_Program\<close> is the program at the end of \<^verbatim>\<open>tp.cpp\<close>, with futures, which always ends (\<open>run_left\<close>).

  \<^bold>\<open>Skip list.\<close> \<open>Skiplist\<close> has all of \<^verbatim>\<open>skiplist.h\<close>, assertions included: nodes are a map from addresses
  to a key and a list of links. \<open>Skiplist_Search\<close> proves that the searches return what a search of the
  sorted list of nodes does, \<open>Skiplist_Insert\<close> that \<open>Insert\<close>, with or without its fast path, keeps the
  invariant, \<open>Skiplist_Ops\<close> what its client sees, and \<open>Skiplist_Conc\<close> that readers without a lock see the keys
  published at some moment of their search while a writer links a node level by level.

  \<^bold>\<open>Servers.\<close> \<open>Sockets\<close> has the descriptors, the interest list and the logs of bytes per connection; \<open>Reactor\<close> is
  \<^verbatim>\<open>reactor.c\<close>, \<open>Webserver\<close> is \<^verbatim>\<open>webserver.c\<close>, \<open>Multi_IO\<close> the compiled branch of \<^verbatim>\<open>multi-io.c\<close> with the readiness of
  edge-triggered descriptors, \<open>Load_Client\<close> the loop of \<^verbatim>\<open>mul_port_client_epoll.c\<close>. \<open>Multi_IO_Schemes\<close> and \<open>Multi_IO_Select\<close> are
  the branches of \<^verbatim>\<open>multi-io.c\<close> that the preprocessor leaves out: one client at a time, a thread for each, \<open>select\<close> and \<open>poll\<close>.
  \<open>Server_Setup\<close> opens the sockets of the reactor and of the web server. The invariants hold for
  the calls that succeed; what happens when \<open>recv\<close> fails, \<open>send\<close> is short or \<open>accept\<close> answers a large descriptor is proved separately.

  \<^bold>\<open>Properties.\<close> A property is introduced by its id (C and a number); a theorem of the same name with
  \<open>_witness\<close> applies it to a concrete input or run. The lemmas between a component's definitions and its properties are its
  invariant (named \<open>\<dots>_inv\<close> or \<open>\<dots>_ok\<close>), one preservation lemma for each operation or step, and the
  evaluation of each operation under the invariant.

  \<^bold>\<open>Small programs.\<close> \<open>Autoinc\<close> is the counter of \<^verbatim>\<open>autoinc.cc\<close>, proved once over the contract of a lock and
  so for each variant of the spin lock, and \<open>Counters\<close> those of \<^verbatim>\<open>mutex.cpp\<close> and \<^verbatim>\<open>atomic_demo.cpp\<close>. Of \<^verbatim>\<open>1_CPBase/thread\<close> come also
  \<open>Thread_Wrapper\<close> (\<^verbatim>\<open>ThreadWrapper.hpp\<close>), \<open>Cv_Pipeline\<close> (\<^verbatim>\<open>condition_variable.cpp\<close>, whose threads both end), \<open>Futures\<close>
  (\<^verbatim>\<open>promise.cpp\<close>, \<^verbatim>\<open>future.cpp\<close>, \<^verbatim>\<open>packaged_task.cpp\<close>) and \<open>Guards\<close> (\<^verbatim>\<open>lock_guard_vs_unique_lock.cpp\<close>). \<open>Memory_Orders\<close> has
  \<^verbatim>\<open>relaxed.cc\<close>, \<^verbatim>\<open>acquire_release.cc\<close>, \<^verbatim>\<open>seq_cst.cc\<close> and \<^verbatim>\<open>relaxed_test.cc\<close>, \<open>Smart_Pointers\<close> the programs of
  \<^verbatim>\<open>1_CPBase/SmartPointer\<close>, \<open>Copying\<close> those of \<^verbatim>\<open>1_CPBase/copy\<close> and \<open>Language_Examples\<close> the straight-line ones.

  \<^bold>\<open>Not modelled.\<close> The test programs, but for the comparator, the dump and the threads of \<^verbatim>\<open>test_skiplist.cc\<close>; \<^verbatim>\<open>threadPool/exec.cpp\<close>, which is a member function without its class, and the examples of the
  build system. The wording of what is printed, sleeping, and system calls whose result the code ignores are left out everywhere.
  The generator of random numbers of the skip list is an argument, and so is what the system answers.
\<close>

end
